(* ===== verification/Prelude.thy ===== *)
theory Prelude
  imports Main "HOL-Library.Word"
begin

text \<open>
  Shared vocabulary of the development: the outcome type of kernel routines and its
  sequencing operator, the bounded \<open>for\<close> loop, C integers, and byte blocks with their
  little-endian accessors.
\<close>

named_theorems res_simps \<open>rewriting with the outcome type\<close>
named_theorems consts_defs \<open>the numeric constants of param.h, fs.h and mmu.h\<close>

section \<open>Outcomes of kernel routines\<close>

text \<open>
  A kernel routine either returns, stops the machine in \<open>panic\<close> (console.c), goes to
  sleep on a channel until some other process acts (\<open>sleep\<close>, proc.c), or does something
  C gives no meaning to (a null dereference, an array overrun).  Every such exit is a
  constructor, so no branch of the source is lost.
\<close>

datatype 'a res =
    Ok 'a
  | Panic string
  | Asleep string
  | Fault string

fun rbind :: "'a res \<Rightarrow> ('a \<Rightarrow> 'b res) \<Rightarrow> 'b res" where
  "rbind (Ok x) f = f x"
| "rbind (Panic m) f = Panic m"
| "rbind (Asleep c) f = Asleep c"
| "rbind (Fault m) f = Fault m"

lemma rbind_cong [fundef_cong]:
  assumes "m = m'" and "\<And>x. m' = Ok x \<Longrightarrow> f x = g x"
  shows "rbind m f = rbind m' g"
  using assms by (cases m') auto

lemma rbind_eq_Ok [res_simps]:
  "rbind m f = Ok y \<longleftrightarrow> (\<exists>x. m = Ok x \<and> f x = Ok y)"
  by (cases m) auto

lemma rbind_assoc [res_simps]:
  "rbind (rbind m f) g = rbind m (\<lambda>x. rbind (f x) g)"
  by (cases m) auto

lemma rbind_Ok_right [simp]: "rbind m Ok = m"
  by (cases m) auto

lemma rbind_OkE [elim]:
  assumes "rbind m f = Ok y"
  obtains x where "m = Ok x" and "f x = Ok y"
  using assms by (cases m) auto

lemma Ok_if_distrib [res_simps]:
  "(if b then Ok x else Panic m) = Ok y \<longleftrightarrow> b \<and> x = y"
  "(if b then Panic m else Ok x) = Ok y \<longleftrightarrow> \<not> b \<and> x = y"
  "(if b then Panic m else r) = Ok y \<longleftrightarrow> \<not> b \<and> r = Ok y"
  "(if b then Fault m else r) = Ok y \<longleftrightarrow> \<not> b \<and> r = Ok y"
  "(if b then Asleep m else r) = Ok y \<longleftrightarrow> \<not> b \<and> r = Ok y"
  by auto

text \<open>The C loop \<open>for (x in xs) f(x)\<close>, stopped by the first outcome that is not a return.\<close>

fun rfold :: "('a \<Rightarrow> 's \<Rightarrow> 's res) \<Rightarrow> 'a list \<Rightarrow> 's \<Rightarrow> 's res" where
  "rfold f [] s = Ok s"
| "rfold f (x # xs) s = rbind (f x s) (rfold f xs)"

lemma rfold_append: "rfold f (xs @ ys) s = rbind (rfold f xs s) (rfold f ys)"
proof (induction xs arbitrary: s)
  case (Cons x xs)
  then show ?case by (cases "f x s") auto
qed simp

text \<open>Partial correctness: a property every iteration keeps holds after the loop.\<close>

lemma rfold_invariant:
  assumes "rfold f xs s = Ok s'" and "P s"
    and "\<And>x s s'. x \<in> set xs \<Longrightarrow> P s \<Longrightarrow> f x s = Ok s' \<Longrightarrow> P s'"
  shows "P s'"
  using assms
proof (induction xs arbitrary: s)
  case Nil
  then show ?case by simp
next
  case (Cons x xs)
  then obtain t where "f x s = Ok t" and "rfold f xs t = Ok s'"
    by (auto simp: res_simps)
  moreover from this Cons.prems have "P t" by auto
  ultimately show ?case using Cons.prems(3) by (intro Cons.IH) auto
qed

text \<open>Total correctness over an index range: the loop returns and the invariant holds at its end.\<close>

lemma rfold_upt_total:
  assumes "P 0 s"
    and "\<And>i s. i < n \<Longrightarrow> P i s \<Longrightarrow> \<exists>s'. f i s = Ok s' \<and> P (Suc i) s'"
  shows "\<exists>s'. rfold f [0..<n] s = Ok s' \<and> P n s'"
  using assms(2)
proof (induction n)
  case 0
  then show ?case using assms(1) by simp
next
  case (Suc n)
  then obtain t where t: "rfold f [0..<n] s = Ok t" "P n t" by auto
  with Suc.prems obtain u where "f n t = Ok u" "P (Suc n) u" by blast
  with t show ?case by (auto simp: rfold_append)
qed

section \<open>Bytes, blocks and little-endian fields\<close>

type_synonym byte = "8 word"
type_synonym uint = "32 word"

text \<open>
  A \<open>uchar data[BSIZE]\<close> array is a function from the byte index.  The code indexes it
  below \<open>BSIZE\<close> only; values at other indices are never read.
\<close>

type_synonym block = "nat \<Rightarrow> byte"

definition BSIZE :: nat where [consts_defs]: "BSIZE = 512"

definition zero_block :: block where "zero_block = (\<lambda>_. 0)"

text \<open>Reading and writing the 16-bit and 32-bit fields of a struct overlaid on a block.\<close>

definition get16 :: "block \<Rightarrow> nat \<Rightarrow> nat" where
  "get16 d o' = unat (d o') + 256 * unat (d (o' + 1))"

definition get32 :: "block \<Rightarrow> nat \<Rightarrow> nat" where
  "get32 d o' = unat (d o') + 256 * unat (d (o' + 1)) + 65536 * unat (d (o' + 2))
     + 16777216 * unat (d (o' + 3))"

definition put16 :: "nat \<Rightarrow> nat \<Rightarrow> block \<Rightarrow> block" where
  "put16 o' v d = d(o' := word_of_nat v, o' + 1 := word_of_nat (v div 256))"

definition put32 :: "nat \<Rightarrow> nat \<Rightarrow> block \<Rightarrow> block" where
  "put32 o' v d = d(o' := word_of_nat v, o' + 1 := word_of_nat (v div 256),
     o' + 2 := word_of_nat (v div 65536), o' + 3 := word_of_nat (v div 16777216))"

lemma unat_byte_of_nat [simp]: "unat (word_of_nat v :: byte) = v mod 256"
  by (simp add: unat_of_nat)

lemma unat_byte_less: "unat (b :: byte) < 256"
  using unsigned_less[of b, where 'a = nat] by simp

lemma get16_put16 [simp]: "get16 (put16 o' v d) o' = v mod 65536"
  using mod_mult2_eq[of v 256 256] by (simp add: get16_def put16_def)

lemma get32_put32 [simp]: "get32 (put32 o' v d) o' = v mod 4294967296"
proof -
  have "v mod 4294967296 = 16777216 * (v div 16777216 mod 256) + v mod 16777216"
    using mod_mult2_eq[of v 16777216 256] by simp
  also have "v mod 16777216 = 65536 * (v div 65536 mod 256) + v mod 65536"
    using mod_mult2_eq[of v 65536 256] by simp
  also have "v mod 65536 = 256 * (v div 256 mod 256) + v mod 256"
    using mod_mult2_eq[of v 256 256] by simp
  finally have "v mod 4294967296 = v mod 256 + 256 * (v div 256 mod 256)
      + 65536 * (v div 65536 mod 256) + 16777216 * (v div 16777216 mod 256)"
    by (simp only: ac_simps)
  moreover have "put32 o' v d o' = word_of_nat v" "put32 o' v d (o' + 1) = word_of_nat (v div 256)"
    "put32 o' v d (o' + 2) = word_of_nat (v div 65536)"
    "put32 o' v d (o' + 3) = word_of_nat (v div 16777216)"
    by (simp_all add: put32_def)
  ultimately show ?thesis by (simp only: get32_def unat_byte_of_nat)
qed

lemma unat_byte_le: "unat (b :: byte) \<le> 255"
  using unat_byte_less[of b] by linarith

lemma get16_less: "get16 d o' < 65536"
  using unat_byte_le[of "d o'"] unat_byte_le[of "d (o' + 1)"] unfolding get16_def by linarith

lemma get32_less: "get32 d o' < 4294967296"
  using unat_byte_le[of "d o'"] unat_byte_le[of "d (o' + 1)"]
    unat_byte_le[of "d (o' + 2)"] unat_byte_le[of "d (o' + 3)"]
  unfolding get32_def by linarith

text \<open>Fields at disjoint offsets do not interfere.\<close>

lemma put32_apply_other: "i < o' \<or> o' + 4 \<le> i \<Longrightarrow> put32 o' v d i = d i"
  by (auto simp: put32_def)

lemma put16_apply_other: "i < o' \<or> o' + 2 \<le> i \<Longrightarrow> put16 o' v d i = d i"
  by (auto simp: put16_def)

lemma get32_put32_other:
  "o' + 4 \<le> p \<or> p + 4 \<le> o' \<Longrightarrow> get32 (put32 o' v d) p = get32 d p"
  unfolding get32_def by (elim disjE) (simp_all add: put32_apply_other)

lemma get32_put16_other:
  "o' + 2 \<le> p \<or> p + 4 \<le> o' \<Longrightarrow> get32 (put16 o' v d) p = get32 d p"
  unfolding get32_def by (elim disjE) (simp_all add: put16_apply_other)

lemma get16_put32_other:
  "o' + 4 \<le> p \<or> p + 2 \<le> o' \<Longrightarrow> get16 (put32 o' v d) p = get16 d p"
  unfolding get16_def by (elim disjE) (simp_all add: put32_apply_other)

lemma get16_put16_other:
  "o' + 2 \<le> p \<or> p + 2 \<le> o' \<Longrightarrow> get16 (put16 o' v d) p = get16 d p"
  unfolding get16_def by (elim disjE) (simp_all add: put16_apply_other)

lemma get_zero_block [simp]: "get32 zero_block o' = 0" "get16 zero_block o' = 0"
  by (simp_all add: get32_def get16_def zero_block_def)

section \<open>Lists\<close>

lemma find_Some_in_set: "find P xs = Some x \<Longrightarrow> x \<in> set xs \<and> P x"
  by (auto simp: find_Some_iff)

lemma find_NoneD: "find P xs = None \<Longrightarrow> x \<in> set xs \<Longrightarrow> \<not> P x"
  by (auto simp: find_None_iff)

text \<open>With a predicate that at most one element satisfies, \<open>find\<close> does not depend on the order.\<close>

lemma find_unique:
  assumes "x \<in> set xs" and "P x" and "\<And>y. y \<in> set xs \<Longrightarrow> P y \<Longrightarrow> y = x"
  shows "find P xs = Some x"
proof (cases "find P xs")
  case None
  then show ?thesis using assms(1,2) by (auto simp: find_None_iff)
next
  case (Some y)
  then have "y = x" using assms(3) by (blast dest: find_Some_in_set)
  with Some show ?thesis by simp
qed

end
