(* ===== verification/Bio.thy ===== *)
theory Bio
  imports Prelude
begin

text \<open>
  Sleep locks (sleeplock.c), the memory disk (memide.c) and the buffer cache (bio.c), as
  executed by the process \<open>curpid\<close>.  A buffer's \<open>flags\<close> word is its two bits
  \<open>B_VALID\<close> and \<open>B_DIRTY\<close>; the circular list threaded through
  \<open>bcache.head\<close> is the list of buffer indices in the order of its \<open>next\<close> pointers
  (most recently used first).  The field \<open>wlog\<close> is not in the source: it records the
  disk writes in the order the device performs them, so that a crash can be placed between
  any two of them.
\<close>

section \<open>Sleep locks\<close>

record sleeplock =
  sl_locked :: bool
  sl_pid :: int

definition initsleeplock :: sleeplock where
  "initsleeplock = \<lparr>sl_locked = False, sl_pid = 0\<rparr>"

text \<open>
  \<open>acquiresleep\<close> loops on \<open>sleep\<close> while the lock is taken: the caller is then asleep
  until the holder releases it.
\<close>

definition acquiresleep :: "int \<Rightarrow> sleeplock \<Rightarrow> sleeplock res" where
  "acquiresleep pid lk =
     (if sl_locked lk then Asleep ''sleep lock''
      else Ok (lk\<lparr>sl_locked := True, sl_pid := pid\<rparr>))"

definition releasesleep :: "sleeplock \<Rightarrow> sleeplock" where
  "releasesleep lk = lk\<lparr>sl_locked := False, sl_pid := 0\<rparr>"

definition holdingsleep :: "int \<Rightarrow> sleeplock \<Rightarrow> bool" where
  "holdingsleep pid lk \<longleftrightarrow> sl_locked lk \<and> sl_pid lk = pid"

section \<open>State\<close>

definition NBUF :: nat where [consts_defs]: "NBUF = 30"

definition ROOTDEV :: nat where [consts_defs]: "ROOTDEV = 1"

record buf =
  b_valid :: bool
  b_dirty :: bool
  b_dev :: nat
  b_blockno :: nat
  b_lock :: sleeplock
  b_refcnt :: uint
  b_data :: block

record bio_state =
  bufs :: "nat \<Rightarrow> buf"
  lru :: "nat list"
  disk :: "nat \<Rightarrow> block"
  disksize :: nat
  wlog :: "(nat \<times> block) list"
  curpid :: int

definition upd_buf :: "nat \<Rightarrow> (buf \<Rightarrow> buf) \<Rightarrow> 'a bio_state_scheme \<Rightarrow> 'a bio_state_scheme" where
  "upd_buf i f s = s\<lparr>bufs := (bufs s)(i := f (bufs s i))\<rparr>"

text \<open>The assignment of a caller that holds the buffer to its \<open>data\<close> array.\<close>

definition set_data :: "nat \<Rightarrow> block \<Rightarrow> 'a bio_state_scheme \<Rightarrow> 'a bio_state_scheme" where
  "set_data i d s = upd_buf i (\<lambda>b. b\<lparr>b_data := d\<rparr>) s"

section \<open>The disk\<close>

definition iderw :: "nat \<Rightarrow> 'a bio_state_scheme \<Rightarrow> 'a bio_state_scheme res" where
  "iderw i s =
     (let b = bufs s i in
      if \<not> holdingsleep (curpid s) (b_lock b) then Panic ''iderw: buf not locked''
      else if b_valid b \<and> \<not> b_dirty b then Panic ''iderw: nothing to do''
      else if b_dev b \<noteq> 1 then Panic ''iderw: request not for disk 1''
      else if disksize s \<le> b_blockno b then Panic ''iderw: block out of range''
      else if b_dirty b then
        Ok (s\<lparr>bufs := (bufs s)(i := b\<lparr>b_dirty := False, b_valid := True\<rparr>),
              disk := (disk s)(b_blockno b := b_data b),
              wlog := wlog s @ [(b_blockno b, b_data b)]\<rparr>)
      else
        Ok (s\<lparr>bufs := (bufs s)(i := b\<lparr>b_data := disk s (b_blockno b), b_valid := True\<rparr>)\<rparr>))"

section \<open>The buffer cache\<close>

text \<open>
  \<open>binit\<close> inserts the buffers at the head one after the other, so the last is the most
  recently used.  The kernel's data segment starts zeroed.
\<close>

definition zero_buf :: buf where
  "zero_buf = \<lparr>b_valid = False, b_dirty = False, b_dev = 0, b_blockno = 0,
     b_lock = initsleeplock, b_refcnt = 0, b_data = zero_block\<rparr>"

definition binit :: "'a bio_state_scheme \<Rightarrow> 'a bio_state_scheme" where
  "binit s = s\<lparr>bufs := (\<lambda>_. zero_buf), lru := foldl (\<lambda>l b. b # l) [] [0..<NBUF]\<rparr>"

definition bget :: "nat \<Rightarrow> nat \<Rightarrow> 'a bio_state_scheme \<Rightarrow> (nat \<times> 'a bio_state_scheme) res" where
  "bget dev bno s =
     (case find (\<lambda>i. b_dev (bufs s i) = dev \<and> b_blockno (bufs s i) = bno) (lru s) of
        Some i \<Rightarrow>
          rbind (acquiresleep (curpid s) (b_lock (bufs s i))) (\<lambda>lk.
          Ok (i, upd_buf i (\<lambda>b. b\<lparr>b_refcnt := b_refcnt b + 1, b_lock := lk\<rparr>) s))
      | None \<Rightarrow>
          (case find (\<lambda>i. b_refcnt (bufs s i) = 0 \<and> \<not> b_dirty (bufs s i)) (rev (lru s)) of
             Some i \<Rightarrow>
               rbind (acquiresleep (curpid s) (b_lock (bufs s i))) (\<lambda>lk.
               Ok (i, upd_buf i (\<lambda>b. b\<lparr>b_dev := dev, b_blockno := bno, b_valid := False,
                                       b_dirty := False, b_refcnt := 1, b_lock := lk\<rparr>) s))
           | None \<Rightarrow> Panic ''bget: no buffers''))"

definition bread :: "nat \<Rightarrow> nat \<Rightarrow> 'a bio_state_scheme \<Rightarrow> (nat \<times> 'a bio_state_scheme) res" where
  "bread dev bno s =
     rbind (bget dev bno s) (\<lambda>(i, s).
     if \<not> b_valid (bufs s i) then rbind (iderw i s) (\<lambda>s. Ok (i, s)) else Ok (i, s))"

definition bwrite :: "nat \<Rightarrow> 'a bio_state_scheme \<Rightarrow> 'a bio_state_scheme res" where
  "bwrite i s =
     (if \<not> holdingsleep (curpid s) (b_lock (bufs s i)) then Panic ''bwrite''
      else iderw i (upd_buf i (\<lambda>b. b\<lparr>b_dirty := True\<rparr>) s))"

definition brelse :: "nat \<Rightarrow> 'a bio_state_scheme \<Rightarrow> 'a bio_state_scheme res" where
  "brelse i s =
     (if \<not> holdingsleep (curpid s) (b_lock (bufs s i)) then Panic ''brelse''
      else
        let s = upd_buf i (\<lambda>b. b\<lparr>b_lock := releasesleep (b_lock b)\<rparr>) s;
            s = upd_buf i (\<lambda>b. b\<lparr>b_refcnt := b_refcnt b - 1\<rparr>) s
        in Ok (if b_refcnt (bufs s i) = 0 then s\<lparr>lru := i # remove1 i (lru s)\<rparr> else s))"

section \<open>Invariant and block view\<close>

text \<open>
  The cache holds at most one buffer per disk block; a clean valid buffer agrees with the
  disk; a dirty buffer is valid; the reference count is one exactly while the buffer is
  locked, and the process holding it is the one running.
\<close>

definition buf_ok :: "'a bio_state_scheme \<Rightarrow> nat \<Rightarrow> bool" where
  "buf_ok s i \<longleftrightarrow>
     (let b = bufs s i in
       (b_valid b \<longrightarrow> b_dev b = ROOTDEV \<and> b_blockno b < disksize s) \<and>
       (b_dirty b \<longrightarrow> b_valid b) \<and>
       (b_valid b \<and> \<not> b_dirty b \<longrightarrow> b_data b = disk s (b_blockno b)) \<and>
       (if sl_locked (b_lock b) then b_refcnt b = 1 \<and> sl_pid (b_lock b) = curpid s \<and> b_valid b
        else b_refcnt b = 0))"

definition one_copy :: "(nat \<Rightarrow> buf) \<Rightarrow> bool" where
  "one_copy B \<longleftrightarrow>
     (\<forall>i<NBUF. \<forall>j<NBUF. b_dev (B i) = b_dev (B j) \<longrightarrow>
        b_blockno (B i) = b_blockno (B j) \<longrightarrow> b_dev (B i) \<noteq> 0 \<longrightarrow> i = j)"

definition bio_inv :: "'a bio_state_scheme \<Rightarrow> bool" where
  "bio_inv s \<longleftrightarrow>
     distinct (lru s) \<and> set (lru s) = {..<NBUF} \<and>
     (\<forall>i<NBUF. buf_ok s i) \<and> one_copy (bufs s)"

text \<open>What a reader of block \<open>bno\<close> sees: the cached copy if there is one, else the disk.\<close>

definition cached :: "'a bio_state_scheme \<Rightarrow> nat \<Rightarrow> nat \<Rightarrow> bool" where
  "cached s bno i \<longleftrightarrow>
     b_valid (bufs s i) \<and> b_dev (bufs s i) = ROOTDEV \<and> b_blockno (bufs s i) = bno"

definition bview :: "'a bio_state_scheme \<Rightarrow> nat \<Rightarrow> block" where
  "bview s bno =
     (case find (cached s bno) (lru s) of
        Some i \<Rightarrow> b_data (bufs s i)
      | None \<Rightarrow> disk s bno)"

text \<open>Block numbers whose buffer is locked by the running process, and those pinned dirty.\<close>

definition held :: "'a bio_state_scheme \<Rightarrow> nat set" where
  "held s = {i. i < NBUF \<and> sl_locked (b_lock (bufs s i))}"

definition held_blocks :: "'a bio_state_scheme \<Rightarrow> nat set" where
  "held_blocks s = (\<lambda>i. b_blockno (bufs s i)) ` held s"

definition dirty_blocks :: "'a bio_state_scheme \<Rightarrow> nat set" where
  "dirty_blocks s = {b_blockno (bufs s i) | i. i < NBUF \<and> b_dirty (bufs s i)}"


section \<open>Reading the view\<close>

lemma bio_inv_lru: "bio_inv s \<Longrightarrow> i \<in> set (lru s) \<longleftrightarrow> i < NBUF"
  by (auto simp: bio_inv_def)

lemma bio_inv_ok: "bio_inv s \<Longrightarrow> i < NBUF \<Longrightarrow> buf_ok s i"
  by (simp add: bio_inv_def)

lemma bio_inv_uniq:
  "bio_inv s \<Longrightarrow> i < NBUF \<Longrightarrow> j < NBUF \<Longrightarrow> b_dev (bufs s i) = b_dev (bufs s j) \<Longrightarrow>
   b_blockno (bufs s i) = b_blockno (bufs s j) \<Longrightarrow> b_dev (bufs s i) \<noteq> 0 \<Longrightarrow> i = j"
  unfolding bio_inv_def one_copy_def by blast

lemma one_copy_upd [simp]:
  assumes "b_dev b = b_dev (B i)" and "b_blockno b = b_blockno (B i)"
  shows "one_copy (B(i := b)) \<longleftrightarrow> one_copy B"
proof -
  have "b_dev ((B(i := b)) j) = b_dev (B j)" "b_blockno ((B(i := b)) j) = b_blockno (B j)" for j
    using assms by auto
  then show ?thesis by (simp only: one_copy_def)
qed

lemma cached_uniq:
  "bio_inv s \<Longrightarrow> i < NBUF \<Longrightarrow> j < NBUF \<Longrightarrow> cached s bno i \<Longrightarrow> cached s bno j \<Longrightarrow> i = j"
  by (auto simp: cached_def ROOTDEV_def intro: bio_inv_uniq)

lemma bview_cached:
  assumes "bio_inv s" and "i < NBUF" and "cached s bno i"
  shows "bview s bno = b_data (bufs s i)"
proof -
  have "find (cached s bno) (lru s) = Some i"
    using assms by (intro find_unique) (auto simp: bio_inv_lru intro: cached_uniq)
  then show ?thesis by (simp add: bview_def)
qed

lemma bview_uncached:
  assumes "bio_inv s" and "\<And>i. i < NBUF \<Longrightarrow> \<not> cached s bno i"
  shows "bview s bno = disk s bno"
proof -
  have "find (cached s bno) (lru s) = None"
    using assms by (auto simp: find_None_iff bio_inv_lru)
  then show ?thesis by (simp add: bview_def)
qed

text \<open>A clean block reads as the disk has it.\<close>

lemma bview_clean:
  assumes "bio_inv s" and "bno \<notin> dirty_blocks s"
  shows "bview s bno = disk s bno"
proof (cases "\<exists>i<NBUF. cached s bno i")
  case True
  then obtain i where i: "i < NBUF" "cached s bno i" by blast
  with assms have "\<not> b_dirty (bufs s i)" by (auto simp: dirty_blocks_def cached_def)
  with i assms(1) show ?thesis
    using bio_inv_ok[OF assms(1) i(1)] by (auto simp: bview_cached buf_ok_def cached_def Let_def)
next
  case False
  with assms show ?thesis by (auto intro: bview_uncached)
qed

text \<open>
  Two states whose caches agree on every cached block, or fall back on equal disks, have
  the same view.
\<close>

lemma bview_eqI:
  assumes "bio_inv s" and "bio_inv s'" and "disk s' = disk s"
    and "\<And>i. i < NBUF \<Longrightarrow> cached s bno i \<Longrightarrow>
           (\<exists>j<NBUF. cached s' bno j \<and> b_data (bufs s' j) = b_data (bufs s i)) \<or>
           b_data (bufs s i) = disk s bno \<and> (\<forall>j<NBUF. \<not> cached s' bno j)"
    and "\<And>j. j < NBUF \<Longrightarrow> cached s' bno j \<Longrightarrow> (\<forall>i<NBUF. \<not> cached s bno i) \<Longrightarrow>
           b_data (bufs s' j) = disk s bno"
  shows "bview s' bno = bview s bno"
proof (cases "\<exists>i<NBUF. cached s bno i")
  case True
  then obtain i where i: "i < NBUF" "cached s bno i" by blast
  show ?thesis
    using assms(4)[OF i] i assms(1-3) by (auto simp: bview_cached bview_uncached)
next
  case False
  then have "bview s bno = disk s bno" using assms(1) by (intro bview_uncached) auto
  moreover have "bview s' bno = disk s bno"
  proof (cases "\<exists>j<NBUF. cached s' bno j")
    case True
    with False assms(2,5) show ?thesis by (auto simp: bview_cached)
  next
    case False
    with assms(2,3) show ?thesis by (auto simp: bview_uncached)
  qed
  ultimately show ?thesis by simp
qed


section \<open>Reading a block\<close>

text \<open>Replacing one buffer keeps the invariant if the new one is well formed and still the only copy.\<close>

lemma bio_inv_upd:
  assumes "bio_inv s" and "i < NBUF"
    and "buf_ok (s\<lparr>bufs := (bufs s)(i := b)\<rparr>) i"
    and "\<And>j. j < NBUF \<Longrightarrow> j \<noteq> i \<Longrightarrow> b_dev (bufs s j) = b_dev b \<Longrightarrow>
           b_blockno (bufs s j) = b_blockno b \<Longrightarrow> b_dev b = 0"
  shows "bio_inv (s\<lparr>bufs := (bufs s)(i := b)\<rparr>)"
proof -
  have "buf_ok (s\<lparr>bufs := (bufs s)(i := b)\<rparr>) j" if "j < NBUF" for j
  proof (cases "j = i")
    case True
    with assms(3) show ?thesis by simp
  next
    case False
    with bio_inv_ok[OF assms(1) that] show ?thesis by (simp add: buf_ok_def Let_def)
  qed
  moreover have "distinct (lru s)" "set (lru s) = {..<NBUF}"
    using assms(1) by (auto simp: bio_inv_def)
  moreover have "one_copy ((bufs s)(i := b))"
    unfolding one_copy_def
  proof (intro allI impI)
    fix j k assume "j < NBUF" "k < NBUF" "b_dev (((bufs s)(i := b)) j) = b_dev (((bufs s)(i := b)) k)"
      "b_blockno (((bufs s)(i := b)) j) = b_blockno (((bufs s)(i := b)) k)"
      "b_dev (((bufs s)(i := b)) j) \<noteq> 0"
    then show "j = k"
      using assms(4)[of j] assms(4)[of k] bio_inv_uniq[OF assms(1), of j k]
      by (cases "j = i"; cases "k = i") auto
  qed
  ultimately show ?thesis by (simp add: bio_inv_def)
qed

text \<open>The buffer \<open>bread\<close> hands out for block \<open>bno\<close>.\<close>

definition read_buf :: "'a bio_state_scheme \<Rightarrow> nat \<Rightarrow> buf" where
  "read_buf s bno =
     \<lparr>b_valid = True, b_dirty = (bno \<in> dirty_blocks s), b_dev = ROOTDEV, b_blockno = bno,
      b_lock = \<lparr>sl_locked = True, sl_pid = curpid s\<rparr>, b_refcnt = 1, b_data = bview s bno\<rparr>"

lemma sleeplock_set [simp]:
  "(lk :: sleeplock)\<lparr>sl_locked := b, sl_pid := p\<rparr> = \<lparr>sl_locked = b, sl_pid = p\<rparr>"
  by (cases lk) simp

lemma upd_bufs_eqI:
  assumes "b_valid b = b_valid c" "b_dirty b = b_dirty c" "b_dev b = b_dev c"
    "b_blockno b = b_blockno c" "b_lock b = b_lock c" "b_refcnt b = b_refcnt c" "b_data b = b_data c"
  shows "s\<lparr>bufs := (bufs s)(i := b)\<rparr> = s\<lparr>bufs := (bufs s)(i := c)\<rparr>"
proof -
  have "b = c" using assms by (intro buf.equality) auto
  then show ?thesis by simp
qed

lemma bget_hit:
  assumes "bio_inv s" and "i < NBUF" and "b_dev (bufs s i) = ROOTDEV" and "b_blockno (bufs s i) = bno"
  shows "bget ROOTDEV bno s =
     rbind (acquiresleep (curpid s) (b_lock (bufs s i))) (\<lambda>lk.
       Ok (i, upd_buf i (\<lambda>b. b\<lparr>b_refcnt := b_refcnt b + 1, b_lock := lk\<rparr>) s))"
proof -
  have "find (\<lambda>i. b_dev (bufs s i) = ROOTDEV \<and> b_blockno (bufs s i) = bno) (lru s) = Some i"
    using assms by (intro find_unique) (auto simp: bio_inv_lru ROOTDEV_def intro: bio_inv_uniq)
  then show ?thesis by (simp add: bget_def)
qed

lemma dirty_blocks_iff:
  assumes "bio_inv s" and "i < NBUF" and "b_dev (bufs s i) = ROOTDEV"
  shows "b_blockno (bufs s i) \<in> dirty_blocks s \<longleftrightarrow> b_dirty (bufs s i)"
proof
  assume "b_blockno (bufs s i) \<in> dirty_blocks s"
  then obtain j where j: "j < NBUF" "b_dirty (bufs s j)" "b_blockno (bufs s j) = b_blockno (bufs s i)"
    by (auto simp: dirty_blocks_def)
  then have "b_dev (bufs s j) = ROOTDEV"
    using bio_inv_ok[OF assms(1) j(1)] by (simp add: buf_ok_def Let_def)
  with j assms show "b_dirty (bufs s i)"
    using bio_inv_uniq[OF assms(1) j(1) assms(2)] by (auto simp: ROOTDEV_def)
next
  assume "b_dirty (bufs s i)"
  with assms show "b_blockno (bufs s i) \<in> dirty_blocks s" by (auto simp: dirty_blocks_def)
qed

lemma bread_hit:
  assumes inv: "bio_inv s" and i: "i < NBUF" "b_dev (bufs s i) = ROOTDEV" "b_blockno (bufs s i) = bno"
    and rd: "bread ROOTDEV bno s = Ok (k, s')"
  shows "k = i \<and> \<not> sl_locked (b_lock (bufs s i)) \<and> bno < disksize s \<and>
     s' = s\<lparr>bufs := (bufs s)(i := read_buf s bno)\<rparr>"
proof -
  note ok = bio_inv_ok[OF inv i(1)]
  have unl: "\<not> sl_locked (b_lock (bufs s i))" and k: "k = i"
    using rd i bget_hit[OF inv i]
    by (auto simp: bread_def acquiresleep_def res_simps iderw_def Let_def split: if_splits)
  have ref0: "b_refcnt (bufs s i) = 0" using ok unl by (simp add: buf_ok_def Let_def)
  show ?thesis
  proof (cases "b_valid (bufs s i)")
    case True
    then have "cached s bno i" using i by (simp add: cached_def)
    then have v: "bview s bno = b_data (bufs s i)" using inv i by (simp add: bview_cached)
    have d: "bno \<in> dirty_blocks s \<longleftrightarrow> b_dirty (bufs s i)"
      using dirty_blocks_iff[OF inv i(1,2)] i(3) by simp
    from True ok i have "bno < disksize s" by (simp add: buf_ok_def Let_def)
    moreover have "s' = s\<lparr>bufs := (bufs s)(i := read_buf s bno)\<rparr>"
      using rd bget_hit[OF inv i] unl ref0 True v d i
      by (auto simp: bread_def acquiresleep_def upd_buf_def read_buf_def intro!: upd_bufs_eqI)
    ultimately show ?thesis using k unl by simp
  next
    case False
    then have nd: "\<not> b_dirty (bufs s i)" using ok by (auto simp: buf_ok_def Let_def)
    have "bview s bno = disk s bno"
      using False inv i by (intro bview_uncached) (auto simp: cached_def ROOTDEV_def dest: bio_inv_uniq)
    moreover have "bno \<notin> dirty_blocks s"
      using dirty_blocks_iff[OF inv i(1,2)] i(3) nd by simp
    ultimately show ?thesis
      using rd bget_hit[OF inv i] unl ref0 False nd i k
      by (auto simp: bread_def acquiresleep_def upd_buf_def read_buf_def iderw_def Let_def
          res_simps holdingsleep_def split: if_splits intro!: upd_bufs_eqI)
  qed
qed

lemma bread_miss:
  assumes inv: "bio_inv s"
    and miss: "\<And>j. j < NBUF \<Longrightarrow> \<not> (b_dev (bufs s j) = ROOTDEV \<and> b_blockno (bufs s j) = bno)"
    and rd: "bread ROOTDEV bno s = Ok (k, s')"
  shows "k < NBUF \<and> \<not> sl_locked (b_lock (bufs s k)) \<and> \<not> b_dirty (bufs s k) \<and> bno < disksize s \<and>
     s' = s\<lparr>bufs := (bufs s)(k := read_buf s bno)\<rparr>"
proof -
  have none: "find (\<lambda>i. b_dev (bufs s i) = ROOTDEV \<and> b_blockno (bufs s i) = bno) (lru s) = None"
    using miss inv by (auto simp: find_None_iff bio_inv_lru)
  with rd obtain i where i:
    "find (\<lambda>i. b_refcnt (bufs s i) = 0 \<and> \<not> b_dirty (bufs s i)) (rev (lru s)) = Some i"
    by (cases "find (\<lambda>i. b_refcnt (bufs s i) = 0 \<and> \<not> b_dirty (bufs s i)) (rev (lru s))")
      (auto simp: bread_def bget_def)
  then have i': "i < NBUF" "b_refcnt (bufs s i) = 0" "\<not> b_dirty (bufs s i)"
    using inv by (auto dest!: find_Some_in_set simp: bio_inv_lru)
  have "bview s bno = disk s bno"
    using inv miss by (intro bview_uncached) (auto simp: cached_def)
  moreover have "bno \<notin> dirty_blocks s"
    using miss bio_inv_ok[OF inv] by (fastforce simp: dirty_blocks_def buf_ok_def Let_def)
  ultimately show ?thesis
    using rd none i i'
    by (auto simp: bread_def bget_def acquiresleep_def upd_buf_def read_buf_def iderw_def Let_def
        res_simps holdingsleep_def split: if_splits intro!: upd_bufs_eqI)
qed

lemma bread_dev:
  assumes inv: "bio_inv s" and rd: "bread dev bno s = Ok (k, s')"
  shows "dev = ROOTDEV"
proof (rule ccontr)
  assume nd: "dev \<noteq> ROOTDEV"
  obtain t where t: "bget dev bno s = Ok (k, t)"
    using rd by (auto simp: bread_def res_simps split: if_splits prod.splits)
  have "\<not> b_valid (bufs t k) \<and> b_dev (bufs t k) = dev"
    using t nd inv bio_inv_ok[OF inv]
    by (fastforce simp: bget_def upd_buf_def res_simps buf_ok_def Let_def bio_inv_lru
        split: option.splits dest!: find_Some_in_set)
  then show False
    using rd t nd by (auto simp: bread_def iderw_def Let_def ROOTDEV_def res_simps split: if_splits)
qed

lemma bread_shape:
  assumes inv: "bio_inv s" and rd: "bread dev bno s = Ok (i, s')"
  shows "dev = ROOTDEV" and "i < NBUF" and "\<not> sl_locked (b_lock (bufs s i))"
    and "bno < disksize s" and "s' = s\<lparr>bufs := (bufs s)(i := read_buf s bno)\<rparr>"
    and "b_dirty (bufs s i) \<Longrightarrow> b_blockno (bufs s i) = bno"
    and "\<And>j. j < NBUF \<Longrightarrow> b_dev (bufs s j) = ROOTDEV \<Longrightarrow> b_blockno (bufs s j) = bno \<Longrightarrow> j = i"
proof -
  show dev: "dev = ROOTDEV" using bread_dev[OF inv rd] .
  note rd' = rd[unfolded dev]
  have "i < NBUF \<and> \<not> sl_locked (b_lock (bufs s i)) \<and> bno < disksize s \<and>
      s' = s\<lparr>bufs := (bufs s)(i := read_buf s bno)\<rparr> \<and>
      (b_dirty (bufs s i) \<longrightarrow> b_blockno (bufs s i) = bno) \<and>
      (\<forall>j<NBUF. b_dev (bufs s j) = ROOTDEV \<longrightarrow> b_blockno (bufs s j) = bno \<longrightarrow> j = i)"
  proof (cases "\<exists>j<NBUF. b_dev (bufs s j) = ROOTDEV \<and> b_blockno (bufs s j) = bno")
    case True
    then obtain j where j: "j < NBUF" "b_dev (bufs s j) = ROOTDEV" "b_blockno (bufs s j) = bno"
      by blast
    with bread_hit[OF inv j rd'] show ?thesis
      using bio_inv_uniq[OF inv] by (auto simp: ROOTDEV_def)
  next
    case False
    with bread_miss[OF inv _ rd'] show ?thesis by auto
  qed
  then show "i < NBUF" and "\<not> sl_locked (b_lock (bufs s i))"
    and "bno < disksize s" and "s' = s\<lparr>bufs := (bufs s)(i := read_buf s bno)\<rparr>"
    and "b_dirty (bufs s i) \<Longrightarrow> b_blockno (bufs s i) = bno"
    and "\<And>j. j < NBUF \<Longrightarrow> b_dev (bufs s j) = ROOTDEV \<Longrightarrow> b_blockno (bufs s j) = bno \<Longrightarrow> j = i"
    by auto
qed

lemma read_buf_sel [simp]:
  "b_valid (read_buf s bno)" "b_dirty (read_buf s bno) \<longleftrightarrow> bno \<in> dirty_blocks s"
  "b_dev (read_buf s bno) = ROOTDEV" "b_blockno (read_buf s bno) = bno"
  "b_lock (read_buf s bno) = \<lparr>sl_locked = True, sl_pid = curpid s\<rparr>"
  "b_refcnt (read_buf s bno) = 1" "b_data (read_buf s bno) = bview s bno"
  by (simp_all add: read_buf_def)

text \<open>
  \<open>bread\<close> returns the block as the view has it, in a buffer it locks, keeps the
  invariant and changes neither the view nor the set of pinned blocks.
\<close>

lemma bread_inv:
  assumes inv: "bio_inv s" and rd: "bread dev bno s = Ok (i, s')"
  shows "bio_inv s'"
proof -
  note sh = bread_shape[OF inv rd]
  show ?thesis
    unfolding sh(5)
  proof (rule bio_inv_upd[OF inv sh(2)])
    show "buf_ok (s\<lparr>bufs := (bufs s)(i := read_buf s bno)\<rparr>) i"
      using sh(4) inv by (auto simp: buf_ok_def Let_def bview_clean)
  next
    fix j assume "j < NBUF" "j \<noteq> i" "b_dev (bufs s j) = b_dev (read_buf s bno)"
      "b_blockno (bufs s j) = b_blockno (read_buf s bno)"
    then show "b_dev (read_buf s bno) = 0" using sh(7)[of j] by simp
  qed
qed

lemma bread_view:
  assumes inv: "bio_inv s" and rd: "bread dev bno s = Ok (i, s')"
  shows "bview s' = bview s"
proof
  fix n
  note sh = bread_shape[OF inv rd]
  note inv' = bread_inv[OF inv rd]
  show "bview s' n = bview s n"
  proof (cases "n = bno")
    case True
    have "cached s' bno i" using sh(5) by (simp add: cached_def)
    with True sh(5) show ?thesis using bview_cached[OF inv' sh(2)] by simp
  next
    case False
    then have c: "cached s' n j \<longleftrightarrow> j \<noteq> i \<and> cached s n j" for j
      using sh(5) by (auto simp: cached_def)
    show ?thesis
    proof (cases "\<exists>j<NBUF. j \<noteq> i \<and> cached s n j")
      case True
      then obtain j where j: "j < NBUF" "j \<noteq> i" "cached s n j" by blast
      then have "bview s n = b_data (bufs s j)" using inv by (simp add: bview_cached)
      moreover have "bview s' n = b_data (bufs s' j)" using j c inv' by (simp add: bview_cached)
      ultimately show ?thesis using j(2) sh(5) by simp
    next
      case no: False
      then have "bview s' n = disk s' n" using c inv' by (intro bview_uncached) auto
      moreover have "bview s n = disk s n"
      proof (cases "cached s n i")
        case True
        then have "b_data (bufs s i) = disk s n"
          using False sh(6) bio_inv_ok[OF inv sh(2)] by (auto simp: cached_def buf_ok_def Let_def)
        with True show ?thesis using bview_cached[OF inv sh(2)] by simp
      next
        case False
        with no show ?thesis using inv by (intro bview_uncached) auto
      qed
      ultimately show ?thesis using sh(5) by simp
    qed
  qed
qed

lemma dirty_dev:
  "bio_inv s \<Longrightarrow> j < NBUF \<Longrightarrow> b_dirty (bufs s j) \<Longrightarrow> b_dev (bufs s j) = ROOTDEV"
  using bio_inv_ok[of s j] by (simp add: buf_ok_def Let_def)

lemma locked_dev:
  "bio_inv s \<Longrightarrow> j < NBUF \<Longrightarrow> sl_locked (b_lock (bufs s j)) \<Longrightarrow> b_dev (bufs s j) = ROOTDEV"
  using bio_inv_ok[of s j] by (simp add: buf_ok_def Let_def)

lemma bread_dirty:
  assumes inv: "bio_inv s" and rd: "bread dev bno s = Ok (i, s')"
  shows "dirty_blocks s' = dirty_blocks s"
proof -
  note sh = bread_shape[OF inv rd]
  have eq: "b_dirty (bufs s' j) \<and> b_blockno (bufs s' j) = n \<longleftrightarrow>
      (if j = i then n = bno \<and> bno \<in> dirty_blocks s else b_dirty (bufs s j) \<and> b_blockno (bufs s j) = n)"
    for j n using sh(5) by auto
  have "n \<in> dirty_blocks s' \<longleftrightarrow> n \<in> dirty_blocks s" for n
  proof
    assume "n \<in> dirty_blocks s'"
    then obtain j where "j < NBUF" "b_dirty (bufs s' j) \<and> b_blockno (bufs s' j) = n"
      by (auto simp: dirty_blocks_def)
    then show "n \<in> dirty_blocks s" unfolding eq by (auto simp: dirty_blocks_def split: if_splits)
  next
    assume n: "n \<in> dirty_blocks s"
    then obtain j where j: "j < NBUF" "b_dirty (bufs s j)" "b_blockno (bufs s j) = n"
      by (auto simp: dirty_blocks_def)
    then have "\<exists>k<NBUF. b_dirty (bufs s' k) \<and> b_blockno (bufs s' k) = n"
      unfolding eq using n sh(2,6) by (cases "j = i") auto
    then show "n \<in> dirty_blocks s'" by (auto simp: dirty_blocks_def)
  qed
  then show ?thesis by blast
qed

lemma bread_held:
  assumes inv: "bio_inv s" and rd: "bread dev bno s = Ok (i, s')"
  shows "held s' = insert i (held s)" and "i \<notin> held s"
    and "held_blocks s' = insert bno (held_blocks s)" and "bno \<notin> held_blocks s"
proof -
  note sh = bread_shape[OF inv rd]
  show h: "held s' = insert i (held s)" and ni: "i \<notin> held s"
    using sh(2,3,5) by (auto simp: held_def)
  have "(\<lambda>j. b_blockno (bufs s' j)) ` held s = (\<lambda>j. b_blockno (bufs s j)) ` held s"
    using ni sh(5) by (intro image_cong) auto
  then show "held_blocks s' = insert bno (held_blocks s)"
    using h sh(5) by (simp add: held_blocks_def)
  show "bno \<notin> held_blocks s"
    using sh(3) sh(7) locked_dev[OF inv] by (auto simp: held_blocks_def held_def)
qed

text \<open>
  \<open>bread\<close> succeeds on any block of the disk the process does not already hold, as long
  as some buffer is neither held nor pinned (or the block itself is pinned in the cache).
\<close>

lemma refcnt_locked:
  "bio_inv s \<Longrightarrow> i < NBUF \<Longrightarrow> b_refcnt (bufs s i) = 0 \<longleftrightarrow> \<not> sl_locked (b_lock (bufs s i))"
  using bio_inv_ok[of s i] by (cases "sl_locked (b_lock (bufs s i))") (simp_all add: buf_ok_def Let_def)

lemma busy_card:
  assumes inv: "bio_inv s"
  shows "card {i. i < NBUF \<and> (b_refcnt (bufs s i) \<noteq> 0 \<or> b_dirty (bufs s i))} =
    card (held_blocks s \<union> dirty_blocks s)"
proof -
  let ?f = "\<lambda>i. b_blockno (bufs s i)"
  let ?B = "held s \<union> {i. i < NBUF \<and> b_dirty (bufs s i)}"
  have "inj_on ?f ?B"
  proof (rule inj_onI)
    fix i j assume ij: "i \<in> ?B" "j \<in> ?B" "?f i = ?f j"
    then have lt: "i < NBUF" "j < NBUF" by (auto simp: held_def)
    have "b_dev (bufs s i) = ROOTDEV" "b_dev (bufs s j) = ROOTDEV"
      using ij dirty_dev[OF inv] locked_dev[OF inv] by (auto simp: held_def)
    with ij(3) show "i = j" by (intro bio_inv_uniq[OF inv lt]) (simp_all add: ROOTDEV_def)
  qed
  then have "card (?f ` ?B) = card ?B" by (rule card_image)
  moreover have "?f ` ?B = held_blocks s \<union> dirty_blocks s"
    by (simp add: held_blocks_def dirty_blocks_def image_Un setcompr_eq_image)
  moreover have "{i. i < NBUF \<and> (b_refcnt (bufs s i) \<noteq> 0 \<or> b_dirty (bufs s i))} = ?B"
    unfolding held_def using refcnt_locked[OF inv] by blast
  ultimately show ?thesis by (simp only:)
qed

lemma bread_total:
  assumes inv: "bio_inv s" and bno: "bno < disksize s" "bno \<notin> held_blocks s"
    and free: "bno \<in> dirty_blocks s \<or> card (held_blocks s \<union> dirty_blocks s) < NBUF"
  shows "\<exists>i s'. bread ROOTDEV bno s = Ok (i, s')"
proof (cases "\<exists>j<NBUF. b_dev (bufs s j) = ROOTDEV \<and> b_blockno (bufs s j) = bno")
  case True
  then obtain j where j: "j < NBUF" "b_dev (bufs s j) = ROOTDEV" "b_blockno (bufs s j) = bno"
    by blast
  with bno have "\<not> sl_locked (b_lock (bufs s j))" by (auto simp: held_blocks_def held_def)
  then show ?thesis
    using j bno bio_inv_ok[OF inv j(1)] unfolding bread_def bget_hit[OF inv j]
    by (auto simp: acquiresleep_def upd_buf_def iderw_def Let_def holdingsleep_def
        buf_ok_def ROOTDEV_def)
next
  case False
  then have "bno \<notin> dirty_blocks s" using dirty_dev[OF inv] by (auto simp: dirty_blocks_def)
  with free have "card {i. i < NBUF \<and> (b_refcnt (bufs s i) \<noteq> 0 \<or> b_dirty (bufs s i))} < card {..<NBUF}"
    using busy_card[OF inv] by simp
  then have "\<not> {..<NBUF} \<subseteq> {i. i < NBUF \<and> (b_refcnt (bufs s i) \<noteq> 0 \<or> b_dirty (bufs s i))}"
    using card_mono[of "{i. i < NBUF \<and> (b_refcnt (bufs s i) \<noteq> 0 \<or> b_dirty (bufs s i))}" "{..<NBUF}"]
    by (auto simp: not_less[symmetric])
  then have "\<exists>i<NBUF. b_refcnt (bufs s i) = 0 \<and> \<not> b_dirty (bufs s i)" by blast
  then obtain i where i: "find (\<lambda>i. b_refcnt (bufs s i) = 0 \<and> \<not> b_dirty (bufs s i)) (rev (lru s)) = Some i"
    using inv by (cases "find (\<lambda>i. b_refcnt (bufs s i) = 0 \<and> \<not> b_dirty (bufs s i)) (rev (lru s))")
      (auto simp: find_None_iff bio_inv_lru)
  then have "i < NBUF" "b_refcnt (bufs s i) = 0"
    using inv by (auto dest!: find_Some_in_set simp: bio_inv_lru)
  then have "\<not> sl_locked (b_lock (bufs s i))"
    using bio_inv_ok[OF inv, of i] by (auto simp: buf_ok_def Let_def)
  moreover have "find (\<lambda>i. b_dev (bufs s i) = ROOTDEV \<and> b_blockno (bufs s i) = bno) (lru s) = None"
    using False inv by (auto simp: find_None_iff bio_inv_lru)
  ultimately show ?thesis
    using i bno by (auto simp: bread_def bget_def acquiresleep_def upd_buf_def iderw_def Let_def
        holdingsleep_def ROOTDEV_def)
qed

section \<open>Writing and releasing a held block\<close>

lemma heldD:
  assumes "bio_inv s" and "i \<in> held s"
  shows "i < NBUF" "b_valid (bufs s i)" "b_dev (bufs s i) = ROOTDEV"
    "b_blockno (bufs s i) < disksize s" "b_refcnt (bufs s i) = 1"
    "b_lock (bufs s i) = \<lparr>sl_locked = True, sl_pid = curpid s\<rparr>"
    "cached s (b_blockno (bufs s i)) i"
proof -
  show i: "i < NBUF" using assms by (simp add: held_def)
  show "b_valid (bufs s i)" "b_dev (bufs s i) = ROOTDEV"
    "b_blockno (bufs s i) < disksize s" "b_refcnt (bufs s i) = 1"
    "cached s (b_blockno (bufs s i)) i"
    using assms bio_inv_ok[OF assms(1) i] by (auto simp: held_def buf_ok_def Let_def cached_def)
  show "b_lock (bufs s i) = \<lparr>sl_locked = True, sl_pid = curpid s\<rparr>"
    using assms bio_inv_ok[OF assms(1) i] by (cases "b_lock (bufs s i)") (auto simp: held_def buf_ok_def Let_def)
qed

text \<open>Overwriting a held buffer, with the dirty bit and the disk updated as the caller does.\<close>

definition put_buf :: "nat \<Rightarrow> block \<Rightarrow> bool \<Rightarrow> 'a bio_state_scheme \<Rightarrow> 'a bio_state_scheme" where
  "put_buf i d dirty s = upd_buf i (\<lambda>b. b\<lparr>b_data := d, b_dirty := dirty\<rparr>) s"

definition put_disk :: "nat \<Rightarrow> block \<Rightarrow> 'a bio_state_scheme \<Rightarrow> 'a bio_state_scheme" where
  "put_disk bno d s = s\<lparr>disk := (disk s)(bno := d), wlog := wlog s @ [(bno, d)]\<rparr>"

lemma bview_put:
  assumes inv: "bio_inv s" and inv': "bio_inv s'" and i: "i \<in> held s"
    and bufs': "bufs s' = (bufs s)(i := (bufs s i)\<lparr>b_data := d, b_dirty := b\<rparr>)"
    and disk': "\<And>n. n \<noteq> b_blockno (bufs s i) \<Longrightarrow> disk s' n = disk s n"
  shows "bview s' = (bview s)(b_blockno (bufs s i) := d)"
proof
  fix n
  note h = heldD[OF inv i]
  have c: "cached s' m j \<longleftrightarrow> cached s m j" for m j by (auto simp: cached_def bufs')
  show "bview s' n = ((bview s)(b_blockno (bufs s i) := d)) n"
  proof (cases "n = b_blockno (bufs s i)")
    case True
    then have "cached s' n i" using c h(7) by simp
    then have "bview s' n = b_data (bufs s' i)" using h(1) inv' by (simp add: bview_cached)
    with True show ?thesis by (simp add: bufs')
  next
    case False
    show ?thesis
    proof (cases "\<exists>j<NBUF. cached s n j")
      case True
      then obtain j where j: "j < NBUF" "cached s n j" by blast
      then have "j \<noteq> i" using False by (auto simp: cached_def)
      with j c False show ?thesis using inv inv' by (simp add: bview_cached bufs')
    next
      case no: False
      have "bview s n = disk s n" using no inv by (intro bview_uncached) auto
      moreover have "bview s' n = disk s' n" using no inv' c by (intro bview_uncached) auto
      ultimately show ?thesis using False disk' by simp
    qed
  qed
qed

lemma put_buf_inv:
  assumes inv: "bio_inv s" and i: "i \<in> held s"
  shows "bio_inv (put_buf i d True s)"
    and "bview (put_buf i d True s) = (bview s)(b_blockno (bufs s i) := d)"
    and "dirty_blocks (put_buf i d True s) = insert (b_blockno (bufs s i)) (dirty_blocks s)"
    and "held (put_buf i d True s) = held s"
    and "held_blocks (put_buf i d True s) = held_blocks s"
proof -
  note h = heldD[OF inv i]
  show inv': "bio_inv (put_buf i d True s)"
    unfolding put_buf_def upd_buf_def
  proof (rule bio_inv_upd[OF inv h(1)])
    show "buf_ok (s\<lparr>bufs := (bufs s)(i := (bufs s i)\<lparr>b_data := d, b_dirty := True\<rparr>)\<rparr>) i"
      using h by (auto simp: buf_ok_def Let_def)
  next
    fix j assume "j < NBUF" "j \<noteq> i" "b_dev (bufs s j) = b_dev ((bufs s i)\<lparr>b_data := d, b_dirty := True\<rparr>)"
      "b_blockno (bufs s j) = b_blockno ((bufs s i)\<lparr>b_data := d, b_dirty := True\<rparr>)"
    then show "b_dev ((bufs s i)\<lparr>b_data := d, b_dirty := True\<rparr>) = 0"
      using bio_inv_uniq[OF inv, of j i] h(1) by auto
  qed
  show "bview (put_buf i d True s) = (bview s)(b_blockno (bufs s i) := d)"
    by (rule bview_put[OF inv inv' i, where b = True]) (simp_all add: put_buf_def upd_buf_def)
  show "dirty_blocks (put_buf i d True s) = insert (b_blockno (bufs s i)) (dirty_blocks s)"
    using h(1) by (auto simp: dirty_blocks_def put_buf_def upd_buf_def)
  show hl: "held (put_buf i d True s) = held s"
    by (auto simp: held_def put_buf_def upd_buf_def)
  show "held_blocks (put_buf i d True s) = held_blocks s"
    unfolding held_blocks_def hl by (intro image_cong) (auto simp: put_buf_def upd_buf_def)
qed

lemma bwrite_eq:
  assumes inv: "bio_inv s" and i: "i \<in> held s" and bno: "bno = b_blockno (bufs s i)"
  shows "bwrite i (set_data i d s) = Ok (put_disk bno d (put_buf i d False s))"
proof -
  note h = heldD[OF inv i]
  have "(bufs s i)\<lparr>b_data := d, b_dirty := False, b_valid := True\<rparr> = (bufs s i)\<lparr>b_data := d, b_dirty := False\<rparr>"
    using h(2) by (intro buf.equality) auto
  then show ?thesis
    using h(3,4,6) by (simp add: bwrite_def iderw_def set_data_def upd_buf_def put_disk_def put_buf_def
        Let_def holdingsleep_def ROOTDEV_def bno)
qed

lemma put_disk_inv:
  fixes d :: block
  assumes inv: "bio_inv s" and i: "i \<in> held s" and bno: "bno = b_blockno (bufs s i)"
  defines "t \<equiv> put_disk bno d (put_buf i d False s)"
  shows "bio_inv t" and "bview t = (bview s)(bno := d)"
    and "dirty_blocks t = dirty_blocks s - {bno}"
    and "held t = held s" and "held_blocks t = held_blocks s"
proof -
  note h = heldD[OF inv i]
  have t: "bufs t = (bufs s)(i := (bufs s i)\<lparr>b_data := d, b_dirty := False\<rparr>)"
    "disk t = (disk s)(bno := d)" "lru t = lru s" "disksize t = disksize s" "curpid t = curpid s"
    by (simp_all add: t_def put_disk_def put_buf_def upd_buf_def)
  have other: "j = i" if "j < NBUF" "b_dev (bufs s j) = ROOTDEV" "b_blockno (bufs s j) = bno" for j
    using bio_inv_uniq[OF inv that(1) h(1)] h(3) bno that by (simp add: ROOTDEV_def)
  have "buf_ok t j" if j: "j < NBUF" for j
  proof (cases "j = i")
    case True
    then show ?thesis using h by (simp add: buf_ok_def Let_def t bno)
  next
    case False
    then have "b_valid (bufs s j) \<Longrightarrow> b_blockno (bufs s j) \<noteq> bno"
      using bio_inv_ok[OF inv j] other[OF j] by (auto simp: buf_ok_def Let_def)
    then show ?thesis using False bio_inv_ok[OF inv j]
      by (auto simp: buf_ok_def Let_def t)
  qed
  then show inv': "bio_inv t"
    using inv by (simp add: bio_inv_def t)
  show "bview t = (bview s)(bno := d)"
    unfolding bno by (rule bview_put[OF inv inv' i t(1)]) (simp add: t bno)
  show "dirty_blocks t = dirty_blocks s - {bno}"
  proof -
    have "n \<in> dirty_blocks t \<longleftrightarrow> n \<in> dirty_blocks s \<and> n \<noteq> bno" for n
    proof
      assume "n \<in> dirty_blocks t"
      then obtain j where j: "j < NBUF" "b_dirty (bufs t j)" "b_blockno (bufs t j) = n"
        by (auto simp: dirty_blocks_def)
      then have "j \<noteq> i" by (auto simp: t)
      with j show "n \<in> dirty_blocks s \<and> n \<noteq> bno"
        using other[OF j(1)] dirty_dev[OF inv j(1)] by (auto simp: dirty_blocks_def t)
    next
      assume "n \<in> dirty_blocks s \<and> n \<noteq> bno"
      then obtain j where j: "j < NBUF" "b_dirty (bufs s j)" "b_blockno (bufs s j) = n" "n \<noteq> bno"
        by (auto simp: dirty_blocks_def)
      then have "j \<noteq> i" by (auto simp: bno)
      with j have "b_dirty (bufs t j)" "b_blockno (bufs t j) = n" by (simp_all add: t)
      with j(1) show "n \<in> dirty_blocks t" by (auto simp: dirty_blocks_def)
    qed
    then show ?thesis by blast
  qed
  show hl: "held t = held s"
    by (auto simp: held_def t)
  show "held_blocks t = held_blocks s"
    unfolding held_blocks_def hl by (intro image_cong) (auto simp: t)
qed

definition rel_buf :: "nat \<Rightarrow> 'a bio_state_scheme \<Rightarrow> 'a bio_state_scheme" where
  "rel_buf i s = s\<lparr>bufs := (bufs s)(i := (bufs s i)\<lparr>b_lock := \<lparr>sl_locked = False, sl_pid = 0\<rparr>,
     b_refcnt := 0\<rparr>), lru := i # remove1 i (lru s)\<rparr>"

lemma brelse_eq:
  assumes inv: "bio_inv s" and i: "i \<in> held s"
  shows "brelse i s = Ok (rel_buf i s)"
  using heldD(5,6)[OF inv i]
  by (simp add: brelse_def holdingsleep_def upd_buf_def releasesleep_def rel_buf_def)

lemma rel_buf_inv:
  assumes inv: "bio_inv s" and i: "i \<in> held s"
  shows "bio_inv (rel_buf i s)" and "bview (rel_buf i s) = bview s"
    and "dirty_blocks (rel_buf i s) = dirty_blocks s"
    and "held (rel_buf i s) = held s - {i}"
    and "held_blocks (rel_buf i s) = held_blocks s - {b_blockno (bufs s i)}"
proof -
  let ?t = "rel_buf i s"
  note h = heldD[OF inv i]
  have t: "bufs ?t = (bufs s)(i := (bufs s i)\<lparr>b_lock := \<lparr>sl_locked = False, sl_pid = 0\<rparr>, b_refcnt := 0\<rparr>)"
    "lru ?t = i # remove1 i (lru s)" "disk ?t = disk s" "disksize ?t = disksize s" "curpid ?t = curpid s"
    by (simp_all add: rel_buf_def)
  have lru: "distinct (lru s)" "set (lru s) = {..<NBUF}" using inv by (simp_all add: bio_inv_def)
  have same: "b_data (bufs ?t j) = b_data (bufs s j)" "cached ?t n j = cached s n j"
    "b_dirty (bufs ?t j) = b_dirty (bufs s j)" "b_blockno (bufs ?t j) = b_blockno (bufs s j)" for n j
    by (simp_all add: t cached_def)
  have "buf_ok ?t j" if "j < NBUF" for j
    using bio_inv_ok[OF inv that] by (cases "j = i") (auto simp: buf_ok_def Let_def t)
  then show inv': "bio_inv ?t"
    using inv lru h(1) by (auto simp: bio_inv_def t set_remove1_eq)
  show "bview ?t = bview s"
  proof
    fix n show "bview ?t n = bview s n"
      by (cases "\<exists>j<NBUF. cached s n j")
        (auto simp: bview_cached[OF inv] bview_cached[OF inv'] bview_uncached[OF inv]
          bview_uncached[OF inv'] same t)
  qed
  show "dirty_blocks ?t = dirty_blocks s" by (simp only: dirty_blocks_def same)
  show hl: "held ?t = held s - {i}" by (auto simp: held_def t)
  have "b_blockno (bufs s j) \<noteq> b_blockno (bufs s i)" if "j \<in> held s" "j \<noteq> i" for j
    using bio_inv_uniq[OF inv _ h(1), of j] heldD[OF inv that(1)] h(3) that(2) by (auto simp: ROOTDEV_def)
  then show "held_blocks ?t = held_blocks s - {b_blockno (bufs s i)}"
    unfolding held_blocks_def hl same using i by auto
qed

end
