(* ===== verification/Layout.thy ===== *)
theory Layout
  imports Bio
begin

text \<open>
  The on-disk format of fs.h and the limits of param.h: the superblock, the inode and the
  directory entry as structs overlaid on the bytes of a block, with the accessors the code's
  casts amount to.
\<close>

section \<open>Constants\<close>

definition MAXOPBLOCKS :: int where [consts_defs]: "MAXOPBLOCKS = 10"
definition LOGSIZE :: int where [consts_defs]: "LOGSIZE = MAXOPBLOCKS * 3"
definition FSSIZE :: nat where [consts_defs]: "FSSIZE = 1000"
definition ROOTINO :: nat where [consts_defs]: "ROOTINO = 1"
definition NDIRECT :: nat where [consts_defs]: "NDIRECT = 12"
definition NINDIRECT :: nat where [consts_defs]: "NINDIRECT = BSIZE div 4"
definition MAXFILE :: nat where [consts_defs]: "MAXFILE = NDIRECT + NINDIRECT"
definition DINODE_SIZE :: nat where [consts_defs]: "DINODE_SIZE = 64"
definition IPB :: nat where [consts_defs]: "IPB = BSIZE div DINODE_SIZE"
definition BPB :: nat where [consts_defs]: "BPB = BSIZE * 8"
definition DIRSIZ :: nat where [consts_defs]: "DIRSIZ = 14"
definition DIRENT_SIZE :: nat where [consts_defs]: "DIRENT_SIZE = 16"

section \<open>Signed 32-bit fields\<close>

definition get_int :: "block \<Rightarrow> nat \<Rightarrow> int" where
  "get_int d o' = (let v = int (get32 d o') in if v < 2147483648 then v else v - 4294967296)"

definition put_int :: "nat \<Rightarrow> int \<Rightarrow> block \<Rightarrow> block" where
  "put_int o' v d = put32 o' (nat (v mod 4294967296)) d"

lemma get_int_put_int:
  assumes "-2147483648 \<le> v" and "v < 2147483648"
  shows "get_int (put_int o' v d) o' = v"
proof -
  have "nat (v mod 4294967296) mod 4294967296 = nat (v mod 4294967296)"
    by (simp add: nat_less_iff)
  moreover have "v mod 4294967296 = (if 0 \<le> v then v else v + 4294967296)"
    using assms mod_add_self2[of v 4294967296] mod_pos_pos_trivial[of "v + 4294967296" 4294967296]
    by (auto simp: mod_pos_pos_trivial)
  ultimately show ?thesis
    using assms by (auto simp: get_int_def put_int_def Let_def split: if_splits)
qed

lemma get_int_put32_other:
  "o' + 4 \<le> p \<or> p + 4 \<le> o' \<Longrightarrow> get_int (put32 o' v d) p = get_int d p"
  by (simp add: get_int_def get32_put32_other)

lemma get_int_zero_block [simp]: "get_int zero_block o' = 0"
  by (simp add: get_int_def)

section \<open>The superblock\<close>

record superblock =
  sb_size :: nat
  sb_nblocks :: nat
  sb_ninodes :: nat
  sb_nlog :: nat
  sb_logstart :: nat
  sb_inodestart :: nat
  sb_bmapstart :: nat

definition dec_superblock :: "block \<Rightarrow> superblock" where
  "dec_superblock d =
     \<lparr>sb_size = get32 d 0, sb_nblocks = get32 d 4, sb_ninodes = get32 d 8, sb_nlog = get32 d 12,
      sb_logstart = get32 d 16, sb_inodestart = get32 d 20, sb_bmapstart = get32 d 24\<rparr>"

definition enc_superblock :: "superblock \<Rightarrow> block \<Rightarrow> block" where
  "enc_superblock sb d =
     put32 24 (sb_bmapstart sb) (put32 20 (sb_inodestart sb) (put32 16 (sb_logstart sb)
     (put32 12 (sb_nlog sb) (put32 8 (sb_ninodes sb) (put32 4 (sb_nblocks sb)
     (put32 0 (sb_size sb) d))))))"

text \<open>\<open>IBLOCK\<close> and \<open>BBLOCK\<close> of fs.h.\<close>

definition IBLOCK :: "nat \<Rightarrow> superblock \<Rightarrow> nat" where
  "IBLOCK i sb = i div IPB + sb_inodestart sb"

definition BBLOCK :: "nat \<Rightarrow> superblock \<Rightarrow> nat" where
  "BBLOCK b sb = b div BPB + sb_bmapstart sb"

text \<open>\<open>readsb\<close> of fs.c: the superblock is block 1.\<close>

definition readsb :: "nat \<Rightarrow> 'a bio_state_scheme \<Rightarrow> (superblock \<times> 'a bio_state_scheme) res" where
  "readsb dev s =
     rbind (bread dev 1 s) (\<lambda>(bp, s).
     let sb = dec_superblock (b_data (bufs s bp)) in
     rbind (brelse bp s) (\<lambda>s. Ok (sb, s)))"

lemma dec_enc_superblock:
  assumes "sb_size sb < 4294967296" "sb_nblocks sb < 4294967296" "sb_ninodes sb < 4294967296"
    "sb_nlog sb < 4294967296" "sb_logstart sb < 4294967296" "sb_inodestart sb < 4294967296"
    "sb_bmapstart sb < 4294967296"
  shows "dec_superblock (enc_superblock sb d) = (sb :: superblock)"
  using assms
  by (simp add: dec_superblock_def enc_superblock_def get32_put32_other)

end
