(* ===== verification/Log.thy ===== *)
theory Log
  imports Layout
begin

text \<open>
  The write-ahead log (log.c): the header kept in memory and on disk, the admission of
  file system calls, and the commit that makes a group of block writes atomic with respect
  to crashes.
\<close>

section \<open>State and operations\<close>

record log_state = bio_state +
  log_start :: nat
  log_size :: nat
  log_outstanding :: int
  log_committing :: bool
  log_dev :: nat
  lh_n :: int
  lh_block :: "nat \<Rightarrow> nat"

text \<open>
  The header block on disk: \<open>n\<close> at offset 0, then the block numbers.  \<open>read_head\<close>
  trusts \<open>n\<close>; above \<open>LOGSIZE\<close> it would run past the array in memory.
\<close>

definition enc_head :: "int \<Rightarrow> (nat \<Rightarrow> nat) \<Rightarrow> block \<Rightarrow> block" where
  "enc_head n blk d = foldl (\<lambda>d i. put32 (4 + 4 * i) (blk i) d) (put_int 0 n d) [0..<nat n]"

definition install_step :: "nat \<Rightarrow> 'a log_state_scheme \<Rightarrow> 'a log_state_scheme res" where
  "install_step tail s =
     rbind (bread (log_dev s) (log_start s + tail + 1) s) (\<lambda>(lbuf, s).
     rbind (bread (log_dev s) (lh_block s tail) s) (\<lambda>(dbuf, s).
     rbind (bwrite dbuf (set_data dbuf (b_data (bufs s lbuf)) s)) (\<lambda>s.
     rbind (brelse lbuf s) (\<lambda>s. brelse dbuf s))))"

definition install_trans :: "'a log_state_scheme \<Rightarrow> 'a log_state_scheme res" where
  "install_trans s = rfold install_step [0..<nat (lh_n s)] s"

definition read_head :: "'a log_state_scheme \<Rightarrow> 'a log_state_scheme res" where
  "read_head s =
     rbind (bread (log_dev s) (log_start s) s) (\<lambda>(buf, s).
     let lh = b_data (bufs s buf); n = get_int lh 0 in
     if LOGSIZE < n then Fault ''read_head: block[] overrun''
     else brelse buf (s\<lparr>lh_n := n,
            lh_block := foldl (\<lambda>blk i. blk(i := get32 lh (4 + 4 * i))) (lh_block s) [0..<nat n]\<rparr>))"

definition write_head :: "'a log_state_scheme \<Rightarrow> 'a log_state_scheme res" where
  "write_head s =
     rbind (bread (log_dev s) (log_start s) s) (\<lambda>(buf, s).
     rbind (bwrite buf (set_data buf (enc_head (lh_n s) (lh_block s) (b_data (bufs s buf))) s)) (\<lambda>s.
     brelse buf s))"

definition recover_from_log :: "'a log_state_scheme \<Rightarrow> 'a log_state_scheme res" where
  "recover_from_log s =
     rbind (read_head s) (\<lambda>s.
     rbind (install_trans s) (\<lambda>s.
     write_head (s\<lparr>lh_n := 0\<rparr>)))"

text \<open>\<open>sizeof(struct logheader)\<close> is \<open>4 + 4 * LOGSIZE\<close>.\<close>

definition initlog :: "nat \<Rightarrow> 'a log_state_scheme \<Rightarrow> 'a log_state_scheme res" where
  "initlog dev s =
     (if int BSIZE \<le> 4 + 4 * LOGSIZE then Panic ''initlog: too big logheader''
      else
        rbind (readsb dev s) (\<lambda>(sb, s).
        recover_from_log (s\<lparr>log_start := sb_logstart sb, log_size := sb_nlog sb, log_dev := dev\<rparr>)))"

text \<open>Both waits of \<open>begin_op\<close> are on the channel \<open>&log\<close>.\<close>

definition begin_op :: "'a log_state_scheme \<Rightarrow> 'a log_state_scheme res" where
  "begin_op s =
     (if log_committing s then Asleep ''log''
      else if LOGSIZE < lh_n s + (log_outstanding s + 1) * MAXOPBLOCKS then Asleep ''log''
      else Ok (s\<lparr>log_outstanding := log_outstanding s + 1\<rparr>))"

definition write_log_step :: "nat \<Rightarrow> 'a log_state_scheme \<Rightarrow> 'a log_state_scheme res" where
  "write_log_step tail s =
     rbind (bread (log_dev s) (log_start s + tail + 1) s) (\<lambda>(to, s).
     rbind (bread (log_dev s) (lh_block s tail) s) (\<lambda>(from, s).
     rbind (bwrite to (set_data to (b_data (bufs s from)) s)) (\<lambda>s.
     rbind (brelse from s) (\<lambda>s. brelse to s))))"

definition write_log :: "'a log_state_scheme \<Rightarrow> 'a log_state_scheme res" where
  "write_log s = rfold write_log_step [0..<nat (lh_n s)] s"

definition commit :: "'a log_state_scheme \<Rightarrow> 'a log_state_scheme res" where
  "commit s =
     (if 0 < lh_n s then
        rbind (write_log s) (\<lambda>s.
        rbind (write_head s) (\<lambda>s.
        rbind (install_trans s) (\<lambda>s.
        write_head (s\<lparr>lh_n := 0\<rparr>))))
      else Ok s)"

definition end_op :: "'a log_state_scheme \<Rightarrow> 'a log_state_scheme res" where
  "end_op s =
     (let s = s\<lparr>log_outstanding := log_outstanding s - 1\<rparr> in
      if log_committing s then Panic ''log.committing''
      else if log_outstanding s = 0 then
        rbind (commit (s\<lparr>log_committing := True\<rparr>)) (\<lambda>s.
        Ok (s\<lparr>log_committing := False\<rparr>))
      else Ok s)"

text \<open>The position \<open>log_write\<close> stores to: that of an earlier write of the block, or the end.\<close>

definition log_slot :: "'a log_state_scheme \<Rightarrow> nat \<Rightarrow> nat" where
  "log_slot s bno =
     (case find (\<lambda>i. lh_block s i = bno) [0..<nat (lh_n s)] of
        Some i \<Rightarrow> i
      | None \<Rightarrow> nat (lh_n s))"

definition log_write :: "nat \<Rightarrow> 'a log_state_scheme \<Rightarrow> 'a log_state_scheme res" where
  "log_write b s =
     (if LOGSIZE \<le> lh_n s \<or> int (log_size s) - 1 \<le> lh_n s then Panic ''too big a transaction''
      else if log_outstanding s < 1 then Panic ''log_write outside of trans''
      else
        let bno = b_blockno (bufs s b); i = log_slot s bno;
            s = s\<lparr>lh_block := (lh_block s)(i := bno)\<rparr>;
            s = (if int i = lh_n s then s\<lparr>lh_n := lh_n s + 1\<rparr> else s)
        in Ok (upd_buf b (\<lambda>b. b\<lparr>b_dirty := True\<rparr>) s))"

section \<open>Sequences of disk writes\<close>

definition apply_writes :: "(nat \<times> block) list \<Rightarrow> (nat \<Rightarrow> block) \<Rightarrow> (nat \<Rightarrow> block)" where
  "apply_writes ws D = foldl (\<lambda>D (b, d). D(b := d)) D ws"

lemma apply_writes_Nil [simp]: "apply_writes [] D = D"
  by (simp add: apply_writes_def)

lemma apply_writes_Cons [simp]: "apply_writes ((b, d) # ws) D = apply_writes ws (D(b := d))"
  by (simp add: apply_writes_def)

lemma apply_writes_append [simp]:
  "apply_writes (xs @ ys) D = apply_writes ys (apply_writes xs D)"
  by (simp add: apply_writes_def)

lemma apply_writes_other: "b \<notin> fst ` set ws \<Longrightarrow> apply_writes ws D b = D b"
  by (induction ws arbitrary: D) auto

lemma apply_writes_map:
  assumes "i < n" and "inj_on f {..<n}"
  shows "apply_writes (map (\<lambda>i. (f i, g i)) [0..<n]) D (f i) = g i"
  using assms
proof (induction n)
  case (Suc n)
  show ?case
  proof (cases "i = n")
    case True
    then show ?thesis by simp
  next
    case False
    then have "i < n" using Suc.prems by simp
    moreover from this have "f i \<noteq> f n" using Suc.prems(2) by (auto dest!: inj_onD)
    ultimately show ?thesis using Suc by (auto simp: inj_on_def)
  qed
qed simp

text \<open>
  \<open>wrote s ws t\<close>: going from \<open>s\<close> to \<open>t\<close> performed exactly the disk writes
  \<open>ws\<close> and otherwise touched the cache only.
\<close>

definition wrote :: "'a bio_state_scheme \<Rightarrow> (nat \<times> block) list \<Rightarrow> 'a bio_state_scheme \<Rightarrow> bool" where
  "wrote s ws t \<longleftrightarrow> wlog t = wlog s @ ws \<and> disk t = apply_writes ws (disk s) \<and>
     t = s\<lparr>bufs := bufs t, lru := lru t, disk := disk t, wlog := wlog t\<rparr>"

lemma wrote_refl [simp]: "wrote s [] s"
  by (simp add: wrote_def)

lemma wrote_eqD: "wrote s ws t \<Longrightarrow> t = s\<lparr>bufs := bufs t, lru := lru t, disk := disk t, wlog := wlog t\<rparr>"
  unfolding wrote_def by blast

lemma wrote_disk:
  assumes "wrote s ws t"
  shows "wlog t = wlog s @ ws" and "disk t = apply_writes ws (disk s)"
  using assms unfolding wrote_def by blast+

lemma wrote_trans:
  assumes "wrote s xs t" and "wrote t ys u"
  shows "wrote s (xs @ ys) u"
proof -
  have "u = t\<lparr>bufs := bufs u, lru := lru u, disk := disk u, wlog := wlog u\<rparr>"
    using assms(2) by (rule wrote_eqD)
  also have "\<dots> = s\<lparr>bufs := bufs u, lru := lru u, disk := disk u, wlog := wlog u\<rparr>"
    by (subst wrote_eqD[OF assms(1)]) simp
  finally show ?thesis using assms by (simp add: wrote_def)
qed

lemma wrote_bio:
  assumes "wrote s ws t"
  shows "disksize t = disksize s" and "curpid t = curpid s"
  using arg_cong[OF wrote_eqD[OF assms], of disksize] arg_cong[OF wrote_eqD[OF assms], of curpid]
  by simp_all

lemma wrote_log:
  assumes "wrote s ws t"
  shows "log_start t = log_start s" and "log_size t = log_size s" and "log_dev t = log_dev s"
    and "lh_n t = lh_n s" and "lh_block t = lh_block s"
    and "log_outstanding t = log_outstanding s" and "log_committing t = log_committing s"
  using arg_cong[OF wrote_eqD[OF assms], of log_start] arg_cong[OF wrote_eqD[OF assms], of log_size]
    arg_cong[OF wrote_eqD[OF assms], of log_dev] arg_cong[OF wrote_eqD[OF assms], of lh_n]
    arg_cong[OF wrote_eqD[OF assms], of lh_block] arg_cong[OF wrote_eqD[OF assms], of log_outstanding]
    arg_cong[OF wrote_eqD[OF assms], of log_committing]
  by simp_all

lemma bread_wrote: "bio_inv s \<Longrightarrow> bread dev bno s = Ok (i, t) \<Longrightarrow> wrote s [] t"
  by (drule (1) bread_shape(5)) (simp add: wrote_def)

lemma rel_buf_wrote: "wrote s [] (rel_buf i s)"
  by (simp add: wrote_def rel_buf_def)

lemma put_disk_wrote: "wrote s [(bno, d)] (put_disk bno d (put_buf i d b s))"
  by (simp add: wrote_def put_disk_def put_buf_def upd_buf_def)

section \<open>Copying a block\<close>

lemma bread_Ok:
  assumes inv: "bio_inv s" and bno: "bno < disksize s" "bno \<notin> held_blocks s"
    and free: "bno \<in> dirty_blocks s \<or> card (held_blocks s \<union> dirty_blocks s) < NBUF"
  obtains i t where "bread ROOTDEV bno s = Ok (i, t)" and "bio_inv t" and "bview t = bview s"
    and "dirty_blocks t = dirty_blocks s" and "held t = insert i (held s)" and "i \<notin> held s"
    and "held_blocks t = insert bno (held_blocks s)" and "b_blockno (bufs t i) = bno"
    and "b_data (bufs t i) = bview s bno" and "\<forall>j. j \<noteq> i \<longrightarrow> bufs t j = bufs s j"
    and "wrote s [] t"
proof -
  obtain i t where rd: "bread ROOTDEV bno s = Ok (i, t)"
    using bread_total[OF inv bno free] by blast
  note sh = bread_shape[OF inv rd]
  show thesis
    using that[OF rd bread_inv[OF inv rd] bread_view[OF inv rd] bread_dirty[OF inv rd]
        bread_held(1,2,3)[OF inv rd] _ _ _ bread_wrote[OF inv rd]] sh(5) by simp
qed

text \<open>The second half of both copy loops: write \<open>d\<close> to the held block \<open>j\<close>, release both.\<close>

lemma copy_release:
  assumes inv: "bio_inv s" and h: "held s = {i, j}" "i \<noteq> j" and dst: "b_blockno (bufs s j) = dst"
  shows "\<exists>u. rbind (bwrite j (set_data j d s)) (\<lambda>s. rbind (brelse i s) (\<lambda>s. brelse j s)) = Ok u \<and>
     bio_inv u \<and> held u = {} \<and> bview u = (bview s)(dst := d) \<and>
     dirty_blocks u = dirty_blocks s - {dst} \<and> wrote s [(dst, d)] u"
proof -
  have ij: "i \<in> held s" "j \<in> held s" using h by auto
  let ?t = "put_disk dst d (put_buf j d False s)"
  note t = put_disk_inv[OF inv ij(2) dst[symmetric], of d]
  have it: "i \<in> held ?t" using t(4) ij by simp
  note u = rel_buf_inv[OF t(1) it]
  have ju: "j \<in> held (rel_buf i ?t)" using u(4) t(4) h by simp
  note v = rel_buf_inv[OF u(1) ju]
  have "rbind (bwrite j (set_data j d s)) (\<lambda>s. rbind (brelse i s) (\<lambda>s. brelse j s)) =
      Ok (rel_buf j (rel_buf i ?t))"
    by (simp add: bwrite_eq[OF inv ij(2) dst[symmetric]] brelse_eq[OF t(1) it] brelse_eq[OF u(1) ju])
  moreover have "wrote s [(dst, d)] (rel_buf j (rel_buf i ?t))"
    using wrote_trans[OF wrote_trans[OF put_disk_wrote rel_buf_wrote] rel_buf_wrote] by fastforce
  ultimately show ?thesis
    using v u t h by (intro exI[of _ "rel_buf j (rel_buf i ?t)"]) auto
qed

lemma held_blocks_empty: "held s = {} \<Longrightarrow> held_blocks s = {}"
  by (simp add: held_blocks_def)

text \<open>Reading two distinct blocks, as both copy loops do first.\<close>

lemma bread2_Ok:
  assumes inv: "bio_inv s" and h: "held s = {}" and ab: "a \<noteq> b" "a < disksize s" "b < disksize s"
    and free: "card (dirty_blocks s) < NBUF"
      "b \<in> dirty_blocks s \<or> card (insert a (dirty_blocks s)) < NBUF"
  obtains i t j u where "bread ROOTDEV a s = Ok (i, t)" and "bread ROOTDEV b t = Ok (j, u)"
    and "bio_inv u" and "held u = {i, j}" and "i \<noteq> j" and "b_blockno (bufs u i) = a"
    and "b_blockno (bufs u j) = b" and "b_data (bufs u i) = bview s a" and "b_data (bufs u j) = bview s b"
    and "bview u = bview s" and "dirty_blocks u = dirty_blocks s" and "wrote s [] t" and "wrote s [] u"
proof -
  note hb = held_blocks_empty[OF h]
  obtain i t where t: "bread ROOTDEV a s = Ok (i, t)" "bio_inv t" "bview t = bview s"
      "dirty_blocks t = dirty_blocks s" "held t = insert i (held s)"
      "held_blocks t = insert a (held_blocks s)" "b_blockno (bufs t i) = a"
      "b_data (bufs t i) = bview s a" "wrote s [] t"
    by (rule bread_Ok[OF inv ab(2)]) (use free hb in auto)
  have "b < disksize t" using ab(3) wrote_bio[OF t(9)] by simp
  moreover have "b \<notin> held_blocks t" using t(6) hb ab(1) by simp
  moreover have "b \<in> dirty_blocks t \<or> card (held_blocks t \<union> dirty_blocks t) < NBUF"
    using free(2) t(4,6) hb by simp
  ultimately obtain j u where u: "bread ROOTDEV b t = Ok (j, u)" "bio_inv u" "bview u = bview t"
      "dirty_blocks u = dirty_blocks t" "held u = insert j (held t)" "j \<notin> held t"
      "held_blocks u = insert b (held_blocks t)" "b_blockno (bufs u j) = b" "b_data (bufs u j) = bview t b"
      "\<forall>k. k \<noteq> j \<longrightarrow> bufs u k = bufs t k" "wrote t [] u"
    by (rule bread_Ok[OF t(2)])
  have ij: "i \<noteq> j" using u(6) t(5) by auto
  show thesis
    by (rule that[OF t(1) u(1) u(2)]) (use t u h ij wrote_trans[OF t(9) u(11)] in auto)
qed

lemma write_log_step_Ok:
  assumes inv: "bio_inv s" and h: "held s = {}" and dev: "log_dev s = ROOTDEV"
    and lb: "lb = log_start s + i + 1" "lb < disksize s" "lb \<notin> dirty_blocks s"
    and home: "home = lh_block s i" "home \<in> dirty_blocks s" "home < disksize s"
    and free: "card (dirty_blocks s) < NBUF"
  obtains u where "write_log_step i s = Ok u" and "bio_inv u" and "held u = {}"
    and "bview u = (bview s)(lb := bview s home)" and "dirty_blocks u = dirty_blocks s"
    and "wrote s [(lb, bview s home)] u"
proof -
  have ne: "lb \<noteq> home" using lb home by auto
  obtain b1 t b2 u where r: "bread ROOTDEV lb s = Ok (b1, t)" "bread ROOTDEV home t = Ok (b2, u)"
      "bio_inv u" "held u = {b1, b2}" "b1 \<noteq> b2" "b_blockno (bufs u b1) = lb"
      "b_data (bufs u b2) = bview s home" "bview u = bview s" "dirty_blocks u = dirty_blocks s"
      "wrote s [] t" "wrote s [] u"
    by (rule bread2_Ok[OF inv h ne lb(2) home(3) free]) (use home in auto)
  have "held u = {b2, b1}" "b2 \<noteq> b1" using r by auto
  from copy_release[OF r(3) this r(6), of "bview s home"] obtain v where v:
    "rbind (bwrite b1 (set_data b1 (bview s home) u)) (\<lambda>s. rbind (brelse b2 s) (\<lambda>s. brelse b1 s)) = Ok v"
    "bio_inv v" "held v = {}" "bview v = (bview u)(lb := bview s home)"
    "dirty_blocks v = dirty_blocks u - {lb}" "wrote u [(lb, bview s home)] v" by blast
  have "write_log_step i s = Ok v"
    using r v dev lb(1) home(1) wrote_log[OF r(10)]
    by (simp add: write_log_step_def)
  moreover have "dirty_blocks v = dirty_blocks s" using v(5) r(9) lb(3) by simp
  moreover have "wrote s [(lb, bview s home)] v" using wrote_trans[OF r(11) v(6)] by simp
  ultimately show thesis using that v r(8) by simp
qed

lemma install_step_Ok:
  assumes inv: "bio_inv s" and h: "held s = {}" and dev: "log_dev s = ROOTDEV"
    and lb: "lb = log_start s + i + 1" "lb < disksize s"
    and home: "home = lh_block s i" "home < disksize s" "home \<noteq> lb"
    and free: "card (dirty_blocks s) < NBUF"
      "home \<in> dirty_blocks s \<or> card (insert lb (dirty_blocks s)) < NBUF"
  obtains u where "install_step i s = Ok u" and "bio_inv u" and "held u = {}"
    and "bview u = (bview s)(home := bview s lb)" and "dirty_blocks u = dirty_blocks s - {home}"
    and "wrote s [(home, bview s lb)] u"
proof -
  obtain b1 t b2 u where r: "bread ROOTDEV lb s = Ok (b1, t)" "bread ROOTDEV home t = Ok (b2, u)"
      "bio_inv u" "held u = {b1, b2}" "b1 \<noteq> b2" "b_blockno (bufs u b2) = home"
      "b_data (bufs u b1) = bview s lb" "bview u = bview s" "dirty_blocks u = dirty_blocks s"
      "wrote s [] t" "wrote s [] u"
    by (rule bread2_Ok[OF inv h home(3)[symmetric] lb(2) home(2) free])
  from copy_release[OF r(3) r(4) r(5) r(6), of "bview s lb"] obtain v where v:
    "rbind (bwrite b2 (set_data b2 (bview s lb) u)) (\<lambda>s. rbind (brelse b1 s) (\<lambda>s. brelse b2 s)) = Ok v"
    "bio_inv v" "held v = {}" "bview v = (bview u)(home := bview s lb)"
    "dirty_blocks v = dirty_blocks u - {home}" "wrote u [(home, bview s lb)] v" by blast
  have "install_step i s = Ok v"
    using r v dev lb(1) home(1) wrote_log[OF r(10)]
    by (simp add: install_step_def)
  moreover have "wrote s [(home, bview s lb)] v" using wrote_trans[OF r(11) v(6)] by simp
  ultimately show thesis using that v r by simp
qed

text \<open>Writing the header.\<close>

lemma write_head_Ok:
  assumes inv: "bio_inv s" and h: "held s = {}" and dev: "log_dev s = ROOTDEV"
    and ls: "log_start s < disksize s" and free: "card (dirty_blocks s) < NBUF"
  obtains u where "write_head s = Ok u" and "bio_inv u" and "held u = {}"
    and "bview u = (bview s)(log_start s := enc_head (lh_n s) (lh_block s) (bview s (log_start s)))"
    and "dirty_blocks u = dirty_blocks s - {log_start s}"
    and "wrote s [(log_start s, enc_head (lh_n s) (lh_block s) (bview s (log_start s)))] u"
proof -
  let ?d = "enc_head (lh_n s) (lh_block s) (bview s (log_start s))"
  note hb = held_blocks_empty[OF h]
  obtain i t where t: "bread ROOTDEV (log_start s) s = Ok (i, t)" "bio_inv t" "bview t = bview s"
      "dirty_blocks t = dirty_blocks s" "held t = insert i (held s)" "b_blockno (bufs t i) = log_start s"
      "b_data (bufs t i) = bview s (log_start s)" "wrote s [] t"
    by (rule bread_Ok[OF inv ls]) (use free hb in auto)
  have i: "i \<in> held t" using t(5) by simp
  let ?u = "put_disk (log_start s) ?d (put_buf i ?d False t)"
  note u = put_disk_inv[OF t(2) i t(6)[symmetric], of ?d]
  have iu: "i \<in> held ?u" using u(4) i by simp
  note v = rel_buf_inv[OF u(1) iu]
  have "write_head s = Ok (rel_buf i ?u)"
    using wrote_log[OF t(8)]
    by (simp add: write_head_def dev t(1,7) bwrite_eq[OF t(2) i t(6)[symmetric]] brelse_eq[OF u(1) iu])
  moreover have "wrote s [(log_start s, ?d)] (rel_buf i ?u)"
    using wrote_trans[OF t(8) wrote_trans[OF put_disk_wrote rel_buf_wrote]] by simp
  ultimately show thesis using that v u t h by auto
qed

section \<open>Log invariant\<close>

definition logged :: "'a log_state_scheme \<Rightarrow> nat set" where
  "logged s = lh_block s ` {..<nat (lh_n s)}"

definition log_region :: "'a log_state_scheme \<Rightarrow> nat set" where
  "log_region s = {log_start s..<log_start s + log_size s}"

text \<open>
  The layout: the log lies on the root disk behind the superblock, with a header block and at
  least one but fewer than \<open>LOGSIZE\<close> data blocks (\<open>mkfs\<close> gives it \<open>LOGSIZE\<close> blocks).
\<close>

definition log_wf :: "'a log_state_scheme \<Rightarrow> bool" where
  "log_wf s \<longleftrightarrow> log_dev s = ROOTDEV \<and> 1 < log_start s \<and> 0 < log_size s \<and>
     int (log_size s) \<le> LOGSIZE \<and> log_start s + log_size s \<le> disksize s \<and> disksize s \<le> 4294967296"

definition head_wf :: "'a log_state_scheme \<Rightarrow> bool" where
  "head_wf s \<longleftrightarrow> 0 \<le> lh_n s \<and> lh_n s < int (log_size s) \<and>
     inj_on (lh_block s) {..<nat (lh_n s)} \<and>
     (\<forall>b\<in>logged s. b < disksize s \<and> b \<notin> log_region s \<and> b \<noteq> 1)"

text \<open>
  Between commits: the pinned buffers are exactly the blocks of the header in memory, and the
  header on disk is empty.
\<close>

definition log_inv :: "'a log_state_scheme \<Rightarrow> bool" where
  "log_inv s \<longleftrightarrow> bio_inv s \<and> log_wf s \<and> head_wf s \<and> dirty_blocks s = logged s \<and>
     get_int (disk s (log_start s)) 0 = 0"

definition log_writes :: "'a log_state_scheme \<Rightarrow> nat \<Rightarrow> (nat \<times> block) list" where
  "log_writes s k = map (\<lambda>i. (log_start s + i + 1, bview s (lh_block s i))) [0..<k]"

definition home_writes :: "'a log_state_scheme \<Rightarrow> nat \<Rightarrow> (nat \<times> block) list" where
  "home_writes s k = map (\<lambda>i. (lh_block s i, bview s (log_start s + i + 1))) [0..<k]"

lemma finite_logged [simp]: "finite (logged s)"
  by (simp add: logged_def)

lemma card_logged: "card (logged s) \<le> nat (lh_n s)"
  unfolding logged_def using card_image_le[of "{..<nat (lh_n s)}" "lh_block s"] by simp

lemma card_logged_NBUF: "log_wf s \<Longrightarrow> head_wf s \<Longrightarrow> card (logged s) < NBUF"
  using card_logged[of s] by (auto simp: log_wf_def head_wf_def consts_defs)

lemma log_block_lt:
  assumes "log_wf s" and "head_wf s" and "i < nat (lh_n s)"
  shows "log_start s + i + 1 < disksize s" and "log_start s + i + 1 \<in> log_region s"
    and "log_start s + i + 1 \<notin> logged s"
  using assms by (auto simp: log_wf_def head_wf_def log_region_def)

lemma home_block:
  assumes "head_wf s" and "i < nat (lh_n s)"
  shows "lh_block s i < disksize s" and "lh_block s i \<notin> log_region s" and "lh_block s i \<in> logged s"
  using assms by (auto simp: head_wf_def logged_def)

lemma write_log_Ok:
  assumes li: "log_inv s" and h: "held s = {}"
  obtains u where "write_log s = Ok u" and "bio_inv u" and "held u = {}"
    and "dirty_blocks u = dirty_blocks s" and "wrote s (log_writes s (nat (lh_n s))) u"
    and "bview u = apply_writes (log_writes s (nat (lh_n s))) (bview s)"
proof -
  have inv: "bio_inv s" and wf: "log_wf s" "head_wf s" and dirty: "dirty_blocks s = logged s"
    using li by (auto simp: log_inv_def)
  let ?P = "\<lambda>i t. bio_inv t \<and> held t = {} \<and> dirty_blocks t = dirty_blocks s \<and>
     wrote s (log_writes s i) t \<and> bview t = apply_writes (log_writes s i) (bview s)"
  have "\<exists>u. rfold write_log_step [0..<nat (lh_n s)] s = Ok u \<and> ?P (nat (lh_n s)) u"
  proof (rule rfold_upt_total)
    show "?P 0 s" using inv h by (simp add: log_writes_def)
  next
    fix i t assume i: "i < nat (lh_n s)" and P: "?P i t"
    note w = wrote_log[of s "log_writes s i" t] wrote_bio[of s "log_writes s i" t]
    note lb = log_block_lt[OF wf i] and hb = home_block[OF wf(2) i]
    have "lh_block s i \<notin> fst ` set (log_writes s i)"
      using hb(2) lb(1) i wf by (auto simp: log_writes_def log_region_def head_wf_def)
    then have v: "bview t (lh_block s i) = bview s (lh_block s i)"
      using P by (simp add: apply_writes_other)
    obtain u where u: "write_log_step i t = Ok u" "bio_inv u" "held u = {}"
      "bview u = (bview t)(log_start s + i + 1 := bview t (lh_block s i))"
      "dirty_blocks u = dirty_blocks t"
      "wrote t [(log_start s + i + 1, bview t (lh_block s i))] u"
      by (rule write_log_step_Ok[of t "log_start s + i + 1" i "lh_block s i"])
        (use P w lb hb wf dirty card_logged_NBUF[OF wf] in \<open>auto simp: log_wf_def\<close>)
    have "wrote s (log_writes s (Suc i)) u"
      using wrote_trans[of s "log_writes s i" t _ u] P u(6) v by (simp add: log_writes_def)
    then show "\<exists>u. write_log_step i t = Ok u \<and> ?P (Suc i) u"
      using u P v by (intro exI[of _ u]) (simp add: log_writes_def)
  qed
  then show thesis using that by (auto simp: write_log_def)
qed

lemma install_trans_Ok:
  assumes inv: "bio_inv s" and h: "held s = {}" and wf: "log_wf s" "head_wf s"
    and dirty: "dirty_blocks s = logged s \<or> dirty_blocks s = {}"
  obtains u where "install_trans s = Ok u" and "bio_inv u" and "held u = {}"
    and "dirty_blocks u = {}" and "wrote s (home_writes s (nat (lh_n s))) u"
    and "bview u = apply_writes (home_writes s (nat (lh_n s))) (bview s)"
proof -
  let ?P = "\<lambda>i t. bio_inv t \<and> held t = {} \<and> dirty_blocks t = dirty_blocks s - lh_block s ` {..<i} \<and>
     wrote s (home_writes s i) t \<and> bview t = apply_writes (home_writes s i) (bview s)"
  have "\<exists>u. rfold install_step [0..<nat (lh_n s)] s = Ok u \<and> ?P (nat (lh_n s)) u"
  proof (rule rfold_upt_total)
    show "?P 0 s" using inv h by (simp add: home_writes_def)
  next
    fix i t assume i: "i < nat (lh_n s)" and P: "?P i t"
    note w = wrote_log[of s "home_writes s i" t] wrote_bio[of s "home_writes s i" t]
    note lb = log_block_lt[OF wf i] and hb = home_block[OF wf(2) i]
    have "log_start s + i + 1 \<notin> fst ` set (home_writes s i)"
      using lb(3) i by (auto simp: home_writes_def logged_def)
    then have v: "bview t (log_start s + i + 1) = bview s (log_start s + i + 1)"
      using P by (simp add: apply_writes_other)
    have sub: "dirty_blocks t \<subseteq> logged s" using P dirty by auto
    then have c: "card (dirty_blocks t) < NBUF"
      using card_mono[OF finite_logged sub] card_logged_NBUF[OF wf] by simp
    have "lh_block s i \<notin> lh_block s ` {..<i}"
      using wf(2) i by (auto simp: head_wf_def dest!: inj_onD)
    then have f2: "lh_block s i \<in> dirty_blocks t \<or> card (insert (log_start s + i + 1) (dirty_blocks t)) < NBUF"
      using P dirty hb(3) by (auto simp: NBUF_def)
    obtain u where u: "install_step i t = Ok u" "bio_inv u" "held u = {}"
      "bview u = (bview t)(lh_block s i := bview t (log_start s + i + 1))"
      "dirty_blocks u = dirty_blocks t - {lh_block s i}"
      "wrote t [(lh_block s i, bview t (log_start s + i + 1))] u"
      by (rule install_step_Ok[of t "log_start s + i + 1" i "lh_block s i"])
        (use P w lb hb wf c f2 in \<open>auto simp: log_wf_def\<close>)
    have "wrote s (home_writes s (Suc i)) u"
      using wrote_trans[of s "home_writes s i" t _ u] P u(6) v by (simp add: home_writes_def)
    then show "\<exists>u. install_step i t = Ok u \<and> ?P (Suc i) u"
      using u P v by (intro exI[of _ u]) (auto simp: home_writes_def lessThan_Suc)
  qed
  then show thesis using that dirty by (auto simp: install_trans_def logged_def)
qed

section \<open>The header block\<close>

lemma get32_put_blocks:
  "get32 (foldl (\<lambda>d i. put32 (4 + 4 * i) (blk i) d) d [0..<k]) (4 + 4 * j) =
     (if j < k then blk j mod 4294967296 else get32 d (4 + 4 * j))"
proof (induction k)
  case (Suc k)
  show ?case
  proof (cases "j = k")
    case True
    then show ?thesis by simp
  next
    case False
    then have "4 + 4 * k + 4 \<le> 4 + 4 * j \<or> 4 + 4 * j + 4 \<le> 4 + 4 * k" by auto
    then show ?thesis using Suc False by (simp add: get32_put32_other)
  qed
qed simp

lemma get_int_put_blocks:
  "get_int (foldl (\<lambda>d i. put32 (4 + 4 * i) (blk i) d) d [0..<k]) 0 = get_int d 0"
  by (induction k) (simp_all add: get_int_put32_other)

lemma enc_head_n:
  "0 \<le> n \<Longrightarrow> n \<le> LOGSIZE \<Longrightarrow> get_int (enc_head n blk d) 0 = n"
  unfolding enc_head_def get_int_put_blocks by (rule get_int_put_int) (auto simp: consts_defs)

lemma enc_head_block:
  "i < nat n \<Longrightarrow> get32 (enc_head n blk d) (4 + 4 * i) = blk i mod 4294967296"
  unfolding enc_head_def get32_put_blocks by simp

section \<open>Commit\<close>

lemma cached_log_upd [simp]:
  "cached (s\<lparr>lh_n := x\<rparr>) = cached s" "cached (s\<lparr>lh_block := bl\<rparr>) = cached s"
  "cached (s\<lparr>log_committing := c\<rparr>) = cached s" "cached (s\<lparr>log_outstanding := m\<rparr>) = cached s"
  by (simp_all add: fun_eq_iff cached_def)

lemma bio_log_upd [simp]:
  "bio_inv (s\<lparr>lh_n := x\<rparr>) = bio_inv s" "bview (s\<lparr>lh_n := x\<rparr>) = bview s"
  "held (s\<lparr>lh_n := x\<rparr>) = held s" "dirty_blocks (s\<lparr>lh_n := x\<rparr>) = dirty_blocks s"
  "bio_inv (s\<lparr>lh_block := bl\<rparr>) = bio_inv s" "bview (s\<lparr>lh_block := bl\<rparr>) = bview s"
  "held (s\<lparr>lh_block := bl\<rparr>) = held s" "dirty_blocks (s\<lparr>lh_block := bl\<rparr>) = dirty_blocks s"
  "bio_inv (s\<lparr>log_committing := c\<rparr>) = bio_inv s" "bview (s\<lparr>log_committing := c\<rparr>) = bview s"
  "held (s\<lparr>log_committing := c\<rparr>) = held s" "dirty_blocks (s\<lparr>log_committing := c\<rparr>) = dirty_blocks s"
  "bio_inv (s\<lparr>log_outstanding := m\<rparr>) = bio_inv s" "bview (s\<lparr>log_outstanding := m\<rparr>) = bview s"
  "held (s\<lparr>log_outstanding := m\<rparr>) = held s"
  "dirty_blocks (s\<lparr>log_outstanding := m\<rparr>) = dirty_blocks s"
  by (simp_all add: bio_inv_def buf_ok_def fun_eq_iff bview_def held_def dirty_blocks_def
      cong: option.case_cong)

lemma lh_n_same: "lh_n s = x \<Longrightarrow> s\<lparr>lh_n := x\<rparr> = s"
  by (cases s) simp

lemma wrote_lh_n: "wrote s ws t \<Longrightarrow> wrote (s\<lparr>lh_n := x\<rparr>) ws (t\<lparr>lh_n := x\<rparr>)"
  by (cases s; cases t) (simp add: wrote_def)

text \<open>The disk writes of a commit, in order.\<close>

definition commit_head :: "'a log_state_scheme \<Rightarrow> block" where
  "commit_head s = enc_head (lh_n s) (lh_block s) (bview s (log_start s))"

definition commit_home :: "'a log_state_scheme \<Rightarrow> nat \<Rightarrow> (nat \<times> block) list" where
  "commit_home s k = map (\<lambda>i. (lh_block s i, bview s (lh_block s i))) [0..<k]"

definition commit_writes :: "'a log_state_scheme \<Rightarrow> (nat \<times> block) list" where
  "commit_writes s =
     (if 0 < lh_n s then
        log_writes s (nat (lh_n s)) @ [(log_start s, commit_head s)] @
        commit_home s (nat (lh_n s)) @ [(log_start s, enc_head 0 (lh_block s) (commit_head s))]
      else [])"

lemma fst_log_writes: "fst ` set (log_writes s k) = (\<lambda>i. log_start s + i + 1) ` {..<k}"
  by (force simp: log_writes_def)

lemma fst_commit_home: "fst ` set (commit_home s k) = lh_block s ` {..<k}"
  by (force simp: commit_home_def)

lemma log_writes_at:
  "i < k \<Longrightarrow> apply_writes (log_writes s k) D (log_start s + i + 1) = bview s (lh_block s i)"
  unfolding log_writes_def by (rule apply_writes_map) (auto simp: inj_on_def)

lemma log_wf_start: "log_wf s \<Longrightarrow> log_start s < disksize s"
  by (simp add: log_wf_def)

lemma head_wf_start: "log_wf s \<Longrightarrow> head_wf s \<Longrightarrow> log_start s \<notin> logged s"
  by (auto simp: log_wf_def head_wf_def log_region_def)

lemma log_wf_wrote: "wrote s ws t \<Longrightarrow> log_wf t = log_wf s"
  by (simp add: log_wf_def wrote_log wrote_bio)

lemma head_wf_wrote: "wrote s ws t \<Longrightarrow> head_wf t = head_wf s"
  by (simp add: head_wf_def logged_def log_region_def wrote_log wrote_bio)

lemma logged_wrote: "wrote s ws t \<Longrightarrow> logged t = logged s"
  by (simp add: logged_def wrote_log)

lemma commit_Ok:
  assumes li: "log_inv s" and h: "held s = {}"
  obtains u where "commit s = Ok u" and "bio_inv u" and "held u = {}" and "dirty_blocks u = {}"
    and "wrote (s\<lparr>lh_n := 0\<rparr>) (commit_writes s) u"
    and "bview u = apply_writes (commit_writes s) (bview s)"
proof (cases "0 < lh_n s")
  case False
  then have "lh_n s = 0" "logged s = {}" using li by (auto simp: log_inv_def head_wf_def logged_def)
  then show thesis
    using that[of s] li h by (simp add: commit_def commit_writes_def log_inv_def lh_n_same)
next
  case pos: True
  have inv: "bio_inv s" and wf: "log_wf s" "head_wf s" and dirty: "dirty_blocks s = logged s"
    using li by (auto simp: log_inv_def)
  let ?n = "nat (lh_n s)" and ?ls = "log_start s"
  note c = card_logged_NBUF[OF wf] and ls = log_wf_start[OF wf(1)] and lsn = head_wf_start[OF wf]
  obtain s1 where s1: "write_log s = Ok s1" "bio_inv s1" "held s1 = {}" "dirty_blocks s1 = dirty_blocks s"
      "wrote s (log_writes s ?n) s1" "bview s1 = apply_writes (log_writes s ?n) (bview s)"
    by (rule write_log_Ok[OF li h])
  have v1: "bview s1 ?ls = bview s ?ls"
    unfolding s1(6) by (rule apply_writes_other) (auto simp: fst_log_writes)
  obtain s2 where s2: "write_head s1 = Ok s2" "bio_inv s2" "held s2 = {}"
      "bview s2 = (bview s1)(?ls := commit_head s)" "dirty_blocks s2 = dirty_blocks s1 - {?ls}"
      "wrote s1 [(?ls, commit_head s)] s2"
    by (rule write_head_Ok[OF s1(2,3)])
      (use wf ls c dirty s1(4) wrote_log[OF s1(5)] wrote_bio[OF s1(5)] v1
        in \<open>auto simp: log_wf_def commit_head_def\<close>)
  note w2 = wrote_trans[OF s1(5) s2(6)]
  have v2: "bview s2 (?ls + i + 1) = bview s (lh_block s i)" if "i < ?n" for i
    using that by (simp add: s2(4) s1(6) log_writes_at[of i ?n s, simplified])
  have hw: "home_writes s2 ?n = commit_home s ?n"
    using v2 by (simp add: home_writes_def commit_home_def wrote_log[OF w2])
  obtain s3 where s3: "install_trans s2 = Ok s3" "bio_inv s3" "held s3 = {}" "dirty_blocks s3 = {}"
      "wrote s2 (commit_home s ?n) s3" "bview s3 = apply_writes (commit_home s ?n) (bview s2)"
    by (rule install_trans_Ok[OF s2(2,3)])
      (use wf lsn dirty s1(4) s2(5) hw in \<open>auto simp: log_wf_wrote[OF w2] head_wf_wrote[OF w2]
        logged_wrote[OF w2] wrote_log[OF w2]\<close>)
  note w3 = wrote_trans[OF w2 s3(5)]
  have v3: "bview s3 ?ls = commit_head s"
    using lsn by (subst s3(6), subst apply_writes_other) (auto simp: fst_commit_home s2(4) logged_def)
  let ?h0 = "enc_head 0 (lh_block s) (commit_head s)"
  obtain s4 where s4: "write_head (s3\<lparr>lh_n := 0\<rparr>) = Ok s4" "bio_inv s4" "held s4 = {}"
      "bview s4 = (bview s3)(?ls := ?h0)" "dirty_blocks s4 = dirty_blocks s3 - {?ls}"
      "wrote (s3\<lparr>lh_n := 0\<rparr>) [(?ls, ?h0)] s4"
    by (rule write_head_Ok[of "s3\<lparr>lh_n := 0\<rparr>"])
      (use s3 wf ls v3 wrote_log[OF w3] wrote_bio[OF w3] in \<open>auto simp: log_wf_def NBUF_def\<close>)
  have "commit s = Ok s4" using pos s1 s2 s3 s4 by (simp add: commit_def)
  moreover have "wrote (s\<lparr>lh_n := 0\<rparr>) (commit_writes s) s4"
    using wrote_trans[OF wrote_lh_n[OF w3, of 0] s4(6)] pos by (simp add: commit_writes_def)
  moreover have "bview s4 = apply_writes (commit_writes s) (bview s)"
    using pos by (simp add: commit_writes_def s4(4) s3(6) s2(4) s1(6))
  ultimately show thesis using that s4 s3 by simp
qed

end
