(* ===== verification/Txn.thy ===== *)
theory Txn
  imports Log
begin

text \<open>
  What the file system relies on when it works inside a transaction: between \<open>begin_op\<close> and
  \<open>end_op\<close> a block is read with \<open>bread\<close>, changed, recorded with \<open>log_write\<close> and
  released with \<open>brelse\<close>.  \<open>tx s k V t\<close> says that such steps lead from \<open>s\<close> to \<open>t\<close>,
  that readers then see the blocks \<open>V\<close>, and that at most \<open>k\<close> log slots were used.
\<close>

section \<open>States of one transaction\<close>

definition same :: "'a log_state_scheme \<Rightarrow> 'a log_state_scheme \<Rightarrow> bool" where
  "same s t \<longleftrightarrow> t = s\<lparr>bufs := bufs t, lru := lru t, lh_n := lh_n t, lh_block := lh_block t\<rparr>"

lemma same_refl [simp]: "same s s"
  by (simp add: same_def)

lemma same_log:
  assumes "same s t"
  shows "disk t = disk s" and "disksize t = disksize s" and "wlog t = wlog s" and "curpid t = curpid s"
    and "log_start t = log_start s" and "log_size t = log_size s"
    and "log_outstanding t = log_outstanding s" and "log_committing t = log_committing s"
    and "log_dev t = log_dev s" and "log_state.more t = log_state.more s"
  using assms by (cases s; cases t; simp add: same_def)+

lemma same_region: "same s t \<Longrightarrow> log_region t = log_region s"
  by (simp add: log_region_def same_log)

lemma same_trans: "same s t \<Longrightarrow> same t u \<Longrightarrow> same s u"
  by (cases s; cases t; cases u) (simp add: same_def)

lemma wrote_same: "wrote s [] t \<Longrightarrow> same s t"
  by (cases s; cases t) (simp add: wrote_def same_def)

text \<open>
  \<open>room s k h\<close>: the running transaction may still log \<open>k\<close> blocks, and \<open>h\<close> more buffers can be
  held at a time.
\<close>

definition room :: "'a log_state_scheme \<Rightarrow> nat \<Rightarrow> nat \<Rightarrow> bool" where
  "room s k h \<longleftrightarrow> log_inv s \<and> (0 < k \<longrightarrow> 1 \<le> log_outstanding s) \<and>
     lh_n s + int k < int (log_size s) \<and> card (held s) + nat (lh_n s) + k + h \<le> NBUF"

definition tx :: "'a log_state_scheme \<Rightarrow> nat \<Rightarrow> (nat \<Rightarrow> block) \<Rightarrow> 'a log_state_scheme \<Rightarrow> bool" where
  "tx s k V t \<longleftrightarrow> log_inv t \<and> bview t = V \<and> lh_n s \<le> lh_n t \<and> lh_n t \<le> lh_n s + int k \<and>
     held t = held s \<and> (\<forall>i\<in>held s. bufs t i = bufs s i) \<and> logged s \<subseteq> logged t \<and> same s t"

lemma tx_refl: "log_inv s \<Longrightarrow> tx s k (bview s) s"
  by (simp add: tx_def)

lemma tx_trans: "tx s j V t \<Longrightarrow> tx t k W u \<Longrightarrow> tx s (j + k) W u"
  by (auto simp: tx_def intro: same_trans)

lemma tx_mono: "tx s j V t \<Longrightarrow> j \<le> k \<Longrightarrow> tx s k V t"
  by (auto simp: tx_def)

lemma tx_same: "tx s k V t \<Longrightarrow> same s t"
  by (simp add: tx_def)

lemma tx_view: "tx s k V t \<Longrightarrow> bview t = V"
  by (simp add: tx_def)

lemma tx_held: "tx s k V t \<Longrightarrow> held t = held s"
  by (simp add: tx_def)

lemma tx_held_blocks: "tx s k V t \<Longrightarrow> held_blocks t = held_blocks s"
  by (simp add: tx_def held_blocks_def)

lemma tx_room: "tx s j V t \<Longrightarrow> room s (j + k) h \<Longrightarrow> room t k h"
  by (auto simp: tx_def room_def same_log)

lemma room_mono: "room s k h \<Longrightarrow> j \<le> k \<Longrightarrow> i \<le> h \<Longrightarrow> room s j i"
  by (auto simp: room_def)

lemma room_inv: "room s k h \<Longrightarrow> log_inv s"
  by (simp add: room_def)

lemma log_inv_bio: "log_inv s \<Longrightarrow> bio_inv s"
  by (simp add: log_inv_def)

lemma finite_held [simp]: "finite (held s)"
  by (simp add: held_def)

section \<open>Reading a block\<close>

lemma log_inv_cache:
  assumes "log_inv s" and "wrote s [] t" and "bio_inv t" and "dirty_blocks t = dirty_blocks s"
  shows "log_inv t"
  using assms log_wf_wrote[OF assms(2)] head_wf_wrote[OF assms(2)] logged_wrote[OF assms(2)]
    wrote_log[OF assms(2)] wrote_disk[OF assms(2)]
  by (simp add: log_inv_def)

lemma block_access:
  assumes rm: "room s k (Suc h)" and b: "b < disksize s" "b \<notin> held_blocks s"
  obtains i t where "bread ROOTDEV b s = Ok (i, t)" and "i \<notin> held s" and "held t = insert i (held s)"
    and "held_blocks t = insert b (held_blocks s)" and "b_blockno (bufs t i) = b"
    and "b_data (bufs t i) = bview s b" and "bview t = bview s" and "room t k h" and "same s t"
    and "lh_n t = lh_n s" and "logged t = logged s" and "\<forall>j\<in>held s. bufs t j = bufs s j"
proof -
  have li: "log_inv s" and inv: "bio_inv s" using rm by (auto simp: room_def log_inv_def)
  have "card (held_blocks s \<union> dirty_blocks s) \<le> card (held_blocks s) + card (dirty_blocks s)"
    by (rule card_Un_le)
  also have "card (held_blocks s) \<le> card (held s)" unfolding held_blocks_def by (rule card_image_le) simp
  also have "card (dirty_blocks s) \<le> nat (lh_n s)" using li card_logged[of s] by (simp add: log_inv_def)
  finally have "card (held_blocks s \<union> dirty_blocks s) < NBUF" using rm by (simp add: room_def)
  then obtain i t where t: "bread ROOTDEV b s = Ok (i, t)" "bio_inv t" "bview t = bview s"
      "dirty_blocks t = dirty_blocks s" "held t = insert i (held s)" "i \<notin> held s"
      "held_blocks t = insert b (held_blocks s)" "b_blockno (bufs t i) = b"
      "b_data (bufs t i) = bview s b" "\<forall>j. j \<noteq> i \<longrightarrow> bufs t j = bufs s j" "wrote s [] t"
    by (metis bread_Ok[OF inv b])
  have "room t k h"
    using rm log_inv_cache[OF li t(11,2,4)] wrote_log[OF t(11)] t(5,6) by (simp add: room_def)
  moreover have "\<forall>j\<in>held s. bufs t j = bufs s j" using t(6,10) by metis
  ultimately show thesis
    using that[OF t(1,6,5,7,8,9,3)] wrote_same[OF t(11)] wrote_log(4)[OF t(11)] logged_wrote[OF t(11)]
    by simp
qed

lemma release:
  assumes li: "log_inv s" and i: "i \<in> held s"
  obtains u where "brelse i s = Ok u" and "log_inv u" and "bview u = bview s" and "held u = held s - {i}"
    and "same s u" and "lh_n u = lh_n s" and "logged u = logged s" and "\<forall>j. j \<noteq> i \<longrightarrow> bufs u j = bufs s j"
proof -
  have inv: "bio_inv s" using li by (rule log_inv_bio)
  note r = rel_buf_inv[OF inv i]
  have w: "wrote s [] (rel_buf i s)" by (rule rel_buf_wrote)
  then have "log_inv (rel_buf i s)" by (rule log_inv_cache[OF li]) (use r in auto)
  moreover have "\<forall>j. j \<noteq> i \<longrightarrow> bufs (rel_buf i s) j = bufs s j" by (simp add: rel_buf_def)
  ultimately show thesis
    using that[OF brelse_eq[OF inv i]] r wrote_same[OF w] wrote_log(4)[OF w] logged_wrote[OF w] by simp
qed

section \<open>Recording a write\<close>

text \<open>The slot \<open>log_write\<close> uses: the one that already names the block, else the next free one.\<close>

lemma log_slot_cases:
  assumes "0 \<le> lh_n s"
  shows "if bno \<in> logged s then log_slot s bno < nat (lh_n s) \<and> lh_block s (log_slot s bno) = bno
         else log_slot s bno = nat (lh_n s)"
proof (cases "find (\<lambda>i. lh_block s i = bno) [0..<nat (lh_n s)]")
  case None
  then have "bno \<notin> logged s" by (auto simp: find_None_iff logged_def)
  then show ?thesis using None by (simp add: log_slot_def)
next
  case (Some i)
  then have "i < nat (lh_n s)" "lh_block s i = bno" by (auto simp: find_Some_iff)
  then show ?thesis using Some by (auto simp: log_slot_def logged_def)
qed

definition log_entry :: "nat \<Rightarrow> 'a log_state_scheme \<Rightarrow> 'a log_state_scheme" where
  "log_entry bno s =
     (if bno \<in> logged s then s
      else s\<lparr>lh_block := (lh_block s)(nat (lh_n s) := bno), lh_n := lh_n s + 1\<rparr>)"

lemma log_write_eq:
  assumes n: "0 \<le> lh_n s" and room: "lh_n s < LOGSIZE" "lh_n s < int (log_size s) - 1"
    and out: "1 \<le> log_outstanding s"
  shows "log_write i s = Ok (log_entry (b_blockno (bufs s i)) (upd_buf i (\<lambda>b. b\<lparr>b_dirty := True\<rparr>) s))"
proof -
  let ?bno = "b_blockno (bufs s i)"
  have lg: "logged (upd_buf i f s) = logged s" for f by (simp add: logged_def upd_buf_def)
  show ?thesis
  proof (cases "?bno \<in> logged s")
    case True
    then have sl: "log_slot s ?bno < nat (lh_n s)" "lh_block s (log_slot s ?bno) = ?bno"
      using log_slot_cases[OF n, of ?bno] by auto
    then have "(lh_block s)(log_slot s ?bno := ?bno) = lh_block s" by auto
    then show ?thesis
      using sl(1) True room out by (simp add: log_write_def log_entry_def Let_def lg)
  next
    case False
    then have "log_slot s ?bno = nat (lh_n s)" using log_slot_cases[OF n, of ?bno] by simp
    then show ?thesis
      using False room out n by (simp add: log_write_def log_entry_def Let_def lg) (simp add: upd_buf_def)
  qed
qed

lemma logged_entry: "0 \<le> lh_n s \<Longrightarrow> logged (log_entry bno s) = insert bno (logged s)"
  by (auto simp: log_entry_def logged_def nat_add_distrib lessThan_Suc image_iff)

lemma log_entry_bio:
  "bio_inv (log_entry bno s) = bio_inv s" "bview (log_entry bno s) = bview s"
  "held (log_entry bno s) = held s" "dirty_blocks (log_entry bno s) = dirty_blocks s"
  "bufs (log_entry bno s) = bufs s"
  by (simp_all add: log_entry_def)

lemma head_wf_entry:
  assumes "head_wf s" and "lh_n s < int (log_size s) - 1"
    and "bno < disksize s" and "bno \<notin> log_region s" and "bno \<noteq> 1"
  shows "head_wf (log_entry bno s)"
proof (cases "bno \<in> logged s")
  case False
  let ?n = "nat (lh_n s)"
  have n: "0 \<le> lh_n s" "nat (lh_n s + 1) = Suc ?n" using assms(1) by (auto simp: head_wf_def)
  have "inj_on ((lh_block s)(?n := bno)) {..<?n}"
    using assms(1) by (subst inj_on_cong[of _ _ "lh_block s"]) (auto simp: head_wf_def)
  moreover have "bno \<notin> (lh_block s)(?n := bno) ` {..<?n}" using False by (auto simp: logged_def)
  ultimately have "inj_on ((lh_block s)(?n := bno)) {..<Suc ?n}"
    by (auto simp: lessThan_Suc)
  then have "inj_on (lh_block (log_entry bno s)) {..<nat (lh_n (log_entry bno s))}"
    using False n by (simp add: log_entry_def)
  moreover have "0 \<le> lh_n (log_entry bno s)" "lh_n (log_entry bno s) < int (log_size (log_entry bno s))"
    "disksize (log_entry bno s) = disksize s" "log_region (log_entry bno s) = log_region s"
    using False n assms(2) by (auto simp: log_entry_def log_region_def)
  ultimately show ?thesis
    using assms n by (simp add: head_wf_def logged_entry)
qed (use assms in \<open>simp add: log_entry_def\<close>)

lemma log_write_Ok:
  assumes rm: "room s (Suc k) h" and i: "i \<in> held s" and b: "b_blockno (bufs s i) = b"
    and home: "b \<notin> log_region s" "b \<noteq> 1"
  obtains u where "log_write i (set_data i d s) = Ok u" and "log_inv u" and "bview u = (bview s)(b := d)"
    and "held u = held s" and "same s u" and "lh_n s \<le> lh_n u" and "lh_n u \<le> lh_n s + 1"
    and "logged u = insert b (logged s)" and "\<forall>j. j \<noteq> i \<longrightarrow> bufs u j = bufs s j"
proof -
  have li: "log_inv s" and inv: "bio_inv s" and wf: "log_wf s" "head_wf s"
    using rm by (auto simp: room_def log_inv_def)
  have n: "0 \<le> lh_n s" "lh_n s < LOGSIZE" "lh_n s < int (log_size s) - 1" "1 \<le> log_outstanding s"
    using rm wf by (auto simp: room_def log_wf_def head_wf_def)
  let ?p = "put_buf i d True s"
  have f: "lh_n ?p = lh_n s" "log_size ?p = log_size s" "log_outstanding ?p = log_outstanding s"
    "disksize ?p = disksize s" "log_region ?p = log_region s" "logged ?p = logged s"
    "log_start ?p = log_start s" "disk ?p = disk s" "log_wf ?p = log_wf s" "head_wf ?p = head_wf s"
    by (simp_all add: put_buf_def upd_buf_def log_region_def logged_def log_wf_def head_wf_def)
  note p = put_buf_inv[OF inv i, of d, unfolded b]
  let ?u = "log_entry b ?p"
  have "upd_buf i (\<lambda>b. b\<lparr>b_dirty := True\<rparr>) (set_data i d s) = ?p"
    by (simp add: set_data_def put_buf_def upd_buf_def)
  then have w: "log_write i (set_data i d s) = Ok ?u"
    using log_write_eq[of "set_data i d s" i] n b by (simp add: set_data_def upd_buf_def)
  have hw: "head_wf ?u"
    using heldD(4)[OF inv i] b home wf n by (intro head_wf_entry) (simp_all add: f)
  have "log_wf ?u" "disk ?u = disk s" "log_start ?u = log_start s"
    using wf f by (simp_all add: log_entry_def log_wf_def)
  moreover have lg: "logged ?u = insert b (logged s)" using n by (subst logged_entry) (simp_all add: f)
  ultimately have "log_inv ?u"
    using li hw p by (simp add: log_inv_def log_entry_bio)
  moreover have "same s ?u"
    by (cases s) (simp add: same_def log_entry_def put_buf_def upd_buf_def)
  ultimately show thesis
    using that[OF w] p lg f by (auto simp: log_entry_bio) (auto simp: log_entry_def put_buf_def upd_buf_def)
qed

section \<open>Whole accesses\<close>

text \<open>A block read and released, and a block read, rewritten, logged and released.\<close>

lemma read_block:
  assumes rm: "room s k (Suc h)" and b: "b < disksize s" "b \<notin> held_blocks s"
  obtains i t u where "bread ROOTDEV b s = Ok (i, t)" and "b_data (bufs t i) = bview s b" and "same s t"
    and "brelse i t = Ok u" and "tx s 0 (bview s) u"
proof -
  obtain i t where t: "bread ROOTDEV b s = Ok (i, t)" "i \<notin> held s" "held t = insert i (held s)"
      "b_data (bufs t i) = bview s b" "bview t = bview s" "room t k h" "same s t"
      "lh_n t = lh_n s" "logged t = logged s" "\<forall>j\<in>held s. bufs t j = bufs s j"
    by (rule block_access[OF rm b])
  have i: "i \<in> held t" using t(3) by simp
  obtain u where u: "brelse i t = Ok u" "log_inv u" "bview u = bview t" "held u = held t - {i}"
      "same t u" "lh_n u = lh_n t" "logged u = logged t" "\<forall>j. j \<noteq> i \<longrightarrow> bufs u j = bufs t j"
    by (rule release[OF room_inv[OF t(6)] i])
  have "\<forall>j\<in>held s. bufs u j = bufs s j" using t(2,10) u(8) by metis
  then have "tx s 0 (bview s) u"
    using t u same_trans[OF t(7) u(5)] by (simp add: tx_def)
  then show thesis using that t u by blast
qed

lemma update_block:
  assumes rm: "room s (Suc k) (Suc h)" and b: "b < disksize s" "b \<notin> held_blocks s"
    and home: "b \<notin> log_region s" "b \<noteq> 1"
  obtains i t where "bread ROOTDEV b s = Ok (i, t)" and "b_data (bufs t i) = bview s b" and "same s t"
    and "\<exists>u. brelse i t = Ok u \<and> tx s 0 (bview s) u"
    and "\<forall>d. \<exists>v w. log_write i (set_data i d t) = Ok v \<and> same s v \<and> brelse i v = Ok w \<and>
           tx s 1 ((bview s)(b := d)) w"
proof -
  obtain i t where t: "bread ROOTDEV b s = Ok (i, t)" "i \<notin> held s" "held t = insert i (held s)"
      "b_blockno (bufs t i) = b" "b_data (bufs t i) = bview s b" "bview t = bview s" "room t (Suc k) h"
      "same s t" "lh_n t = lh_n s" "logged t = logged s" "\<forall>j\<in>held s. bufs t j = bufs s j"
    by (rule block_access[OF rm b])
  have i: "i \<in> held t" using t(3) by simp
  have "\<exists>v w. log_write i (set_data i d t) = Ok v \<and> same s v \<and> brelse i v = Ok w \<and>
      tx s 1 ((bview s)(b := d)) w" for d
  proof -
    obtain v where v: "log_write i (set_data i d t) = Ok v" "log_inv v" "bview v = (bview t)(b := d)"
        "held v = held t" "same t v" "lh_n t \<le> lh_n v" "lh_n v \<le> lh_n t + 1"
        "logged v = insert b (logged t)" "\<forall>j. j \<noteq> i \<longrightarrow> bufs v j = bufs t j"
      using home same_region[OF t(8)] by (rule_tac log_write_Ok[OF t(7) i t(4)]) auto
    have iv: "i \<in> held v" using v(4) i by simp
    obtain w where w: "brelse i v = Ok w" "log_inv w" "bview w = bview v" "held w = held v - {i}"
        "same v w" "lh_n w = lh_n v" "logged w = logged v" "\<forall>j. j \<noteq> i \<longrightarrow> bufs w j = bufs v j"
      by (rule release[OF v(2) iv])
    have "\<forall>j\<in>held s. bufs w j = bufs s j" using t(2,11) v(9) w(8) by metis
    moreover have sv: "same s v" using same_trans[OF t(8) v(5)] .
    ultimately have "tx s 1 ((bview s)(b := d)) w"
      using t v w same_trans[OF sv w(5)] by (auto simp: tx_def)
    then show ?thesis using v w sv by blast
  qed
  moreover have "\<exists>u. brelse i t = Ok u \<and> tx s 0 (bview s) u"
  proof -
    obtain j t' u where "bread ROOTDEV b s = Ok (j, t')" "brelse j t' = Ok u" "tx s 0 (bview s) u"
      by (rule read_block[OF rm b])
    then show ?thesis using t(1) by auto
  qed
  ultimately show thesis using that t(1,5,8) by blast
qed

end
