(* ===== verification/Fs_Alloc.thy ===== *)
theory Fs_Alloc
  imports Txn
begin

text \<open>
  The block layer of fs.c: \<open>bzero\<close>, \<open>balloc\<close> and \<open>bfree\<close> over the free bitmap on
  disk, and the state the rest of fs.c works on: the superblock kept in memory and the inode
  cache.  A pointer to an inode is its index in \<open>icache.inode\<close>; a null result is \<open>None\<close>.
\<close>

unbundle bit_operations_syntax

section \<open>State\<close>

type_synonym short = "16 word"

record inode =
  i_dev :: nat
  i_inum :: nat
  i_ref :: int
  i_lock :: sleeplock
  i_valid :: bool
  i_type :: short
  i_major :: short
  i_minor :: short
  i_nlink :: short
  i_size :: nat
  i_addrs :: "nat \<Rightarrow> nat"

record fs_state = log_state +
  sb :: superblock
  inodes :: "nat \<Rightarrow> inode"

definition upd_inode :: "nat \<Rightarrow> (inode \<Rightarrow> inode) \<Rightarrow> 'a fs_state_scheme \<Rightarrow> 'a fs_state_scheme" where
  "upd_inode ip f s = s\<lparr>inodes := (inodes s)(ip := f (inodes s ip))\<rparr>"

section \<open>The bitmap\<close>

definition btst :: "block \<Rightarrow> nat \<Rightarrow> bool" where
  "btst d bi \<longleftrightarrow> d (bi div 8) AND push_bit (bi mod 8) 1 \<noteq> 0"

definition bset :: "nat \<Rightarrow> block \<Rightarrow> block" where
  "bset bi d = d(bi div 8 := d (bi div 8) OR push_bit (bi mod 8) 1)"

definition bclr :: "nat \<Rightarrow> block \<Rightarrow> block" where
  "bclr bi d = d(bi div 8 := d (bi div 8) AND NOT (push_bit (bi mod 8) 1))"

section \<open>Operations\<close>

definition bzero :: "nat \<Rightarrow> nat \<Rightarrow> 'a fs_state_scheme \<Rightarrow> 'a fs_state_scheme res" where
  "bzero dev bno s =
     rbind (bread dev bno s) (\<lambda>(bp, s).
     rbind (log_write bp (set_data bp zero_block s)) (\<lambda>s.
     brelse bp s))"

text \<open>
  The loop of \<open>balloc\<close>, over the first block numbers \<open>b\<close> of the bitmap blocks.  The inner
  loop looks for a clear bit among those of the file system.
\<close>

primrec balloc_loop :: "nat list \<Rightarrow> nat \<Rightarrow> 'a fs_state_scheme \<Rightarrow> (nat \<times> 'a fs_state_scheme) res" where
  "balloc_loop [] dev s = Panic ''balloc: out of blocks''"
| "balloc_loop (b # bs) dev s =
     rbind (bread dev (BBLOCK b (sb s)) s) (\<lambda>(bp, s).
     case find (\<lambda>bi. \<not> btst (b_data (bufs s bp)) bi) [0..<min BPB (sb_size (sb s) - b)] of
       Some bi \<Rightarrow>
         rbind (log_write bp (set_data bp (bset bi (b_data (bufs s bp))) s)) (\<lambda>s.
         rbind (brelse bp s) (\<lambda>s.
         rbind (bzero dev (b + bi) s) (\<lambda>s.
         Ok (b + bi, s))))
     | None \<Rightarrow> rbind (brelse bp s) (balloc_loop bs dev))"

definition balloc :: "nat \<Rightarrow> 'a fs_state_scheme \<Rightarrow> (nat \<times> 'a fs_state_scheme) res" where
  "balloc dev s =
     balloc_loop (map (\<lambda>k. k * BPB) [0..<(sb_size (sb s) + BPB - 1) div BPB]) dev s"

definition bfree :: "nat \<Rightarrow> nat \<Rightarrow> 'a fs_state_scheme \<Rightarrow> 'a fs_state_scheme res" where
  "bfree dev b s =
     rbind (readsb dev s) (\<lambda>(sb', s).
     let s = s\<lparr>sb := sb'\<rparr> in
     rbind (bread dev (BBLOCK b (sb s)) s) (\<lambda>(bp, s).
     let bi = b mod BPB in
     if \<not> btst (b_data (bufs s bp)) bi then Panic ''freeing free block''
     else
       rbind (log_write bp (set_data bp (bclr bi (b_data (bufs s bp))) s)) (\<lambda>s.
       brelse bp s)))"

section \<open>Layout invariant\<close>

definition datastart :: "superblock \<Rightarrow> nat" where
  "datastart sp = sb_bmapstart sp + (sb_size sp + BPB - 1) div BPB"

text \<open>
  The areas of the disk in the order of fs.h, the copy of the superblock in memory up to date,
  and every block before the data blocks marked in use.
\<close>

definition used :: "superblock \<Rightarrow> (nat \<Rightarrow> block) \<Rightarrow> nat \<Rightarrow> bool" where
  "used sp V b \<longleftrightarrow> btst (V (BBLOCK b sp)) (b mod BPB)"

definition lay :: "superblock \<Rightarrow> bool" where
  "lay sp \<longleftrightarrow> 1 < sb_logstart sp \<and> sb_logstart sp + sb_nlog sp \<le> sb_inodestart sp \<and>
     sb_inodestart sp + sb_ninodes sp div IPB < sb_bmapstart sp \<and> datastart sp \<le> sb_size sp"

definition meta_used :: "superblock \<Rightarrow> (nat \<Rightarrow> block) \<Rightarrow> bool" where
  "meta_used sp V \<longleftrightarrow> dec_superblock (V 1) = sp \<and> (\<forall>b<datastart sp. used sp V b)"

definition fs_lay :: "'a fs_state_scheme \<Rightarrow> bool" where
  "fs_lay s \<longleftrightarrow> lay (sb s) \<and> sb_logstart (sb s) = log_start s \<and> sb_nlog (sb s) = log_size s \<and>
     sb_size (sb s) \<le> disksize s \<and> meta_used (sb s) (bview s)"

section \<open>Bits\<close>

lemma btst_bit: "btst d bi = bit (d (bi div 8)) (bi mod 8)"
  by (simp add: btst_def and_exp_eq_0_iff_not_bit)

lemma div_mod_eq: "(bi :: nat) div 8 = bj div 8 \<Longrightarrow> bi mod 8 = bj mod 8 \<Longrightarrow> bi = bj"
  by (metis div_mult_mod_eq)

lemma bit_push_1: "bit (2 ^ k :: byte) n \<longleftrightarrow> n = k \<and> k < 8"
  by (auto simp: bit_exp_iff possible_bit_def)

lemma btst_bset [simp]: "btst (bset bi d) bj \<longleftrightarrow> bj = bi \<or> btst d bj"
  by (auto simp: btst_bit bset_def bit_or_iff bit_push_1 dest: div_mod_eq)

lemma btst_bclr [simp]: "btst (bclr bi d) bj \<longleftrightarrow> bj \<noteq> bi \<and> btst d bj"
  by (auto simp: btst_bit bclr_def bit_and_iff bit_not_iff bit_push_1 dest: div_mod_eq)

section \<open>Allocating and freeing on the view\<close>

definition mark_used :: "superblock \<Rightarrow> nat \<Rightarrow> (nat \<Rightarrow> block) \<Rightarrow> (nat \<Rightarrow> block)" where
  "mark_used sp b V = V(BBLOCK b sp := bset (b mod BPB) (V (BBLOCK b sp)))"

definition mark_free :: "superblock \<Rightarrow> nat \<Rightarrow> (nat \<Rightarrow> block) \<Rightarrow> (nat \<Rightarrow> block)" where
  "mark_free sp b V = V(BBLOCK b sp := bclr (b mod BPB) (V (BBLOCK b sp)))"

lemma BBLOCK_eq: "BBLOCK a sp = BBLOCK b sp \<Longrightarrow> a mod BPB = b mod BPB \<Longrightarrow> a = b"
  unfolding BBLOCK_def by (metis add_right_cancel div_mult_mod_eq)

lemma used_mark_used [simp]: "used sp (mark_used sp b V) c \<longleftrightarrow> c = b \<or> used sp V c"
  by (auto simp: used_def mark_used_def dest: BBLOCK_eq)

lemma used_mark_free [simp]: "used sp (mark_free sp b V) c \<longleftrightarrow> c \<noteq> b \<and> used sp V c"
  by (auto simp: used_def mark_free_def dest: BBLOCK_eq)

lemma BBLOCK_lt: "b < sb_size sp \<Longrightarrow> BBLOCK b sp < datastart sp"
  unfolding BBLOCK_def datastart_def
  by (simp add: less_Suc_eq_le div_le_mono BPB_def BSIZE_def)

lemma BBLOCK_ge: "sb_bmapstart sp \<le> BBLOCK b sp"
  by (simp add: BBLOCK_def)

text \<open>A block outside the bitmap leaves the marks alone.\<close>

lemma used_data:
  "b < sb_size sp \<Longrightarrow> datastart sp \<le> c \<Longrightarrow> used sp (V(c := d)) b \<longleftrightarrow> used sp V b"
  using BBLOCK_lt[of b sp] by (auto simp: used_def)

lemma used_low:
  "c < sb_bmapstart sp \<Longrightarrow> used sp (V(c := d)) b \<longleftrightarrow> used sp V b"
  using BBLOCK_ge[of sp b] by (auto simp: used_def)

lemma mark_1: "lay sp \<Longrightarrow> mark_used sp b V 1 = V 1" "lay sp \<Longrightarrow> mark_free sp b V 1 = V 1"
  using BBLOCK_ge[of sp b] by (auto simp: lay_def mark_used_def mark_free_def)

lemma meta_used_alloc: "lay sp \<Longrightarrow> meta_used sp V \<Longrightarrow> meta_used sp (mark_used sp b V)"
  by (simp add: meta_used_def mark_1[simplified])

lemma meta_used_free:
  "lay sp \<Longrightarrow> meta_used sp V \<Longrightarrow> datastart sp \<le> b \<Longrightarrow> meta_used sp (mark_free sp b V)"
  by (simp add: meta_used_def mark_1[simplified])

lemma lay_bounds:
  assumes "lay sp"
  shows "1 < datastart sp" and "sb_logstart sp + sb_nlog sp \<le> sb_bmapstart sp"
    and "sb_bmapstart sp \<le> datastart sp"
  using assms by (auto simp: lay_def datastart_def)

lemma meta_used_data:
  "lay sp \<Longrightarrow> meta_used sp V \<Longrightarrow> datastart sp \<le> c \<Longrightarrow> meta_used sp (V(c := d))"
  using lay_bounds(1)[of sp] used_data[of _ sp c V d] by (auto simp: meta_used_def lay_def)

section \<open>The operations\<close>

lemma same_fs:
  assumes "same s t"
  shows "sb t = sb s" and "inodes t = inodes s"
  using assms by (cases s; cases t; simp add: same_def)+

lemma fs_lay_region:
  assumes "fs_lay s"
  shows "b \<in> log_region s \<Longrightarrow> b < sb_bmapstart (sb s)" and "b \<in> log_region s \<Longrightarrow> 1 < b"
  using assms by (auto simp: fs_lay_def lay_def log_region_def)

text \<open>Data blocks are neither in the log nor the superblock; the same holds of bitmap blocks.\<close>

lemma fs_lay_home:
  assumes "fs_lay s" and "sb_bmapstart (sb s) \<le> b"
  shows "b \<notin> log_region s" and "b \<noteq> 1"
  using assms fs_lay_region(1)[OF assms(1), of b] by (force simp: fs_lay_def lay_def)+

lemma fs_lay_tx:
  assumes "fs_lay s" and "tx s k V t" and "meta_used (sb s) V"
  shows "fs_lay t"
  using assms tx_view[OF assms(2)] same_fs[OF tx_same[OF assms(2)]] same_log[OF tx_same[OF assms(2)]]
  by (simp add: fs_lay_def)

lemma bzero_Ok:
  assumes "room s (Suc k) (Suc h)" and "b < disksize s" and "b \<notin> held_blocks s"
    and "b \<notin> log_region s" and "b \<noteq> 1"
  shows "\<exists>t. bzero ROOTDEV b s = Ok t \<and> tx s 1 ((bview s)(b := zero_block)) t"
proof -
  obtain i t where t: "bread ROOTDEV b s = Ok (i, t)"
    "\<forall>d. \<exists>v w. log_write i (set_data i d t) = Ok v \<and> same s v \<and> brelse i v = Ok w \<and>
           tx s 1 ((bview s)(b := d)) w"
    by (rule update_block[OF assms])
  obtain v w where "log_write i (set_data i zero_block t) = Ok v" "brelse i v = Ok w"
    "tx s 1 ((bview s)(b := zero_block)) w" using t(2) by blast
  then show ?thesis using t(1) by (simp add: bzero_def)
qed

lemma find_upt_first:
  assumes "\<not> P i" and "\<And>j. j < i \<Longrightarrow> P j" and "i < n"
  shows "find (\<lambda>i. \<not> P i) [0..<n] = Some i"
  using assms by (auto simp: find_Some_iff intro!: exI[of _ i])

lemma BPB_pos: "0 < BPB"
  by (simp add: BPB_def BSIZE_def)

lemma used_in_block: "bi < BPB \<Longrightarrow> btst (V (BBLOCK (k * BPB) sp)) bi = used sp V (k * BPB + bi)"
  by (simp add: used_def BBLOCK_def)

text \<open>Blocks the running process may hold while it allocates: data blocks in use.\<close>

definition held_data :: "'a fs_state_scheme \<Rightarrow> bool" where
  "held_data s \<longleftrightarrow> (\<forall>x\<in>held_blocks s. datastart (sb s) \<le> x \<and> used (sb s) (bview s) x)"

lemma held_data_empty: "held s = {} \<Longrightarrow> held_data s"
  by (simp add: held_data_def held_blocks_def)

lemma balloc_found:
  assumes rm: "room s (Suc (Suc k)) (Suc h)" and fl: "fs_lay s" and hd: "held_data s"
    and b: "b < sb_size (sb s)" "\<not> used (sb s) (bview s) b"
    and first: "\<And>c. b div BPB * BPB \<le> c \<Longrightarrow> c < b \<Longrightarrow> used (sb s) (bview s) c"
  shows "\<exists>t. balloc_loop (b div BPB * BPB # bs) ROOTDEV s = Ok (b, t) \<and>
     tx s 2 ((mark_used (sb s) b (bview s))(b := zero_block)) t"
proof -
  let ?sp = "sb s" and ?V = "bview s" and ?B = "BBLOCK b (sb s)" and ?base = "b div BPB * BPB"
  have B: "BBLOCK ?base ?sp = ?B" using BPB_pos by (simp add: BBLOCK_def)
  have dB: "?B < disksize s" using BBLOCK_lt[OF b(1)] fl by (simp add: fs_lay_def lay_def)
  have hB: "?B \<notin> held_blocks s" using hd BBLOCK_lt[OF b(1)] by (auto simp: held_data_def)
  have db: "datastart ?sp \<le> b" using fl b by (auto simp: fs_lay_def meta_used_def not_less[symmetric])
  note homeB = fs_lay_home[OF fl BBLOCK_ge, of b]
  obtain i t where t: "bread ROOTDEV ?B s = Ok (i, t)" "b_data (bufs t i) = ?V ?B" "same s t"
      "\<forall>d. \<exists>v w. log_write i (set_data i d t) = Ok v \<and> same s v \<and> brelse i v = Ok w \<and>
           tx s 1 (?V(?B := d)) w"
    by (rule update_block[OF rm dB hB homeB])
  have "find (\<lambda>bi. \<not> btst (?V ?B) bi) [0..<min BPB (sb_size ?sp - ?base)] = Some (b mod BPB)"
  proof (rule find_upt_first)
    show "\<not> btst (?V ?B) (b mod BPB)" using b(2) by (simp add: used_def)
    show "b mod BPB < min BPB (sb_size ?sp - ?base)"
      using b(1) BPB_pos div_mult_mod_eq[of b BPB] by (simp add: less_diff_conv add.commute)
    fix j assume "j < b mod BPB"
    then show "btst (?V ?B) j"
      using first[of "?base + j"] used_in_block[of j ?V "b div BPB" ?sp] B BPB_pos
      by (metis add_less_cancel_left div_mult_mod_eq le_add1 less_trans mod_less_divisor)
  qed
  moreover obtain v w where vw: "log_write i (set_data i (bset (b mod BPB) (?V ?B)) t) = Ok v"
      "brelse i v = Ok w" "tx s 1 (mark_used ?sp b ?V) w"
    using t(4) by (metis mark_used_def)
  moreover have "room w (Suc k) (Suc h)" using tx_room[OF vw(3)] rm by simp
  then have "\<exists>u. bzero ROOTDEV b w = Ok u \<and> tx w 1 ((bview w)(b := zero_block)) u"
    using b db hd fs_lay_home[OF fl, of b] lay_bounds(3)[of ?sp] fl
    by (intro bzero_Ok[of w k h])
      (auto simp: same_log[OF tx_same[OF vw(3)]] same_region[OF tx_same[OF vw(3)]]
        tx_held_blocks[OF vw(3)] held_data_def fs_lay_def)
  ultimately show ?thesis
    using t(1,2) B same_fs(1)[OF t(3)] tx_trans[OF vw(3), of 1] tx_view[OF vw(3)] by (auto simp: numeral_2_eq_2)
qed

lemma balloc_skip:
  assumes rm: "room s k (Suc h)" and fl: "fs_lay s" and hd: "held_data s"
    and j: "j * BPB < sb_size (sb s)"
    and full: "\<And>c. j * BPB \<le> c \<Longrightarrow> c < Suc j * BPB \<Longrightarrow> c < sb_size (sb s) \<Longrightarrow> used (sb s) (bview s) c"
  shows "\<exists>u. balloc_loop (j * BPB # bs) ROOTDEV s = balloc_loop bs ROOTDEV u \<and> tx s 0 (bview s) u"
proof -
  let ?B = "BBLOCK (j * BPB) (sb s)"
  have dB: "?B < disksize s" using BBLOCK_lt[OF j] fl by (simp add: fs_lay_def lay_def)
  have hB: "?B \<notin> held_blocks s" using hd BBLOCK_lt[OF j] by (auto simp: held_data_def)
  obtain i t u where t: "bread ROOTDEV ?B s = Ok (i, t)" "b_data (bufs t i) = bview s ?B" "same s t"
      "brelse i t = Ok u" "tx s 0 (bview s) u"
    by (rule read_block[OF rm dB hB])
  have "find (\<lambda>bi. \<not> btst (bview s ?B) bi) [0..<min BPB (sb_size (sb s) - j * BPB)] = None"
    using full by (auto simp: find_None_iff used_in_block)
  then show ?thesis using t same_fs(1)[OF t(3)] by auto
qed

lemma fs_lay_same_view:
  assumes "fs_lay s" and "held_data s" and "tx s 0 (bview s) u"
  shows "fs_lay u" and "held_data u" and "sb u = sb s" and "bview u = bview s"
proof -
  show sb: "sb u = sb s" using same_fs(1)[OF tx_same[OF assms(3)]] .
  show v: "bview u = bview s" using tx_view[OF assms(3)] .
  show "fs_lay u" using fs_lay_tx[OF assms(1,3)] assms(1) by (simp add: fs_lay_def)
  show "held_data u" using assms(2) tx_held_blocks[OF assms(3)] sb v by (simp add: held_data_def)
qed

lemma upt_rest: "j < m \<Longrightarrow> map f [j..<m] = f j # map f [Suc j..<m]"
  by (simp add: upt_conv_Cons)

lemma balloc_loop_Ok:
  assumes "room s (Suc (Suc k)) (Suc h)" and "fs_lay s" and "held_data s"
    and "b < sb_size (sb s)" "\<not> used (sb s) (bview s) b" "j \<le> b div BPB" "b div BPB < m"
    and "\<And>c. j * BPB \<le> c \<Longrightarrow> c < b \<Longrightarrow> used (sb s) (bview s) c"
  shows "\<exists>t. balloc_loop (map (\<lambda>k. k * BPB) [j..<m]) ROOTDEV s = Ok (b, t) \<and>
     tx s 2 ((mark_used (sb s) b (bview s))(b := zero_block)) t"
  using assms
proof (induction "b div BPB - j" arbitrary: j s)
  case 0
  then have j: "j = b div BPB" by simp
  have "j < m" using j 0(8) by simp
  then show ?case
    unfolding upt_rest[OF \<open>j < m\<close>] unfolding j
    by (rule_tac balloc_found[OF 0(2-6)]) (use 0(9) j in simp)
next
  case (Suc d)
  have jb: "Suc j \<le> b div BPB" "j < m" using Suc(2,9) by auto
  then have lt: "Suc j * BPB \<le> b" by (meson div_times_less_eq_dividend le_trans mult_le_mono1)
  have full: "used (sb s) (bview s) c" if "j * BPB \<le> c" "c < Suc j * BPB" "c < sb_size (sb s)" for c
    using Suc(10)[of c] that lt by simp
  have jl: "j * BPB < sb_size (sb s)" using lt Suc(6) BPB_pos by simp
  obtain u where u: "balloc_loop (j * BPB # map (\<lambda>k. k * BPB) [Suc j..<m]) ROOTDEV s =
      balloc_loop (map (\<lambda>k. k * BPB) [Suc j..<m]) ROOTDEV u" "tx s 0 (bview s) u"
    using balloc_skip[OF Suc(3-5) jl full] by blast
  note f = fs_lay_same_view[OF Suc(4,5) u(2)]
  have "d = b div BPB - Suc j" using Suc(2) by simp
  then obtain t where t: "balloc_loop (map (\<lambda>k. k * BPB) [Suc j..<m]) ROOTDEV u = Ok (b, t)"
      "tx u 2 ((mark_used (sb u) b (bview u))(b := zero_block)) t"
    using Suc(1)[of "Suc j" u] tx_room[OF u(2), of "Suc (Suc k)"] Suc(3,6,7,9) Suc(10) jb f by force
  show ?case
    using t u(1) tx_trans[OF u(2) t(2)] f by (simp add: upt_rest[OF jb(2)] numeral_2_eq_2)
qed

lemma bitmap_index: "b < sz \<Longrightarrow> b div BPB < (sz + BPB - 1) div BPB"
proof -
  assume "b < sz"
  then have "b + BPB \<le> sz + BPB - 1" by simp
  then have "(b + BPB) div BPB \<le> (sz + BPB - 1) div BPB" by (rule div_le_mono)
  then show ?thesis using BPB_pos div_add_self2[of BPB b] by linarith
qed

text \<open>The least clear bit.\<close>

lemma balloc_Ok:
  assumes "room s (Suc (Suc k)) (Suc h)" and "fs_lay s" and "held_data s"
    and "b < sb_size (sb s)" and "\<not> used (sb s) (bview s) b"
    and "\<And>c. c < b \<Longrightarrow> used (sb s) (bview s) c"
  shows "\<exists>t. balloc ROOTDEV s = Ok (b, t) \<and>
     tx s 2 ((mark_used (sb s) b (bview s))(b := zero_block)) t"
  unfolding balloc_def using assms bitmap_index[OF assms(4)]
  by (intro balloc_loop_Ok) auto

lemma balloc_full:
  assumes "room s k (Suc h)" and "fs_lay s" and "held_data s"
    and "\<And>c. c < sb_size (sb s) \<Longrightarrow> used (sb s) (bview s) c" and "m = (sb_size (sb s) + BPB - 1) div BPB"
  shows "balloc_loop (map (\<lambda>k. k * BPB) [j..<m]) ROOTDEV s = Panic ''balloc: out of blocks''"
  using assms
proof (induction "m - j" arbitrary: j s)
  case (Suc d)
  have "j < m" using Suc(2) by simp
  then have "Suc j * BPB \<le> sb_size (sb s) + BPB - 1"
    using Suc(7) by (metis Suc_leI div_times_less_eq_dividend le_trans mult_le_mono1)
  then have jl: "j * BPB < sb_size (sb s)" using BPB_pos by simp
  obtain u where u: "balloc_loop (j * BPB # map (\<lambda>k. k * BPB) [Suc j..<m]) ROOTDEV s =
      balloc_loop (map (\<lambda>k. k * BPB) [Suc j..<m]) ROOTDEV u" "tx s 0 (bview s) u"
    using balloc_skip[OF Suc(3-5) jl Suc(6)] by blast
  note f = fs_lay_same_view[OF Suc(4,5) u(2)]
  have d: "d = m - Suc j" using Suc(2) by simp
  have rm: "room u k (Suc h)" using tx_room[OF u(2), of k] Suc(3) by simp
  have "balloc_loop (map (\<lambda>k. k * BPB) [Suc j..<m]) ROOTDEV u = Panic ''balloc: out of blocks''"
    by (rule Suc(1)[OF d rm f(1,2)]) (use Suc(6,7) f(3,4) in simp_all)
  then show ?case using u(1) by (simp only: upt_rest[OF \<open>j < m\<close>])
qed simp

lemma readsb_tx:
  assumes "room s k (Suc h)" and "1 < disksize s" and "1 \<notin> held_blocks s"
  shows "\<exists>u. readsb ROOTDEV s = Ok (dec_superblock (bview s 1), u) \<and> tx s 0 (bview s) u"
proof -
  obtain i t u where "bread ROOTDEV 1 s = Ok (i, t)" "b_data (bufs t i) = bview s 1" "brelse i t = Ok u"
      "tx s 0 (bview s) u"
    by (rule read_block[OF assms])
  then show ?thesis by (simp add: readsb_def Let_def)
qed

lemma bfree_access:
  assumes rm: "room s (Suc k) (Suc h)" and fl: "fs_lay s" and hd: "held_data s" and b: "b < sb_size (sb s)"
  shows "if used (sb s) (bview s) b
    then \<exists>t. bfree ROOTDEV b s = Ok t \<and> tx s 1 (mark_free (sb s) b (bview s)) t
    else bfree ROOTDEV b s = Panic ''freeing free block''"
proof -
  let ?B = "BBLOCK b (sb s)"
  have one: "1 < disksize s" "1 \<notin> held_blocks s"
    using fl hd lay_bounds(1)[of "sb s"] by (auto simp: fs_lay_def lay_def held_data_def)
  obtain u where "readsb ROOTDEV s = Ok (dec_superblock (bview s 1), u)" and txu: "tx s 0 (bview s) u"
    using readsb_tx[OF rm one] by blast
  then have u: "readsb ROOTDEV s = Ok (sb s, u)" using fl by (simp add: fs_lay_def meta_used_def)
  note f = fs_lay_same_view[OF fl hd txu]
  have u': "u\<lparr>sb := sb s\<rparr> = u" using f(3) by (metis fs_state.surjective fs_state.update_convs(1))
  have rmu: "room u (Suc k) (Suc h)" using tx_room[OF txu, of "Suc k"] rm by simp
  have dB: "?B < disksize u"
    using BBLOCK_lt[OF b] fl same_log(2)[OF tx_same[OF txu]] by (simp add: fs_lay_def lay_def)
  have hB: "?B \<notin> held_blocks u"
    using hd BBLOCK_lt[OF b] by (auto simp: held_data_def tx_held_blocks[OF txu])
  have home: "?B \<notin> log_region u" "?B \<noteq> 1" using fs_lay_home[OF f(1)] BBLOCK_ge f(3) by auto
  obtain i t where t: "bread ROOTDEV ?B u = Ok (i, t)" "b_data (bufs t i) = bview u ?B"
      "\<forall>d. \<exists>v w. log_write i (set_data i d t) = Ok v \<and> same u v \<and> brelse i v = Ok w \<and>
           tx u 1 ((bview u)(?B := d)) w"
    by (rule update_block[OF rmu dB hB home])
  obtain v w where vw: "log_write i (set_data i (bclr (b mod BPB) (bview s ?B)) t) = Ok v"
      "brelse i v = Ok w" "tx u 1 (mark_free (sb s) b (bview s)) w"
    using t(3) f(4) by (metis mark_free_def)
  show ?thesis
    using u t(1,2) f vw tx_trans[OF txu vw(3)] by (simp add: bfree_def Let_def used_def u')
qed

end
