(* ===== verification/Fs_Inode.thy ===== *)
theory Fs_Inode
  imports Fs_Alloc
begin

text \<open>
  The inode layer of fs.c: the inode cache (\<open>iget\<close>, \<open>idup\<close>, \<open>ilock\<close>,
  \<open>iunlock\<close>, \<open>iput\<close>), the inodes on disk (\<open>ialloc\<close>, \<open>iupdate\<close>) and the
  block map (\<open>bmap\<close>, \<open>itrunc\<close>).
\<close>

section \<open>Inodes on disk\<close>

definition NINODE :: nat where [consts_defs]: "NINODE = 50"

definition T_DIR :: short where [consts_defs]: "T_DIR = 1"
definition T_FILE :: short where [consts_defs]: "T_FILE = 2"
definition T_DEV :: short where [consts_defs]: "T_DEV = 3"

text \<open>The byte offset of \<open>(struct dinode* )bp->data + inum % IPB\<close>.\<close>

definition dinode_off :: "nat \<Rightarrow> nat" where
  "dinode_off inum = inum mod IPB * DINODE_SIZE"

definition get_short :: "block \<Rightarrow> nat \<Rightarrow> short" where
  "get_short d p = of_nat (get16 d p)"

definition put_short :: "nat \<Rightarrow> short \<Rightarrow> block \<Rightarrow> block" where
  "put_short p v d = put16 p (unat v) d"

definition load_dinode :: "block \<Rightarrow> nat \<Rightarrow> inode \<Rightarrow> inode" where
  "load_dinode d p ip =
     ip\<lparr>i_type := get_short d p, i_major := get_short d (p + 2), i_minor := get_short d (p + 4),
        i_nlink := get_short d (p + 6), i_size := get32 d (p + 8),
        i_addrs := (\<lambda>k. if k \<le> NDIRECT then get32 d (p + 12 + 4 * k) else i_addrs ip k)\<rparr>"

definition store_dinode :: "inode \<Rightarrow> nat \<Rightarrow> block \<Rightarrow> block" where
  "store_dinode ip p d =
     foldl (\<lambda>d k. put32 (p + 12 + 4 * k) (i_addrs ip k) d)
       (put32 (p + 8) (i_size ip) (put_short (p + 6) (i_nlink ip) (put_short (p + 4) (i_minor ip)
       (put_short (p + 2) (i_major ip) (put_short p (i_type ip) d))))) [0..<NDIRECT + 1]"

definition zero_dinode :: "nat \<Rightarrow> block \<Rightarrow> block" where
  "zero_dinode p d = (\<lambda>k. if p \<le> k \<and> k < p + DINODE_SIZE then 0 else d k)"

section \<open>The inode cache\<close>

definition zero_inode :: inode where
  "zero_inode = \<lparr>i_dev = 0, i_inum = 0, i_ref = 0, i_lock = initsleeplock, i_valid = False, i_type = 0,
     i_major = 0, i_minor = 0, i_nlink = 0, i_size = 0, i_addrs = (\<lambda>_. 0)\<rparr>"

text \<open>\<open>iinit\<close> also prints the superblock on the console.\<close>

definition iinit :: "nat \<Rightarrow> 'a fs_state_scheme \<Rightarrow> 'a fs_state_scheme res" where
  "iinit dev s =
     (let s = s\<lparr>inodes := (\<lambda>i. if i < NINODE then (inodes s i)\<lparr>i_lock := initsleeplock\<rparr> else inodes s i)\<rparr> in
      rbind (readsb dev s) (\<lambda>(sb', s). Ok (s\<lparr>sb := sb'\<rparr>)))"

definition iget :: "nat \<Rightarrow> nat \<Rightarrow> 'a fs_state_scheme \<Rightarrow> (nat \<times> 'a fs_state_scheme) res" where
  "iget dev inum s =
     (case find (\<lambda>i. 0 < i_ref (inodes s i) \<and> i_dev (inodes s i) = dev \<and> i_inum (inodes s i) = inum)
             [0..<NINODE] of
        Some ip \<Rightarrow> Ok (ip, upd_inode ip (\<lambda>n. n\<lparr>i_ref := i_ref n + 1\<rparr>) s)
      | None \<Rightarrow>
          (case find (\<lambda>i. i_ref (inodes s i) = 0) [0..<NINODE] of
             None \<Rightarrow> Panic ''iget: no inodes''
           | Some ip \<Rightarrow>
               Ok (ip, upd_inode ip (\<lambda>n. n\<lparr>i_dev := dev, i_inum := inum, i_ref := 1, i_valid := False\<rparr>) s)))"

primrec ialloc_loop :: "nat list \<Rightarrow> nat \<Rightarrow> short \<Rightarrow> 'a fs_state_scheme \<Rightarrow> (nat \<times> 'a fs_state_scheme) res" where
  "ialloc_loop [] dev type s = Panic ''ialloc: no inodes''"
| "ialloc_loop (inum # is) dev type s =
     rbind (bread dev (IBLOCK inum (sb s)) s) (\<lambda>(bp, s).
     let d = b_data (bufs s bp); dip = dinode_off inum in
     if get_short d dip = 0 then
       rbind (log_write bp (set_data bp (put_short dip type (zero_dinode dip d)) s)) (\<lambda>s.
       rbind (brelse bp s) (\<lambda>s.
       iget dev inum s))
     else rbind (brelse bp s) (ialloc_loop is dev type))"

definition ialloc :: "nat \<Rightarrow> short \<Rightarrow> 'a fs_state_scheme \<Rightarrow> (nat \<times> 'a fs_state_scheme) res" where
  "ialloc dev type s = ialloc_loop [1..<sb_ninodes (sb s)] dev type s"

definition iupdate :: "nat \<Rightarrow> 'a fs_state_scheme \<Rightarrow> 'a fs_state_scheme res" where
  "iupdate ip s =
     rbind (bread (i_dev (inodes s ip)) (IBLOCK (i_inum (inodes s ip)) (sb s)) s) (\<lambda>(bp, s).
     let n = inodes s ip; dip = dinode_off (i_inum n) in
     rbind (log_write bp (set_data bp (store_dinode n dip (b_data (bufs s bp))) s)) (\<lambda>s.
     brelse bp s))"

definition idup :: "nat \<Rightarrow> 'a fs_state_scheme \<Rightarrow> nat \<times> 'a fs_state_scheme" where
  "idup ip s = (ip, upd_inode ip (\<lambda>n. n\<lparr>i_ref := i_ref n + 1\<rparr>) s)"

definition ilock :: "nat \<Rightarrow> 'a fs_state_scheme \<Rightarrow> 'a fs_state_scheme res" where
  "ilock ip s =
     (if i_ref (inodes s ip) < 1 then Panic ''ilock''
      else
        rbind (acquiresleep (curpid s) (i_lock (inodes s ip))) (\<lambda>lk.
        let s = upd_inode ip (\<lambda>n. n\<lparr>i_lock := lk\<rparr>) s in
        if \<not> i_valid (inodes s ip) then
          rbind (bread (i_dev (inodes s ip)) (IBLOCK (i_inum (inodes s ip)) (sb s)) s) (\<lambda>(bp, s).
          let s = upd_inode ip (load_dinode (b_data (bufs s bp)) (dinode_off (i_inum (inodes s ip)))) s in
          rbind (brelse bp s) (\<lambda>s.
          let s = upd_inode ip (\<lambda>n. n\<lparr>i_valid := True\<rparr>) s in
          if i_type (inodes s ip) = 0 then Panic ''ilock: no type'' else Ok s))
        else Ok s))"

definition iunlock :: "nat \<Rightarrow> 'a fs_state_scheme \<Rightarrow> 'a fs_state_scheme res" where
  "iunlock ip s =
     (if \<not> holdingsleep (curpid s) (i_lock (inodes s ip)) \<or> i_ref (inodes s ip) < 1 then Panic ''iunlock''
      else Ok (upd_inode ip (\<lambda>n. n\<lparr>i_lock := releasesleep (i_lock n)\<rparr>) s))"

section \<open>Inode content\<close>

definition set_addr :: "nat \<Rightarrow> nat \<Rightarrow> nat \<Rightarrow> 'a fs_state_scheme \<Rightarrow> 'a fs_state_scheme" where
  "set_addr ip k a s = upd_inode ip (\<lambda>n. n\<lparr>i_addrs := (i_addrs n)(k := a)\<rparr>) s"

text \<open>\<open>if((addr = ip->addrs[k]) == 0) ip->addrs[k] = addr = balloc(ip->dev);\<close>\<close>

definition bmap_slot :: "nat \<Rightarrow> nat \<Rightarrow> 'a fs_state_scheme \<Rightarrow> (nat \<times> 'a fs_state_scheme) res" where
  "bmap_slot ip k s =
     (let addr = i_addrs (inodes s ip) k in
      if addr = 0 then
        rbind (balloc (i_dev (inodes s ip)) s) (\<lambda>(addr, s). Ok (addr, set_addr ip k addr s))
      else Ok (addr, s))"

definition bmap :: "nat \<Rightarrow> nat \<Rightarrow> 'a fs_state_scheme \<Rightarrow> (nat \<times> 'a fs_state_scheme) res" where
  "bmap ip bn s =
     (if bn < NDIRECT then bmap_slot ip bn s
      else
        let bn = bn - NDIRECT in
        if bn < NINDIRECT then
          rbind (bmap_slot ip NDIRECT s) (\<lambda>(addr, s).
          rbind (bread (i_dev (inodes s ip)) addr s) (\<lambda>(bp, s).
          let addr = get32 (b_data (bufs s bp)) (4 * bn) in
          if addr = 0 then
            rbind (balloc (i_dev (inodes s ip)) s) (\<lambda>(addr, s).
            rbind (log_write bp (set_data bp (put32 (4 * bn) addr (b_data (bufs s bp))) s)) (\<lambda>s.
            rbind (brelse bp s) (\<lambda>s. Ok (addr, s))))
          else rbind (brelse bp s) (\<lambda>s. Ok (addr, s))))
        else Panic ''bmap: out of range'')"

definition itrunc_direct :: "nat \<Rightarrow> nat \<Rightarrow> 'a fs_state_scheme \<Rightarrow> 'a fs_state_scheme res" where
  "itrunc_direct ip i s =
     (if i_addrs (inodes s ip) i \<noteq> 0 then
        rbind (bfree (i_dev (inodes s ip)) (i_addrs (inodes s ip) i) s) (\<lambda>s. Ok (set_addr ip i 0 s))
      else Ok s)"

definition itrunc_indirect :: "nat \<Rightarrow> nat \<Rightarrow> nat \<Rightarrow> 'a fs_state_scheme \<Rightarrow> 'a fs_state_scheme res" where
  "itrunc_indirect ip bp j s =
     (let a = get32 (b_data (bufs s bp)) (4 * j) in
      if a \<noteq> 0 then bfree (i_dev (inodes s ip)) a s else Ok s)"

definition itrunc :: "nat \<Rightarrow> 'a fs_state_scheme \<Rightarrow> 'a fs_state_scheme res" where
  "itrunc ip s =
     rbind (rfold (itrunc_direct ip) [0..<NDIRECT] s) (\<lambda>s.
     rbind (if i_addrs (inodes s ip) NDIRECT \<noteq> 0 then
              rbind (bread (i_dev (inodes s ip)) (i_addrs (inodes s ip) NDIRECT) s) (\<lambda>(bp, s).
              rbind (rfold (itrunc_indirect ip bp) [0..<NINDIRECT] s) (\<lambda>s.
              rbind (brelse bp s) (\<lambda>s.
              rbind (bfree (i_dev (inodes s ip)) (i_addrs (inodes s ip) NDIRECT) s) (\<lambda>s.
              Ok (set_addr ip NDIRECT 0 s)))))
            else Ok s) (\<lambda>s.
     iupdate ip (upd_inode ip (\<lambda>n. n\<lparr>i_size := 0\<rparr>) s)))"

definition iput :: "nat \<Rightarrow> 'a fs_state_scheme \<Rightarrow> 'a fs_state_scheme res" where
  "iput ip s =
     rbind (acquiresleep (curpid s) (i_lock (inodes s ip))) (\<lambda>lk.
     let s = upd_inode ip (\<lambda>n. n\<lparr>i_lock := lk\<rparr>) s in
     rbind (if i_valid (inodes s ip) \<and> i_nlink (inodes s ip) = 0 \<and> i_ref (inodes s ip) = 1 then
              rbind (itrunc ip s) (\<lambda>s.
              rbind (iupdate ip (upd_inode ip (\<lambda>n. n\<lparr>i_type := 0\<rparr>) s)) (\<lambda>s.
              Ok (upd_inode ip (\<lambda>n. n\<lparr>i_valid := False\<rparr>) s)))
            else Ok s) (\<lambda>s.
     let s = upd_inode ip (\<lambda>n. n\<lparr>i_lock := releasesleep (i_lock n)\<rparr>) s in
     Ok (upd_inode ip (\<lambda>n. n\<lparr>i_ref := i_ref n - 1\<rparr>) s)))"

definition iunlockput :: "nat \<Rightarrow> 'a fs_state_scheme \<Rightarrow> 'a fs_state_scheme res" where
  "iunlockput ip s = rbind (iunlock ip s) (iput ip)"

record stat =
  st_type :: short
  st_dev :: nat
  st_ino :: nat
  st_nlink :: short
  st_size :: nat

definition stati :: "nat \<Rightarrow> 'a fs_state_scheme \<Rightarrow> stat" where
  "stati ip s =
     (let n = inodes s ip in
      \<lparr>st_type = i_type n, st_dev = i_dev n, st_ino = i_inum n, st_nlink = i_nlink n, st_size = i_size n\<rparr>)"

section \<open>Transactions that also change the inode cache\<close>

definition ftx :: "'a fs_state_scheme \<Rightarrow> nat \<Rightarrow> (nat \<Rightarrow> block) \<Rightarrow> 'a fs_state_scheme \<Rightarrow> bool" where
  "ftx s k V t \<longleftrightarrow> tx s k V (t\<lparr>inodes := inodes s\<rparr>)"

lemma cached_inodes [simp]: "cached (s\<lparr>inodes := x\<rparr>) = cached s"
  by (simp add: fun_eq_iff cached_def)

lemma bio_inodes [simp]:
  "bio_inv (s\<lparr>inodes := x\<rparr>) = bio_inv s" "bview (s\<lparr>inodes := x\<rparr>) = bview s"
  "held (s\<lparr>inodes := x\<rparr>) = held s" "dirty_blocks (s\<lparr>inodes := x\<rparr>) = dirty_blocks s"
  "held_blocks (s\<lparr>inodes := x\<rparr>) = held_blocks s"
  by (simp_all add: bio_inv_def buf_ok_def fun_eq_iff bview_def held_def dirty_blocks_def held_blocks_def
      cong: option.case_cong)

lemma log_inodes [simp]:
  "log_inv (s\<lparr>inodes := x\<rparr>) = log_inv s" "logged (s\<lparr>inodes := x\<rparr>) = logged s"
  "log_region (s\<lparr>inodes := x\<rparr>) = log_region s" "room (s\<lparr>inodes := x\<rparr>) k h = room s k h"
  "fs_lay (s\<lparr>inodes := x\<rparr>) = fs_lay s" "held_data (s\<lparr>inodes := x\<rparr>) = held_data s"
  by (simp_all add: log_inv_def log_wf_def head_wf_def logged_def log_region_def room_def fs_lay_def
      held_data_def)

lemma upd_inode_simps [simp]:
  "log_inv (upd_inode ip f s) = log_inv s" "room (upd_inode ip f s) k h = room s k h"
  "fs_lay (upd_inode ip f s) = fs_lay s" "held_data (upd_inode ip f s) = held_data s"
  "bview (upd_inode ip f s) = bview s" "held (upd_inode ip f s) = held s"
  "held_blocks (upd_inode ip f s) = held_blocks s" "sb (upd_inode ip f s) = sb s"
  "inodes (upd_inode ip f s) = (inodes s)(ip := f (inodes s ip))" "bufs (upd_inode ip f s) = bufs s"
  "disksize (upd_inode ip f s) = disksize s" "curpid (upd_inode ip f s) = curpid s"
  by (simp_all add: upd_inode_def)

lemma set_addr_simps [simp]:
  "log_inv (set_addr ip k a s) = log_inv s" "room (set_addr ip k a s) j h = room s j h"
  "fs_lay (set_addr ip k a s) = fs_lay s" "held_data (set_addr ip k a s) = held_data s"
  "bview (set_addr ip k a s) = bview s" "held (set_addr ip k a s) = held s"
  "held_blocks (set_addr ip k a s) = held_blocks s" "sb (set_addr ip k a s) = sb s"
  "inodes (set_addr ip k a s) = (inodes s)(ip := (inodes s ip)\<lparr>i_addrs := (i_addrs (inodes s ip))(k := a)\<rparr>)"
  "bufs (set_addr ip k a s) = bufs s" "disksize (set_addr ip k a s) = disksize s"
  by (simp_all add: set_addr_def)

lemma ftx_upd: "ftx s k V t \<Longrightarrow> ftx s k V (upd_inode ip f t)"
  by (simp add: ftx_def upd_inode_def)

lemma ftx_set_addr: "ftx s k V t \<Longrightarrow> ftx s k V (set_addr ip j a t)"
  by (simp add: set_addr_def ftx_upd)

lemma tx_ftx:
  assumes "tx s k V t"
  shows "ftx s k V t" and "inodes t = inodes s"
proof -
  show i: "inodes t = inodes s" using same_fs(2)[OF tx_same[OF assms]] .
  have "t\<lparr>inodes := inodes s\<rparr> = t" using i by (cases t) simp
  then show "ftx s k V t" using assms by (simp add: ftx_def)
qed

lemma ftx_simps:
  assumes "ftx s k V t"
  shows "log_inv t" and "bview t = V" and "held t = held s" and "sb t = sb s"
    and "held_blocks t = held_blocks s" and "disksize t = disksize s" and "log_region t = log_region s"
    and "curpid t = curpid s" and "\<forall>i\<in>held s. bufs t i = bufs s i"
  using assms tx_held_blocks[of s k V "t\<lparr>inodes := inodes s\<rparr>"] same_fs(1)[OF tx_same[of s k V "t\<lparr>inodes := inodes s\<rparr>"]]
    same_log[OF tx_same[of s k V "t\<lparr>inodes := inodes s\<rparr>"]] same_region[OF tx_same[of s k V "t\<lparr>inodes := inodes s\<rparr>"]]
  by (simp_all add: ftx_def tx_def)

lemma ftx_room: "ftx s j V t \<Longrightarrow> room s (j + k) h \<Longrightarrow> room t k h"
  using tx_room[of s j V "t\<lparr>inodes := inodes s\<rparr>" k h] by (simp add: ftx_def)

lemma ftx_lay: "ftx s j V t \<Longrightarrow> fs_lay s \<Longrightarrow> meta_used (sb s) V \<Longrightarrow> fs_lay t"
  using fs_lay_tx[of s j V "t\<lparr>inodes := inodes s\<rparr>"] by (simp add: ftx_def)

lemma ftx_mono: "ftx s j V t \<Longrightarrow> j \<le> k \<Longrightarrow> ftx s k V t"
  by (simp add: ftx_def tx_mono)

lemma same_inodes: "same t u \<Longrightarrow> same (t\<lparr>inodes := x\<rparr>) (u\<lparr>inodes := x\<rparr>)"
  by (cases t; cases u) (simp add: same_def)

lemma tx_inodes: "tx t k V u \<Longrightarrow> tx (t\<lparr>inodes := x\<rparr>) k V (u\<lparr>inodes := x\<rparr>)"
  by (simp add: tx_def same_inodes)

lemma ftx_trans:
  assumes "ftx s j V t" and "ftx t k W u"
  shows "ftx s (j + k) W u"
  using tx_trans[of s j V "t\<lparr>inodes := inodes s\<rparr>" k W "u\<lparr>inodes := inodes s\<rparr>"] assms
    tx_inodes[of t k W "u\<lparr>inodes := inodes t\<rparr>" "inodes s"]
  by (simp add: ftx_def)

lemma ftx_refl: "log_inv s \<Longrightarrow> ftx s k (bview s) s"
  using tx_refl tx_ftx(1) by blast

end
