(* ===== verification/Fs_Icache.thy ===== *)
theory Fs_Icache
  imports Fs_Inode
begin

text \<open>
  The inode cache and the inodes on disk: one cache entry per inode, reference counts, and the
  round trip between \<open>iupdate\<close> and \<open>ilock\<close>.
\<close>

section \<open>The disk format\<close>

lemma get_put_short [simp]: "get_short (put_short p v d) p = v"
proof -
  have "unat v < 65536" using unsigned_less[of v, where 'a = nat] by simp
  then show ?thesis by (simp add: get_short_def put_short_def)
qed

lemma get_short_cong: "d p = e p \<Longrightarrow> d (p + 1) = e (p + 1) \<Longrightarrow> get_short d p = get_short e p"
  by (simp add: get_short_def get16_def)

lemma get32_cong: "(\<And>k. p \<le> k \<Longrightarrow> k < p + 4 \<Longrightarrow> d k = e k) \<Longrightarrow> get32 d p = get32 e p"
  by (simp add: get32_def)

lemma put_short_other: "k < p \<or> p + 2 \<le> k \<Longrightarrow> put_short p v d k = d k"
  by (simp add: put_short_def put16_apply_other)

lemma load_dinode_cong:
  assumes "\<And>k. p \<le> k \<Longrightarrow> k < p + 64 \<Longrightarrow> d k = e k"
  shows "load_dinode d p ip = load_dinode e p ip"
proof -
  have "get32 d (p + 12 + 4 * k) = get32 e (p + 12 + 4 * k)" if "k \<le> NDIRECT" for k
    using that assms by (intro get32_cong) (simp add: NDIRECT_def)
  moreover have "get32 d (p + 8) = get32 e (p + 8)" using assms by (intro get32_cong) simp
  moreover have "get_short d (p + j) = get_short e (p + j)" if "j \<le> 6" for j
    using that assms by (intro get_short_cong) simp_all
  from this[of 0] this[of 2] this[of 4] this[of 6]
  have "get_short d p = get_short e p" "get_short d (p + 2) = get_short e (p + 2)"
    "get_short d (p + 4) = get_short e (p + 4)" "get_short d (p + 6) = get_short e (p + 6)" by simp_all
  ultimately show ?thesis unfolding load_dinode_def by (simp cong: if_cong)
qed

lemma get32_put_addrs:
  "get32 (foldl (\<lambda>d k. put32 (q + 4 * k) (f k) d) d [0..<n]) (q + 4 * j) =
     (if j < n then f j mod 4294967296 else get32 d (q + 4 * j))"
proof (induction n)
  case (Suc n)
  show ?case
  proof (cases "j = n")
    case False
    then have "q + 4 * n + 4 \<le> q + 4 * j \<or> q + 4 * j + 4 \<le> q + 4 * n" by auto
    then show ?thesis using Suc False by (simp add: get32_put32_other)
  qed simp
qed simp

lemma put_addrs_other:
  "k < q \<or> q + 4 * n \<le> k \<Longrightarrow> foldl (\<lambda>d k. put32 (q + 4 * k) (f k) d) d [0..<n] k = d k"
  by (induction n) (auto simp: put32_apply_other)

lemma store_dinode_other:
  assumes "k < p \<or> p + 64 \<le> k"
  shows "store_dinode ip p d k = d k"
proof -
  have "k < p + 12 \<or> p + 12 + 4 * (NDIRECT + 1) \<le> k" using assms by (auto simp: NDIRECT_def)
  then show ?thesis
    unfolding store_dinode_def using assms
    by (subst put_addrs_other) (auto simp: put32_apply_other put_short_other)
qed

text \<open>What of an inode is on disk.\<close>

definition din_eq :: "inode \<Rightarrow> inode \<Rightarrow> bool" where
  "din_eq m n \<longleftrightarrow> i_type m = i_type n \<and> i_major m = i_major n \<and> i_minor m = i_minor n \<and>
     i_nlink m = i_nlink n \<and> i_size m = i_size n \<and> (\<forall>k\<le>NDIRECT. i_addrs m k = i_addrs n k)"

definition din_wf :: "inode \<Rightarrow> bool" where
  "din_wf n \<longleftrightarrow> i_size n < 4294967296 \<and> (\<forall>k\<le>NDIRECT. i_addrs n k < 4294967296)"

lemma load_store_dinode:
  assumes "din_wf n"
  shows "din_eq (load_dinode (store_dinode n p d) p m) n"
proof -
  let ?d1 = "put_short p (i_type n) d"
  let ?d2 = "put_short (p + 2) (i_major n) ?d1"
  let ?d3 = "put_short (p + 4) (i_minor n) ?d2"
  let ?d4 = "put_short (p + 6) (i_nlink n) ?d3"
  let ?d5 = "put32 (p + 8) (i_size n) ?d4"
  let ?d = "store_dinode n p d"
  have out: "?d k = ?d5 k" if "k < p + 12" for k
    unfolding store_dinode_def using that by (subst put_addrs_other) auto
  have "get_short ?d p = get_short ?d1 p"
    by (rule get_short_cong) (simp_all add: out put32_apply_other put_short_other)
  moreover have "get_short ?d (p + 2) = get_short ?d2 (p + 2)"
    by (rule get_short_cong) (simp_all add: out put32_apply_other put_short_other)
  moreover have "get_short ?d (p + 4) = get_short ?d3 (p + 4)"
    by (rule get_short_cong) (simp_all add: out put32_apply_other put_short_other)
  moreover have "get_short ?d (p + 6) = get_short ?d4 (p + 6)"
    by (rule get_short_cong) (simp_all add: out put32_apply_other put_short_other)
  moreover have "get32 ?d (p + 8) = get32 ?d5 (p + 8)"
    by (rule get32_cong) (simp add: out)
  moreover have "get32 ?d (p + 12 + 4 * k) = i_addrs n k" if "k \<le> NDIRECT" for k
    using that assms unfolding store_dinode_def get32_put_addrs by (simp add: din_wf_def)
  ultimately show ?thesis
    using assms by (simp add: din_eq_def load_dinode_def din_wf_def)
qed

section \<open>Reading and writing inodes\<close>

lemma IBLOCK_bounds:
  assumes "lay sp" and "inum < sb_ninodes sp"
  shows "sb_logstart sp + sb_nlog sp \<le> IBLOCK inum sp" and "IBLOCK inum sp < sb_bmapstart sp"
    and "IBLOCK inum sp < datastart sp"
proof -
  have "inum div IPB \<le> sb_ninodes sp div IPB" using assms(2) by (intro div_le_mono) simp
  then show "sb_logstart sp + sb_nlog sp \<le> IBLOCK inum sp" "IBLOCK inum sp < sb_bmapstart sp"
    "IBLOCK inum sp < datastart sp"
    using assms(1) lay_bounds(3)[OF assms(1)] by (auto simp: lay_def IBLOCK_def)
qed

lemma IBLOCK_home:
  assumes "fs_lay s" and "held_data s" and "inum < sb_ninodes (sb s)"
  shows "IBLOCK inum (sb s) < disksize s" and "IBLOCK inum (sb s) \<notin> held_blocks s"
    and "IBLOCK inum (sb s) \<notin> log_region s" and "IBLOCK inum (sb s) \<noteq> 1"
  using assms IBLOCK_bounds[of "sb s" inum]
  by (auto simp: fs_lay_def lay_def held_data_def log_region_def)

lemma iupdate_Ok:
  assumes rm: "room s (Suc k) (Suc h)" and fl: "fs_lay s" "held_data s"
    and n: "i_dev (inodes s ip) = ROOTDEV" "i_inum (inodes s ip) < sb_ninodes (sb s)"
  defines "B \<equiv> IBLOCK (i_inum (inodes s ip)) (sb s)"
  shows "\<exists>t. iupdate ip s = Ok t \<and>
    tx s 1 ((bview s)(B := store_dinode (inodes s ip) (dinode_off (i_inum (inodes s ip))) (bview s B))) t"
proof -
  obtain i t where t: "bread ROOTDEV B s = Ok (i, t)" "b_data (bufs t i) = bview s B" "same s t"
      "\<forall>d. \<exists>v w. log_write i (set_data i d t) = Ok v \<and> same s v \<and> brelse i v = Ok w \<and>
         tx s 1 ((bview s)(B := d)) w"
    unfolding B_def by (rule update_block[OF rm IBLOCK_home[OF fl n(2)]])
  let ?d = "store_dinode (inodes s ip) (dinode_off (i_inum (inodes s ip))) (bview s B)"
  obtain v w where "log_write i (set_data i ?d t) = Ok v" "brelse i v = Ok w"
    "tx s 1 ((bview s)(B := ?d)) w" using t(4) by blast
  then show ?thesis
    using t(1,2) n(1) same_fs(2)[OF t(3)] by (simp add: iupdate_def B_def Let_def)
qed

definition ondisk :: "superblock \<Rightarrow> (nat \<Rightarrow> block) \<Rightarrow> nat \<Rightarrow> inode \<Rightarrow> inode" where
  "ondisk sp V inum m = load_dinode (V (IBLOCK inum sp)) (dinode_off inum) m"

lemma dinode_off_apart:
  assumes "i \<noteq> j" and "IBLOCK i sp = IBLOCK j sp"
  shows "dinode_off i + 64 \<le> dinode_off j \<or> dinode_off j + 64 \<le> dinode_off i"
proof -
  have "i div IPB = j div IPB" using assms(2) by (simp add: IBLOCK_def)
  then have "i mod IPB \<noteq> j mod IPB" using assms(1) by (metis div_mult_mod_eq)
  then show ?thesis by (auto simp: dinode_off_def DINODE_SIZE_def)
qed

text \<open>Writing one inode leaves every other inode on disk as it was.\<close>

lemma ondisk_update:
  assumes "din_wf n" and V'_def: "V' = V(IBLOCK i sp := store_dinode n (dinode_off i) (V (IBLOCK i sp)))"
  shows "din_eq (ondisk sp V' i m) n" and "j \<noteq> i \<Longrightarrow> ondisk sp V' j m = ondisk sp V j m"
proof -
  show "din_eq (ondisk sp V' i m) n"
    using load_store_dinode[OF assms(1)] by (simp add: ondisk_def V'_def)
  assume ne: "j \<noteq> i"
  show "ondisk sp V' j m = ondisk sp V j m"
  proof (cases "IBLOCK j sp = IBLOCK i sp")
    case True
    then show ?thesis
      unfolding ondisk_def using dinode_off_apart[OF ne True]
      by (intro load_dinode_cong) (auto simp: V'_def store_dinode_other)
  qed (simp add: ondisk_def V'_def)
qed

lemma ilock_Ok:
  assumes rm: "room s k (Suc h)" and fl: "fs_lay s" "held_data s"
    and n: "i_dev (inodes s ip) = ROOTDEV" "i_inum (inodes s ip) < sb_ninodes (sb s)"
    and ref: "1 \<le> i_ref (inodes s ip)" and lk: "\<not> sl_locked (i_lock (inodes s ip))"
    and inv: "\<not> i_valid (inodes s ip)"
    and ty: "i_type (ondisk (sb s) (bview s) (i_inum (inodes s ip)) (inodes s ip)) \<noteq> 0"
  shows "\<exists>t. ilock ip s = Ok t \<and> ftx s 0 (bview s) t \<and>
    inodes t = (inodes s)(ip := (ondisk (sb s) (bview s) (i_inum (inodes s ip)) (inodes s ip))
      \<lparr>i_lock := \<lparr>sl_locked = True, sl_pid = curpid s\<rparr>, i_valid := True\<rparr>)"
proof -
  let ?n = "inodes s ip" and ?s = "upd_inode ip (\<lambda>n. n\<lparr>i_lock := \<lparr>sl_locked = True, sl_pid = curpid s\<rparr>\<rparr>) s"
  let ?B = "IBLOCK (i_inum ?n) (sb s)"
  note home = IBLOCK_home[of ?s "i_inum ?n", simplified, OF fl n(2)]
  have rm': "room ?s k (Suc h)" using rm by simp
  have B: "?B < disksize ?s" "?B \<notin> held_blocks ?s" using home by auto
  obtain i t where t: "bread ROOTDEV ?B ?s = Ok (i, t)" "i \<notin> held ?s" "held t = insert i (held ?s)"
      "b_data (bufs t i) = bview ?s ?B" "bview t = bview ?s" "room t k h" "same ?s t"
      "lh_n t = lh_n ?s" "logged t = logged ?s" "\<forall>j\<in>held ?s. bufs t j = bufs ?s j"
    by (rule block_access[OF rm' B])
  let ?t = "upd_inode ip (load_dinode (bview s ?B) (dinode_off (i_inum ?n))) t"
  have lt: "log_inv ?t" using room_inv[OF t(6)] by simp
  have i: "i \<in> held ?t" using t(3) by simp
  obtain u where u: "brelse i ?t = Ok u" "log_inv u" "bview u = bview ?t" "held u = held ?t - {i}"
      "same ?t u" "lh_n u = lh_n ?t" "logged u = logged ?t" "\<forall>j. j \<noteq> i \<longrightarrow> bufs u j = bufs ?t j"
    by (rule release[OF lt i])
  have it: "inodes t = inodes ?s" "sb t = sb s" using same_fs[OF t(7)] by auto
  have iu: "inodes u = inodes ?t" using same_fs[OF u(5)] by auto
  let ?n' = "ondisk (sb s) (bview s) (i_inum ?n) (inodes ?s ip)"
  have u_ip: "inodes u = (inodes s)(ip := ?n')"
    by (simp add: iu it ondisk_def)
  have "same s (u\<lparr>inodes := inodes s\<rparr>)"
    using same_trans[OF same_inodes[OF t(7), of "inodes s"] same_inodes[OF u(5), of "inodes s", unfolded upd_inode_def, simplified]]
    by (simp add: upd_inode_def)
  moreover have "\<forall>j\<in>held s. bufs u j = bufs s j" using t(2,10) u(8) by (metis upd_inode_simps(6,10))
  ultimately have "ftx s 0 (bview s) u"
    using t u by (simp add: ftx_def tx_def) (simp add: upd_inode_def logged_def)
  moreover have "ilock ip s = Ok (upd_inode ip (\<lambda>n. n\<lparr>i_valid := True\<rparr>) u)"
    using ref lk inv n(1) t(1,4) u(1) ty it u_ip
    by (simp add: ilock_def acquiresleep_def Let_def ondisk_def load_dinode_def)
  moreover have "?n'\<lparr>i_valid := True\<rparr> = (ondisk (sb s) (bview s) (i_inum ?n) ?n)
      \<lparr>i_lock := \<lparr>sl_locked = True, sl_pid = curpid s\<rparr>, i_valid := True\<rparr>"
    by (rule inode.equality) (simp_all add: ondisk_def load_dinode_def fun_eq_iff)
  ultimately show ?thesis using ftx_upd[of s 0 "bview s" u] u_ip by simp
qed

section \<open>Reference counts\<close>

text \<open>No two entries in use are for the same inode.\<close>

definition icache_inv :: "'a fs_state_scheme \<Rightarrow> bool" where
  "icache_inv s \<longleftrightarrow> (\<forall>i<NINODE. 0 \<le> i_ref (inodes s i)) \<and>
     (\<forall>i<NINODE. \<forall>j<NINODE. 0 < i_ref (inodes s i) \<longrightarrow> 0 < i_ref (inodes s j) \<longrightarrow>
        i_dev (inodes s i) = i_dev (inodes s j) \<longrightarrow> i_inum (inodes s i) = i_inum (inodes s j) \<longrightarrow> i = j)"

text \<open>The references that exist to an inode, whatever entry holds it.\<close>

definition ref_in :: "nat \<Rightarrow> nat \<Rightarrow> inode \<Rightarrow> int" where
  "ref_in dev inum n = (if i_dev n = dev \<and> i_inum n = inum then i_ref n else 0)"

definition refs_of :: "'a fs_state_scheme \<Rightarrow> nat \<Rightarrow> nat \<Rightarrow> int" where
  "refs_of s dev inum = (\<Sum>i<NINODE. ref_in dev inum (inodes s i))"

lemma sum_fun_upd:
  fixes f :: "'b \<Rightarrow> int"
  assumes "ip < (n :: nat)"
  shows "(\<Sum>i<n. f ((g(ip := x)) i)) = (\<Sum>i<n. f (g i)) - f (g ip) + f x"
proof -
  have fin: "finite {..<n}" "ip \<in> {..<n}" using assms by auto
  have "(\<Sum>i\<in>{..<n} - {ip}. f ((g(ip := x)) i)) = (\<Sum>i\<in>{..<n} - {ip}. f (g i))"
    by (rule sum.cong) auto
  then show ?thesis
    using sum.remove[OF fin, of "\<lambda>i. f ((g(ip := x)) i)"] sum.remove[OF fin, of "\<lambda>i. f (g i)"] by simp
qed

lemma refs_of_upd:
  "ip < NINODE \<Longrightarrow> refs_of (upd_inode ip f s) dev inum =
     refs_of s dev inum - ref_in dev inum (inodes s ip) + ref_in dev inum (f (inodes s ip))"
  using sum_fun_upd[of ip NINODE "ref_in dev inum" "inodes s" "f (inodes s ip)"]
  by (simp add: refs_of_def)

lemma iget_cases:
  assumes "iget dev inum s = Ok (ip, t)"
  obtains (hit) "ip < NINODE" "0 < i_ref (inodes s ip)" "i_dev (inodes s ip) = dev" "i_inum (inodes s ip) = inum"
      "t = upd_inode ip (\<lambda>n. n\<lparr>i_ref := i_ref n + 1\<rparr>) s"
  | (fresh) "ip < NINODE" "i_ref (inodes s ip) = 0"
      "\<forall>i<NINODE. 0 < i_ref (inodes s i) \<longrightarrow> i_dev (inodes s i) = dev \<longrightarrow> i_inum (inodes s i) \<noteq> inum"
      "t = upd_inode ip (\<lambda>n. n\<lparr>i_dev := dev, i_inum := inum, i_ref := 1, i_valid := False\<rparr>) s"
  using assms
  by (auto simp: iget_def find_Some_iff find_None_iff split: option.splits)

lemma icache_uniq:
  "icache_inv s \<Longrightarrow> i < NINODE \<Longrightarrow> j < NINODE \<Longrightarrow> 0 < i_ref (inodes s i) \<Longrightarrow> 0 < i_ref (inodes s j) \<Longrightarrow>
   i_dev (inodes s i) = i_dev (inodes s j) \<Longrightarrow> i_inum (inodes s i) = i_inum (inodes s j) \<Longrightarrow> i = j"
  unfolding icache_inv_def by blast

lemma icache_inv_upd:
  assumes inv: "icache_inv s" and "0 \<le> i_ref (f (inodes s ip))"
    and new: "\<And>j. j < NINODE \<Longrightarrow> j \<noteq> ip \<Longrightarrow> 0 < i_ref (inodes s j) \<Longrightarrow>
      i_dev (inodes s j) = i_dev (f (inodes s ip)) \<Longrightarrow> i_inum (inodes s j) \<noteq> i_inum (f (inodes s ip))"
  shows "icache_inv (upd_inode ip f s)"
  unfolding icache_inv_def
proof (intro conjI allI impI)
  fix i assume "i < NINODE"
  then show "0 \<le> i_ref (inodes (upd_inode ip f s) i)" using assms(1,2) by (simp add: icache_inv_def)
next
  fix i j assume "i < NINODE" "j < NINODE" "0 < i_ref (inodes (upd_inode ip f s) i)"
    "0 < i_ref (inodes (upd_inode ip f s) j)"
    "i_dev (inodes (upd_inode ip f s) i) = i_dev (inodes (upd_inode ip f s) j)"
    "i_inum (inodes (upd_inode ip f s) i) = i_inum (inodes (upd_inode ip f s) j)"
  then show "i = j"
    using new[of i] new[of j] icache_uniq[OF inv, of i j] by (cases "i = ip"; cases "j = ip") auto
qed

lemma iget_refs:
  assumes inv: "icache_inv s" and "iget dev inum s = Ok (ip, t)"
  shows "icache_inv t \<and> ip < NINODE \<and> i_dev (inodes t ip) = dev \<and> i_inum (inodes t ip) = inum \<and>
    refs_of t d n = refs_of s d n + (if d = dev \<and> n = inum then 1 else 0) \<and>
    (\<forall>j. j \<noteq> ip \<longrightarrow> inodes t j = inodes s j)"
  using assms(2)
proof (cases rule: iget_cases)
  case hit
  have "icache_inv t"
    unfolding hit(5)
  proof (rule icache_inv_upd[OF inv])
    fix j assume "j < NINODE" "j \<noteq> ip" "0 < i_ref (inodes s j)"
      "i_dev (inodes s j) = i_dev ((inodes s ip)\<lparr>i_ref := i_ref (inodes s ip) + 1\<rparr>)"
    then show "i_inum (inodes s j) \<noteq> i_inum ((inodes s ip)\<lparr>i_ref := i_ref (inodes s ip) + 1\<rparr>)"
      using icache_uniq[OF inv _ hit(1) _ hit(2), of j] by auto
  qed (use hit(2) in simp)
  then show ?thesis using hit by (simp add: refs_of_upd ref_in_def)
next
  case fresh
  have "icache_inv t"
    unfolding fresh(4) using fresh by (intro icache_inv_upd[OF inv]) auto
  then show ?thesis using fresh by (simp add: refs_of_upd ref_in_def)
qed

end
