(* ===== verification/Fs_Map.thy ===== *)
theory Fs_Map
  imports Fs_Icache
begin

text \<open>
  The block map of an inode: the address \<open>iaddr\<close> of each of its blocks, and the correctness
  of \<open>bmap\<close>: it extends the map by blocks that were free and reads as zeros, and leaves every
  other block of the file system alone.
\<close>

section \<open>The block map\<close>

definition iaddr :: "(nat \<Rightarrow> block) \<Rightarrow> inode \<Rightarrow> nat \<Rightarrow> nat" where
  "iaddr V n bn =
     (if bn < NDIRECT then i_addrs n bn
      else if i_addrs n NDIRECT = 0 then 0
      else get32 (V (i_addrs n NDIRECT)) (4 * (bn - NDIRECT)))"

definition data_blk :: "superblock \<Rightarrow> (nat \<Rightarrow> block) \<Rightarrow> nat \<Rightarrow> bool" where
  "data_blk sp V b \<longleftrightarrow> datastart sp \<le> b \<and> b < sb_size sp \<and> used sp V b"

definition iblocks :: "(nat \<Rightarrow> block) \<Rightarrow> inode \<Rightarrow> nat set" where
  "iblocks V n = insert (i_addrs n NDIRECT) (iaddr V n ` {..<MAXFILE}) - {0}"

text \<open>An inode's blocks are data blocks in use, each listed once.\<close>

definition ino_wf :: "superblock \<Rightarrow> (nat \<Rightarrow> block) \<Rightarrow> inode \<Rightarrow> bool" where
  "ino_wf sp V n \<longleftrightarrow> (\<forall>b\<in>iblocks V n. data_blk sp V b) \<and>
     (\<forall>bn<MAXFILE. iaddr V n bn \<noteq> 0 \<longrightarrow> iaddr V n bn \<noteq> i_addrs n NDIRECT) \<and>
     (\<forall>bn<MAXFILE. \<forall>bm<MAXFILE. iaddr V n bn = iaddr V n bm \<longrightarrow> iaddr V n bn \<noteq> 0 \<longrightarrow> bn = bm)"

definition nfree :: "superblock \<Rightarrow> (nat \<Rightarrow> block) \<Rightarrow> nat" where
  "nfree sp V = card {b. b < sb_size sp \<and> \<not> used sp V b}"

text \<open>
  \<open>frame k sp V n V' n'\<close>: from \<open>n\<close> over the blocks \<open>V\<close> to \<open>n'\<close> over \<open>V'\<close> at most \<open>k\<close> blocks are
  allocated, all to the inode, and no block of another file and no inode changes.
  \<open>ext k sp V n V' n'\<close>: moreover the blocks the inode had keep their place and contents, and
  those it gains are zeroed.
\<close>

definition frame :: "nat \<Rightarrow> superblock \<Rightarrow> (nat \<Rightarrow> block) \<Rightarrow> inode \<Rightarrow> (nat \<Rightarrow> block) \<Rightarrow> inode \<Rightarrow> bool" where
  "frame k sp V n V' n' \<longleftrightarrow> ino_wf sp V' n' \<and> meta_used sp V' \<and> n' = n\<lparr>i_addrs := i_addrs n'\<rparr> \<and>
     (\<forall>b < sb_size sp. used sp V b \<longrightarrow> used sp V' b) \<and>
     (\<forall>b < sb_bmapstart sp. V' b = V b) \<and>
     (\<forall>b. data_blk sp V b \<longrightarrow> b \<notin> iblocks V n \<longrightarrow> V' b = V b) \<and>
     (\<forall>b\<in>iblocks V' n'. b \<in> iblocks V n \<or> \<not> used sp V b) \<and>
     nfree sp V \<le> nfree sp V' + k"

definition ext :: "nat \<Rightarrow> superblock \<Rightarrow> (nat \<Rightarrow> block) \<Rightarrow> inode \<Rightarrow> (nat \<Rightarrow> block) \<Rightarrow> inode \<Rightarrow> bool" where
  "ext k sp V n V' n' \<longleftrightarrow> frame k sp V n V' n' \<and>
     (\<forall>bn<MAXFILE. iaddr V n bn \<noteq> 0 \<longrightarrow>
        iaddr V' n' bn = iaddr V n bn \<and> V' (iaddr V n bn) = V (iaddr V n bn)) \<and>
     (\<forall>bn<MAXFILE. iaddr V n bn = 0 \<longrightarrow> iaddr V' n' bn \<noteq> 0 \<longrightarrow> V' (iaddr V' n' bn) = zero_block)"

lemma MAXFILE_bounds: "NDIRECT < MAXFILE" "bn < MAXFILE \<Longrightarrow> bn - NDIRECT < NINDIRECT"
  by (auto simp: MAXFILE_def NDIRECT_def NINDIRECT_def BSIZE_def)

lemma iaddr_iblocks: "bn < MAXFILE \<Longrightarrow> iaddr V n bn \<noteq> 0 \<Longrightarrow> iaddr V n bn \<in> iblocks V n"
  by (simp add: iblocks_def)

lemma ino_wf_data: "ino_wf sp V n \<Longrightarrow> b \<in> iblocks V n \<Longrightarrow> data_blk sp V b"
  by (simp add: ino_wf_def)

lemma ino_wf_inj:
  "ino_wf sp V n \<Longrightarrow> bn < MAXFILE \<Longrightarrow> bm < MAXFILE \<Longrightarrow> iaddr V n bn = iaddr V n bm \<Longrightarrow>
   iaddr V n bn \<noteq> 0 \<Longrightarrow> bn = bm"
  unfolding ino_wf_def by blast

lemma frame_refl: "ino_wf sp V n \<Longrightarrow> meta_used sp V \<Longrightarrow> frame k sp V n V n"
  by (simp add: frame_def)

lemma frame_data: "frame k sp V n V' n' \<Longrightarrow> data_blk sp V b \<Longrightarrow> data_blk sp V' b"
  by (simp add: frame_def data_blk_def)

lemma frame_wf: "frame k sp V n V' n' \<Longrightarrow> ino_wf sp V' n'" "frame k sp V n V' n' \<Longrightarrow> meta_used sp V'"
  "frame k sp V n V' n' \<Longrightarrow> nfree sp V \<le> nfree sp V' + k"
  by (simp_all add: frame_def)

lemma frame_fields:
  assumes "frame k sp V n V' n'"
  shows "i_dev n' = i_dev n" "i_inum n' = i_inum n" "i_ref n' = i_ref n" "i_lock n' = i_lock n"
    "i_valid n' = i_valid n" "i_type n' = i_type n" "i_major n' = i_major n" "i_minor n' = i_minor n"
    "i_nlink n' = i_nlink n" "i_size n' = i_size n"
proof -
  have "n' = n\<lparr>i_addrs := i_addrs n'\<rparr>" using assms unfolding frame_def by blast
  then show "i_dev n' = i_dev n" "i_inum n' = i_inum n" "i_ref n' = i_ref n" "i_lock n' = i_lock n"
    "i_valid n' = i_valid n" "i_type n' = i_type n" "i_major n' = i_major n" "i_minor n' = i_minor n"
    "i_nlink n' = i_nlink n" "i_size n' = i_size n"
    by (cases n; cases n'; simp)+
qed

lemma frame_trans:
  assumes a: "frame j sp V n V1 n1" and b: "frame k sp V1 n1 V2 n2"
  shows "frame (j + k) sp V n V2 n2"
  unfolding frame_def
proof (intro conjI allI impI ballI)
  show "ino_wf sp V2 n2" "meta_used sp V2" using b by (auto simp: frame_def)
  show "n2 = n\<lparr>i_addrs := i_addrs n2\<rparr>"
    using frame_fields[OF a] frame_fields[OF b] by (intro inode.equality) simp_all
  fix x
  show "used sp V2 x" if "x < sb_size sp" "used sp V x" using a b that by (simp add: frame_def)
  show "V2 x = V x" if "x < sb_bmapstart sp" using a b that by (simp add: frame_def)
  show "V2 x = V x" if "data_blk sp V x" "x \<notin> iblocks V n"
  proof -
    have "x \<notin> iblocks V1 n1" using a that by (auto simp: frame_def data_blk_def)
    then show ?thesis using a b that frame_data[OF a that(1)] by (simp add: frame_def)
  qed
  show "x \<in> iblocks V n \<or> \<not> used sp V x" if "x \<in> iblocks V2 n2"
  proof -
    have "x \<in> iblocks V1 n1 \<or> \<not> used sp V1 x" using b that by (auto simp: frame_def)
    moreover have "x < sb_size sp" using b that by (auto simp: frame_def ino_wf_def data_blk_def)
    ultimately show ?thesis using a by (auto simp: frame_def)
  qed
next
  show "nfree sp V \<le> nfree sp V2 + (j + k)" using frame_wf(3)[OF a] frame_wf(3)[OF b] by simp
qed

lemma ext_frame: "ext k sp V n V' n' \<Longrightarrow> frame k sp V n V' n'"
  by (simp add: ext_def)

lemma ext_refl: "ino_wf sp V n \<Longrightarrow> meta_used sp V \<Longrightarrow> ext k sp V n V n"
  by (simp add: ext_def frame_refl)

lemma ext_trans:
  assumes a: "ext j sp V n V1 n1" and b: "ext k sp V1 n1 V2 n2"
  shows "ext (j + k) sp V n V2 n2"
  unfolding ext_def
proof (intro conjI allI impI)
  show "frame (j + k) sp V n V2 n2" by (rule frame_trans[OF ext_frame[OF a] ext_frame[OF b]])
  fix bn assume bn: "bn < MAXFILE"
  show "iaddr V2 n2 bn = iaddr V n bn" "V2 (iaddr V n bn) = V (iaddr V n bn)" if "iaddr V n bn \<noteq> 0"
    using a b bn that by (auto simp: ext_def)
  show "V2 (iaddr V2 n2 bn) = zero_block" if "iaddr V n bn = 0" "iaddr V2 n2 bn \<noteq> 0"
    using a b bn that by (cases "iaddr V1 n1 bn = 0") (auto simp: ext_def)
qed

section \<open>Allocating one block\<close>

definition alloc_view :: "superblock \<Rightarrow> nat \<Rightarrow> (nat \<Rightarrow> block) \<Rightarrow> (nat \<Rightarrow> block)" where
  "alloc_view sp b V = (mark_used sp b V)(b := zero_block)"

lemma alloc_view_new [simp]: "alloc_view sp b V b = zero_block"
  by (simp add: alloc_view_def)

lemma alloc_view:
  assumes lay: "lay sp" and meta: "meta_used sp V" and b: "b < sb_size sp" "\<not> used sp V b"
  shows "datastart sp \<le> b"
    and "x < sb_size sp \<Longrightarrow> used sp (alloc_view sp b V) x \<longleftrightarrow> x = b \<or> used sp V x"
    and "data_blk sp V x \<Longrightarrow> x \<noteq> b \<and> alloc_view sp b V x = V x"
    and "x < sb_bmapstart sp \<Longrightarrow> alloc_view sp b V x = V x"
    and "meta_used sp (alloc_view sp b V)" and "nfree sp V = Suc (nfree sp (alloc_view sp b V))"
proof -
  show d: "datastart sp \<le> b" using meta b by (auto simp: meta_used_def not_less[symmetric])
  show u: "used sp (alloc_view sp b V) x \<longleftrightarrow> x = b \<or> used sp V x" if "x < sb_size sp" for x
    using used_data[OF that d] by (simp add: alloc_view_def)
  note lb = lay_bounds[OF lay]
  show "data_blk sp V x \<Longrightarrow> x \<noteq> b \<and> alloc_view sp b V x = V x"
    using BBLOCK_lt[OF b(1)] b(2) by (auto simp: data_blk_def alloc_view_def mark_used_def)
  show "x < sb_bmapstart sp \<Longrightarrow> alloc_view sp b V x = V x"
    using BBLOCK_ge[of sp b] d lb by (auto simp: alloc_view_def mark_used_def)
  show "meta_used sp (alloc_view sp b V)"
    unfolding alloc_view_def by (rule meta_used_data[OF lay meta_used_alloc[OF lay meta] d])
  have "{x. x < sb_size sp \<and> \<not> used sp V x} =
      insert b {x. x < sb_size sp \<and> \<not> used sp (alloc_view sp b V) x}"
    using u b by auto
  then show "nfree sp V = Suc (nfree sp (alloc_view sp b V))"
    using u b by (simp add: nfree_def)
qed

text \<open>A map over \<open>V'\<close> with one new block \<open>b\<close>, put at \<open>bn\<close> (or nowhere, for the indirect block).\<close>

lemma ext_one:
  assumes lay: "lay sp" and wf: "ino_wf sp V n" and b: "b < sb_size sp" "\<not> used sp V b" "datastart sp \<le> b"
    and used': "\<And>x. x < sb_size sp \<Longrightarrow> used sp V' x \<longleftrightarrow> x = b \<or> used sp V x"
    and zero: "V' b = zero_block" and meta: "meta_used sp V'" and free: "nfree sp V = Suc (nfree sp V')"
    and low: "\<And>x. x < sb_bmapstart sp \<Longrightarrow> V' x = V x"
    and data: "\<And>x. data_blk sp V x \<Longrightarrow> x \<noteq> i_addrs n NDIRECT \<Longrightarrow> V' x = V x"
    and n': "n' = n\<lparr>i_addrs := i_addrs n'\<rparr>"
    and new: "\<And>bm. bm < MAXFILE \<Longrightarrow> iaddr V' n' bm = (if Some bm = slot then b else iaddr V n bm)"
      "\<And>bm. slot = Some bm \<Longrightarrow> iaddr V n bm = 0"
    and ind: "i_addrs n' NDIRECT = i_addrs n NDIRECT \<or>
      i_addrs n' NDIRECT = b \<and> slot = None \<and> i_addrs n NDIRECT = 0"
  shows "ext 1 sp V n V' n'"
proof -
  have b0: "b \<noteq> 0" using b(3) lay_bounds(1)[OF lay] by simp
  have bl: "iblocks V' n' \<subseteq> insert b (iblocks V n)"
    using new(1) ind by (auto simp: iblocks_def)
  have db: "data_blk sp V' x" if "x = b \<or> data_blk sp V x" for x
    using that b used' by (auto simp: data_blk_def)
  have nb: "iaddr V n bm \<noteq> b" if "bm < MAXFILE" for bm
    using ino_wf_data[OF wf iaddr_iblocks[OF that]] b(2) b0 by (auto simp: data_blk_def)
  have ib: "i_addrs n NDIRECT \<noteq> b"
    using wf b(2) b0 by (auto simp: ino_wf_def iblocks_def data_blk_def)
  have "ino_wf sp V' n'"
    unfolding ino_wf_def
  proof (intro conjI ballI allI impI)
    fix x assume "x \<in> iblocks V' n'"
    then show "data_blk sp V' x" using bl db ino_wf_data[OF wf] by blast
  next
    fix bm assume bm: "bm < MAXFILE" "iaddr V' n' bm \<noteq> 0"
    have "iaddr V n bm \<noteq> 0 \<Longrightarrow> iaddr V n bm \<noteq> i_addrs n NDIRECT"
      using wf bm(1) by (simp add: ino_wf_def)
    then show "iaddr V' n' bm \<noteq> i_addrs n' NDIRECT"
      using new(1)[OF bm(1)] ind nb[OF bm(1)] ib bm(2) by (cases "Some bm = slot") auto
  next
    fix bm bm' assume bm: "bm < MAXFILE" "bm' < MAXFILE"
      and eq: "iaddr V' n' bm = iaddr V' n' bm'" "iaddr V' n' bm \<noteq> 0"
    show "bm = bm'"
      using eq nb[OF bm(1)] nb[OF bm(2)] ino_wf_inj[OF wf bm] unfolding new(1)[OF bm(1)] new(1)[OF bm(2)]
      by (metis option.inject)
  qed
  moreover have "V' (iaddr V n bm) = V (iaddr V n bm)" if "bm < MAXFILE" "iaddr V n bm \<noteq> 0" for bm
  proof -
    have "iaddr V n bm \<noteq> i_addrs n NDIRECT" using wf that by (simp add: ino_wf_def)
    then show ?thesis by (rule data[OF ino_wf_data[OF wf iaddr_iblocks[OF that]]])
  qed
  moreover have "V' x = V x" if "data_blk sp V x" "x \<notin> iblocks V n" for x
    using data[OF that(1)] that lay_bounds(1)[OF lay] by (auto simp: iblocks_def data_blk_def)
  moreover have "x \<in> iblocks V n \<or> \<not> used sp V x" if "x \<in> iblocks V' n'" for x
    using bl that b(2) by blast
  moreover have "iaddr V' n' bm = iaddr V n bm" if "bm < MAXFILE" "iaddr V n bm \<noteq> 0" for bm
    using new(1)[OF that(1)] new(2)[of bm] that by auto
  moreover have "V' (iaddr V' n' bm) = zero_block"
    if "bm < MAXFILE" "iaddr V n bm = 0" "iaddr V' n' bm \<noteq> 0" for bm
    using new(1)[OF that(1)] that zero by (auto split: if_splits)
  ultimately show ?thesis
    unfolding ext_def frame_def using meta n' used' low free by simp
qed

lemma iaddr_direct: "bn < NDIRECT \<Longrightarrow> iaddr V n bn = i_addrs n bn"
  by (simp add: iaddr_def)

lemma iaddr_cong:
  assumes "i_addrs n' = (i_addrs n)(k := a)" and "k \<noteq> NDIRECT"
    and "i_addrs n NDIRECT \<noteq> 0 \<Longrightarrow> V' (i_addrs n NDIRECT) = V (i_addrs n NDIRECT)"
  shows "iaddr V' n' bm = (if bm = k \<and> k < NDIRECT then a else iaddr V n bm)"
  using assms by (auto simp: iaddr_def)

lemma ind_data: "ino_wf sp V n \<Longrightarrow> i_addrs n NDIRECT \<noteq> 0 \<Longrightarrow> data_blk sp V (i_addrs n NDIRECT)"
  by (simp add: ino_wf_def iblocks_def)

text \<open>A direct block, and the indirect block itself.\<close>

lemma ext_direct:
  assumes lay: "lay sp" and meta: "meta_used sp V" and wf: "ino_wf sp V n"
    and b: "b < sb_size sp" "\<not> used sp V b" and bn: "bn < NDIRECT" "i_addrs n bn = 0"
  shows "ext 1 sp V n (alloc_view sp b V) (n\<lparr>i_addrs := (i_addrs n)(bn := b)\<rparr>)"
proof (rule ext_one[OF lay wf b, where slot = "Some bn"])
  note a = alloc_view[OF lay meta b]
  let ?n = "n\<lparr>i_addrs := (i_addrs n)(bn := b)\<rparr>"
  show "iaddr (alloc_view sp b V) ?n bm = (if Some bm = Some bn then b else iaddr V n bm)" for bm
    using iaddr_cong[of ?n n bn b "alloc_view sp b V" V bm] bn a(3)[OF ind_data[OF wf]] by simp
qed (use alloc_view[OF lay meta b] bn in \<open>auto simp: iaddr_direct\<close>)

lemma ext_ind:
  assumes lay: "lay sp" and meta: "meta_used sp V" and wf: "ino_wf sp V n"
    and b: "b < sb_size sp" "\<not> used sp V b" and bn: "i_addrs n NDIRECT = 0"
  shows "ext 1 sp V n (alloc_view sp b V) (n\<lparr>i_addrs := (i_addrs n)(NDIRECT := b)\<rparr>)"
proof (rule ext_one[OF lay wf b, where slot = None])
  show "iaddr (alloc_view sp b V) (n\<lparr>i_addrs := (i_addrs n)(NDIRECT := b)\<rparr>) bm =
      (if Some bm = None then b else iaddr V n bm)" for bm
    using bn by (simp add: iaddr_def alloc_view_def)
qed (use alloc_view[OF lay meta b] bn in auto)

text \<open>An entry of the indirect block.\<close>

definition ind_view :: "superblock \<Rightarrow> nat \<Rightarrow> nat \<Rightarrow> nat \<Rightarrow> (nat \<Rightarrow> block) \<Rightarrow> (nat \<Rightarrow> block)" where
  "ind_view sp ia k b V = (alloc_view sp b V)(ia := put32 (4 * k) b (V ia))"

lemma ext_entry:
  assumes lay: "lay sp" and meta: "meta_used sp V" and wf: "ino_wf sp V n"
    and b: "b < sb_size sp" "\<not> used sp V b" "b < 4294967296"
    and bn: "NDIRECT \<le> bn" "i_addrs n NDIRECT = ia" "ia \<noteq> 0" "iaddr V n bn = 0"
  shows "ext 1 sp V n (ind_view sp ia (bn - NDIRECT) b V) n"
proof -
  note a = alloc_view[OF lay meta b(1,2)]
  let ?V = "ind_view sp ia (bn - NDIRECT) b V"
  have ia: "data_blk sp V ia" using ind_data[OF wf] bn by simp
  then have ds: "datastart sp \<le> ia" "ia \<noteq> b" "b \<noteq> ia" using a(3)[OF ia] by (auto simp: data_blk_def)
  have used: "used sp ?V x \<longleftrightarrow> x = b \<or> used sp V x" if "x < sb_size sp" for x
    unfolding ind_view_def using used_data[OF that ds(1)] a(2)[OF that] by simp
  have "iaddr ?V n bm = (if Some bm = Some bn then b else iaddr V n bm)" for bm
  proof (cases "bm < NDIRECT \<or> bm = bn")
    case True
    then show ?thesis using bn b(3) by (auto simp: iaddr_def ind_view_def)
  next
    case False
    then have "4 * (bn - NDIRECT) + 4 \<le> 4 * (bm - NDIRECT) \<or> 4 * (bm - NDIRECT) + 4 \<le> 4 * (bn - NDIRECT)"
      using bn(1) by auto
    then show ?thesis using False bn by (auto simp: iaddr_def ind_view_def get32_put32_other)
  qed
  moreover have "meta_used sp ?V" unfolding ind_view_def by (rule meta_used_data[OF lay a(5) ds(1)])
  moreover have "nfree sp ?V = nfree sp (alloc_view sp b V)"
    using used a(2) unfolding nfree_def by (metis (no_types, lifting))
  moreover have "x < sb_bmapstart sp \<Longrightarrow> ?V x = V x" for x
    using a(4)[of x] ds lay_bounds(3)[OF lay] by (simp add: ind_view_def)
  moreover have "data_blk sp V x \<Longrightarrow> x \<noteq> ia \<Longrightarrow> ?V x = V x" for x
    using a(3)[of x] by (simp add: ind_view_def)
  ultimately show ?thesis
    by (intro ext_one[OF lay wf b(1,2) a(1), where slot = "Some bn"])
      (use used a bn ds in \<open>auto simp: ind_view_def\<close>)
qed

section \<open>bmap\<close>

lemma balloc_ext:
  assumes "room s (Suc (Suc k)) (Suc h)" and "fs_lay s" and "held_data s" and "0 < nfree (sb s) (bview s)"
  shows "\<exists>b t. balloc ROOTDEV s = Ok (b, t) \<and> b < sb_size (sb s) \<and> \<not> used (sb s) (bview s) b \<and>
    tx s 2 (alloc_view (sb s) b (bview s)) t \<and> (\<forall>c<b. used (sb s) (bview s) c)"
proof -
  let ?P = "\<lambda>b. b < sb_size (sb s) \<and> \<not> used (sb s) (bview s) b"
  have ex: "\<exists>b. ?P b"
    using assms(4) unfolding nfree_def by (metis (mono_tags, lifting) card.empty empty_Collect_eq less_irrefl)
  define b where "b = (LEAST b. ?P b)"
  have b: "?P b" unfolding b_def by (rule LeastI_ex[OF ex])
  have "used (sb s) (bview s) c" if "c < b" for c
    using not_less_Least[of c ?P] that b unfolding b_def by (meson less_trans)
  then show ?thesis
    using balloc_Ok[OF assms(1-3), of b] b by (auto simp: alloc_view_def)
qed

lemma disk_32: "log_inv s \<Longrightarrow> disksize s \<le> 4294967296"
  by (simp add: log_inv_def log_wf_def)

lemma data_home:
  assumes "fs_lay s" and "data_blk (sb s) (bview s) b"
  shows "b < disksize s" and "b \<notin> log_region s" and "b \<noteq> 1"
  using assms lay_bounds(3)[of "sb s"] fs_lay_home[OF assms(1), of b] by (auto simp: fs_lay_def data_blk_def)

lemma ind_entry:
  assumes rm: "room s (Suc (Suc (Suc k))) (Suc (Suc h))" and fl: "fs_lay s" and h: "held s = {}"
    and ia: "data_blk (sb s) (bview s) ia" and free: "0 < nfree (sb s) (bview s)"
  shows "\<exists>b i t u v w. bread ROOTDEV ia s = Ok (i, t) \<and> b_data (bufs t i) = bview s ia \<and>
    inodes t = inodes s \<and> balloc ROOTDEV t = Ok (b, u) \<and>
    log_write i (set_data i (put32 (4 * j) b (b_data (bufs u i))) u) = Ok v \<and> brelse i v = Ok w \<and>
    b < sb_size (sb s) \<and> \<not> used (sb s) (bview s) b \<and> tx s 3 (ind_view (sb s) ia j b (bview s)) w"
proof -
  note home = data_home[OF fl ia]
  have hb: "ia \<notin> held_blocks s" using h by (simp add: held_blocks_def)
  obtain i t where t: "bread ROOTDEV ia s = Ok (i, t)" "held t = insert i (held s)"
      "held_blocks t = insert ia (held_blocks s)" "b_blockno (bufs t i) = ia" "b_data (bufs t i) = bview s ia"
      "bview t = bview s" "room t (Suc (Suc (Suc k))) (Suc h)" "same s t" "lh_n t = lh_n s" "logged t = logged s"
    by (rule block_access[OF rm home(1) hb])
  have sbt: "sb t = sb s" "inodes t = inodes s" using same_fs[OF t(8)] by auto
  have flt: "fs_lay t" using fl same_log[OF t(8)] t(6) sbt by (simp add: fs_lay_def)
  have hdt: "held_data t"
    using ia t(3,6) sbt h by (simp add: held_data_def data_blk_def held_blocks_def)
  obtain b u where u: "balloc ROOTDEV t = Ok (b, u)" "b < sb_size (sb t)" "\<not> used (sb t) (bview t) b"
      "tx t 2 (alloc_view (sb t) b (bview t)) u"
    using balloc_ext[OF t(7) flt hdt] free t(6) sbt by auto
  have rmu: "room u (Suc k) (Suc h)" using tx_room[OF u(4), of "Suc k"] t(7) by simp
  have iu: "i \<in> held u" "bufs u i = bufs t i" using u(4) t(2) by (auto simp: tx_def)
  have reg: "ia \<notin> log_region u" using home(2) same_region[OF t(8)] same_region[OF tx_same[OF u(4)]] by simp
  let ?d = "put32 (4 * j) b (bview s ia)"
  obtain v where v: "log_write i (set_data i ?d u) = Ok v" "log_inv v" "bview v = (bview u)(ia := ?d)"
      "held v = held u" "same u v" "lh_n u \<le> lh_n v" "lh_n v \<le> lh_n u + 1" "logged v = insert ia (logged u)"
    using t(4) iu(2) reg home(3) by (rule_tac log_write_Ok[OF rmu iu(1), of ia]) auto
  have iv: "i \<in> held v" using v(4) iu by simp
  obtain w where w: "brelse i v = Ok w" "log_inv w" "bview w = bview v" "held w = held v - {i}"
      "same v w" "lh_n w = lh_n v" "logged w = logged v"
    by (rule release[OF v(2) iv])
  have "same s w" using t(8) tx_same[OF u(4)] v(5) w(5) by (blast intro: same_trans)
  moreover have "bview w = ind_view (sb s) ia j b (bview s)"
    using w(3) v(3) tx_view[OF u(4)] t(6) sbt by (simp add: ind_view_def)
  moreover have "lh_n s \<le> lh_n w" "lh_n w \<le> lh_n s + 3" "logged s \<subseteq> logged w" "held w = {}"
    using u(4) v w t(2,9,10) h by (auto simp: tx_def)
  ultimately have "tx s 3 (ind_view (sb s) ia j b (bview s)) w" using w(2) h by (simp add: tx_def)
  then show ?thesis using t u v w sbt iu by auto
qed

text \<open>An inode that \<open>bmap\<close> can be called on.\<close>

definition ino_ok :: "'a fs_state_scheme \<Rightarrow> nat \<Rightarrow> bool" where
  "ino_ok s ip \<longleftrightarrow> fs_lay s \<and> held s = {} \<and> i_dev (inodes s ip) = ROOTDEV \<and>
     ino_wf (sb s) (bview s) (inodes s ip)"

text \<open>The step from \<open>s\<close> to \<open>t\<close> extends inode \<open>ip\<close> and nothing else.\<close>

definition ext_step :: "nat \<Rightarrow> nat \<Rightarrow> nat \<Rightarrow> 'a fs_state_scheme \<Rightarrow> 'a fs_state_scheme \<Rightarrow> bool" where
  "ext_step ip k m s t \<longleftrightarrow> ftx s k (bview t) t \<and> inodes t = (inodes s)(ip := inodes t ip) \<and>
     ext m (sb s) (bview s) (inodes s ip) (bview t) (inodes t ip)"

lemma ext_step_ok:
  assumes "ext_step ip k m s t" and "ino_ok s ip"
  shows "ino_ok t ip" and "sb t = sb s" and "m \<le> j \<Longrightarrow> j \<le> nfree (sb s) (bview s) \<Longrightarrow> j - m \<le> nfree (sb t) (bview t)"
proof -
  have e: "ftx s k (bview t) t" "ext m (sb s) (bview s) (inodes s ip) (bview t) (inodes t ip)"
    using assms(1) by (auto simp: ext_step_def)
  show sb: "sb t = sb s" using ftx_simps(4)[OF e(1)] .
  show "ino_ok t ip"
    using assms(2) e ftx_lay[OF e(1)] ftx_simps(3)[OF e(1)] sb frame_fields(1)[OF ext_frame[OF e(2)]]
      frame_wf[OF ext_frame[OF e(2)]]
    by (simp add: ino_ok_def)
  show "j - m \<le> nfree (sb t) (bview t)" if "m \<le> j" "j \<le> nfree (sb s) (bview s)"
  proof -
    have "nfree (sb s) (bview s) \<le> nfree (sb s) (bview t) + m" using frame_wf(3)[OF ext_frame[OF e(2)]] .
    then show ?thesis using that sb by simp
  qed
qed

lemma ext_step_mono:
  assumes "ext_step ip k m s t" and "k \<le> k'" and "m \<le> m'"
  shows "ext_step ip k' m' s t"
  using assms ftx_mono[of s k _ t k'] unfolding ext_step_def ext_def frame_def by (auto intro: le_trans)

lemma ext_step_trans:
  assumes "ext_step ip j m s t" and "ext_step ip k l t u" and "ino_ok s ip"
  shows "ext_step ip (j + k) (m + l) s u"
proof -
  have sb: "sb t = sb s" by (rule ext_step_ok(2)[OF assms(1,3)])
  show ?thesis
    using assms(1,2) ftx_trans[of s j "bview t" t k "bview u" u] ext_trans[of m "sb s" _ _ "bview t" "inodes t ip" l]
    unfolding ext_step_def sb by (metis fun_upd_upd)
qed

lemma ext_step_refl: "log_inv s \<Longrightarrow> ino_ok s ip \<Longrightarrow> ext_step ip k m s s"
  by (simp add: ext_step_def ftx_refl ext_refl ino_ok_def fs_lay_def)

lemma bmap_slot_Ok:
  assumes rm: "room s (Suc (Suc k)) (Suc h)" and ok: "ino_ok s ip" and j: "j \<le> NDIRECT"
    and free: "0 < nfree (sb s) (bview s)"
  shows "\<exists>a t. bmap_slot ip j s = Ok (a, t) \<and> ext_step ip 2 1 s t \<and> a \<noteq> 0 \<and> i_addrs (inodes t ip) j = a"
proof (cases "i_addrs (inodes s ip) j = 0")
  case False
  then show ?thesis
    using ext_step_refl[OF room_inv[OF rm] ok] by (simp add: bmap_slot_def Let_def)
next
  case True
  have fl: "fs_lay s" "held_data s" "i_dev (inodes s ip) = ROOTDEV" and wf: "ino_wf (sb s) (bview s) (inodes s ip)"
    and lm: "lay (sb s)" "meta_used (sb s) (bview s)"
    using ok by (auto simp: ino_ok_def held_data_empty fs_lay_def)
  obtain b t where b: "balloc ROOTDEV s = Ok (b, t)" "b < sb_size (sb s)" "\<not> used (sb s) (bview s) b"
      "tx s 2 (alloc_view (sb s) b (bview s)) t"
    using balloc_ext[OF rm fl(1,2) free] by blast
  let ?t = "set_addr ip j b t" and ?n = "(inodes s ip)\<lparr>i_addrs := (i_addrs (inodes s ip))(j := b)\<rparr>"
  note f = tx_ftx[OF b(4)]
  have "ext 1 (sb s) (bview s) (inodes s ip) (alloc_view (sb s) b (bview s)) ?n"
    using True j ext_direct[OF lm wf b(2,3), of j] ext_ind[OF lm wf b(2,3)] by (cases "j = NDIRECT") auto
  then have "ext_step ip 2 1 s ?t"
    using ftx_set_addr[OF f(1), of ip j b] f(2) tx_view[OF b(4)] by (simp add: ext_step_def)
  moreover have "b \<noteq> 0" using alloc_view(1)[OF lm b(2,3)] lay_bounds(1)[OF lm(1)] by simp
  ultimately show ?thesis using True b(1) fl(3) by (simp add: bmap_slot_def Let_def)
qed

lemma bmap_Ok:
  assumes rm: "room s (5 + k) (Suc (Suc h))" and ok: "ino_ok s ip" and bn: "bn < MAXFILE"
    and free: "2 \<le> nfree (sb s) (bview s)"
  shows "\<exists>a t. bmap ip bn s = Ok (a, t) \<and> ext_step ip 5 2 s t \<and> a \<noteq> 0 \<and> iaddr (bview t) (inodes t ip) bn = a"
proof (cases "bn < NDIRECT")
  case True
  have "room s (Suc (Suc k)) (Suc h)" by (rule room_mono[OF rm]) auto
  from bmap_slot_Ok[OF this ok _ , of bn] free True obtain a t where t:
    "bmap_slot ip bn s = Ok (a, t)" "ext_step ip 2 1 s t" "a \<noteq> 0" "i_addrs (inodes t ip) bn = a" by auto
  have "ext_step ip 5 2 s t"
    by (rule ext_step_mono[OF t(2)]) simp_all
  then show ?thesis using t True by (auto simp: bmap_def iaddr_direct)
next
  case False
  have "room s (Suc (Suc (3 + k))) (Suc h)" by (rule room_mono[OF rm]) auto
  from bmap_slot_Ok[OF this ok, of NDIRECT] free obtain ia s1 where s1:
    "bmap_slot ip NDIRECT s = Ok (ia, s1)" "ext_step ip 2 1 s s1" "ia \<noteq> 0" "i_addrs (inodes s1 ip) NDIRECT = ia"
    by auto
  note ok1 = ext_step_ok[OF s1(2) ok]
  have rm1: "room s1 (Suc (Suc (Suc k))) (Suc (Suc h))"
    using ftx_room[of s 2 "bview s1" s1 "3 + k" "Suc (Suc h)"] s1(2) rm
    by (simp add: ext_step_def eval_nat_numeral)
  have o1: "fs_lay s1" "held s1 = {}" "i_dev (inodes s1 ip) = ROOTDEV" "ino_wf (sb s1) (bview s1) (inodes s1 ip)"
    and lm: "lay (sb s1)" "meta_used (sb s1) (bview s1)"
    using ok1(1) by (auto simp: ino_ok_def fs_lay_def)
  have ia: "data_blk (sb s1) (bview s1) ia" using ind_data[OF o1(4)] s1(3,4) by simp
  have fr1: "0 < nfree (sb s1) (bview s1)" using ok1(3)[of 2] free by simp
  let ?j = "bn - NDIRECT"
  obtain b i t u v w where e: "bread ROOTDEV ia s1 = Ok (i, t)" "b_data (bufs t i) = bview s1 ia"
    "inodes t = inodes s1" "balloc ROOTDEV t = Ok (b, u)"
    "log_write i (set_data i (put32 (4 * ?j) b (b_data (bufs u i))) u) = Ok v" "brelse i v = Ok w"
    "b < sb_size (sb s1)" "\<not> used (sb s1) (bview s1) b" "tx s1 3 (ind_view (sb s1) ia ?j b (bview s1)) w"
    using ind_entry[OF rm1 o1(1,2) ia fr1, of ?j] by blast
  show ?thesis
  proof (cases "get32 (bview s1 ia) (4 * ?j) = 0")
    case True
    then have z: "iaddr (bview s1) (inodes s1 ip) bn = 0" using False s1(4) by (simp add: iaddr_def)
    have b32: "b < 4294967296" using e(7) o1(1) disk_32[OF room_inv[OF rm1]] by (simp add: fs_lay_def)
    note x = ext_entry[OF lm o1(4) e(7,8) b32 _ s1(4,3) z]
    have "ext_step ip 3 1 s1 w"
      using x False tx_ftx[OF e(9)] tx_view[OF e(9)] by (simp add: ext_step_def)
    then have "ext_step ip (2 + 3) (1 + 1) s w" by (rule ext_step_trans[OF s1(2) _ ok])
    then have "ext_step ip 5 2 s w" by (simp add: numeral_2_eq_2)
    moreover have "iaddr (bview w) (inodes w ip) bn = b"
      using False s1(3,4) b32 tx_view[OF e(9)] tx_ftx(2)[OF e(9)] by (simp add: iaddr_def ind_view_def)
    moreover have "b \<noteq> 0" using alloc_view(1)[OF lm e(7,8)] lay_bounds(1)[OF lm(1)] by simp
    ultimately show ?thesis
      using False MAXFILE_bounds(2)[OF bn] s1(1) o1(3) e True by (simp add: bmap_def Let_def)
  next
    case nz: False
    have hb: "ia \<notin> held_blocks s1" using o1(2) by (simp add: held_blocks_def)
    obtain i' t' u' where r: "bread ROOTDEV ia s1 = Ok (i', t')" "b_data (bufs t' i') = bview s1 ia" "same s1 t'"
        "brelse i' t' = Ok u'" "tx s1 0 (bview s1) u'"
      by (rule read_block[OF rm1 data_home(1)[OF o1(1) ia] hb])
    have st: "ext_step ip 3 1 s1 u'"
      using ftx_mono[OF tx_ftx(1)[OF r(5)], of 3] tx_ftx(2)[OF r(5)] tx_view[OF r(5)] ext_refl[OF o1(4) lm(2)]
      by (simp add: ext_step_def)
    then have "ext_step ip (2 + 3) (1 + 1) s u'" by (rule ext_step_trans[OF s1(2) _ ok])
    then have "ext_step ip 5 2 s u'" by (simp add: numeral_2_eq_2)
    moreover have "iaddr (bview u') (inodes u' ip) bn = get32 (bview s1 ia) (4 * ?j)"
      using False s1(3,4) tx_view[OF r(5)] tx_ftx(2)[OF r(5)] by (simp add: iaddr_def)
    ultimately show ?thesis
      using False MAXFILE_bounds(2)[OF bn] s1(1) o1(3) r nz by (simp add: bmap_def Let_def)
  qed
qed

end
