(* ===== verification/Fs_Data.thy ===== *)
theory Fs_Data
  imports Fs_Map
begin

text \<open>
  Reading and writing the contents of an inode: \<open>readi\<close> and \<open>writei\<close> of fs.c, and their
  refinement of the obvious operations on an array of bytes.  The entries of \<open>devsw\<close> are
  functions on the whole state, given as an argument.
\<close>

section \<open>The operations\<close>

definition NDEV :: int where [consts_defs]: "NDEV = 10"

record 's devsw =
  dev_read :: "(nat \<Rightarrow> nat \<Rightarrow> 's \<Rightarrow> ((int \<times> byte list) \<times> 's) res) option"
  dev_write :: "(nat \<Rightarrow> byte list \<Rightarrow> 's \<Rightarrow> (int \<times> 's) res) option"

text \<open>The bytes \<open>memmove\<close> takes out of a block, and a block with bytes stored into it.\<close>

definition get_bytes :: "block \<Rightarrow> nat \<Rightarrow> nat \<Rightarrow> byte list" where
  "get_bytes d p m = map (\<lambda>k. d (p + k)) [0..<m]"

definition put_bytes :: "nat \<Rightarrow> byte list \<Rightarrow> block \<Rightarrow> block" where
  "put_bytes p bs d = (\<lambda>k. if p \<le> k \<and> k < p + length bs then bs ! (k - p) else d k)"

lemma chunk_pos: "0 < r \<Longrightarrow> 0 < min r (BSIZE - p mod BSIZE)"
  by (simp add: BSIZE_def)

text \<open>\<open>r\<close> is \<open>n - tot\<close>, the number of bytes still to copy.\<close>

function readi_loop :: "nat \<Rightarrow> nat \<Rightarrow> nat \<Rightarrow> 'a fs_state_scheme \<Rightarrow> (byte list \<times> 'a fs_state_scheme) res" where
  "readi_loop ip off r s =
     (if r = 0 then Ok ([], s)
      else
        rbind (bmap ip (off div BSIZE) s) (\<lambda>(addr, s).
        rbind (bread (i_dev (inodes s ip)) addr s) (\<lambda>(bp, s).
        let m = min r (BSIZE - off mod BSIZE); bs = get_bytes (b_data (bufs s bp)) (off mod BSIZE) m in
        rbind (brelse bp s) (\<lambda>s.
        rbind (readi_loop ip (off + m) (r - m) s) (\<lambda>(bs', s). Ok (bs @ bs', s))))))"
  by pat_completeness auto
termination by (relation "measure (\<lambda>(ip, off, r, s). r)") (auto simp: BSIZE_def)

definition dev_major :: "inode \<Rightarrow> int" where
  "dev_major n = sint (i_major n)"

definition readi :: "(nat \<Rightarrow> 'a fs_state_scheme devsw) \<Rightarrow> nat \<Rightarrow> nat \<Rightarrow> nat \<Rightarrow> 'a fs_state_scheme \<Rightarrow>
    ((int \<times> byte list) \<times> 'a fs_state_scheme) res" where
  "readi devsw ip off n s =
     (let np = inodes s ip in
      if i_type np = T_DEV then
        (let major = dev_major np in
         if major < 0 \<or> NDEV \<le> major then Ok ((-1, []), s)
         else case dev_read (devsw (nat major)) of
           None \<Rightarrow> Ok ((-1, []), s)
         | Some f \<Rightarrow> f ip n s)
      else if i_size np < off \<or> (off + n) mod 4294967296 < off then Ok ((-1, []), s)
      else
        let n = (if i_size np < (off + n) mod 4294967296 then i_size np - off else n) in
        rbind (readi_loop ip off n s) (\<lambda>(bs, s). Ok ((int n, bs), s)))"

text \<open>\<open>src\<close> holds the bytes still to write; the result is the offset behind the last one.\<close>

function writei_loop :: "nat \<Rightarrow> nat \<Rightarrow> byte list \<Rightarrow> 'a fs_state_scheme \<Rightarrow> (nat \<times> 'a fs_state_scheme) res" where
  "writei_loop ip off src s =
     (if src = [] then Ok (off, s)
      else
        rbind (bmap ip (off div BSIZE) s) (\<lambda>(addr, s).
        rbind (bread (i_dev (inodes s ip)) addr s) (\<lambda>(bp, s).
        let m = min (length src) (BSIZE - off mod BSIZE) in
        rbind (log_write bp (set_data bp (put_bytes (off mod BSIZE) (take m src) (b_data (bufs s bp))) s)) (\<lambda>s.
        rbind (brelse bp s) (\<lambda>s.
        writei_loop ip (off + m) (drop m src) s)))))"
  by pat_completeness auto
termination by (relation "measure (\<lambda>(ip, off, src, s). length src)") (auto simp: BSIZE_def)

declare readi_loop.simps [simp del] writei_loop.simps [simp del]

definition writei :: "(nat \<Rightarrow> 'a fs_state_scheme devsw) \<Rightarrow> nat \<Rightarrow> byte list \<Rightarrow> nat \<Rightarrow> 'a fs_state_scheme \<Rightarrow>
    (int \<times> 'a fs_state_scheme) res" where
  "writei devsw ip src off s =
     (let np = inodes s ip; n = length src in
      if i_type np = T_DEV then
        (let major = dev_major np in
         if major < 0 \<or> NDEV \<le> major then Ok (-1, s)
         else case dev_write (devsw (nat major)) of
           None \<Rightarrow> Ok (-1, s)
         | Some f \<Rightarrow> f ip src s)
      else if i_size np < off \<or> (off + n) mod 4294967296 < off then Ok (-1, s)
      else if MAXFILE * BSIZE < (off + n) mod 4294967296 then Ok (-1, s)
      else
        rbind (writei_loop ip off src s) (\<lambda>(off, s).
        rbind (if 0 < n \<and> i_size (inodes s ip) < off
               then iupdate ip (upd_inode ip (\<lambda>np. np\<lparr>i_size := off\<rparr>) s)
               else Ok s) (\<lambda>s. Ok (int n, s))))"

section \<open>The contents of a file\<close>

definition fbyte :: "(nat \<Rightarrow> block) \<Rightarrow> inode \<Rightarrow> nat \<Rightarrow> byte" where
  "fbyte V n p = (let a = iaddr V n (p div BSIZE) in if a = 0 then 0 else V a (p mod BSIZE))"

definition contents :: "'a fs_state_scheme \<Rightarrow> nat \<Rightarrow> byte list" where
  "contents s ip = map (fbyte (bview s) (inodes s ip)) [0..<i_size (inodes s ip)]"

text \<open>Every block below the size is there, and the size is one a file can have.\<close>

definition no_holes :: "'a fs_state_scheme \<Rightarrow> nat \<Rightarrow> bool" where
  "no_holes s ip \<longleftrightarrow> i_size (inodes s ip) \<le> MAXFILE * BSIZE \<and>
     (\<forall>p<i_size (inodes s ip). iaddr (bview s) (inodes s ip) (p div BSIZE) \<noteq> 0)"

lemma div_BSIZE_lt: "p < MAXFILE * BSIZE \<Longrightarrow> p div BSIZE < MAXFILE"
  by (simp add: less_mult_imp_div_less)

lemma ext_fbyte:
  assumes "ext k sp V n V' n'" and "p < MAXFILE * BSIZE"
  shows "fbyte V' n' p = fbyte V n p"
proof -
  have bn: "p div BSIZE < MAXFILE" using assms(2) by (rule div_BSIZE_lt)
  show ?thesis
  proof (cases "iaddr V n (p div BSIZE) = 0")
    case False
    then show ?thesis using assms(1) bn by (simp add: ext_def fbyte_def Let_def)
  next
    case True
    then have "iaddr V' n' (p div BSIZE) \<noteq> 0 \<longrightarrow> V' (iaddr V' n' (p div BSIZE)) = zero_block"
      using assms(1) bn by (simp add: ext_def)
    then show ?thesis using True by (auto simp: fbyte_def Let_def zero_block_def)
  qed
qed

section \<open>Reading\<close>

lemma bmap_hit:
  assumes rm: "room s k (Suc h)" and ok: "ino_ok s ip" and bn: "bn < MAXFILE"
    and a: "iaddr (bview s) (inodes s ip) bn \<noteq> 0"
  shows "\<exists>t. bmap ip bn s = Ok (iaddr (bview s) (inodes s ip) bn, t) \<and> tx s 0 (bview s) t"
proof (cases "bn < NDIRECT")
  case True
  then show ?thesis
    using a tx_refl[OF room_inv[OF rm], of 0] by (auto simp: bmap_def bmap_slot_def iaddr_def Let_def)
next
  case False
  let ?ia = "i_addrs (inodes s ip) NDIRECT"
  have ia: "?ia \<noteq> 0" using a False by (auto simp: iaddr_def split: if_splits)
  have o1: "fs_lay s" "held s = {}" "i_dev (inodes s ip) = ROOTDEV" "ino_wf (sb s) (bview s) (inodes s ip)"
    using ok by (auto simp: ino_ok_def)
  have "data_blk (sb s) (bview s) ?ia" using ind_data[OF o1(4) ia] .
  then have b: "?ia < disksize s" "?ia \<notin> held_blocks s"
    using data_home(1)[OF o1(1)] o1(2) by (auto simp: held_blocks_def)
  obtain i t u where t: "bread ROOTDEV ?ia s = Ok (i, t)" "b_data (bufs t i) = bview s ?ia"
      "brelse i t = Ok u" "tx s 0 (bview s) u"
    by (rule read_block[OF rm b])
  show ?thesis
    using t False MAXFILE_bounds(2)[OF bn] a ia o1(3)
    by (simp add: bmap_def bmap_slot_def iaddr_def Let_def)
qed

lemma tx_ino_ok:
  assumes "tx s k (bview s) t" and "ino_ok s ip"
  shows "ino_ok t ip" and "inodes t = inodes s" and "bview t = bview s" and "sb t = sb s"
  using assms tx_ftx(2)[OF assms(1)] tx_view[OF assms(1)] tx_held[OF assms(1)] same_fs(1)[OF tx_same[OF assms(1)]]
    fs_lay_tx[OF _ assms(1)]
  by (auto simp: ino_ok_def fs_lay_def)

lemma get_bytes_fbyte:
  assumes "iaddr V n (off div BSIZE) \<noteq> 0" and "off mod BSIZE + m \<le> BSIZE"
  shows "get_bytes (V (iaddr V n (off div BSIZE))) (off mod BSIZE) m = map (fbyte V n) [off..<off + m]"
proof (rule nth_equalityI)
  fix k assume "k < length (get_bytes (V (iaddr V n (off div BSIZE))) (off mod BSIZE) m)"
  then have k: "k < m" by (simp add: get_bytes_def)
  have pos: "0 < BSIZE" by (simp add: BSIZE_def)
  have lt: "off mod BSIZE + k < BSIZE" using assms(2) k by simp
  have "off + k = off div BSIZE * BSIZE + (off mod BSIZE + k)" by simp
  then have dm: "(off + k) div BSIZE = off div BSIZE" "(off + k) mod BSIZE = off mod BSIZE + k"
    using lt pos by (metis div_mult_self3 div_less add.right_neutral less_numeral_extra(3), metis mod_mult_self3 mod_less)
  then show "get_bytes (V (iaddr V n (off div BSIZE))) (off mod BSIZE) m ! k = map (fbyte V n) [off..<off + m] ! k"
    using k assms(1) by (simp add: get_bytes_def fbyte_def Let_def)
qed (simp add: get_bytes_def)

lemma readi_loop_Ok:
  assumes "room s k (Suc h)" and "ino_ok s ip" and "off + r \<le> MAXFILE * BSIZE"
    and "\<forall>p. off \<le> p \<longrightarrow> p < off + r \<longrightarrow> iaddr (bview s) (inodes s ip) (p div BSIZE) \<noteq> 0"
  shows "\<exists>t. readi_loop ip off r s = Ok (map (fbyte (bview s) (inodes s ip)) [off..<off + r], t) \<and>
    tx s 0 (bview s) t"
  using assms
proof (induction r arbitrary: off s rule: less_induct)
  case (less r)
  show ?case
  proof (cases "r = 0")
    case True
    then show ?thesis
      using tx_refl[OF room_inv[OF less.prems(1)]] by (subst readi_loop.simps) auto
  next
    case False
    let ?V = "bview s" and ?n = "inodes s ip" and ?m = "min r (BSIZE - off mod BSIZE)"
    have a: "iaddr ?V ?n (off div BSIZE) \<noteq> 0" using less.prems(4) False by simp
    have bn: "off div BSIZE < MAXFILE" using less.prems(3) False by (intro div_BSIZE_lt) simp
    obtain s1 where s1: "bmap ip (off div BSIZE) s = Ok (iaddr ?V ?n (off div BSIZE), s1)" "tx s 0 ?V s1"
      using bmap_hit[OF less.prems(1,2) bn a] by blast
    note e1 = tx_ino_ok[OF s1(2) less.prems(2)]
    have rm1: "room s1 k (Suc h)" using tx_room[OF s1(2), of k] less.prems(1) by simp
    have o1: "fs_lay s1" "held s1 = {}" "i_dev (inodes s1 ip) = ROOTDEV" "ino_wf (sb s1) (bview s1) (inodes s1 ip)"
      using e1(1) by (auto simp: ino_ok_def)
    have "data_blk (sb s1) (bview s1) (iaddr ?V ?n (off div BSIZE))"
      using ino_wf_data[OF o1(4)] iaddr_iblocks[OF bn a] e1 by simp
    then have b: "iaddr ?V ?n (off div BSIZE) < disksize s1" "iaddr ?V ?n (off div BSIZE) \<notin> held_blocks s1"
      using data_home(1)[OF o1(1)] o1(2) by (auto simp: held_blocks_def)
    obtain i t u where t: "bread ROOTDEV (iaddr ?V ?n (off div BSIZE)) s1 = Ok (i, t)"
        "b_data (bufs t i) = bview s1 (iaddr ?V ?n (off div BSIZE))" "brelse i t = Ok u" "tx s1 0 (bview s1) u"
      by (rule read_block[OF rm1 b])
    note e2 = tx_ino_ok[OF t(4) e1(1)]
    have rm2: "room u k (Suc h)" using tx_room[OF t(4), of k] rm1 by simp
    have m: "0 < ?m" "?m \<le> r" "off mod BSIZE + ?m \<le> BSIZE" using False by (auto simp: BSIZE_def)
    have "\<exists>w. readi_loop ip (off + ?m) (r - ?m) u =
        Ok (map (fbyte ?V ?n) [off + ?m..<off + ?m + (r - ?m)], w) \<and> tx u 0 ?V w"
      using less.IH[of "r - ?m" u "off + ?m"] m rm2 e1 e2 less.prems(3,4) by simp
    then obtain w where w: "readi_loop ip (off + ?m) (r - ?m) u = Ok (map (fbyte ?V ?n) [off + ?m..<off + r], w)"
        "tx u 0 ?V w" using m(2) by auto
    have bs: "get_bytes (?V (iaddr ?V ?n (off div BSIZE))) (off mod BSIZE) ?m = map (fbyte ?V ?n) [off..<off + ?m]"
      by (rule get_bytes_fbyte[OF a m(3)])
    have "[off..<off + r] = [off..<off + ?m] @ [off + ?m..<off + r]"
      using m(2) by (metis le_add1 le_add_diff_inverse add.assoc upt_add_eq_append)
    moreover have "tx s 0 ?V w" using tx_trans[OF tx_trans[OF s1(2) t(4)] w(2)] e1(3) by simp
    ultimately show ?thesis
      using False s1(1) t(1-3) w(1) bs o1(3) e1(3)
      by (subst readi_loop.simps) (simp add: Let_def)
  qed
qed

section \<open>Writing\<close>

lemma data_write:
  assumes lay: "lay sp" and meta: "meta_used sp V" and wf: "ino_wf sp V n" and bn: "bn < MAXFILE"
    and a: "iaddr V n bn = a" "a \<noteq> 0"
  shows "frame 0 sp V n (V(a := d)) n" and "\<And>bm. bm < MAXFILE \<Longrightarrow> iaddr (V(a := d)) n bm = iaddr V n bm"
    and "\<And>p. p < MAXFILE * BSIZE \<Longrightarrow>
      fbyte (V(a := d)) n p = (if p div BSIZE = bn then d (p mod BSIZE) else fbyte V n p)"
proof -
  have ab: "a \<in> iblocks V n" using iaddr_iblocks[OF bn] a by auto
  then have da: "datastart sp \<le> a" using ino_wf_data[OF wf] by (auto simp: data_blk_def)
  have ni: "a \<noteq> i_addrs n NDIRECT" using wf bn a by (auto simp: ino_wf_def)
  then have ia: "iaddr (V(a := d)) n = iaddr V n" by (auto simp: iaddr_def fun_eq_iff)
  then show "\<And>bm. bm < MAXFILE \<Longrightarrow> iaddr (V(a := d)) n bm = iaddr V n bm" by simp
  have used: "used sp (V(a := d)) x \<longleftrightarrow> used sp V x" if "x < sb_size sp" for x by (rule used_data[OF that da])
  have ib: "iblocks (V(a := d)) n = iblocks V n" by (simp add: iblocks_def ia)
  have "ino_wf sp (V(a := d)) n"
    using wf used unfolding ino_wf_def ib ia data_blk_def by blast
  moreover have "nfree sp (V(a := d)) = nfree sp V"
    using used unfolding nfree_def by (metis (no_types, lifting))
  ultimately show "frame 0 sp V n (V(a := d)) n"
    using meta_used_data[OF lay meta da] used ab ib da lay_bounds(3)[OF lay]
    unfolding frame_def by auto
  show "fbyte (V(a := d)) n p = (if p div BSIZE = bn then d (p mod BSIZE) else fbyte V n p)"
    if "p < MAXFILE * BSIZE" for p
  proof (cases "p div BSIZE = bn")
    case True
    then show ?thesis using a by (simp add: fbyte_def ia Let_def)
  next
    case False
    then have "iaddr V n (p div BSIZE) \<noteq> a"
      using ino_wf_inj[OF wf div_BSIZE_lt[OF that] bn] a by auto
    then show ?thesis using False by (simp add: fbyte_def ia Let_def)
  qed
qed

text \<open>A step that may change the contents of inode \<open>ip\<close> but takes no block from it.\<close>

definition wstep :: "nat \<Rightarrow> nat \<Rightarrow> nat \<Rightarrow> 'a fs_state_scheme \<Rightarrow> 'a fs_state_scheme \<Rightarrow> bool" where
  "wstep ip k m s t \<longleftrightarrow> ftx s k (bview t) t \<and> inodes t = (inodes s)(ip := inodes t ip) \<and>
     frame m (sb s) (bview s) (inodes s ip) (bview t) (inodes t ip) \<and>
     (\<forall>bn<MAXFILE. iaddr (bview s) (inodes s ip) bn \<noteq> 0 \<longrightarrow> iaddr (bview t) (inodes t ip) bn \<noteq> 0)"

lemma wstep_ok:
  assumes "wstep ip k m s t" and "ino_ok s ip"
  shows "ino_ok t ip" and "sb t = sb s" and "nfree (sb s) (bview s) \<le> nfree (sb s) (bview t) + m"
proof -
  have e: "ftx s k (bview t) t" "frame m (sb s) (bview s) (inodes s ip) (bview t) (inodes t ip)"
    using assms(1) by (auto simp: wstep_def)
  show sb: "sb t = sb s" using ftx_simps(4)[OF e(1)] .
  show "ino_ok t ip"
    using assms(2) e ftx_lay[OF e(1)] ftx_simps(3)[OF e(1)] sb frame_fields(1)[OF e(2)] frame_wf[OF e(2)]
    by (simp add: ino_ok_def)
  show "nfree (sb s) (bview s) \<le> nfree (sb s) (bview t) + m" using frame_wf(3)[OF e(2)] .
qed

lemma wstep_trans:
  assumes "wstep ip j m s t" and "wstep ip k l t u" and "sb t = sb s"
  shows "wstep ip (j + k) (m + l) s u"
  using assms ftx_trans[of s j "bview t" t k "bview u" u]
    frame_trans[of m "sb s" "bview s" "inodes s ip" "bview t" "inodes t ip" l "bview u" "inodes u ip"]
  unfolding wstep_def by (metis fun_upd_upd)

lemma ext_wstep: "ext_step ip k m s t \<Longrightarrow> wstep ip k m s t"
  by (simp add: ext_step_def wstep_def ext_def)

lemma put_bytes_at: "put_bytes p bs d k = (if p \<le> k \<and> k < p + length bs then bs ! (k - p) else d k)"
  by (simp add: put_bytes_def)

lemma div_mod_range:
  assumes "off mod BSIZE + m \<le> BSIZE"
  shows "p div BSIZE = off div BSIZE \<and> off mod BSIZE \<le> p mod BSIZE \<and> p mod BSIZE < off mod BSIZE + m \<longleftrightarrow>
    off \<le> p \<and> p < off + m"
    and "off \<le> p \<and> p < off + m \<Longrightarrow> p mod BSIZE - off mod BSIZE = p - off"
proof -
  let ?l = "p div BSIZE = off div BSIZE \<and> off mod BSIZE \<le> p mod BSIZE \<and> p mod BSIZE < off mod BSIZE + m"
  let ?r = "off \<le> p \<and> p < off + m"
  have eq: "p = p div BSIZE * BSIZE + p mod BSIZE" "off = off div BSIZE * BSIZE + off mod BSIZE" by simp_all
  have lt: "p mod BSIZE < BSIZE" "off mod BSIZE < BSIZE" by (simp_all add: BSIZE_def)
  have rl: "p div BSIZE = off div BSIZE" if ?r
  proof (rule ccontr)
    assume "p div BSIZE \<noteq> off div BSIZE"
    then consider "p div BSIZE + 1 \<le> off div BSIZE" | "off div BSIZE + 1 \<le> p div BSIZE" by linarith
    then show False
    proof cases
      case 1
      then have "(p div BSIZE + 1) * BSIZE \<le> off div BSIZE * BSIZE" by (rule mult_le_mono1)
      then show False using eq lt that unfolding add_mult_distrib by linarith
    next
      case 2
      then have "(off div BSIZE + 1) * BSIZE \<le> p div BSIZE * BSIZE" by (rule mult_le_mono1)
      then show False using eq lt that assms unfolding add_mult_distrib by linarith
    qed
  qed
  show "?l \<longleftrightarrow> ?r"
  proof
    assume ?l
    then show ?r using eq by (metis add_le_cancel_left add.assoc add_less_cancel_left)
  next
    assume r: ?r
    show ?l using rl[OF r] r eq by (metis add_le_cancel_left add.assoc add_less_cancel_left)
  qed
  show "p mod BSIZE - off mod BSIZE = p - off" if r: ?r
    using rl[OF r] eq by (metis diff_cancel2 add.commute)
qed

lemma write_chunk:
  assumes rm: "room s (6 + k) (Suc (Suc h))" and ok: "ino_ok s ip" and off: "off < MAXFILE * BSIZE"
    and free: "2 \<le> nfree (sb s) (bview s)" and m: "off mod BSIZE + length bs \<le> BSIZE"
  shows "\<exists>a s1 i t v u. bmap ip (off div BSIZE) s = Ok (a, s1) \<and> i_dev (inodes s1 ip) = ROOTDEV \<and>
    bread ROOTDEV a s1 = Ok (i, t) \<and>
    log_write i (set_data i (put_bytes (off mod BSIZE) bs (b_data (bufs t i))) t) = Ok v \<and>
    brelse i v = Ok u \<and> wstep ip 6 2 s u \<and> iaddr (bview u) (inodes u ip) (off div BSIZE) \<noteq> 0 \<and>
    (\<forall>p<MAXFILE * BSIZE. fbyte (bview u) (inodes u ip) p =
       (if off \<le> p \<and> p < off + length bs then bs ! (p - off) else fbyte (bview s) (inodes s ip) p))"
proof -
  let ?bn = "off div BSIZE"
  have bn: "?bn < MAXFILE" by (rule div_BSIZE_lt[OF off])
  have "room s (5 + Suc k) (Suc (Suc h))" using rm by simp
  then obtain a s1 where s1: "bmap ip ?bn s = Ok (a, s1)" "ext_step ip 5 2 s s1" "a \<noteq> 0"
      "iaddr (bview s1) (inodes s1 ip) ?bn = a"
    using bmap_Ok[OF _ ok bn free] by blast
  have ok1: "ino_ok s1 ip" by (rule ext_step_ok(1)[OF s1(2) ok])
  have rm1: "room s1 (Suc k) (Suc (Suc h))"
    using ftx_room[of s 5 "bview s1" s1 "Suc k"] s1(2) rm by (simp add: ext_step_def)
  have o1: "fs_lay s1" "held s1 = {}" "i_dev (inodes s1 ip) = ROOTDEV" "ino_wf (sb s1) (bview s1) (inodes s1 ip)"
    and lm: "lay (sb s1)" "meta_used (sb s1) (bview s1)"
    using ok1 by (auto simp: ino_ok_def fs_lay_def)
  have da: "data_blk (sb s1) (bview s1) a" using ino_wf_data[OF o1(4)] iaddr_iblocks[OF bn] s1(3,4) by metis
  have ha: "a \<notin> held_blocks s1" using o1(2) by (simp add: held_blocks_def)
  obtain i t where t: "bread ROOTDEV a s1 = Ok (i, t)" "b_data (bufs t i) = bview s1 a"
      "\<forall>d. \<exists>v w. log_write i (set_data i d t) = Ok v \<and> same s1 v \<and> brelse i v = Ok w \<and>
           tx s1 1 ((bview s1)(a := d)) w"
    by (rule update_block[OF rm1 data_home(1)[OF o1(1) da] ha data_home(2,3)[OF o1(1) da]])
  let ?d = "put_bytes (off mod BSIZE) bs (bview s1 a)"
  obtain v u where u: "log_write i (set_data i ?d t) = Ok v" "brelse i v = Ok u" "tx s1 1 ((bview s1)(a := ?d)) u"
    using t(3) by blast
  note f = tx_ftx[OF u(3)] tx_view[OF u(3)]
  note dw = data_write[OF lm o1(4) bn s1(4,3), where d = ?d]
  have "wstep ip 1 0 s1 u" using f dw(1,2) by (simp add: wstep_def)
  then have w: "wstep ip 6 2 s u"
    using wstep_trans[OF ext_wstep[OF s1(2)], of 1 0 u] ext_step_ok(2)[OF s1(2) ok] by simp
  moreover have "fbyte (bview u) (inodes u ip) p =
       (if off \<le> p \<and> p < off + length bs then bs ! (p - off) else fbyte (bview s) (inodes s ip) p)"
    if p: "p < MAXFILE * BSIZE" for p
  proof -
    have e: "fbyte (bview s1) (inodes s1 ip) p = fbyte (bview s) (inodes s ip) p"
      using s1(2) p by (auto simp: ext_step_def intro: ext_fbyte)
    show ?thesis
      unfolding f(2,3) dw(3)[OF p] put_bytes_at e
      using div_mod_range[OF m, of p] e s1(3,4) by (auto simp: fbyte_def Let_def)
  qed
  moreover have "iaddr (bview u) (inodes u ip) ?bn \<noteq> 0" using dw(2)[OF bn] f s1(3,4) by simp
  ultimately show ?thesis using s1(1) o1(3) t(1,2) u(1,2) by auto
qed

text \<open>The number of blocks a write of \<open>n\<close> bytes at \<open>off\<close> touches.\<close>

definition nchunks :: "nat \<Rightarrow> nat \<Rightarrow> nat" where
  "nchunks off n = (if n = 0 then 0 else (off + n - 1) div BSIZE - off div BSIZE + 1)"

lemma nchunks_step:
  assumes "0 < n" and "m = min n (BSIZE - off mod BSIZE)"
  shows "nchunks (off + m) (n - m) + 1 \<le> nchunks off n"
proof (cases "n \<le> m")
  case True
  then show ?thesis using assms(1) by (simp add: nchunks_def)
next
  case False
  then have m: "m = BSIZE - off mod BSIZE" using assms(2) by auto
  have "off mod BSIZE < BSIZE" by (simp add: BSIZE_def)
  then have "off + m = (off div BSIZE + 1) * BSIZE"
    unfolding m using div_mult_mod_eq[of off BSIZE] unfolding add_mult_distrib by linarith
  then have d: "(off + m) div BSIZE = off div BSIZE + 1" by (simp add: BSIZE_def)
  moreover have "(off + m) div BSIZE \<le> (off + n - 1) div BSIZE" using False by (intro div_le_mono) simp
  ultimately show ?thesis using False assms(1) by (simp add: nchunks_def)
qed

lemma wstep_mono:
  assumes "wstep ip k m s t" and "k \<le> k'" and "m \<le> m'"
  shows "wstep ip k' m' s t"
  using assms ftx_mono[of s k _ t k'] unfolding wstep_def frame_def by (auto intro: le_trans)

lemma wstep_refl: "log_inv s \<Longrightarrow> ino_ok s ip \<Longrightarrow> wstep ip k m s s"
  by (rule ext_wstep[OF ext_step_refl])

lemma writei_loop_Ok:
  assumes "room s (6 * nchunks off (length src) + k) (Suc (Suc h))" and "ino_ok s ip"
    and "off + length src \<le> MAXFILE * BSIZE" and "2 * nchunks off (length src) \<le> nfree (sb s) (bview s)"
  shows "\<exists>t. writei_loop ip off src s = Ok (off + length src, t) \<and>
    wstep ip (6 * nchunks off (length src)) (2 * nchunks off (length src)) s t \<and>
    (\<forall>p. off \<le> p \<longrightarrow> p < off + length src \<longrightarrow> iaddr (bview t) (inodes t ip) (p div BSIZE) \<noteq> 0) \<and>
    (\<forall>p<MAXFILE * BSIZE. fbyte (bview t) (inodes t ip) p =
       (if off \<le> p \<and> p < off + length src then src ! (p - off) else fbyte (bview s) (inodes s ip) p))"
  using assms
proof (induction "length src" arbitrary: off src s rule: less_induct)
  case less
  show ?case
  proof (cases "src = []")
    case True
    then show ?thesis
      using wstep_refl[OF room_inv[OF less.prems(1)] less.prems(2)] by (subst writei_loop.simps) auto
  next
    case False
    let ?n = "length src" and ?m = "min (length src) (BSIZE - off mod BSIZE)"
    have m: "0 < ?m" "?m \<le> ?n" "off mod BSIZE + length (take ?m src) \<le> BSIZE"
      using False by (auto simp: BSIZE_def)
    have nc: "nchunks (off + ?m) (?n - ?m) + 1 \<le> nchunks off ?n"
      using nchunks_step[of ?n ?m off] False by simp
    have len: "length (drop ?m src) = ?n - ?m" by simp
    have "room s (6 + (6 * nchunks (off + ?m) (?n - ?m) + k)) (Suc (Suc h))"
      using nc by (intro room_mono[OF less.prems(1)]) auto
    moreover have "off < MAXFILE * BSIZE" using less.prems(3) False by (cases src) auto
    moreover have "2 \<le> nfree (sb s) (bview s)" using nc less.prems(4) by simp
    ultimately obtain a s1 i t v u where c: "bmap ip (off div BSIZE) s = Ok (a, s1)" "i_dev (inodes s1 ip) = ROOTDEV"
      "bread ROOTDEV a s1 = Ok (i, t)"
      "log_write i (set_data i (put_bytes (off mod BSIZE) (take ?m src) (b_data (bufs t i))) t) = Ok v"
      "brelse i v = Ok u" "wstep ip 6 2 s u" "iaddr (bview u) (inodes u ip) (off div BSIZE) \<noteq> 0"
      "\<forall>p<MAXFILE * BSIZE. fbyte (bview u) (inodes u ip) p =
         (if off \<le> p \<and> p < off + length (take ?m src) then take ?m src ! (p - off)
          else fbyte (bview s) (inodes s ip) p)"
      using write_chunk[OF _ less.prems(2) _ _ m(3)] by blast
    note ok = wstep_ok[OF c(6) less.prems(2)]
    have rm: "room u (6 * nchunks (off + ?m) (?n - ?m) + k) (Suc (Suc h))"
      using \<open>room s (6 + (6 * nchunks (off + ?m) (?n - ?m) + k)) (Suc (Suc h))\<close> c(6)
      by (auto simp: wstep_def intro: ftx_room)
    obtain w where w: "writei_loop ip (off + ?m) (drop ?m src) u = Ok (off + ?m + (?n - ?m), w)"
      "wstep ip (6 * nchunks (off + ?m) (?n - ?m)) (2 * nchunks (off + ?m) (?n - ?m)) u w"
      "\<forall>p. off + ?m \<le> p \<longrightarrow> p < off + ?m + (?n - ?m) \<longrightarrow> iaddr (bview w) (inodes w ip) (p div BSIZE) \<noteq> 0"
      "\<forall>p<MAXFILE * BSIZE. fbyte (bview w) (inodes w ip) p =
         (if off + ?m \<le> p \<and> p < off + ?m + (?n - ?m) then drop ?m src ! (p - (off + ?m))
          else fbyte (bview u) (inodes u ip) p)"
    proof -
      have p1: "length (drop ?m src) < length src" and p3: "off + ?m + length (drop ?m src) \<le> MAXFILE * BSIZE"
        using m less.prems(3) by auto
      have p4: "2 * nchunks (off + ?m) (length (drop ?m src)) \<le> nfree (sb u) (bview u)"
        using nc less.prems(4) ok(3) unfolding len ok(2) by linarith
      show thesis
        using that less.hyps[OF p1 rm[folded len] ok(1) p3 p4] unfolding len by blast
    qed
    have "wstep ip (6 * nchunks off ?n) (2 * nchunks off ?n) s w"
      by (rule wstep_mono[OF wstep_trans[OF c(6) w(2) ok(2)]]) (use nc in auto)
    moreover have "iaddr (bview w) (inodes w ip) (p div BSIZE) \<noteq> 0" if p: "off \<le> p" "p < off + ?n" for p
    proof (cases "p < off + ?m")
      case True
      then have d: "p div BSIZE = off div BSIZE" using div_mod_range(1)[OF m(3), of p] p by simp
      have "off div BSIZE < MAXFILE" using p less.prems(3) by (intro div_BSIZE_lt) simp
      then show ?thesis using w(2) c(7) d by (simp add: wstep_def)
    qed (use w(3) p in auto)
    moreover have "fbyte (bview w) (inodes w ip) p =
       (if off \<le> p \<and> p < off + ?n then src ! (p - off) else fbyte (bview s) (inodes s ip) p)"
      if p: "p < MAXFILE * BSIZE" for p
      using w(4)[rule_format, OF p] c(8)[rule_format, OF p] m(2)
      by (cases "off \<le> p"; cases "p < off + ?m") (auto simp: min_def)
    moreover have "writei_loop ip off src s = Ok (off + ?n, w)"
      using False c(1-5) w(1) m(2) by (subst writei_loop.simps) (simp add: Let_def)
    ultimately show ?thesis by blast
  qed
qed

section \<open>The inode after a write\<close>

text \<open>A write below the bitmap, such as that of an inode, leaves the contents of files alone.\<close>

lemma low_write:
  assumes lay: "lay sp" and meta: "meta_used sp V" and wf: "ino_wf sp V n" and c: "c < sb_bmapstart sp" "c \<noteq> 1"
  shows "iaddr (V(c := d)) n = iaddr V n" and "ino_wf sp (V(c := d)) n" and "meta_used sp (V(c := d))"
    and "\<And>p. p < MAXFILE * BSIZE \<Longrightarrow> fbyte (V(c := d)) n p = fbyte V n p"
proof -
  have nd: "x \<noteq> c" if "data_blk sp V x" for x
    using that c(1) lay_bounds(3)[OF lay] by (auto simp: data_blk_def)
  have "i_addrs n NDIRECT \<noteq> 0 \<Longrightarrow> i_addrs n NDIRECT \<noteq> c" using nd[OF ind_data[OF wf]] by simp
  then show ia: "iaddr (V(c := d)) n = iaddr V n" by (auto simp: iaddr_def fun_eq_iff)
  have u: "used sp (V(c := d)) = used sp V" using used_low[OF c(1)] by blast
  show "ino_wf sp (V(c := d)) n"
    using wf unfolding ino_wf_def iblocks_def ia data_blk_def u .
  show "meta_used sp (V(c := d))" using meta c(2) by (simp add: meta_used_def u)
  show "fbyte (V(c := d)) n p = fbyte V n p" if "p < MAXFILE * BSIZE" for p
    using nd[OF ino_wf_data[OF wf iaddr_iblocks[OF div_BSIZE_lt[OF that]]]]
    by (auto simp: fbyte_def ia Let_def)
qed

lemma din_wf_ino:
  assumes "ino_wf sp V n" and "sb_size sp \<le> 4294967296" and "i_size n \<le> MAXFILE * BSIZE"
  shows "din_wf n"
proof -
  have d: "b < 4294967296" if "b = 0 \<or> b \<in> iblocks V n" for b
    using that ino_wf_data[OF assms(1)] assms(2) by (force simp: data_blk_def)
  have "i_addrs n k < 4294967296" if "k \<le> NDIRECT" for k
  proof (rule d, cases "k < NDIRECT")
    case True
    then show "i_addrs n k = 0 \<or> i_addrs n k \<in> iblocks V n"
      using iaddr_iblocks[of k V n] MAXFILE_bounds(1) by (auto simp: iaddr_direct)
  qed (use that in \<open>auto simp: iblocks_def\<close>)
  moreover have "i_size n < 4294967296"
    using assms(3) by (simp add: MAXFILE_def NDIRECT_def NINDIRECT_def BSIZE_def)
  ultimately show ?thesis by (simp add: din_wf_def)
qed

lemma IBLOCK_not_1: "lay sp \<Longrightarrow> inum < sb_ninodes sp \<Longrightarrow> IBLOCK inum sp \<noteq> 1"
  using IBLOCK_bounds(1)[of sp inum] by (auto simp: lay_def)

lemma iupdate_keeps:
  assumes rm: "room s (Suc k) (Suc h)" and ok: "ino_ok s ip" and inum: "i_inum (inodes s ip) < sb_ninodes (sb s)"
    and wf: "din_wf (inodes s ip)"
  shows "\<exists>t. iupdate ip s = Ok t \<and> ftx s 1 (bview t) t \<and> inodes t = inodes s \<and> ino_ok t ip \<and>
    iaddr (bview t) (inodes t ip) = iaddr (bview s) (inodes s ip) \<and>
    (\<forall>p<MAXFILE * BSIZE. fbyte (bview t) (inodes t ip) p = fbyte (bview s) (inodes s ip) p) \<and>
    din_eq (ondisk (sb s) (bview t) (i_inum (inodes s ip)) (inodes s ip)) (inodes s ip) \<and>
    (\<forall>j m. j \<noteq> i_inum (inodes s ip) \<longrightarrow> ondisk (sb s) (bview t) j m = ondisk (sb s) (bview s) j m) \<and>
    (\<forall>b\<ge>sb_bmapstart (sb s). bview t b = bview s b)"
proof -
  let ?n = "inodes s ip" and ?B = "IBLOCK (i_inum (inodes s ip)) (sb s)"
  have o1: "fs_lay s" "held_data s" "i_dev ?n = ROOTDEV" "ino_wf (sb s) (bview s) ?n"
    and lm: "lay (sb s)" "meta_used (sb s) (bview s)"
    using ok by (auto simp: ino_ok_def fs_lay_def held_data_empty)
  obtain t where t: "iupdate ip s = Ok t"
      "tx s 1 ((bview s)(?B := store_dinode ?n (dinode_off (i_inum ?n)) (bview s ?B))) t"
    using iupdate_Ok[OF rm o1(1-3) inum] by blast
  note f = tx_ftx[OF t(2)] tx_view[OF t(2)] tx_held[OF t(2)] same_fs(1)[OF tx_same[OF t(2)]]
  note B = IBLOCK_bounds(2)[OF lm(1) inum] IBLOCK_not_1[OF lm(1) inum]
  note lw = low_write[OF lm o1(4) B, folded f(3)]
  note od = ondisk_update[OF wf f(3)]
  have "fs_lay t" using fs_lay_tx[OF o1(1) t(2)] lw(3) f(3) by simp
  then have "ino_ok t ip" using ok lw(2) f by (simp add: ino_ok_def)
  moreover have "bview t b = bview s b" if "sb_bmapstart (sb s) \<le> b" for b using that B f(3) by auto
  ultimately show ?thesis using t(1) f lw od by auto
qed

section \<open>Files as byte arrays\<close>

lemma readi_contents:
  assumes rm: "room s k (Suc h)" and ok: "ino_ok s ip" and nh: "no_holes s ip"
    and ty: "i_type (inodes s ip) \<noteq> T_DEV" and off: "off \<le> i_size (inodes s ip)" "off + n < 4294967296"
  shows "\<exists>t. readi devsw ip off n s =
      Ok ((int (min n (i_size (inodes s ip) - off)), take n (drop off (contents s ip))), t) \<and>
    tx s 0 (bview s) t"
proof -
  let ?np = "inodes s ip"
  let ?r = "if i_size ?np < (off + n) mod 4294967296 then i_size ?np - off else n"
  have r: "?r = min n (i_size ?np - off)" "off + ?r \<le> i_size ?np" using off by auto
  have sz: "off + ?r \<le> MAXFILE * BSIZE" using r(2) nh unfolding no_holes_def by linarith
  have "\<forall>p. off \<le> p \<longrightarrow> p < off + ?r \<longrightarrow> iaddr (bview s) ?np (p div BSIZE) \<noteq> 0"
    using r(2) nh unfolding no_holes_def by (meson less_le_trans)
  then obtain t where t: "readi_loop ip off ?r s = Ok (map (fbyte (bview s) ?np) [off..<off + ?r], t)"
      "tx s 0 (bview s) t"
    using readi_loop_Ok[OF rm ok sz] by blast
  have "take n (drop off (contents s ip)) = map (fbyte (bview s) ?np) [off..<off + ?r]"
    using off unfolding r(1) by (simp add: contents_def take_map drop_map min_def)
  then show ?thesis
    using ty off t r(1) by (simp add: readi_def Let_def)
qed

lemma contents_upd:
  assumes "\<forall>p<N. f p = (if off \<le> p \<and> p < off + length src then src ! (p - off) else g p)"
    and "off \<le> sz" and "off + length src \<le> N" and "sz \<le> N"
  shows "map f [0..<max sz (off + length src)] =
    take off (map g [0..<sz]) @ src @ drop (off + length src) (map g [0..<sz])"
  by (rule nth_equalityI) (use assms in \<open>auto simp: nth_append\<close>)

lemma writei_contents:
  assumes rm: "room s (6 * nchunks off (length src) + 1) (Suc (Suc h))" and ok: "ino_ok s ip" and nh: "no_holes s ip"
    and ty: "i_type (inodes s ip) \<noteq> T_DEV" and inum: "i_inum (inodes s ip) < sb_ninodes (sb s)"
    and off: "off \<le> i_size (inodes s ip)" "off + length src \<le> MAXFILE * BSIZE"
    and free: "2 * nchunks off (length src) \<le> nfree (sb s) (bview s)"
  shows "\<exists>t. writei devsw ip src off s = Ok (int (length src), t) \<and> ino_ok t ip \<and> no_holes t ip \<and>
    contents t ip = take off (contents s ip) @ src @ drop (off + length src) (contents s ip) \<and>
    inodes t = (inodes s)(ip := (inodes s ip)\<lparr>i_size := max (i_size (inodes s ip)) (off + length src),
      i_addrs := i_addrs (inodes t ip)\<rparr>) \<and> sb t = sb s \<and>
    (\<forall>b. data_blk (sb s) (bview s) b \<longrightarrow> b \<notin> iblocks (bview s) (inodes s ip) \<longrightarrow> bview t b = bview s b)"
proof -
  let ?n = "length src" and ?np = "inodes s ip" and ?N = "MAXFILE * BSIZE"
  obtain t where t: "writei_loop ip off src s = Ok (off + ?n, t)"
    "wstep ip (6 * nchunks off ?n) (2 * nchunks off ?n) s t"
    "\<forall>p. off \<le> p \<longrightarrow> p < off + ?n \<longrightarrow> iaddr (bview t) (inodes t ip) (p div BSIZE) \<noteq> 0"
    "\<forall>p<?N. fbyte (bview t) (inodes t ip) p =
       (if off \<le> p \<and> p < off + ?n then src ! (p - off) else fbyte (bview s) ?np p)"
    using writei_loop_Ok[OF rm ok off(2) free] by blast
  note ok1 = wstep_ok[OF t(2) ok]
  have fr: "frame (2 * nchunks off ?n) (sb s) (bview s) ?np (bview t) (inodes t ip)" using t(2) by (simp add: wstep_def)
  note ff = frame_fields[OF fr]
  have nt: "inodes t = (inodes s)(ip := inodes t ip)" "inodes t ip = ?np\<lparr>i_addrs := i_addrs (inodes t ip)\<rparr>"
    using t(2) fr unfolding wstep_def frame_def by blast+
  have frb: "bview t b = bview s b" if "data_blk (sb s) (bview s) b" "b \<notin> iblocks (bview s) ?np" for b
    using fr that unfolding frame_def by blast
  have sz: "i_size ?np \<le> ?N" using nh by (simp add: no_holes_def)
  have N32: "?N < 4294967296" by (simp add: MAXFILE_def NDIRECT_def NINDIRECT_def BSIZE_def)
  have mod: "(off + ?n) mod 4294967296 = off + ?n" using off(2) N32 by simp
  have adr: "iaddr (bview t) (inodes t ip) (p div BSIZE) \<noteq> 0" if "p < max (i_size ?np) (off + ?n)" for p
  proof (cases "off \<le> p \<and> p < off + ?n")
    case False
    then have "p < i_size ?np" using that off by auto
    then have "iaddr (bview s) ?np (p div BSIZE) \<noteq> 0" "p div BSIZE < MAXFILE"
      using nh sz div_BSIZE_lt[of p] by (auto simp: no_holes_def)
    then show ?thesis using t(2) by (simp add: wstep_def)
  qed (use t(3) in auto)
  show ?thesis
  proof (cases "0 < ?n \<and> i_size ?np < off + ?n")
    case False
    then have mx: "max (i_size ?np) (off + ?n) = i_size ?np" using off by auto
    have "writei devsw ip src off s = Ok (int ?n, t)"
      using False ty off t(1) mod ff by (auto simp: writei_def Let_def)
    moreover have "no_holes t ip" using adr sz ff mx by (simp add: no_holes_def)
    moreover have "contents t ip = take off (contents s ip) @ src @ drop (off + ?n) (contents s ip)"
      unfolding contents_def ff(10) using contents_upd[OF t(4) off(1) off(2) sz] mx by simp
    moreover have "inodes t ip = ?np\<lparr>i_size := max (i_size ?np) (off + ?n), i_addrs := i_addrs (inodes t ip)\<rparr>"
      unfolding mx using nt(2) by (intro inode.equality) (simp_all add: ff)
    ultimately show ?thesis using ok1(1,2) nt(1) frb by metis
  next
    case True
    let ?t = "upd_inode ip (\<lambda>np. np\<lparr>i_size := off + ?n\<rparr>) t"
    have mx: "max (i_size ?np) (off + ?n) = off + ?n" using True by auto
    have ia: "iaddr V (n\<lparr>i_size := x\<rparr>) = iaddr V n" for V n x by (simp add: iaddr_def fun_eq_iff)
    have iw: "ino_wf sp V (n\<lparr>i_size := x\<rparr>) = ino_wf sp V n" for sp V n x by (simp add: ino_wf_def iblocks_def ia)
    have fb: "fbyte V (n\<lparr>i_size := x\<rparr>) = fbyte V n" for V n x by (simp add: fbyte_def fun_eq_iff ia)
    have okt: "ino_ok ?t ip" using ok1(1) by (simp add: ino_ok_def iw)
    have "room ?t (Suc 0) (Suc (Suc h))" using ftx_room[of s _ "bview t" t 1 "Suc (Suc h)"] t(2) rm by (auto simp: wstep_def)
    moreover have "din_wf (inodes ?t ip)"
      using okt ok1(2) off(2) din_wf_ino[of "sb t" "bview t" "inodes ?t ip"] disk_32[OF room_inv[OF rm]]
        ok by (simp add: ino_ok_def fs_lay_def)
    moreover have "i_inum (inodes ?t ip) < sb_ninodes (sb ?t)" using inum ff ok1(2) by simp
    ultimately obtain u where u: "iupdate ip ?t = Ok u" "inodes u = inodes ?t" "ino_ok u ip"
      "iaddr (bview u) (inodes u ip) = iaddr (bview ?t) (inodes ?t ip)"
      "\<forall>p<?N. fbyte (bview u) (inodes u ip) p = fbyte (bview ?t) (inodes ?t ip) p"
      "ftx ?t 1 (bview u) u" "\<forall>b\<ge>sb_bmapstart (sb ?t). bview u b = bview ?t b"
      using iupdate_keeps[OF _ okt] by blast
    have sbu: "sb u = sb s" using ftx_simps(4)[OF u(6)] ok1(2) by simp
    have fru: "bview u b = bview s b" if "data_blk (sb s) (bview s) b" "b \<notin> iblocks (bview s) ?np" for b
      using u(7) frb[OF that] that(1) ok ok1(2) lay_bounds(3)[of "sb s"]
      by (auto simp: data_blk_def ino_ok_def fs_lay_def)
    have "writei devsw ip src off s = Ok (int ?n, u)"
      using True ty off t(1) mod ff u(1) by (simp add: writei_def Let_def)
    moreover have "no_holes u ip" using adr mx off(2) u(2,4) by (simp add: no_holes_def ia)
    moreover have "contents u ip = take off (contents s ip) @ src @ drop (off + ?n) (contents s ip)"
    proof -
      have "\<forall>p<?N. fbyte (bview u) (inodes u ip) p =
          (if off \<le> p \<and> p < off + ?n then src ! (p - off) else fbyte (bview s) ?np p)"
        using u(5) t(4) by (simp add: fb)
      from contents_upd[OF this off(1) off(2) sz] show ?thesis
        unfolding contents_def using mx u(2) by simp
    qed
    moreover have "inodes u ip = ?np\<lparr>i_size := max (i_size ?np) (off + ?n), i_addrs := i_addrs (inodes u ip)\<rparr>"
      unfolding mx using nt(2) u(2) by (intro inode.equality) (simp_all add: ff)
    moreover have "inodes u = (inodes s)(ip := inodes u ip)" using u(2) nt(1) by (metis fun_upd_same fun_upd_upd upd_inode_simps(9))
    ultimately show ?thesis using u(3) sbu fru by metis
  qed
qed

end
