(* ===== verification/CString.thy ===== *)
theory CString
  imports Prelude
begin

text \<open>
  The C library of the kernel (string.c, with \<open>stosb\<close> and \<open>stosl\<close> of x86.h) and of user
  programs (ulib.c).  Functions that write take the memory, a function from addresses to bytes,
  and give it back; a string that is only read is the function from indices to its bytes.
\<close>

unbundle bit_operations_syntax

type_synonym mem = "nat \<Rightarrow> byte"
type_synonym cptr = "nat \<Rightarrow> byte"

definition adv :: "cptr \<Rightarrow> cptr" where
  "adv p = (\<lambda>i. p (Suc i))"

text \<open>The string literal or array \<open>xs\<close>, with zeros behind it.\<close>

definition chars :: "byte list \<Rightarrow> cptr" where
  "chars xs = (\<lambda>i. if i < length xs then xs ! i else 0)"

section \<open>Kernel\<close>

primrec stosb :: "mem \<Rightarrow> nat \<Rightarrow> byte \<Rightarrow> nat \<Rightarrow> mem" where
  "stosb m addr data 0 = m"
| "stosb m addr data (Suc cnt) = stosb (m(addr := data)) (addr + 1) data cnt"

definition store32 :: "mem \<Rightarrow> nat \<Rightarrow> 32 word \<Rightarrow> mem" where
  "store32 m a v = m(a := ucast v, a + 1 := ucast (drop_bit 8 v), a + 2 := ucast (drop_bit 16 v),
     a + 3 := ucast (drop_bit 24 v))"

primrec stosl :: "mem \<Rightarrow> nat \<Rightarrow> 32 word \<Rightarrow> nat \<Rightarrow> mem" where
  "stosl m addr data 0 = m"
| "stosl m addr data (Suc cnt) = stosl (store32 m addr data) (addr + 4) data cnt"

definition memset :: "mem \<Rightarrow> nat \<Rightarrow> 32 word \<Rightarrow> nat \<Rightarrow> mem" where
  "memset m dst c n =
     (if dst mod 4 = 0 \<and> n mod 4 = 0 then
        let c = c AND 0xFF in
        stosl m dst (push_bit 24 c OR push_bit 16 c OR push_bit 8 c OR c) (n div 4)
      else stosb m dst (ucast c) n)"

primrec memcmp :: "cptr \<Rightarrow> cptr \<Rightarrow> nat \<Rightarrow> int" where
  "memcmp s1 s2 0 = 0"
| "memcmp s1 s2 (Suc n) =
     (if s1 0 \<noteq> s2 0 then int (unat (s1 0)) - int (unat (s2 0)) else memcmp (adv s1) (adv s2) n)"

primrec copy_up :: "mem \<Rightarrow> nat \<Rightarrow> nat \<Rightarrow> nat \<Rightarrow> mem" where
  "copy_up m d s 0 = m"
| "copy_up m d s (Suc n) = copy_up (m(d := m s)) (d + 1) (s + 1) n"

text \<open>\<open>while(n-- > 0) *--d = *--s;\<close> with \<open>d\<close> and \<open>s\<close> the starts of the areas.\<close>

primrec copy_down :: "mem \<Rightarrow> nat \<Rightarrow> nat \<Rightarrow> nat \<Rightarrow> mem" where
  "copy_down m d s 0 = m"
| "copy_down m d s (Suc n) = copy_down (m(d + n := m (s + n))) d s n"

definition memmove :: "mem \<Rightarrow> nat \<Rightarrow> nat \<Rightarrow> nat \<Rightarrow> mem" where
  "memmove m dst src n =
     (if src < dst \<and> dst < src + n then copy_down m dst src n else copy_up m dst src n)"

definition memcpy :: "mem \<Rightarrow> nat \<Rightarrow> nat \<Rightarrow> nat \<Rightarrow> mem" where
  "memcpy m dst src n = memmove m dst src n"

primrec strncmp :: "cptr \<Rightarrow> cptr \<Rightarrow> nat \<Rightarrow> int" where
  "strncmp p q 0 = 0"
| "strncmp p q (Suc n) =
     (if p 0 \<noteq> 0 \<and> p 0 = q 0 then strncmp (adv p) (adv q) n
      else int (unat (p 0)) - int (unat (q 0)))"

primrec strncpy_nat :: "mem \<Rightarrow> nat \<Rightarrow> nat \<Rightarrow> nat \<Rightarrow> mem" where
  "strncpy_nat m s t 0 = m"
| "strncpy_nat m s t (Suc n) =
     (let c = m t; m = m(s := c) in
      if c \<noteq> 0 then strncpy_nat m (s + 1) (t + 1) n else stosb m (s + 1) 0 n)"

definition strncpy :: "mem \<Rightarrow> nat \<Rightarrow> nat \<Rightarrow> int \<Rightarrow> mem" where
  "strncpy m s t n = strncpy_nat m s t (nat n)"

primrec safestrcpy_nat :: "mem \<Rightarrow> nat \<Rightarrow> nat \<Rightarrow> nat \<Rightarrow> mem" where
  "safestrcpy_nat m s t 0 = m(s := 0)"
| "safestrcpy_nat m s t (Suc n) =
     (let c = m t; m = m(s := c) in
      if c \<noteq> 0 then safestrcpy_nat m (s + 1) (t + 1) n else m(s + 1 := 0))"

definition safestrcpy :: "mem \<Rightarrow> nat \<Rightarrow> nat \<Rightarrow> int \<Rightarrow> mem" where
  "safestrcpy m s t n = (if n \<le> 0 then m else safestrcpy_nat m s t (nat (n - 1)))"

text \<open>\<open>strlen\<close> does not return on a string without end.\<close>

partial_function (option) strlen_from :: "cptr \<Rightarrow> nat \<Rightarrow> nat option" where
  "strlen_from s n = (if s n = 0 then Some n else strlen_from s (n + 1))"

definition strlen :: "cptr \<Rightarrow> nat option" where
  "strlen s = strlen_from s 0"

section \<open>User programs\<close>

partial_function (option) strcpy :: "mem \<Rightarrow> nat \<Rightarrow> nat \<Rightarrow> mem option" where
  "strcpy m s t = (let c = m t; m = m(s := c) in if c = 0 then Some m else strcpy m (s + 1) (t + 1))"

partial_function (option) strcmp :: "cptr \<Rightarrow> cptr \<Rightarrow> int option" where
  "strcmp p q =
     (if p 0 \<noteq> 0 \<and> p 0 = q 0 then strcmp (adv p) (adv q)
      else Some (int (unat (p 0)) - int (unat (q 0))))"

text \<open>The index of the character found.\<close>

partial_function (option) strchr :: "cptr \<Rightarrow> byte \<Rightarrow> nat \<Rightarrow> nat option option" where
  "strchr s c i = (if s i = 0 then Some None else if s i = c then Some (Some i) else strchr s c (i + 1))"

text \<open>\<open>n*10 + *s++ - '0'\<close> in 32-bit \<open>int\<close> arithmetic that wraps around.\<close>

partial_function (option) atoi_from :: "cptr \<Rightarrow> 32 word \<Rightarrow> 32 word option" where
  "atoi_from s n =
     (if 48 \<le> unat (s 0) \<and> unat (s 0) \<le> 57
      then atoi_from (adv s) (n * 10 + ucast (s 0) - 48)
      else Some n)"

definition atoi :: "cptr \<Rightarrow> int option" where
  "atoi s = map_option sint (atoi_from s 0)"

definition u_memset :: "mem \<Rightarrow> nat \<Rightarrow> 32 word \<Rightarrow> nat \<Rightarrow> mem" where
  "u_memset m dst c n = stosb m dst (ucast c) n"

definition u_memmove :: "mem \<Rightarrow> nat \<Rightarrow> nat \<Rightarrow> int \<Rightarrow> mem" where
  "u_memmove m dst src n = copy_up m dst src (nat n)"

text \<open>
  \<open>gets\<close>, with the bytes \<open>read(0, &c, 1)\<close> will deliver as its input and what is left of them
  as a result; \<open>room\<close> is \<open>max - 1 - i\<close>.
\<close>

fun gets_loop :: "nat \<Rightarrow> byte list \<Rightarrow> byte list \<times> byte list" where
  "gets_loop 0 inp = ([], inp)"
| "gets_loop (Suc room) [] = ([], [])"
| "gets_loop (Suc room) (c # inp) =
     (if c = 10 \<or> c = 13 then ([c], inp)
      else let (bs, inp) = gets_loop room inp in (c # bs, inp))"

definition gets :: "int \<Rightarrow> byte list \<Rightarrow> byte list \<times> byte list" where
  "gets mx inp = (let (bs, inp) = gets_loop (nat (mx - 1)) inp in (bs @ [0], inp))"

section \<open>Filling and copying\<close>

lemma stosb_at: "stosb m a c n x = (if a \<le> x \<and> x < a + n then c else m x)"
  by (induction n arbitrary: m a) auto

lemma store32_at:
  "store32 m a v x =
     (if a \<le> x \<and> x < a + 4 then ucast (drop_bit (8 * (x - a)) v) else m x)"
proof -
  have "x = a \<or> x = a + 1 \<or> x = a + 2 \<or> x = a + 3 \<or> x < a \<or> a + 4 \<le> x" by linarith
  then show ?thesis by (auto simp: store32_def)
qed

definition bytes4 :: "byte \<Rightarrow> 32 word \<Rightarrow> bool" where
  "bytes4 b v \<longleftrightarrow> (\<forall>k<4. ucast (drop_bit (8 * k) v) = b)"

lemma stosl_at:
  assumes "bytes4 b v"
  shows "stosl m a v n x = (if a \<le> x \<and> x < a + 4 * n then b else m x)"
proof (induction n arbitrary: m a)
  case (Suc n)
  have "store32 m a v x = (if a \<le> x \<and> x < a + 4 then b else m x)"
    using assms by (auto simp: store32_at bytes4_def)
  then show ?case using Suc by auto
qed auto

lemma memset_word: "bytes4 (ucast c) (push_bit 24 (c AND 0xFF) OR push_bit 16 (c AND 0xFF) OR
    push_bit 8 (c AND 0xFF) OR (c AND 0xFF) :: 32 word)" for c :: "32 word"
proof -
  have m: "(c AND 0xFF) = take_bit 8 c" by (simp add: take_bit_eq_mask mask_eq_exp_minus_1)
  have "ucast (drop_bit (8 * k) (push_bit 24 (take_bit 8 c) OR push_bit 16 (take_bit 8 c) OR
      push_bit 8 (take_bit 8 c) OR take_bit 8 c)) = (ucast c :: byte)" if "k < 4" for k
  proof (rule bit_word_eqI)
    fix n assume n: "n < LENGTH(8)"
    have k: "k = 0 \<or> k = 1 \<or> k = 2 \<or> k = 3" using that by auto
    show "bit (ucast (drop_bit (8 * k) (push_bit 24 (take_bit 8 c) OR push_bit 16 (take_bit 8 c) OR
      push_bit 8 (take_bit 8 c) OR take_bit 8 c)) :: byte) n = bit (ucast c :: byte) n"
      using k n by (elim disjE) (simp_all add: bit_ucast_iff bit_drop_bit_eq bit_or_iff bit_push_bit_iff bit_take_bit_iff)
  qed
  then show ?thesis unfolding bytes4_def m by blast
qed

lemma copy_up_at:
  assumes "\<not> (s < d \<and> d < s + n)"
  shows "copy_up m d s n x = (if d \<le> x \<and> x < d + n then m (s + (x - d)) else m x)"
  using assms
proof (induction n arbitrary: m d s)
  case (Suc n)
  then have "copy_up (m(d := m s)) (d + 1) (s + 1) n x =
      (if d + 1 \<le> x \<and> x < d + 1 + n then (m(d := m s)) (s + 1 + (x - (d + 1))) else (m(d := m s)) x)"
    by (intro Suc.IH) auto
  moreover have "s + 1 + (x - (d + 1)) = s + (x - d)" if "d + 1 \<le> x" using that by simp
  ultimately show ?case using Suc.prems by (cases "x = d") (auto split: if_splits)
qed auto

lemma copy_down_at:
  assumes "s \<le> d"
  shows "copy_down m d s n x = (if d \<le> x \<and> x < d + n then m (s + (x - d)) else m x)"
proof (induction n arbitrary: m)
  case (Suc n)
  then show ?case using assms by (auto split: if_splits simp: not_less le_Suc_eq)
qed auto

lemma memmove_at: "memmove m d s n x = (if d \<le> x \<and> x < d + n then m (s + (x - d)) else m x)"
  unfolding memmove_def by (auto simp: copy_up_at copy_down_at)

section \<open>Strings\<close>

lemma chars_simps [simp]:
  "chars [] i = 0" "chars (x # xs) 0 = x" "adv (chars (x # xs)) = chars xs" "adv (chars []) = chars []"
  by (simp_all add: chars_def adv_def fun_eq_iff)

lemma chars_zero: "0 \<notin> set xs \<Longrightarrow> chars xs i = 0 \<longleftrightarrow> length xs \<le> i"
  by (metis chars_def nth_mem not_less)

lemma uint_byte_eq [simp]: "uint (a :: byte) = uint b \<longleftrightarrow> a = b" "uint (a :: byte) = 0 \<longleftrightarrow> a = 0"
  "0 = uint (a :: byte) \<longleftrightarrow> a = 0"
  using unsigned_word_eqI[of a b, where 'a = int] unsigned_word_eqI[of a 0, where 'a = int] by auto

lemma strncmp_list:
  assumes "0 \<notin> set xs" and "0 \<notin> set ys"
  shows "strncmp (chars xs) (chars ys) n = 0 \<longleftrightarrow> take n xs = take n ys"
  using assms
proof (induction n arbitrary: xs ys)
  case (Suc n)
  show ?case
  proof (cases xs; cases ys)
    fix x xs' y ys' assume "xs = x # xs'" "ys = y # ys'"
    then show ?thesis using Suc by auto
  qed (use Suc.prems in auto)
qed simp

lemma strlen_from_list: "0 \<notin> set xs \<Longrightarrow> n \<le> length xs \<Longrightarrow> strlen_from (chars xs) n = Some (length xs)"
proof (induction "length xs - n" arbitrary: n)
  case 0
  then show ?case by (subst strlen_from.simps) (simp add: chars_def)
next
  case (Suc k)
  then have "strlen_from (chars xs) (n + 1) = Some (length xs)" by simp
  then show ?case using Suc by (subst strlen_from.simps) (auto simp: chars_zero)
qed

lemma strcmp_list:
  assumes "0 \<notin> set xs" and "0 \<notin> set ys"
  shows "\<exists>r. strcmp (chars xs) (chars ys) = Some r \<and> (r = 0 \<longleftrightarrow> xs = ys)"
  using assms
proof (induction xs arbitrary: ys)
  case Nil
  then show ?case by (subst strcmp.simps) (cases ys, auto)
next
  case (Cons x xs)
  show ?case
  proof (cases "ys \<noteq> [] \<and> hd ys = x")
    case True
    then obtain ys' where ys: "ys = x # ys'" by (cases ys) auto
    then show ?thesis using Cons by (subst strcmp.simps) auto
  next
    case False
    then show ?thesis using Cons.prems by (subst strcmp.simps) (cases ys, auto)
  qed
qed

text \<open>Copying a string that does not overlap its destination.\<close>

definition str_at :: "mem \<Rightarrow> nat \<Rightarrow> byte list \<Rightarrow> bool" where
  "str_at m t xs \<longleftrightarrow> (\<forall>i\<le>length xs. m (t + i) = chars xs i)"

lemma str_at_Cons: "str_at m t (x # xs) \<longleftrightarrow> m t = x \<and> str_at m (t + 1) xs"
proof -
  have "(\<forall>i\<le>Suc (length xs). P i) \<longleftrightarrow> P 0 \<and> (\<forall>i\<le>length xs. P (Suc i))" for P
    by (metis Suc_le_mono le0 not0_implies_Suc)
  then show ?thesis by (simp add: str_at_def) (simp add: chars_def)
qed

lemma str_at_upd:
  assumes "s < t \<or> t + length xs < s"
  shows "str_at (m(s := c)) t xs = str_at m t xs"
proof -
  have "(m(s := c)) (t + i) = m (t + i)" if "i \<le> length xs" for i using assms that by auto
  then show ?thesis by (simp add: str_at_def del: fun_upd_apply)
qed

lemma strncpy_list:
  assumes "str_at m t xs" and "0 \<notin> set xs" and "s + n \<le> t \<or> t + length xs < s" and "i < n"
  shows "strncpy_nat m s t n (s + i) = chars xs i" and
    "\<And>a. a < s \<or> s + n \<le> a \<Longrightarrow> strncpy_nat m s t n a = m a"
proof -
  have "(\<forall>i<n. strncpy_nat m s t n (s + i) = chars xs i) \<and> (\<forall>a. a < s \<or> s + n \<le> a \<longrightarrow> strncpy_nat m s t n a = m a)"
    using assms(1-3)
  proof (induction n arbitrary: m s t xs)
    case (Suc n)
    show ?case
    proof (cases xs)
      case Nil
      then have "m t = 0" using Suc.prems(1) by (simp add: str_at_def)
      then show ?thesis using Nil by (auto simp: stosb_at)
    next
      case (Cons x xs')
      have x: "m t = x" "x \<noteq> 0" using Suc.prems Cons by (auto simp: str_at_Cons)
      have st: "str_at (m(s := x)) (t + 1) xs'"
        using Suc.prems Cons by (subst str_at_upd) (auto simp: str_at_Cons)
      have IH: "(\<forall>i<n. strncpy_nat (m(s := x)) (s + 1) (t + 1) n (s + 1 + i) = chars xs' i) \<and>
          (\<forall>a. a < s + 1 \<or> s + 1 + n \<le> a \<longrightarrow> strncpy_nat (m(s := x)) (s + 1) (t + 1) n a = (m(s := x)) a)"
        using Suc.prems Cons by (intro Suc.IH[OF st]) auto
      have e: "strncpy_nat m s t (Suc n) = strncpy_nat (m(s := x)) (s + 1) (t + 1) n"
        using x by (simp add: Let_def)
      have "strncpy_nat m s t (Suc n) (s + i) = chars xs i" if "i < Suc n" for i
        unfolding e using IH that Cons by (cases i) (simp_all add: chars_def)
      moreover have "strncpy_nat m s t (Suc n) a = m a" if "a < s \<or> s + Suc n \<le> a" for a
        using IH[THEN conjunct2, rule_format, of a] that unfolding e by auto
      ultimately show ?thesis by blast
    qed
  qed simp
  then show "strncpy_nat m s t n (s + i) = chars xs i"
    "\<And>a. a < s \<or> s + n \<le> a \<Longrightarrow> strncpy_nat m s t n a = m a" using assms(4) by blast+
qed

lemma safestrcpy_list:
  assumes "str_at m t xs" and "0 \<notin> set xs" and "s + n < t \<or> t + length xs < s"
  shows "str_at (safestrcpy_nat m s t n) s (take n xs)"
  using assms
proof (induction n arbitrary: m s t xs)
  case 0
  then show ?case by (simp add: str_at_def)
next
  case (Suc n)
  show ?case
  proof (cases xs)
    case Nil
    then have "m t = 0" using Suc.prems(1) by (simp add: str_at_def)
    then show ?thesis using Nil by (simp add: str_at_def)
  next
    case (Cons x xs')
    have x: "m t = x" "x \<noteq> 0" using Suc.prems Cons by (auto simp: str_at_Cons)
    have st: "str_at (m(s := x)) (t + 1) xs'"
      using Suc.prems Cons by (subst str_at_upd) (auto simp: str_at_Cons)
    have keep: "a < s \<Longrightarrow> safestrcpy_nat m s t n a = m a" for m s t n a
      by (induction n arbitrary: m s t) (auto simp: Let_def)
    have "str_at (safestrcpy_nat (m(s := x)) (s + 1) (t + 1) n) (s + 1) (take n xs')"
      using Suc.prems Cons by (intro Suc.IH[OF st]) auto
    then show ?thesis using x Cons keep[of s "s + 1" "m(s := x)" "t + 1" n] by (simp add: str_at_Cons Let_def)
  qed
qed

end
