(* ===== verification/Fs_Dir.thy ===== *)
theory Fs_Dir
  imports Fs_Data CString
begin

text \<open>
  Directories and path names: \<open>namecmp\<close>, \<open>dirlookup\<close>, \<open>dirlink\<close>, \<open>skipelem\<close>,
  \<open>namex\<close>, \<open>namei\<close> and \<open>nameiparent\<close> of fs.c.  A name or path is the list of its
  characters without the terminating zero.
\<close>

section \<open>Directories\<close>

definition namecmp :: "cptr \<Rightarrow> cptr \<Rightarrow> int" where
  "namecmp s t = strncmp s t DIRSIZ"

text \<open>A \<open>struct dirent\<close> as its 16 bytes.\<close>

definition de_inum :: "byte list \<Rightarrow> nat" where
  "de_inum de = unat (de ! 0) + 256 * unat (de ! 1)"

definition de_name :: "byte list \<Rightarrow> byte list" where
  "de_name de = drop 2 de"

text \<open>The bytes \<open>strncpy(de.name, name, DIRSIZ)\<close> and \<open>de.inum = inum\<close> leave in \<open>de\<close>.\<close>

definition mk_dirent :: "nat \<Rightarrow> byte list \<Rightarrow> byte list" where
  "mk_dirent inum name = [of_nat inum, of_nat (inum div 256)] @ map (chars name) [0..<DIRSIZ]"

text \<open>The offsets \<open>for(off = 0; off < dp->size; off += sizeof(de))\<close> runs through.\<close>

definition dir_offs :: "nat \<Rightarrow> nat list" where
  "dir_offs sz = map (\<lambda>k. k * DIRENT_SIZE) [0..<(sz + DIRENT_SIZE - 1) div DIRENT_SIZE]"

primrec dirlookup_loop :: "(nat \<Rightarrow> 'a fs_state_scheme devsw) \<Rightarrow> nat list \<Rightarrow> nat \<Rightarrow> byte list \<Rightarrow>
    'a fs_state_scheme \<Rightarrow> ((nat \<times> nat) option \<times> 'a fs_state_scheme) res" where
  "dirlookup_loop devsw [] dp name s = Ok (None, s)"
| "dirlookup_loop devsw (off # offs) dp name s =
     rbind (readi devsw dp off DIRENT_SIZE s) (\<lambda>((r, de), s).
     if r \<noteq> int DIRENT_SIZE then Panic ''dirlookup read''
     else if de_inum de = 0 then dirlookup_loop devsw offs dp name s
     else if namecmp (chars name) (chars (de_name de)) = 0 then
       rbind (iget (i_dev (inodes s dp)) (de_inum de) s) (\<lambda>(ip, s). Ok (Some (off, ip), s))
     else dirlookup_loop devsw offs dp name s)"

text \<open>The result is the offset of the entry (\<open>*poff\<close>) and the inode.\<close>

definition dirlookup :: "(nat \<Rightarrow> 'a fs_state_scheme devsw) \<Rightarrow> nat \<Rightarrow> byte list \<Rightarrow>
    'a fs_state_scheme \<Rightarrow> ((nat \<times> nat) option \<times> 'a fs_state_scheme) res" where
  "dirlookup devsw dp name s =
     (if i_type (inodes s dp) \<noteq> T_DIR then Panic ''dirlookup not DIR''
      else dirlookup_loop devsw (dir_offs (i_size (inodes s dp))) dp name s)"

primrec dirlink_loop :: "(nat \<Rightarrow> 'a fs_state_scheme devsw) \<Rightarrow> nat list \<Rightarrow> nat \<Rightarrow> nat \<Rightarrow>
    'a fs_state_scheme \<Rightarrow> (nat \<times> 'a fs_state_scheme) res" where
  "dirlink_loop devsw [] dp endoff s = Ok (endoff, s)"
| "dirlink_loop devsw (off # offs) dp endoff s =
     rbind (readi devsw dp off DIRENT_SIZE s) (\<lambda>((r, de), s).
     if r \<noteq> int DIRENT_SIZE then Panic ''dirlink read''
     else if de_inum de = 0 then Ok (off, s)
     else dirlink_loop devsw offs dp endoff s)"

definition dirlink :: "(nat \<Rightarrow> 'a fs_state_scheme devsw) \<Rightarrow> nat \<Rightarrow> byte list \<Rightarrow> nat \<Rightarrow>
    'a fs_state_scheme \<Rightarrow> (int \<times> 'a fs_state_scheme) res" where
  "dirlink devsw dp name inum s =
     rbind (dirlookup devsw dp name s) (\<lambda>(r, s).
     case r of
       Some (_, ip) \<Rightarrow> rbind (iput ip s) (\<lambda>s. Ok (-1, s))
     | None \<Rightarrow>
         let offs = dir_offs (i_size (inodes s dp)) in
         rbind (dirlink_loop devsw offs dp (length offs * DIRENT_SIZE) s) (\<lambda>(off, s).
         rbind (writei devsw dp (mk_dirent inum name) off s) (\<lambda>(r, s).
         if r \<noteq> int DIRENT_SIZE then Panic ''dirlink'' else Ok (0, s))))"

section \<open>Paths\<close>

text \<open>\<open>SL\<close> is the character \<open>'/'\<close>.  The result is the name copied out and the rest of the path.\<close>

definition SL :: byte where "SL = 47"

definition skipelem :: "byte list \<Rightarrow> (byte list \<times> byte list) option" where
  "skipelem path =
     (let path = dropWhile (\<lambda>c. c = SL) path in
      if path = [] then None
      else
        let s = takeWhile (\<lambda>c. c \<noteq> SL) path; path = dropWhile (\<lambda>c. c \<noteq> SL) path;
            name = (if DIRSIZ \<le> length s then take DIRSIZ s else s)
        in Some (name, dropWhile (\<lambda>c. c = SL) path))"

lemma skipelem_shorter: "skipelem path = Some (name, rest) \<Longrightarrow> length rest < length path"
proof -
  assume a: "skipelem path = Some (name, rest)"
  let ?p = "dropWhile (\<lambda>c. c = SL) path"
  have ne: "?p \<noteq> []" and rest: "rest = dropWhile (\<lambda>c. c = SL) (dropWhile (\<lambda>c. c \<noteq> SL) ?p)"
    using a by (auto simp: skipelem_def Let_def split: if_splits)
  have "hd ?p \<noteq> SL" using hd_dropWhile[OF ne] by simp
  then obtain c cs where c: "?p = c # cs" "c \<noteq> SL" using ne by (cases ?p) auto
  have "length rest \<le> length (dropWhile (\<lambda>c. c \<noteq> SL) ?p)" unfolding rest by (rule length_dropWhile_le)
  also have "\<dots> \<le> length cs" using length_dropWhile_le[of "\<lambda>c. c \<noteq> SL" cs] c by simp
  also have "\<dots> < length ?p" using c by simp
  also have "\<dots> \<le> length path" by (rule length_dropWhile_le)
  finally show ?thesis .
qed

function namex_loop :: "(nat \<Rightarrow> 'a fs_state_scheme devsw) \<Rightarrow> byte list \<Rightarrow> bool \<Rightarrow> byte list \<Rightarrow> nat \<Rightarrow>
    'a fs_state_scheme \<Rightarrow> ((nat \<times> byte list) option \<times> 'a fs_state_scheme) res" where
  "namex_loop devsw path parent name ip s =
     (case skipelem path of
        None \<Rightarrow>
          if parent then rbind (iput ip s) (\<lambda>s. Ok (None, s)) else Ok (Some (ip, name), s)
      | Some (name, path) \<Rightarrow>
          rbind (ilock ip s) (\<lambda>s.
          if i_type (inodes s ip) \<noteq> T_DIR then rbind (iunlockput ip s) (\<lambda>s. Ok (None, s))
          else if parent \<and> path = [] then rbind (iunlock ip s) (\<lambda>s. Ok (Some (ip, name), s))
          else
            rbind (dirlookup devsw ip name s) (\<lambda>(r, s).
            case r of
              None \<Rightarrow> rbind (iunlockput ip s) (\<lambda>s. Ok (None, s))
            | Some (_, nxt) \<Rightarrow> rbind (iunlockput ip s) (\<lambda>s. namex_loop devsw path parent name nxt s))))"
  by pat_completeness auto
termination
  by (relation "measure (\<lambda>(devsw, path, parent, name, ip, s). length path)") (auto dest: skipelem_shorter)

declare namex_loop.simps [simp del]

text \<open>\<open>cwd\<close> is \<open>myproc()->cwd\<close>.\<close>

definition namex :: "(nat \<Rightarrow> 'a fs_state_scheme devsw) \<Rightarrow> nat \<Rightarrow> byte list \<Rightarrow> bool \<Rightarrow>
    'a fs_state_scheme \<Rightarrow> ((nat \<times> byte list) option \<times> 'a fs_state_scheme) res" where
  "namex devsw cwd path parent s =
     rbind (if path \<noteq> [] \<and> hd path = SL then iget ROOTDEV ROOTINO s else Ok (idup cwd s)) (\<lambda>(ip, s).
     namex_loop devsw path parent [] ip s)"

definition namei :: "(nat \<Rightarrow> 'a fs_state_scheme devsw) \<Rightarrow> nat \<Rightarrow> byte list \<Rightarrow>
    'a fs_state_scheme \<Rightarrow> (nat option \<times> 'a fs_state_scheme) res" where
  "namei devsw cwd path s = rbind (namex devsw cwd path False s) (\<lambda>(r, s). Ok (map_option fst r, s))"

definition nameiparent :: "(nat \<Rightarrow> 'a fs_state_scheme devsw) \<Rightarrow> nat \<Rightarrow> byte list \<Rightarrow>
    'a fs_state_scheme \<Rightarrow> ((nat \<times> byte list) option \<times> 'a fs_state_scheme) res" where
  "nameiparent devsw cwd path s = namex devsw cwd path True s"

section \<open>A directory as a list of entries\<close>

definition dents :: "'a fs_state_scheme \<Rightarrow> nat \<Rightarrow> byte list list" where
  "dents s dp = map (\<lambda>k. take DIRENT_SIZE (drop (k * DIRENT_SIZE) (contents s dp)))
     [0..<i_size (inodes s dp) div DIRENT_SIZE]"

definition dir_ok :: "'a fs_state_scheme \<Rightarrow> nat \<Rightarrow> bool" where
  "dir_ok s dp \<longleftrightarrow> ino_ok s dp \<and> no_holes s dp \<and> i_type (inodes s dp) = T_DIR \<and>
     DIRENT_SIZE dvd i_size (inodes s dp)"

definition de_match :: "byte list \<Rightarrow> byte list \<Rightarrow> bool" where
  "de_match name de \<longleftrightarrow> de_inum de \<noteq> 0 \<and> namecmp (chars name) (chars (de_name de)) = 0"

lemma dir_offs_eq:
  assumes "DIRENT_SIZE dvd sz"
  shows "dir_offs sz = map (\<lambda>k. k * DIRENT_SIZE) [0..<sz div DIRENT_SIZE]"
proof -
  have "(sz + DIRENT_SIZE - 1) div DIRENT_SIZE = sz div DIRENT_SIZE"
    using assms by (auto simp: DIRENT_SIZE_def elim!: dvdE)
  then show ?thesis by (simp add: dir_offs_def)
qed

lemma dir_ok_tx:
  assumes "tx s k (bview s) t" and "dir_ok s dp"
  shows "dir_ok t dp" and "contents t dp = contents s dp" and "dents t dp = dents s dp" and "inodes t = inodes s"
  using tx_ino_ok[OF assms(1), of dp] assms(2) by (auto simp: dir_ok_def no_holes_def contents_def dents_def)

lemma readi_dirent:
  assumes rm: "room s k (Suc h)" and ok: "dir_ok s dp" and k: "j < i_size (inodes s dp) div DIRENT_SIZE"
  shows "\<exists>t. readi devsw dp (j * DIRENT_SIZE) DIRENT_SIZE s = Ok ((int DIRENT_SIZE, dents s dp ! j), t) \<and>
    tx s 0 (bview s) t"
proof -
  let ?sz = "i_size (inodes s dp)"
  have ok': "ino_ok s dp" "no_holes s dp" "i_type (inodes s dp) \<noteq> T_DEV" "DIRENT_SIZE dvd ?sz"
    using ok by (auto simp: dir_ok_def T_DIR_def T_DEV_def)
  then have le: "j * DIRENT_SIZE + DIRENT_SIZE \<le> ?sz"
    using k by (auto simp: DIRENT_SIZE_def elim!: dvdE)
  moreover have "?sz \<le> MAXFILE * BSIZE" using ok'(2) by (simp add: no_holes_def)
  ultimately have lt: "j * DIRENT_SIZE \<le> ?sz" "j * DIRENT_SIZE + DIRENT_SIZE < 4294967296"
    by (auto simp: MAXFILE_def NDIRECT_def NINDIRECT_def BSIZE_def)
  have "min DIRENT_SIZE (?sz - j * DIRENT_SIZE) = DIRENT_SIZE" using le by simp
  then show ?thesis
    using readi_contents[OF rm ok'(1-3) lt, of devsw] k by (simp add: dents_def)
qed

lemma dirlookup_loop_Ok:
  assumes "room s k (Suc h)" and "dir_ok s dp" and "m = i_size (inodes s dp) div DIRENT_SIZE" and "j \<le> m"
  shows "\<exists>t. tx s 0 (bview s) t \<and>
    dirlookup_loop devsw (map (\<lambda>k. k * DIRENT_SIZE) [j..<m]) dp name s =
    (case find (\<lambda>k. de_match name (dents s dp ! k)) [j..<m] of
       None \<Rightarrow> Ok (None, t)
     | Some k \<Rightarrow> rbind (iget (i_dev (inodes s dp)) (de_inum (dents s dp ! k)) t)
         (\<lambda>(ip, t). Ok (Some (k * DIRENT_SIZE, ip), t)))"
  using assms
proof (induction "m - j" arbitrary: j s)
  case 0
  then show ?case using tx_refl[OF room_inv[OF 0(2)], of 0] by auto
next
  case (Suc d)
  have j: "j < m" "d = m - Suc j" "Suc j \<le> m" using Suc(2,6) by auto
  obtain t where t: "readi devsw dp (j * DIRENT_SIZE) DIRENT_SIZE s = Ok ((int DIRENT_SIZE, dents s dp ! j), t)"
      "tx s 0 (bview s) t"
    using readi_dirent[OF Suc(3,4)] j(1) Suc(5) by blast
  note e = dir_ok_tx[OF t(2) Suc(4)]
  have rm: "room t k (Suc h)" using tx_room[OF t(2), of k] Suc(3) by simp
  obtain u where u: "tx t 0 (bview t) u" "dirlookup_loop devsw (map (\<lambda>k. k * DIRENT_SIZE) [Suc j..<m]) dp name t =
    (case find (\<lambda>k. de_match name (dents t dp ! k)) [Suc j..<m] of
       None \<Rightarrow> Ok (None, u)
     | Some k \<Rightarrow> rbind (iget (i_dev (inodes t dp)) (de_inum (dents t dp ! k)) u)
         (\<lambda>(ip, t). Ok (Some (k * DIRENT_SIZE, ip), t)))"
    using Suc(1)[OF j(2) rm e(1) _ j(3)] Suc(5) e(4) by auto
  have v: "bview t = bview s" by (rule tx_view[OF t(2)])
  show ?case
  proof (cases "de_match name (dents s dp ! j)")
    case True
    then show ?thesis
      using t e(4) j(1) by (intro exI[of _ t]) (simp add: upt_rest upt_conv_Cons de_match_def)
  next
    case False
    then have "de_inum (dents s dp ! j) = 0 \<or> namecmp (chars name) (chars (de_name (dents s dp ! j))) \<noteq> 0"
      by (simp add: de_match_def)
    then show ?thesis
      using t u(2)[unfolded e(3,4)] j(1) v tx_trans[OF t(2) u(1)] False
      by (intro exI[of _ u]) (auto simp: upt_conv_Cons)
  qed
qed

lemma dirlookup_Ok:
  assumes "room s k (Suc h)" and "dir_ok s dp"
  shows "\<exists>t. tx s 0 (bview s) t \<and> dirlookup devsw dp name s =
    (case find (\<lambda>k. de_match name (dents s dp ! k)) [0..<length (dents s dp)] of
       None \<Rightarrow> Ok (None, t)
     | Some k \<Rightarrow> rbind (iget ROOTDEV (de_inum (dents s dp ! k)) t)
         (\<lambda>(ip, t). Ok (Some (k * DIRENT_SIZE, ip), t)))"
proof -
  have d: "i_dev (inodes s dp) = ROOTDEV" "i_type (inodes s dp) = T_DIR" "DIRENT_SIZE dvd i_size (inodes s dp)"
    using assms(2) by (auto simp: dir_ok_def ino_ok_def)
  have l: "length (dents s dp) = i_size (inodes s dp) div DIRENT_SIZE" by (simp add: dents_def)
  show ?thesis
    using dirlookup_loop_Ok[OF assms refl, of 0 devsw name, unfolded d(1)] d(2,3) unfolding l
    by (simp add: dirlookup_def dir_offs_eq)
qed

section \<open>Adding an entry\<close>

text \<open>The slot \<open>dirlink\<close> uses: the first free entry, else behind the last.\<close>

definition free_slot :: "byte list list \<Rightarrow> nat" where
  "free_slot es = (case find (\<lambda>k. de_inum (es ! k) = 0) [0..<length es] of Some k \<Rightarrow> k | None \<Rightarrow> length es)"

definition put_entry :: "byte list list \<Rightarrow> nat \<Rightarrow> byte list \<Rightarrow> byte list list" where
  "put_entry es k de = (if k < length es then es[k := de] else es @ [de])"

lemma dirlink_loop_Ok:
  assumes "room s k (Suc h)" and "dir_ok s dp" and "m = i_size (inodes s dp) div DIRENT_SIZE" and "j \<le> m"
  shows "\<exists>t. tx s 0 (bview s) t \<and>
    dirlink_loop devsw (map (\<lambda>k. k * DIRENT_SIZE) [j..<m]) dp endoff s =
    Ok (case find (\<lambda>k. de_inum (dents s dp ! k) = 0) [j..<m] of None \<Rightarrow> endoff | Some k \<Rightarrow> k * DIRENT_SIZE, t)"
  using assms
proof (induction "m - j" arbitrary: j s)
  case 0
  then show ?case using tx_refl[OF room_inv[OF 0(2)], of 0] by auto
next
  case (Suc d)
  have j: "j < m" "d = m - Suc j" "Suc j \<le> m" using Suc(2,6) by auto
  obtain t where t: "readi devsw dp (j * DIRENT_SIZE) DIRENT_SIZE s = Ok ((int DIRENT_SIZE, dents s dp ! j), t)"
      "tx s 0 (bview s) t"
    using readi_dirent[OF Suc(3,4)] j(1) Suc(5) by blast
  note e = dir_ok_tx[OF t(2) Suc(4)]
  have rm: "room t k (Suc h)" using tx_room[OF t(2), of k] Suc(3) by simp
  obtain u where u: "tx t 0 (bview t) u"
    "dirlink_loop devsw (map (\<lambda>k. k * DIRENT_SIZE) [Suc j..<m]) dp endoff t =
    Ok (case find (\<lambda>k. de_inum (dents t dp ! k) = 0) [Suc j..<m] of None \<Rightarrow> endoff | Some k \<Rightarrow> k * DIRENT_SIZE, u)"
    using Suc(1)[OF j(2) rm e(1) _ j(3)] Suc(5) e(4) by auto
  have v: "bview t = bview s" by (rule tx_view[OF t(2)])
  show ?case
    using t u(2)[unfolded e(3)] j(1) v tx_trans[OF t(2) u(1)]
    by (cases "de_inum (dents s dp ! j) = 0") (auto simp: upt_conv_Cons)
qed

lemma dents_put:
  assumes d: "DIRENT_SIZE dvd sz" and C: "length C = sz" and k: "k \<le> sz div DIRENT_SIZE" and de: "length de = DIRENT_SIZE"
    and C': "C' = take (k * DIRENT_SIZE) C @ de @ drop (k * DIRENT_SIZE + DIRENT_SIZE) C"
  shows "map (\<lambda>k. take DIRENT_SIZE (drop (k * DIRENT_SIZE) C')) [0..<length C' div DIRENT_SIZE] =
    put_entry (map (\<lambda>k. take DIRENT_SIZE (drop (k * DIRENT_SIZE) C)) [0..<sz div DIRENT_SIZE]) k de"
proof -
  obtain q where q: "sz = q * 16" using d by (auto simp: DIRENT_SIZE_def elim!: dvdE)
  have D: "DIRENT_SIZE = 16" by (simp add: DIRENT_SIZE_def)
  have kq: "k \<le> q" using k q D by simp
  have len: "length C' = (if k < q then q * 16 else (q + 1) * 16)" using C de q kq by (auto simp: C' D)
  have at: "take 16 (drop (i * 16) C') = (if i = k then de else take 16 (drop (i * 16) C))"
    if "i \<le> q" for i
  proof -
    consider "i < k" | "i = k" | "k < i" by linarith
    then show ?thesis
    proof cases
      case 1
      then have "i * 16 + 16 \<le> k * 16" "k * 16 \<le> length C" using kq C q by auto
      then show ?thesis using 1 unfolding C' D by (simp add: take_drop min_def)
    next
      case 2
      have "k * 16 \<le> length C" using kq C q by simp
      then show ?thesis using 2 de unfolding C' D by simp
    next
      case 3
      then have "k * 16 + 16 \<le> i * 16" "k * 16 \<le> length C" using kq C q by auto
      then show ?thesis using 3 de unfolding C' D by (simp add: min_def)
    qed
  qed
  show ?thesis
  proof (rule nth_equalityI)
    show "length (map (\<lambda>k. take DIRENT_SIZE (drop (k * DIRENT_SIZE) C')) [0..<length C' div DIRENT_SIZE]) =
      length (put_entry (map (\<lambda>k. take DIRENT_SIZE (drop (k * DIRENT_SIZE) C)) [0..<sz div DIRENT_SIZE]) k de)"
      using len kq q by (simp add: D put_entry_def)
    fix i assume "i < length (map (\<lambda>k. take DIRENT_SIZE (drop (k * DIRENT_SIZE) C')) [0..<length C' div DIRENT_SIZE])"
    then have i: "i < q \<or> i = q \<and> k = q" using len kq D by (auto split: if_splits)
    show "map (\<lambda>k. take DIRENT_SIZE (drop (k * DIRENT_SIZE) C')) [0..<length C' div DIRENT_SIZE] ! i =
      put_entry (map (\<lambda>k. take DIRENT_SIZE (drop (k * DIRENT_SIZE) C)) [0..<sz div DIRENT_SIZE]) k de ! i"
      using i len kq q at[of i] by (auto simp: D put_entry_def nth_append split: if_splits)
  qed
qed

lemma mk_dirent_simps:
  "length (mk_dirent inum name) = DIRENT_SIZE"
  "inum < 65536 \<Longrightarrow> de_inum (mk_dirent inum name) = inum"
  "de_name (mk_dirent inum name) = map (chars name) [0..<DIRSIZ]"
proof -
  show "de_inum (mk_dirent inum name) = inum" if "inum < 65536"
    using that by (simp add: de_inum_def mk_dirent_def unat_byte_of_nat)
qed (simp_all add: mk_dirent_def DIRENT_SIZE_def DIRSIZ_def de_name_def)

lemma strncmp_same: "(\<And>i. i < n \<Longrightarrow> p i = q i) \<Longrightarrow> strncmp p q n = 0"
proof (induction n arbitrary: p q)
  case (Suc n)
  have "strncmp (adv p) (adv q) n = 0" by (rule Suc.IH) (simp add: adv_def Suc.prems)
  then show ?case using Suc.prems[of 0] by simp
qed simp

lemma de_match_new: "inum \<noteq> 0 \<Longrightarrow> inum < 65536 \<Longrightarrow> de_match name (mk_dirent inum name)"
  unfolding de_match_def namecmp_def mk_dirent_simps(3)
  by (simp add: mk_dirent_simps(2) strncmp_same) (rule strncmp_same, simp add: chars_def)

lemma nchunks_dirent: "nchunks (k * DIRENT_SIZE) DIRENT_SIZE = 1"
proof -
  have "(k * 16 + 15) div 512 = k div 32"
    using div_mult2_eq[of "k * 16 + 15" 16 32] by simp
  moreover have "k * 16 div 512 = k div 32" using div_mult2_eq[of "k * 16" 16 32] by simp
  ultimately show ?thesis by (simp add: nchunks_def DIRENT_SIZE_def BSIZE_def)
qed

lemma free_slot_le: "free_slot es \<le> length es"
  by (auto simp: free_slot_def find_Some_iff split: option.split)

text \<open>A directory that has room for one more entry.\<close>

lemma dirlink_Ok:
  assumes rm: "room s 7 2" and ok: "dir_ok s dp" and inum: "i_inum (inodes s dp) < sb_ninodes (sb s)"
    and free: "2 \<le> nfree (sb s) (bview s)" and new: "\<forall>de\<in>set (dents s dp). \<not> de_match name de"
    and sz: "i_size (inodes s dp) + DIRENT_SIZE \<le> MAXFILE * BSIZE"
  shows "\<exists>t. dirlink devsw dp name ino s = Ok (0, t) \<and> dir_ok t dp \<and>
    dents t dp = put_entry (dents s dp) (free_slot (dents s dp)) (mk_dirent ino name)"
proof -
  let ?es = "dents s dp" and ?sz = "i_size (inodes s dp)" and ?k = "free_slot (dents s dp)"
  have rm1: "room s 7 (Suc 0)" by (rule room_mono[OF rm]) auto
  have d: "DIRENT_SIZE dvd ?sz" using ok by (simp add: dir_ok_def)
  have len: "length ?es = ?sz div DIRENT_SIZE" by (simp add: dents_def)
  have "find (\<lambda>k. de_match name (?es ! k)) [0..<length ?es] = None"
    using new by (auto simp: find_None_iff)
  then obtain s1 where s1: "tx s 0 (bview s) s1" "dirlookup devsw dp name s = Ok (None, s1)"
    using dirlookup_Ok[OF rm1 ok, of devsw name] by auto
  note e1 = dir_ok_tx[OF s1(1) ok]
  have r1: "room s1 7 2" "room s1 7 (Suc 0)" using tx_room[OF s1(1), of 7] rm rm1 by auto
  obtain s2 where s2: "tx s1 0 (bview s1) s2"
    "dirlink_loop devsw (dir_offs ?sz) dp (length (dir_offs ?sz) * DIRENT_SIZE) s1 = Ok (?k * DIRENT_SIZE, s2)"
    using dirlink_loop_Ok[OF r1(2) e1(1) refl, of 0 devsw "length (dir_offs ?sz) * DIRENT_SIZE"]
    unfolding e1 len[symmetric] free_slot_def dir_offs_eq[OF d]
    by (auto simp: len split: option.splits)
  note e2 = dir_ok_tx[OF s2(1) e1(1)]
  have v: "bview s2 = bview s" "sb s2 = sb s" "inodes s2 = inodes s"
    using tx_view[OF s1(1)] tx_view[OF s2(1)] same_fs(1)[OF tx_same[OF s1(1)]] same_fs(1)[OF tx_same[OF s2(1)]]
      e1(4) e2(4) by auto
  have r2: "room s2 7 2" using tx_room[OF s2(1), of 7] r1 by auto
  have le: "?k * DIRENT_SIZE \<le> ?sz"
    using free_slot_le[of ?es] d unfolding len by (metis dvd_div_mult_self mult_le_mono1)
  have o2: "ino_ok s2 dp" "no_holes s2 dp" "i_type (inodes s2 dp) \<noteq> T_DEV"
    using e2(1) by (auto simp: dir_ok_def T_DIR_def T_DEV_def)
  let ?de = "mk_dirent ino name"
  note ld = mk_dirent_simps(1)[of ino name]
  let ?off = "?k * DIRENT_SIZE" and ?n' = "\<lambda>t. (inodes s2 dp)\<lparr>i_size := max (i_size (inodes s2 dp))
    (?k * DIRENT_SIZE + length ?de), i_addrs := i_addrs (inodes t dp)\<rparr>"
  have "\<exists>t. writei devsw dp ?de ?off s2 = Ok (int (length ?de), t) \<and> ino_ok t dp \<and> no_holes t dp \<and>
    contents t dp = take ?off (contents s2 dp) @ ?de @ drop (?off + length ?de) (contents s2 dp) \<and>
    inodes t = (inodes s2)(dp := ?n' t) \<and> sb t = sb s2 \<and>
    (\<forall>b. data_blk (sb s2) (bview s2) b \<longrightarrow> b \<notin> iblocks (bview s2) (inodes s2 dp) \<longrightarrow> bview t b = bview s2 b)"
    by (rule writei_contents[of _ _ _ 0])
      (use r2 o2 le sz inum free in \<open>auto simp: ld nchunks_dirent v numeral_2_eq_2\<close>)
  then obtain t where t: "writei devsw dp ?de ?off s2 = Ok (int DIRENT_SIZE, t)" "ino_ok t dp"
    "no_holes t dp" "contents t dp = take ?off (contents s2 dp) @ ?de @
       drop (?off + DIRENT_SIZE) (contents s2 dp)" "inodes t = (inodes s2)(dp := ?n' t)"
    unfolding ld by blast
  have it: "inodes t dp = ?n' t" using t(5) by (metis fun_upd_same)
  have ty: "i_type (inodes t dp) = T_DIR" using arg_cong[OF it, of i_type] ok v(3) by (simp add: dir_ok_def)
  have "i_size (inodes t dp) = max ?sz (?off + DIRENT_SIZE)" using arg_cong[OF it, of i_size] ld v(3) by simp
  then have "DIRENT_SIZE dvd i_size (inodes t dp)" using d by (simp add: max_def)
  then have dk: "dir_ok t dp" using t(2,3) ty by (simp add: dir_ok_def)
  have lc: "length (contents x y) = i_size (inodes x y)" for x :: "'a fs_state_scheme" and y
    by (simp add: contents_def)
  have "dents t dp = put_entry ?es ?k ?de"
    unfolding dents_def[of t] using dents_put[OF d _ _ ld t(4)] free_slot_le[of ?es] e1(2) e2(2)
    by (simp add: lc len dents_def[of s])
  moreover have "dirlink devsw dp name ino s = Ok (0, t)"
    using s1(2) s2(2) t(1) e1(4) by (simp add: dirlink_def Let_def)
  ultimately show ?thesis using dk by blast
qed

text \<open>After the link the lookup of the name hits the new entry first.\<close>

lemma put_entry_nth:
  "k \<le> length es \<Longrightarrow> put_entry es k de ! i = (if i = k then de else es ! i)" if "i < length (put_entry es k de)" for i
  using that by (auto simp: put_entry_def nth_append nth_list_update split: if_splits)

lemma find_put_entry:
  assumes "\<forall>e\<in>set es. \<not> P e" and "P de" and "k \<le> length es"
  shows "find (\<lambda>i. P (put_entry es k de ! i)) [0..<length (put_entry es k de)] = Some k"
proof -
  have l: "k < length (put_entry es k de)" using assms(3) by (auto simp: put_entry_def)
  have "P (put_entry es k de ! i) \<longleftrightarrow> i = k" if "i < length (put_entry es k de)" for i
    using that assms put_entry_nth[OF that assms(3)] by (auto simp: put_entry_def split: if_splits)
  then show ?thesis using l by (auto simp: find_Some_iff intro!: exI[of _ k])
qed

section \<open>Path names\<close>

text \<open>The elements \<open>namex\<close> walks through, by repeated \<open>skipelem\<close>.\<close>

function path_walk :: "byte list \<Rightarrow> byte list list" where
  "path_walk path = (case skipelem path of None \<Rightarrow> [] | Some (name, rest) \<Rightarrow> name # path_walk rest)"
  by pat_completeness auto
termination by (relation "measure length") (auto dest: skipelem_shorter)

declare path_walk.simps [simp del]

text \<open>Reference: cut the path at every slash and drop the empty pieces.\<close>

fun split_slash :: "byte list \<Rightarrow> byte list list" where
  "split_slash [] = [[]]"
| "split_slash (c # cs) =
     (if c = SL then [] # split_slash cs
      else case split_slash cs of x # xs \<Rightarrow> (c # x) # xs | [] \<Rightarrow> [[c]])"

definition components :: "byte list \<Rightarrow> byte list list" where
  "components path = filter (\<lambda>x. x \<noteq> []) (split_slash path)"

lemma split_slash_ne: "split_slash path \<noteq> []"
  by (induction path) (auto split: list.split)

lemma components_slash: "components (dropWhile (\<lambda>c. c = SL) path) = components path"
  by (induction path) (auto simp: components_def)

lemma split_slash_elem:
  "split_slash path = takeWhile (\<lambda>c. c \<noteq> SL) path #
     (case dropWhile (\<lambda>c. c \<noteq> SL) path of [] \<Rightarrow> [] | _ # rest \<Rightarrow> split_slash rest)"
  by (induction path) (auto split: list.split)

lemma components_elem:
  assumes "path \<noteq> []" and "hd path \<noteq> SL"
  shows "components path = takeWhile (\<lambda>c. c \<noteq> SL) path # components (dropWhile (\<lambda>c. c \<noteq> SL) path)"
proof -
  have "takeWhile (\<lambda>c. c \<noteq> SL) path \<noteq> []" using assms by (cases path) auto
  moreover have "components (dropWhile (\<lambda>c. c \<noteq> SL) path) = filter (\<lambda>x. x \<noteq> [])
      (case dropWhile (\<lambda>c. c \<noteq> SL) path of [] \<Rightarrow> [] | _ # rest \<Rightarrow> split_slash rest)"
  proof (cases "dropWhile (\<lambda>c. c \<noteq> SL) path")
    case (Cons c cs)
    then have "c = SL" using hd_dropWhile[of "\<lambda>c. c \<noteq> SL" path] by simp
    then show ?thesis using Cons by (simp add: components_def)
  next
    case Nil
    show ?thesis unfolding Nil by (simp add: components_def)
  qed
  ultimately show ?thesis by (subst (1) components_def, subst split_slash_elem) simp
qed

lemma path_walk_components: "path_walk path = map (take DIRSIZ) (components path)"
proof (induction path rule: path_walk.induct)
  case (1 path)
  let ?p = "dropWhile (\<lambda>c. c = SL) path"
  show ?case
  proof (cases "?p = []")
    case True
    then have "components path = []" using components_slash[of path] unfolding True by (simp add: components_def)
    then show ?thesis using True by (subst path_walk.simps) (simp add: skipelem_def)
  next
    case False
    let ?e = "takeWhile (\<lambda>c. c \<noteq> SL) ?p" and ?r = "dropWhile (\<lambda>c. c = SL) (dropWhile (\<lambda>c. c \<noteq> SL) ?p)"
    have sk: "skipelem path = Some (take DIRSIZ ?e, ?r)"
      using False by (auto simp: skipelem_def Let_def)
    have "hd ?p \<noteq> SL" using hd_dropWhile[OF False] by simp
    then have "components path = ?e # components ?r"
      using components_elem[OF False] components_slash[of path] components_slash[of "dropWhile (\<lambda>c. c \<noteq> SL) ?p"]
      by simp
    then show ?thesis using sk 1[OF sk refl] by (subst path_walk.simps) simp
  qed
qed

end
