(* ===== verification/Crash.thy ===== *)
theory Crash
  imports Log
begin

text \<open>
  Crash safety of the log of log.c.  A crash keeps a prefix of the disk writes a run performs
  (\<open>wlog\<close>) and loses the memory; the next boot runs \<open>binit\<close> and \<open>initlog\<close>.
  \<open>log_replay\<close> is the disk that a log stands for: its data blocks installed over
  their home blocks.
\<close>

section \<open>What the log on a disk stands for\<close>

definition head_n :: "nat \<Rightarrow> (nat \<Rightarrow> block) \<Rightarrow> nat" where
  "head_n ls D = nat (get_int (D ls) 0)"

definition head_block :: "nat \<Rightarrow> (nat \<Rightarrow> block) \<Rightarrow> nat \<Rightarrow> nat" where
  "head_block ls D i = get32 (D ls) (4 + 4 * i)"

definition replay_writes :: "nat \<Rightarrow> (nat \<Rightarrow> block) \<Rightarrow> (nat \<times> block) list" where
  "replay_writes ls D = map (\<lambda>i. (head_block ls D i, D (ls + i + 1))) [0..<head_n ls D]"

definition log_replay :: "nat \<Rightarrow> (nat \<Rightarrow> block) \<Rightarrow> nat \<Rightarrow> block" where
  "log_replay ls D = apply_writes (replay_writes ls D) D"

definition recovery_writes :: "nat \<Rightarrow> (nat \<Rightarrow> block) \<Rightarrow> (nat \<times> block) list" where
  "recovery_writes ls D = replay_writes ls D @ [(ls, put_int 0 0 (D ls))]"

text \<open>A disk of \<open>N\<close> blocks whose superblock puts a log of \<open>sz\<close> blocks at \<open>ls\<close>, with a sound header.\<close>

definition disk_wf :: "nat \<Rightarrow> nat \<Rightarrow> nat \<Rightarrow> (nat \<Rightarrow> block) \<Rightarrow> bool" where
  "disk_wf N ls sz D \<longleftrightarrow>
     sb_logstart (dec_superblock (D 1)) = ls \<and> sb_nlog (dec_superblock (D 1)) = sz \<and>
     1 < ls \<and> 0 < sz \<and> int sz \<le> LOGSIZE \<and> ls + sz \<le> N \<and> N \<le> 4294967296 \<and>
     0 \<le> get_int (D ls) 0 \<and> head_n ls D < sz \<and> inj_on (head_block ls D) {..<head_n ls D} \<and>
     (\<forall>i<head_n ls D. head_block ls D i < N \<and> head_block ls D i \<notin> {ls..<ls + sz} \<and>
        head_block ls D i \<noteq> 1)"

lemma enc_head_0: "enc_head 0 blk d = put_int 0 0 d"
  by (simp add: enc_head_def)

lemma fst_replay_writes: "fst ` set (replay_writes ls D) = head_block ls D ` {..<head_n ls D}"
  by (force simp: replay_writes_def)

lemma log_replay_empty: "head_n ls D = 0 \<Longrightarrow> log_replay ls D = D"
  by (simp add: log_replay_def replay_writes_def)

lemma head_n_cleared: "head_n ls (D(ls := put_int 0 0 d)) = 0"
  by (simp add: head_n_def get_int_put_int)

lemma replay_writes_cong:
  "E ls = D ls \<Longrightarrow> (\<And>i. i < head_n ls D \<Longrightarrow> E (ls + i + 1) = D (ls + i + 1)) \<Longrightarrow>
   replay_writes ls E = replay_writes ls D"
  by (simp add: replay_writes_def head_n_def head_block_def)

text \<open>Writing a sequence again after a part of it changes nothing.\<close>

lemma apply_writes_last:
  "b \<in> fst ` set ws \<Longrightarrow> apply_writes ws D b = apply_writes ws E b"
proof (induction ws rule: rev_induct)
  case (snoc w ws)
  then show ?case by (cases w) auto
qed simp

lemma apply_writes_again:
  assumes "fst ` set us \<subseteq> fst ` set ws"
  shows "apply_writes ws (apply_writes us D) = apply_writes ws D"
proof
  fix b
  show "apply_writes ws (apply_writes us D) b = apply_writes ws D b"
  proof (cases "b \<in> fst ` set ws")
    case True
    then show ?thesis by (rule apply_writes_last)
  next
    case False
    moreover from this assms have "b \<notin> fst ` set us" by blast
    ultimately show ?thesis by (simp add: apply_writes_other)
  qed
qed

lemma take_fst_subset: "fst ` set (take k ws) \<subseteq> fst ` set ws"
  using set_take_subset[of k ws] by blast

lemma disk_wf_start: "disk_wf N ls sz D \<Longrightarrow> ls \<notin> fst ` set (replay_writes ls D)"
  unfolding fst_replay_writes disk_wf_def by fastforce

section \<open>Recovery\<close>

lemma foldl_upd_blocks:
  "foldl (\<lambda>blk i. blk(i := f i)) blk [0..<n] = (\<lambda>i. if i < n then f i else blk i)"
  by (induction n) (auto simp: fun_eq_iff less_Suc_eq)

lemma read_head_Ok:
  assumes inv: "bio_inv s" and h: "held s = {}" and d: "dirty_blocks s = {}"
    and dev: "log_dev s = ROOTDEV" and ls: "log_start s < disksize s"
    and n: "get_int (bview s (log_start s)) 0 \<le> LOGSIZE"
  obtains u where "read_head s = Ok u" and "bio_inv u" and "held u = {}" and "dirty_blocks u = {}"
    and "bview u = bview s" and "lh_n u = get_int (bview s (log_start s)) 0"
    and "\<forall>i<nat (lh_n u). lh_block u i = head_block (log_start s) (bview s) i"
    and "wrote (s\<lparr>lh_n := lh_n u, lh_block := lh_block u\<rparr>) [] u"
proof -
  note hb = held_blocks_empty[OF h]
  obtain i t where t: "bread ROOTDEV (log_start s) s = Ok (i, t)" "bio_inv t" "bview t = bview s"
      "dirty_blocks t = dirty_blocks s" "held t = insert i (held s)"
      "b_data (bufs t i) = bview s (log_start s)" "wrote s [] t"
    by (rule bread_Ok[OF inv ls]) (use d hb in \<open>auto simp: NBUF_def\<close>)
  let ?lh = "bview s (log_start s)"
  let ?blk = "foldl (\<lambda>blk i. blk(i := get32 ?lh (4 + 4 * i))) (lh_block t) [0..<nat (get_int ?lh 0)]"
  let ?t = "t\<lparr>lh_n := get_int ?lh 0, lh_block := ?blk\<rparr>"
  have inv': "bio_inv ?t" using t(2) by simp
  have i: "i \<in> held ?t" using t(5) by simp
  note u = rel_buf_inv[OF inv' i]
  have "read_head s = Ok (rel_buf i ?t)"
    using n by (simp add: read_head_def dev t(1,6) Let_def brelse_eq[OF inv' i])
  moreover have "wrote (s\<lparr>lh_n := get_int ?lh 0, lh_block := ?blk\<rparr>) [] (rel_buf i ?t)"
    using t(7) by (cases s; cases t) (simp add: wrote_def rel_buf_def)
  moreover have "lh_n (rel_buf i ?t) = get_int ?lh 0" "lh_block (rel_buf i ?t) = ?blk"
    by (simp_all add: rel_buf_def)
  ultimately show thesis
    using u t h d by (intro that[of "rel_buf i ?t"]) (auto simp: foldl_upd_blocks head_block_def)
qed

text \<open>A booted system with the log fields set reads a sound header from a sound disk.\<close>

lemma recover_from_log_Ok:
  assumes inv: "bio_inv s" and h: "held s = {}" and d: "dirty_blocks s = {}"
    and dev: "log_dev s = ROOTDEV" and wf: "disk_wf (disksize s) (log_start s) (log_size s) (disk s)"
  obtains u where "recover_from_log s = Ok u" and "log_inv u" and "held u = {}" and "lh_n u = 0"
    and "wrote (s\<lparr>lh_block := lh_block u, lh_n := 0\<rparr>) (recovery_writes (log_start s) (disk s)) u"
proof -
  let ?ls = "log_start s" and ?D = "disk s"
  have v: "bview s = ?D" using bview_clean[OF inv] d by auto
  have ls: "?ls < disksize s" and n: "get_int (bview s ?ls) 0 \<le> LOGSIZE"
    using wf unfolding v by (auto simp: disk_wf_def head_n_def)
  obtain s1 where s1: "read_head s = Ok s1" "bio_inv s1" "held s1 = {}" "dirty_blocks s1 = {}"
      "bview s1 = ?D" "lh_n s1 = get_int (?D ?ls) 0"
      "\<forall>i<nat (lh_n s1). lh_block s1 i = head_block ?ls ?D i"
      "wrote (s\<lparr>lh_n := lh_n s1, lh_block := lh_block s1\<rparr>) [] s1"
    by (rule read_head_Ok[OF inv h d dev ls n]) (simp add: v)
  note f1 = wrote_log[OF s1(8), simplified] wrote_bio[OF s1(8), simplified]
  have hn: "nat (lh_n s1) = head_n ?ls ?D" by (simp add: s1(6) head_n_def)
  have wf1: "log_wf s1" using wf dev f1 by (simp add: log_wf_def disk_wf_def)
  have "inj_on (lh_block s1) {..<nat (lh_n s1)} = inj_on (head_block ?ls ?D) {..<head_n ?ls ?D}"
    unfolding hn using s1(7) hn by (intro inj_on_cong) simp
  moreover have "logged s1 = head_block ?ls ?D ` {..<head_n ?ls ?D}"
    using s1(7) by (simp add: logged_def hn)
  ultimately have hwf1: "head_wf s1"
    using wf f1 hn s1(6) by (auto simp: head_wf_def disk_wf_def log_region_def)
  obtain s2 where s2: "install_trans s1 = Ok s2" "bio_inv s2" "held s2 = {}" "dirty_blocks s2 = {}"
      "wrote s1 (home_writes s1 (nat (lh_n s1))) s2"
      "bview s2 = apply_writes (home_writes s1 (nat (lh_n s1))) (bview s1)"
    by (rule install_trans_Ok[OF s1(2,3) wf1 hwf1]) (use s1 in auto)
  have hw: "home_writes s1 (nat (lh_n s1)) = replay_writes ?ls ?D"
    using s1(5,7) f1 by (simp add: home_writes_def replay_writes_def hn)
  note w2 = wrote_trans[OF s1(8) s2(5)]
  note f2 = wrote_log[OF w2, simplified] wrote_bio[OF w2, simplified]
  have ls2: "bview s2 ?ls = ?D ?ls"
    unfolding s2(6) hw s1(5) using disk_wf_start[OF wf] by (rule apply_writes_other)
  let ?h0 = "put_int 0 0 (?D ?ls)"
  obtain u where u: "write_head (s2\<lparr>lh_n := 0\<rparr>) = Ok u" "bio_inv u" "held u = {}"
      "bview u = (bview s2)(?ls := ?h0)" "dirty_blocks u = {}" "wrote (s2\<lparr>lh_n := 0\<rparr>) [(?ls, ?h0)] u"
    by (rule write_head_Ok[of "s2\<lparr>lh_n := 0\<rparr>"])
      (use s2 f2 dev ls ls2 in \<open>auto simp: NBUF_def enc_head_0\<close>)
  note fu = wrote_log[OF u(6), simplified] wrote_bio[OF u(6), simplified]
  have rec: "recover_from_log s = Ok u" using s1 s2 u by (simp add: recover_from_log_def)
  have w: "wrote (s\<lparr>lh_block := lh_block s1, lh_n := 0\<rparr>) (recovery_writes ?ls ?D) u"
    using wrote_trans[OF wrote_lh_n[OF w2, of 0] u(6)] hw by (simp add: recovery_writes_def)
  have "disk u ?ls = ?h0" using w by (simp add: wrote_def recovery_writes_def)
  then have "log_inv u"
    using wf1 f1 f2 fu u by (auto simp: log_inv_def log_wf_def head_wf_def logged_def get_int_put_int)
  then show thesis using that rec u w f2 fu by simp
qed

lemma bio_log_upd' [simp]:
  "bio_inv (s\<lparr>log_start := a, log_size := b, log_dev := c\<rparr>) = bio_inv s"
  "held (s\<lparr>log_start := a, log_size := b, log_dev := c\<rparr>) = held s"
  "dirty_blocks (s\<lparr>log_start := a, log_size := b, log_dev := c\<rparr>) = dirty_blocks s"
  by (simp_all add: bio_inv_def buf_ok_def fun_eq_iff held_def dirty_blocks_def)

lemma readsb_Ok:
  assumes inv: "bio_inv s" and h: "held s = {}" and d: "card (dirty_blocks s) < NBUF" and N: "1 < disksize s"
  obtains u where "readsb ROOTDEV s = Ok (dec_superblock (bview s 1), u)" and "bio_inv u" and "held u = {}"
    and "dirty_blocks u = dirty_blocks s" and "bview u = bview s" and "wrote s [] u"
proof -
  note hb = held_blocks_empty[OF h]
  obtain i t where t: "bread ROOTDEV 1 s = Ok (i, t)" "bio_inv t" "bview t = bview s"
      "dirty_blocks t = dirty_blocks s" "held t = insert i (held s)"
      "b_data (bufs t i) = bview s 1" "wrote s [] t"
    by (rule bread_Ok[OF inv N]) (use d hb in auto)
  have i: "i \<in> held t" using t(5) by simp
  note u = rel_buf_inv[OF t(2) i]
  have "readsb ROOTDEV s = Ok (dec_superblock (bview s 1), rel_buf i t)"
    by (simp only: readsb_def t(1,6) rbind.simps prod.case Let_def brelse_eq[OF t(2) i])
  then show thesis
    using that u t h wrote_trans[OF t(7) rel_buf_wrote] by auto
qed

lemma initlog_Ok:
  assumes inv: "bio_inv s" and h: "held s = {}" and d: "dirty_blocks s = {}"
    and wf: "disk_wf (disksize s) ls sz (disk s)"
  obtains u where "initlog ROOTDEV s = Ok u" and "log_inv u" and "held u = {}" and "lh_n u = 0"
    and "log_start u = ls" and "log_size u = sz"
    and "disksize u = disksize s" and "wlog u = wlog s @ recovery_writes ls (disk s)"
    and "disk u = apply_writes (recovery_writes ls (disk s)) (disk s)"
proof -
  have v: "bview s = disk s" using bview_clean[OF inv] d by auto
  have N: "1 < disksize s" using wf by (simp add: disk_wf_def)
  obtain t where t: "readsb ROOTDEV s = Ok (dec_superblock (disk s 1), t)" "bio_inv t" "held t = {}"
      "dirty_blocks t = {}" "wrote s [] t"
    by (rule readsb_Ok[OF inv h _ N]) (use d v in \<open>auto simp: NBUF_def\<close>)
  let ?t = "t\<lparr>log_start := ls, log_size := sz, log_dev := ROOTDEV\<rparr>"
  have sb: "sb_logstart (dec_superblock (disk s 1)) = ls" "sb_nlog (dec_superblock (disk s 1)) = sz"
    using wf by (auto simp: disk_wf_def)
  have dt: "disk t = disk s" "wlog t = wlog s" "disksize t = disksize s"
    using t(5) wrote_bio[OF t(5)] by (simp_all add: wrote_def)
  obtain u where u: "recover_from_log ?t = Ok u" "log_inv u" "held u = {}" "lh_n u = 0"
      "wrote (?t\<lparr>lh_block := lh_block u, lh_n := 0\<rparr>) (recovery_writes ls (disk s)) u"
    by (rule recover_from_log_Ok[of ?t]) (use t wf dt in auto)
  have "initlog ROOTDEV s = Ok u"
    using t(1) u(1) sb by (simp add: initlog_def consts_defs)
  then show thesis
    using that[of u] u(2,3,4) dt wrote_log[OF u(5)] wrote_bio[OF u(5)] wrote_disk[OF u(5)] by simp
qed

end
