(* ===== verification/Log_Atomic.thy ===== *)
theory Log_Atomic
  imports Crash
begin

text \<open>
  Atomicity of a transaction: whatever write of \<open>commit\<close> the machine stops after, and however
  often it stops again while \<open>initlog\<close> recovers, the disk that a recovery which runs to its end
  leaves is either the disk before the commit or the disk after it, on every block outside the log.
\<close>

section \<open>Booting and crashing\<close>

text \<open>
  The memory of a freshly booted kernel, its buffer cache set up by \<open>binit\<close>, beside a disk of
  \<open>N\<close> blocks.
\<close>

definition boot :: "nat \<Rightarrow> int \<Rightarrow> (nat \<Rightarrow> block) \<Rightarrow> log_state" where
  "boot N pid D = binit \<lparr>bufs = (\<lambda>_. zero_buf), lru = [], disk = D, disksize = N, wlog = [],
     curpid = pid, log_start = 0, log_size = 0, log_outstanding = 0, log_committing = False,
     log_dev = 0, lh_n = 0, lh_block = (\<lambda>_. 0)\<rparr>"

text \<open>The disks that further crashes during recovery can leave, from the disk \<open>D\<close>.\<close>

inductive crash_recovery :: "nat \<Rightarrow> (nat \<Rightarrow> block) \<Rightarrow> (nat \<Rightarrow> block) \<Rightarrow> bool" for N D where
  stopped: "crash_recovery N D D"
| again: "crash_recovery N D E \<Longrightarrow> initlog ROOTDEV (boot N pid E) = Ok u \<Longrightarrow>
    crash_recovery N D (apply_writes (take k (wlog u)) E)"

lemma binit_lru: "foldl (\<lambda>l b. b # l) [] [0..<n] = rev [0..<n]"
  by (induction n) auto

lemma binit_inv:
  "bio_inv (binit s)" "held (binit s) = {}" "dirty_blocks (binit s) = {}"
  by (simp_all add: binit_def bio_inv_def buf_ok_def one_copy_def held_def dirty_blocks_def zero_buf_def
      initsleeplock_def binit_lru atLeast0LessThan)

lemma boot_simps [simp]: "disk (boot N pid D) = D" "disksize (boot N pid D) = N" "wlog (boot N pid D) = []"
  by (simp_all add: boot_def binit_def)

lemma boot_inv: "bio_inv (boot N pid D)" "held (boot N pid D) = {}" "dirty_blocks (boot N pid D) = {}"
  by (simp_all add: boot_def binit_inv)

lemma boot_initlog:
  assumes "disk_wf N ls sz D"
  shows "\<exists>u. initlog ROOTDEV (boot N pid D) = Ok u \<and> log_inv u \<and> held u = {} \<and> lh_n u = 0 \<and>
    wlog u = recovery_writes ls D \<and> disk u = apply_writes (recovery_writes ls D) D"
proof -
  have "disk_wf (disksize (boot N pid D)) ls sz (disk (boot N pid D))" using assms by simp
  then obtain u where "initlog ROOTDEV (boot N pid D) = Ok u" "log_inv u" "held u = {}" "lh_n u = 0"
      "wlog u = wlog (boot N pid D) @ recovery_writes ls (disk (boot N pid D))"
      "disk u = apply_writes (recovery_writes ls (disk (boot N pid D))) (disk (boot N pid D))"
    by (rule initlog_Ok[OF boot_inv])
  then show ?thesis by simp
qed

section \<open>A sample transaction\<close>

text \<open>The file system \<open>mkfs\<close> makes, and a transaction on it that has changed block 60.\<close>

definition mkfs_sb :: superblock where
  "mkfs_sb = \<lparr>sb_size = 1000, sb_nblocks = 941, sb_ninodes = 200, sb_nlog = 30, sb_logstart = 2,
     sb_inodestart = 32, sb_bmapstart = 58\<rparr>"

definition mkfs_disk :: "nat \<Rightarrow> block" where
  "mkfs_disk = (\<lambda>_. zero_block)(1 := enc_superblock mkfs_sb zero_block)"

definition sample_txn :: log_state where
  "sample_txn = (boot 1000 1 mkfs_disk)\<lparr>
     bufs := (\<lambda>_. zero_buf)(0 := zero_buf\<lparr>b_valid := True, b_dirty := True, b_dev := 1,
       b_blockno := 60, b_data := (\<lambda>_. 7)\<rparr>),
     log_start := 2, log_size := 30, log_outstanding := 1, log_dev := 1, lh_n := 1,
     lh_block := (\<lambda>_. 60)\<rparr>"

lemma mkfs_disk_sb: "dec_superblock (mkfs_disk 1) = mkfs_sb"
  by (simp add: mkfs_disk_def dec_enc_superblock mkfs_sb_def)

lemma sample_txn_inv: "log_inv sample_txn" "held sample_txn = {}" "disksize sample_txn = 1000"
  "disk sample_txn = mkfs_disk" "log_start sample_txn = 2" "log_size sample_txn = 30"
  "log_region sample_txn = {2..<32}"
proof -
  have "dirty_blocks sample_txn = {60}"
    by (auto simp: dirty_blocks_def sample_txn_def boot_def binit_def zero_buf_def NBUF_def)
  moreover have "bio_inv sample_txn"
    using binit_inv(1)
    by (auto simp: bio_inv_def buf_ok_def one_copy_def sample_txn_def boot_def binit_def zero_buf_def
        initsleeplock_def binit_lru ROOTDEV_def)
  ultimately show "log_inv sample_txn"
    by (auto simp: log_inv_def log_wf_def head_wf_def logged_def log_region_def sample_txn_def boot_def
        binit_def consts_defs mkfs_disk_def inj_on_def)
  show "held sample_txn = {}"
    by (auto simp: held_def sample_txn_def boot_def binit_def zero_buf_def initsleeplock_def)
qed (auto simp: sample_txn_def boot_def binit_def log_region_def)

section \<open>A crash during recovery\<close>

lemma disk_wf_cong:
  assumes "disk_wf N ls sz D" and "E 1 = D 1" and "E ls = D ls"
  shows "disk_wf N ls sz E"
proof -
  have "head_n ls E = head_n ls D" "head_block ls E = head_block ls D"
    using assms(3) by (simp_all add: head_n_def head_block_def [abs_def])
  then show ?thesis using assms by (simp add: disk_wf_def)
qed

lemma disk_wf_cleared:
  assumes "disk_wf N ls sz D" and "E 1 = D 1" and "head_n ls E = 0" and "0 \<le> get_int (E ls) 0"
  shows "disk_wf N ls sz E"
  using assms by (simp add: disk_wf_def)

lemma recovery_prefix_wf:
  fixes k :: nat
  assumes wf: "disk_wf N ls sz D"
  defines "E \<equiv> apply_writes (take k (recovery_writes ls D)) D"
  shows "disk_wf N ls sz E" and "\<forall>b. b \<notin> {ls..<ls + sz} \<longrightarrow> log_replay ls E b = log_replay ls D b"
proof -
  let ?R = "replay_writes ls D" and ?n = "length (replay_writes ls D)"
  have "\<forall>i<head_n ls D. head_block ls D i \<notin> {ls..<ls + sz} \<and> head_block ls D i \<noteq> 1"
    using wf by (simp add: disk_wf_def)
  then have R: "fst ` set ?R \<inter> {ls..<ls + sz} = {}" "1 \<notin> fst ` set ?R"
    unfolding fst_replay_writes by auto
  have ls1: "ls \<noteq> 1" "0 < sz" using wf by (auto simp: disk_wf_def)
  have "disk_wf N ls sz E \<and> (\<forall>b. b \<notin> {ls..<ls + sz} \<longrightarrow> log_replay ls E b = log_replay ls D b)"
  proof (cases "k \<le> ?n")
    case True
    then have E: "E = apply_writes (take k ?R) D" by (simp add: E_def recovery_writes_def)
    have sub: "fst ` set (take k ?R) \<subseteq> fst ` set ?R" by (rule take_fst_subset)
    have same: "E b = D b" if "b \<in> {ls..<ls + sz} \<or> b = 1" for b
    proof -
      have "b \<notin> fst ` set ?R" using R that by (metis disjoint_iff)
      then show ?thesis unfolding E using subsetD[OF sub] by (intro apply_writes_other) metis
    qed
    have "replay_writes ls E = ?R"
      by (rule replay_writes_cong) (use same ls1 wf in \<open>auto simp: disk_wf_def\<close>)
    then have "log_replay ls E = log_replay ls D"
      unfolding log_replay_def E by (simp add: apply_writes_again[OF sub])
    then show ?thesis using disk_wf_cong[OF wf] same ls1 by auto
  next
    case False
    then have E: "E = (apply_writes ?R D)(ls := put_int 0 0 (D ls))"
      by (simp add: E_def recovery_writes_def)
    have z: "head_n ls E = 0" unfolding E by (rule head_n_cleared)
    have "E 1 = D 1" using ls1 R(2) by (simp add: E apply_writes_other)
    moreover have "0 \<le> get_int (E ls) 0" by (simp add: E get_int_put_int)
    ultimately have "disk_wf N ls sz E" using disk_wf_cleared[OF wf] z by blast
    moreover have "log_replay ls E = E" by (rule log_replay_empty[OF z])
    ultimately show ?thesis using ls1 by (auto simp: E log_replay_def)
  qed
  then show "disk_wf N ls sz E" and "\<forall>b. b \<notin> {ls..<ls + sz} \<longrightarrow> log_replay ls E b = log_replay ls D b"
    by blast+
qed

lemma crash_recovery_wf:
  assumes "crash_recovery N D E" and "disk_wf N ls sz D"
  shows "disk_wf N ls sz E \<and> (\<forall>b. b \<notin> {ls..<ls + sz} \<longrightarrow> log_replay ls E b = log_replay ls D b)"
  using assms(1)
proof induction
  case stopped
  then show ?case using assms(2) by simp
next
  case (again E pid u k)
  then have wf: "disk_wf N ls sz E" by simp
  have "wlog u = recovery_writes ls E"
    using boot_initlog[OF wf, of pid] again.hyps(2) by force
  then show ?case using recovery_prefix_wf[OF wf, of k] again.IH by simp
qed

section \<open>A crash during commit\<close>

text \<open>The prefix \<open>k\<close> of the writes of a commit: before the header write, and from it on.\<close>

lemma apply_home:
  "apply_writes (map (\<lambda>i. (f i, g (f i))) xs) D b = (if b \<in> f ` set xs then g b else D b)"
  by (induction xs arbitrary: D) auto

lemma take_upt_min: "take k [0..<n] = [0..<min k n]"
  by (cases "k \<le> n") (simp_all add: min_def)

lemma take_commit_home: "take k (commit_home s n) = commit_home s (min k n)"
  by (simp add: commit_home_def take_map take_upt_min)

lemma take_log_writes: "take k (log_writes s n) = log_writes s (min k n)"
  by (simp add: log_writes_def take_map take_upt_min)

lemma length_log_writes: "length (log_writes s n) = n"
  by (simp add: log_writes_def)

lemma length_commit_home: "length (commit_home s n) = n"
  by (simp add: commit_home_def)

lemma log_writes_region:
  "head_wf s \<Longrightarrow> k \<le> nat (lh_n s) \<Longrightarrow> b \<notin> log_region s \<Longrightarrow> apply_writes (log_writes s k) D b = D b"
  by (rule apply_writes_other) (auto simp: fst_log_writes log_region_def head_wf_def)

lemma log_writes_start: "apply_writes (log_writes s k) D (log_start s) = D (log_start s)"
  by (rule apply_writes_other) (auto simp: fst_log_writes)

lemma commit_head_n: "log_wf s \<Longrightarrow> head_wf s \<Longrightarrow> get_int (commit_head s) 0 = lh_n s"
  by (simp add: commit_head_def enc_head_n log_wf_def head_wf_def)

text \<open>The disk once the header is written, with \<open>j\<close> home blocks installed.\<close>

definition committed :: "'a log_state_scheme \<Rightarrow> nat \<Rightarrow> (nat \<Rightarrow> block)" where
  "committed s j = apply_writes (commit_home s j)
     ((apply_writes (log_writes s (nat (lh_n s))) (disk s))(log_start s := commit_head s))"

lemma committed_head:
  assumes li: "log_inv s" and pos: "0 < lh_n s" and j: "j \<le> nat (lh_n s)"
  defines "D \<equiv> committed s j"
  shows "D (log_start s) = commit_head s" and "head_n (log_start s) D = nat (lh_n s)"
    and "\<forall>i<nat (lh_n s). head_block (log_start s) D i = lh_block s i"
    and "\<forall>i<nat (lh_n s). D (log_start s + i + 1) = bview s (lh_block s i)"
proof -
  have wf: "log_wf s" "head_wf s" using li by (auto simp: log_inv_def)
  have "fst ` set (commit_home s j) \<subseteq> logged s"
    using j by (auto simp: fst_commit_home logged_def)
  then have out: "D b = ((apply_writes (log_writes s (nat (lh_n s))) (disk s))(log_start s := commit_head s)) b"
    if "b \<in> log_region s" for b
    unfolding D_def committed_def
    by (intro apply_writes_other) (use wf(2) that in \<open>auto simp: head_wf_def\<close>)
  show ls: "D (log_start s) = commit_head s"
    using out[of "log_start s"] wf(1) by (simp add: log_region_def log_wf_def)
  show "head_n (log_start s) D = nat (lh_n s)"
    using wf by (simp add: head_n_def ls commit_head_n)
  show "\<forall>i<nat (lh_n s). head_block (log_start s) D i = lh_block s i"
    using home_block(1)[OF wf(2)] wf(1)
    by (force simp: head_block_def ls commit_head_def enc_head_block log_wf_def)
  show "\<forall>i<nat (lh_n s). D (log_start s + i + 1) = bview s (lh_block s i)"
    using out log_block_lt(2)[OF wf] log_writes_at[of _ "nat (lh_n s)" s "disk s"] by simp
qed

lemma committed_home:
  assumes li: "log_inv s" and j: "j \<le> nat (lh_n s)" and b: "b \<notin> log_region s"
  shows "committed s j b = (if b \<in> lh_block s ` {..<j} then bview s b else disk s b)"
proof -
  have "b \<noteq> log_start s" using li b by (auto simp: log_inv_def log_wf_def log_region_def)
  then show ?thesis
    using log_writes_region[of s "nat (lh_n s)" b "disk s"] li b
    by (simp add: committed_def commit_home_def apply_home log_inv_def atLeast0LessThan)
qed

lemma bview_unlogged: "log_inv s \<Longrightarrow> b \<notin> logged s \<Longrightarrow> bview s b = disk s b"
  by (rule bview_clean) (auto simp: log_inv_def)

lemma committed_replay:
  assumes li: "log_inv s" and pos: "0 < lh_n s" and j: "j \<le> nat (lh_n s)" and b: "b \<notin> log_region s"
  shows "log_replay (log_start s) (committed s j) b = bview s b"
proof -
  note h = committed_head[OF li pos j]
  have "replay_writes (log_start s) (committed s j) = commit_home s (nat (lh_n s))"
    using h by (simp add: replay_writes_def commit_home_def)
  then have "log_replay (log_start s) (committed s j) b =
      (if b \<in> logged s then bview s b else committed s j b)"
    by (simp add: log_replay_def commit_home_def apply_home logged_def atLeast0LessThan)
  then show ?thesis
    using committed_home[OF li j b] bview_unlogged[OF li] by auto
qed

text \<open>Every prefix of the writes of a commit stands for the old disk or for the new one.\<close>

lemma commit_prefix_cases:
  assumes "log_inv s"
  shows "lh_n s = 0 \<or> 0 < lh_n s \<and> k \<le> nat (lh_n s) \<or>
    (\<exists>j. 0 < lh_n s \<and> j \<le> nat (lh_n s) \<and>
       apply_writes (take k (commit_writes s)) (disk s) = committed s j) \<or>
    0 < lh_n s \<and> apply_writes (take k (commit_writes s)) (disk s) =
      (committed s (nat (lh_n s)))(log_start s := put_int 0 0 (commit_head s))"
proof -
  let ?n = "nat (lh_n s)"
  note len = length_log_writes[of s ?n] length_commit_home[of s ?n]
  have v: "bview s (log_start s) = disk s (log_start s)"
    using assms head_wf_start by (intro bview_unlogged) (auto simp: log_inv_def)
  have w: "commit_writes s = log_writes s ?n @ (log_start s, commit_head s) #
      commit_home s ?n @ [(log_start s, put_int 0 0 (commit_head s))]" if "0 < lh_n s"
    using that by (simp add: commit_writes_def enc_head_0)
  consider "lh_n s = 0" | "0 < lh_n s" "k \<le> ?n" | j where "0 < lh_n s" "k = Suc (?n + j)" "j \<le> ?n"
    | j where "0 < lh_n s" "k = Suc (Suc (?n + ?n + j))"
  proof -
    have "lh_n s = 0 \<or> 0 < lh_n s" using assms by (auto simp: log_inv_def head_wf_def)
    moreover have "k \<le> ?n \<or> (\<exists>j\<le>?n. k = Suc (?n + j)) \<or> (\<exists>j. k = Suc (Suc (?n + ?n + j)))"
      by (cases "k \<le> ?n"; cases "k \<le> Suc (?n + ?n)")
        (auto intro: exI[of _ "k - Suc ?n"] exI[of _ "k - Suc (Suc (?n + ?n))"])
    ultimately show thesis using that by metis
  qed
  then show ?thesis
  proof cases
    case (3 j)
    then have "apply_writes (take k (commit_writes s)) (disk s) = committed s j"
      using len by (simp add: w committed_def take_commit_home min_absorb1)
    then show ?thesis using 3 by blast
  next
    case (4 j)
    then show ?thesis using len by (simp add: w committed_def)
  qed auto
qed

lemma commit_prefix:
  fixes k :: nat
  assumes li: "log_inv s" and sb: "dec_superblock (disk s 1) = sb" "sb_logstart sb = log_start s"
      "sb_nlog sb = log_size s"
  defines "D \<equiv> apply_writes (take k (commit_writes s)) (disk s)"
  shows "disk_wf (disksize s) (log_start s) (log_size s) D \<and>
    ((\<forall>b. b \<notin> log_region s \<longrightarrow> log_replay (log_start s) D b = disk s b) \<or>
     (\<forall>b. b \<notin> log_region s \<longrightarrow> log_replay (log_start s) D b = bview s b))"
proof -
  let ?n = "nat (lh_n s)" and ?ls = "log_start s"
  have wf: "log_wf s" "head_wf s" using li by (auto simp: log_inv_def)
  have one: "1 \<notin> log_region s" "1 \<notin> logged s"
    using wf by (auto simp: log_wf_def log_region_def head_wf_def)
  have lsr: "?ls \<in> log_region s" using wf(1) by (simp add: log_region_def log_wf_def)
  have empty: ?thesis if "D 1 = disk s 1" "get_int (D ?ls) 0 = 0"
    "(\<forall>b. b \<notin> log_region s \<longrightarrow> D b = disk s b) \<or> (\<forall>b. b \<notin> log_region s \<longrightarrow> D b = bview s b)"
  proof -
    have "disk_wf (disksize s) ?ls (log_size s) D"
      using that(1,2) wf(1) sb by (simp add: disk_wf_def head_n_def log_wf_def)
    moreover have "log_replay ?ls D = D"
      using that(2) by (intro log_replay_empty) (simp add: head_n_def)
    ultimately show ?thesis using that(3) by simp
  qed
  consider (none) "lh_n s = 0" | (before) "0 < lh_n s" "k \<le> ?n"
    | (mid) j where "0 < lh_n s" "j \<le> ?n" "D = committed s j"
    | (after) "0 < lh_n s" "D = (committed s ?n)(?ls := put_int 0 0 (commit_head s))"
    using commit_prefix_cases[OF li, of k] unfolding D_def by blast
  then show ?thesis
  proof cases
    case none
    then show ?thesis using li by (intro empty) (auto simp: D_def commit_writes_def log_inv_def)
  next
    case before
    then have D: "D = apply_writes (log_writes s k) (disk s)"
      using length_log_writes[of s ?n]
      by (simp add: D_def commit_writes_def take_log_writes min_absorb1)
    then show ?thesis
      using li before one log_writes_region[OF wf(2) before(2)]
      by (intro empty) (simp_all add: log_writes_start log_inv_def)
  next
    case mid
    note h = committed_head[OF li mid(1,2), folded mid(3)]
    have "D 1 = disk s 1"
      using committed_home[OF li mid(2) one(1)] one(2) mid(2,3) by (auto simp: logged_def)
    moreover have "inj_on (head_block ?ls D) {..<?n} = inj_on (lh_block s) {..<?n}"
      using h(3) by (intro inj_on_cong) simp
    ultimately have "disk_wf (disksize s) ?ls (log_size s) D"
      using wf sb h home_block[OF wf(2)] one commit_head_n[OF wf]
      by (auto simp: disk_wf_def log_wf_def head_wf_def log_region_def logged_def head_n_def)
    then show ?thesis using committed_replay[OF li mid(1,2)] mid(3) by simp
  next
    case after
    have "D b = bview s b" if "b \<notin> log_region s" for b
      using committed_home[OF li le_refl that] bview_unlogged[OF li, of b] lsr that
      by (auto simp: after(2) logged_def)
    moreover from this have "D 1 = disk s 1" using one bview_unlogged[OF li] by simp
    ultimately show ?thesis by (intro empty) (simp_all add: after(2) get_int_put_int)
  qed
qed

section \<open>Atomicity\<close>

text \<open>
  C1. A transaction is atomic under crashes.  Let \<open>commit\<close> run to its end from a state that
  satisfies the log invariant, and let the machine stop after any number \<open>k\<close> of the disk writes
  it makes, then stop any number of times during recovery.  The next boot's \<open>initlog\<close> returns,
  and outside the log every block has its old contents or every block has its new contents.
\<close>

theorem commit_atomic:
  assumes li: "log_inv s" and h: "held s = {}"
    and sb: "sb_logstart (dec_superblock (disk s 1)) = log_start s"
      "sb_nlog (dec_superblock (disk s 1)) = log_size s"
    and c: "commit s = Ok t" "wlog t = wlog s @ ws"
    and crash: "crash_recovery (disksize s) (apply_writes (take k ws) (disk s)) E"
  shows "\<exists>u. initlog ROOTDEV (boot (disksize s) pid E) = Ok u \<and> log_inv u \<and> lh_n u = 0 \<and>
    ((\<forall>b. b \<notin> log_region s \<longrightarrow> disk u b = disk s b) \<or>
     (\<forall>b. b \<notin> log_region s \<longrightarrow> disk u b = bview s b))"
proof -
  let ?D = "apply_writes (take k ws) (disk s)" and ?ls = "log_start s"
  obtain t' where t': "commit s = Ok t'" "wrote (s\<lparr>lh_n := 0\<rparr>) (commit_writes s) t'"
    by (rule commit_Ok[OF li h])
  then have ws: "ws = commit_writes s" using c wrote_disk(1)[OF t'(2)] by simp
  note p = commit_prefix[OF li refl sb, of k, folded ws]
  have E: "disk_wf (disksize s) ?ls (log_size s) E"
    "\<forall>b. b \<notin> {?ls..<?ls + log_size s} \<longrightarrow> log_replay ?ls E b = log_replay ?ls ?D b"
    using crash_recovery_wf[OF crash] p by blast+
  obtain u where u: "initlog ROOTDEV (boot (disksize s) pid E) = Ok u" "log_inv u" "lh_n u = 0"
    "disk u = apply_writes (recovery_writes ?ls E) E"
    using boot_initlog[OF E(1)] by blast
  have "disk u b = log_replay ?ls ?D b" if "b \<notin> log_region s" for b
    using E(2) that li
    by (auto simp: u(4) recovery_writes_def log_replay_def log_region_def log_inv_def log_wf_def)
  then show ?thesis using u p by auto
qed

theorem commit_atomic_witness:
  "\<exists>t ws u. commit sample_txn = Ok t \<and> wlog t = wlog sample_txn @ ws \<and>
     initlog ROOTDEV (boot 1000 1 (apply_writes (take 2 ws) mkfs_disk)) = Ok u \<and> lh_n u = 0 \<and>
     ((\<forall>b. b \<notin> {2..<32} \<longrightarrow> disk u b = mkfs_disk b) \<or>
      (\<forall>b. b \<notin> {2..<32} \<longrightarrow> disk u b = bview sample_txn b))"
proof -
  obtain t where t: "commit sample_txn = Ok t"
      "wrote (sample_txn\<lparr>lh_n := 0\<rparr>) (commit_writes sample_txn) t"
    by (rule commit_Ok[OF sample_txn_inv(1,2)])
  let ?ws = "commit_writes sample_txn"
  have w: "wlog t = wlog sample_txn @ ?ws" using wrote_disk(1)[OF t(2)] by simp
  have sb: "sb_logstart (dec_superblock (disk sample_txn 1)) = log_start sample_txn"
    "sb_nlog (dec_superblock (disk sample_txn 1)) = log_size sample_txn"
    by (simp_all add: sample_txn_inv mkfs_disk_sb[simplified] mkfs_sb_def)
  show ?thesis
    using commit_atomic[OF sample_txn_inv(1,2) sb t(1) w stopped[of _ "apply_writes (take 2 ?ws) (disk sample_txn)"], of 1]
      t(1) w unfolding sample_txn_inv(3,4,7) by blast
qed

end
