(* ===== verification/Fs_Props.thy ===== *)
theory Fs_Props
  imports Fs_Dir Log_Atomic
begin

text \<open>
  The correctness properties of the file system, with a sample state of the size \<open>mkfs\<close> makes
  on which their hypotheses hold.
\<close>

section \<open>A sample state\<close>

text \<open>Blocks 0 to 58 are in use; cache entry 0 is an empty file and entry 1 an empty directory.\<close>

definition sample_disk :: "nat \<Rightarrow> block" where
  "sample_disk = mkfs_disk(58 := foldl (\<lambda>d b. bset b d) zero_block [0..<59])"

definition sample_inode :: "nat \<Rightarrow> short \<Rightarrow> inode" where
  "sample_inode inum type = zero_inode\<lparr>i_dev := 1, i_inum := inum, i_ref := 1, i_valid := True, i_type := type,
     i_nlink := 1\<rparr>"

definition sample_fs :: fs_state where
  "sample_fs = binit \<lparr>bufs = (\<lambda>_. zero_buf), lru = [], disk = sample_disk, disksize = 1000, wlog = [],
     curpid = 1, log_start = 2, log_size = 30, log_outstanding = 1, log_committing = False, log_dev = 1,
     lh_n = 0, lh_block = (\<lambda>_. 0), sb = mkfs_sb,
     inodes = (\<lambda>_. zero_inode)(0 := sample_inode 5 T_FILE, 1 := sample_inode 6 T_DIR)\<rparr>"

definition no_dev :: "nat \<Rightarrow> 's devsw" where
  "no_dev = (\<lambda>_. \<lparr>dev_read = None, dev_write = None\<rparr>)"

lemma btst_foldl: "btst (foldl (\<lambda>d b. bset b d) d [0..<n]) k \<longleftrightarrow> k < n \<or> btst d k"
  by (induction n) auto

lemma sample_fields [simp]:
  "disk sample_fs = sample_disk" "disksize sample_fs = 1000" "log_start sample_fs = 2" "log_size sample_fs = 30"
  "log_outstanding sample_fs = 1" "log_dev sample_fs = 1" "lh_n sample_fs = 0" "sb sample_fs = mkfs_sb"
  "inodes sample_fs = (\<lambda>_. zero_inode)(0 := sample_inode 5 T_FILE, 1 := sample_inode 6 T_DIR)"
  "curpid sample_fs = 1"
  by (simp_all add: sample_fs_def binit_def)

lemma sample_bio: "bio_inv sample_fs" "held sample_fs = {}" "dirty_blocks sample_fs = {}"
  unfolding sample_fs_def by (rule binit_inv)+

lemma sample_view: "bview sample_fs = sample_disk"
  using bview_clean[OF sample_bio(1)] sample_bio(3) by auto

lemma sample_1: "sample_disk 1 = mkfs_disk 1" "sample_disk (Suc 0) = mkfs_disk (Suc 0)"
  by (simp_all add: sample_disk_def)

lemma sample_room: "room sample_fs 28 2"
  using sample_bio by (auto simp: room_def log_inv_def log_wf_def head_wf_def logged_def consts_defs
      sample_disk_def mkfs_disk_def)

lemma sample_used: "b < 1000 \<Longrightarrow> used mkfs_sb sample_disk b \<longleftrightarrow> b < 59"
  by (simp add: used_def BBLOCK_def mkfs_sb_def BPB_def BSIZE_def sample_disk_def btst_foldl)
    (simp add: btst_def zero_block_def)

lemma sample_lay: "fs_lay sample_fs"
proof -
  have d: "datastart mkfs_sb = 59" by (simp add: datastart_def mkfs_sb_def BPB_def BSIZE_def)
  have "lay mkfs_sb" unfolding lay_def d by (simp add: mkfs_sb_def IPB_def BSIZE_def DINODE_SIZE_def)
  moreover have "meta_used mkfs_sb sample_disk"
    unfolding meta_used_def d using sample_used mkfs_disk_sb by (simp add: sample_1)
  ultimately show ?thesis by (simp add: fs_lay_def sample_view) (simp add: mkfs_sb_def)
qed

lemma sample_inode_simps [simp]:
  "iaddr V (sample_inode i ty) bn = 0" "iblocks V (sample_inode i ty) = {}" "i_dev (sample_inode i ty) = 1"
  "i_inum (sample_inode i ty) = i" "i_type (sample_inode i ty) = ty" "i_size (sample_inode i ty) = 0"
  "i_ref (sample_inode i ty) = 1"
  by (auto simp: iaddr_def iblocks_def sample_inode_def zero_inode_def)

lemma sample_ino_ok: "ino_ok sample_fs 0" "ino_ok sample_fs 1"
  using sample_lay sample_bio(2) by (simp_all add: ino_ok_def ino_wf_def ROOTDEV_def)

lemma sample_free: "2 \<le> nfree mkfs_sb sample_disk"
proof -
  have "{60, 61} \<subseteq> {b. b < 1000 \<and> \<not> used mkfs_sb sample_disk b}" using sample_used by auto
  then have "card {60 :: nat, 61} \<le> card {b. b < 1000 \<and> \<not> used mkfs_sb sample_disk b}" by (intro card_mono) auto
  then show ?thesis by (simp add: nfree_def mkfs_sb_def)
qed

lemma sample_dir: "dir_ok sample_fs 1" "no_holes sample_fs 0"
  using sample_ino_ok by (auto simp: dir_ok_def no_holes_def)

section \<open>Blocks\<close>

text \<open>
  C12. \<open>balloc\<close> returns the least free block of the file system, marks it in use, zeroes it and
  leaves every other mark and every block outside the bitmap as it was.
\<close>

theorem balloc_correct:
  assumes "room s (Suc (Suc k)) (Suc h)" and "fs_lay s" and "held_data s" and "0 < nfree (sb s) (bview s)"
  shows "\<exists>b t. balloc ROOTDEV s = Ok (b, t) \<and> b < sb_size (sb s) \<and> datastart (sb s) \<le> b \<and>
    \<not> used (sb s) (bview s) b \<and> (\<forall>c<b. used (sb s) (bview s) c) \<and> bview t b = zero_block \<and>
    (\<forall>c < sb_size (sb s). used (sb s) (bview t) c \<longleftrightarrow> c = b \<or> used (sb s) (bview s) c) \<and>
    (\<forall>x. x \<noteq> b \<longrightarrow> x < sb_bmapstart (sb s) \<or> datastart (sb s) \<le> x \<longrightarrow> bview t x = bview s x)"
proof -
  have lm: "lay (sb s)" "meta_used (sb s) (bview s)" using assms(2) by (auto simp: fs_lay_def)
  obtain b t where b: "balloc ROOTDEV s = Ok (b, t)" "b < sb_size (sb s)" "\<not> used (sb s) (bview s) b"
      "tx s 2 (alloc_view (sb s) b (bview s)) t" "\<forall>c<b. used (sb s) (bview s) c"
    using balloc_ext[OF assms] by blast
  note a = alloc_view[OF lm b(2,3)] and v = tx_view[OF b(4)]
  have "bview t x = bview s x" if "x \<noteq> b" "x < sb_bmapstart (sb s) \<or> datastart (sb s) \<le> x" for x
    using that BBLOCK_lt[OF b(2)] BBLOCK_ge[of "sb s" b] v by (auto simp: alloc_view_def mark_used_def)
  then show ?thesis using b a v by auto
qed

theorem balloc_correct_witness:
  "\<exists>b t. balloc ROOTDEV sample_fs = Ok (b, t) \<and> 59 \<le> b \<and> b < 1000 \<and> bview t b = zero_block"
proof -
  have "room sample_fs (Suc (Suc 0)) (Suc 0)" by (rule room_mono[OF sample_room]) auto
  moreover have "0 < nfree (sb sample_fs) (bview sample_fs)" using sample_free by (simp add: sample_view)
  moreover have "datastart mkfs_sb = 59" "sb_size mkfs_sb = 1000"
    by (simp_all add: datastart_def mkfs_sb_def BPB_def BSIZE_def)
  ultimately show ?thesis
    using balloc_correct[of sample_fs 0 0] sample_lay held_data_empty[OF sample_bio(2)] by auto
qed

text \<open>
  C25. \<open>bfree\<close> clears the mark of a block in use and nothing else, and panics on a block that is
  free already.
\<close>

theorem bfree_correct:
  assumes "room s (Suc k) (Suc h)" and "fs_lay s" and "held_data s" and "b < sb_size (sb s)"
  shows "if used (sb s) (bview s) b
    then \<exists>t. bfree ROOTDEV b s = Ok t \<and> (\<forall>c. used (sb s) (bview t) c \<longleftrightarrow> c \<noteq> b \<and> used (sb s) (bview s) c) \<and>
      (\<forall>x. x \<noteq> BBLOCK b (sb s) \<longrightarrow> bview t x = bview s x)
    else bfree ROOTDEV b s = Panic ''freeing free block''"
proof (cases "used (sb s) (bview s) b")
  case True
  then obtain t where t: "bfree ROOTDEV b s = Ok t" "tx s 1 (mark_free (sb s) b (bview s)) t"
    using bfree_access[OF assms] by auto
  then show ?thesis using True tx_view[OF t(2)] by (auto simp: mark_free_def[of "sb s" b "bview s"])
      (simp_all add: mark_free_def[symmetric])
next
  case False
  then show ?thesis using bfree_access[OF assms] by auto
qed

theorem bfree_correct_witness:
  "bfree ROOTDEV 60 sample_fs = Panic ''freeing free block'' \<and> (\<exists>t. bfree ROOTDEV 7 sample_fs = Ok t)"
proof -
  have rm: "room sample_fs (Suc 0) (Suc 0)" by (rule room_mono[OF sample_room]) auto
  note bc = bfree_correct[OF rm sample_lay held_data_empty[OF sample_bio(2)]]
  have "sb_size mkfs_sb = 1000" by (simp add: mkfs_sb_def)
  then show ?thesis using bc[of 60] bc[of 7] sample_used[of 60] sample_used[of 7] by (auto simp: sample_view)
qed

section \<open>Inodes\<close>

text \<open>
  C26. \<open>iget\<close> keeps one cache entry per inode: it returns an entry for the inode asked for, adds
  exactly one reference to that inode and none to another, and touches no other entry.
\<close>

theorem iget_correct:
  assumes "icache_inv s" and "iget dev inum s = Ok (ip, t)"
  shows "icache_inv t \<and> ip < NINODE \<and> i_dev (inodes t ip) = dev \<and> i_inum (inodes t ip) = inum \<and>
    refs_of t d n = refs_of s d n + (if d = dev \<and> n = inum then 1 else 0) \<and>
    (\<forall>j. j \<noteq> ip \<longrightarrow> inodes t j = inodes s j)"
  using assms by (rule iget_refs)

theorem iget_correct_witness:
  "\<exists>ip t. iget 1 9 sample_fs = Ok (ip, t) \<and> ip = 2 \<and> i_inum (inodes t ip) = 9 \<and> icache_inv t"
proof -
  have inv: "icache_inv sample_fs"
    by (auto simp: icache_inv_def zero_inode_def NINODE_def sample_inode_def)
  have "iget 1 9 sample_fs =
      Ok (2, upd_inode 2 (\<lambda>n. n\<lparr>i_dev := 1, i_inum := 9, i_ref := 1, i_valid := False\<rparr>) sample_fs)"
    by (simp add: iget_def NINODE_def upt_rec zero_inode_def numeral_2_eq_2)
  then show ?thesis using iget_correct[OF inv, of 1 9 2] by blast
qed

text \<open>
  C27. \<open>iupdate\<close> followed by a load of the inode from disk, as \<open>ilock\<close> makes it, gives back every
  field the disk inode has; every other inode on disk reads as before.
\<close>

theorem iupdate_roundtrip:
  assumes "room s (Suc k) (Suc h)" and "ino_ok s ip" and "i_inum (inodes s ip) < sb_ninodes (sb s)"
    and "i_size (inodes s ip) \<le> MAXFILE * BSIZE"
  shows "\<exists>t. iupdate ip s = Ok t \<and> inodes t = inodes s \<and>
    din_eq (ondisk (sb s) (bview t) (i_inum (inodes s ip)) m) (inodes s ip) \<and>
    (\<forall>j m. j \<noteq> i_inum (inodes s ip) \<longrightarrow> ondisk (sb s) (bview t) j m = ondisk (sb s) (bview s) j m)"
proof -
  have "ino_wf (sb s) (bview s) (inodes s ip)" "fs_lay s" using assms(2) by (auto simp: ino_ok_def)
  then have wf: "din_wf (inodes s ip)"
    using disk_32[OF room_inv[OF assms(1)]] assms(4) by (intro din_wf_ino) (auto simp: fs_lay_def)
  obtain t where t: "iupdate ip s = Ok t" "tx s 1 ((bview s)(IBLOCK (i_inum (inodes s ip)) (sb s) :=
      store_dinode (inodes s ip) (dinode_off (i_inum (inodes s ip))) (bview s (IBLOCK (i_inum (inodes s ip)) (sb s))))) t"
    using iupdate_Ok[OF assms(1) _ _ _ assms(3)] assms(2) by (auto simp: ino_ok_def held_data_empty)
  show ?thesis
    using t(1) tx_ftx(2)[OF t(2)] ondisk_update[OF wf tx_view[OF t(2)]] by blast
qed

theorem iupdate_roundtrip_witness:
  "\<exists>t. iupdate 0 sample_fs = Ok t \<and> i_type (ondisk mkfs_sb (bview t) 5 zero_inode) = T_FILE"
proof -
  have "room sample_fs (Suc 0) (Suc 0)" by (rule room_mono[OF sample_room]) auto
  moreover have "sb_ninodes mkfs_sb = 200" by (simp add: mkfs_sb_def)
  ultimately show ?thesis
    using iupdate_roundtrip[of sample_fs 0 0 0 zero_inode] sample_ino_ok(1) by (auto simp: din_eq_def)
qed

section \<open>File contents\<close>

text \<open>
  C13. A file behaves as an array of bytes under \<open>readi\<close>: a read at an offset inside the file
  returns the bytes from there on, cut off at the end of the file, and changes no block.
\<close>

theorem readi_correct:
  assumes "room s k (Suc h)" and "ino_ok s ip" and "no_holes s ip" and "i_type (inodes s ip) \<noteq> T_DEV"
    and "off \<le> i_size (inodes s ip)" and "off + n < 4294967296"
  shows "\<exists>t. readi devsw ip off n s =
      Ok ((int (min n (i_size (inodes s ip) - off)), take n (drop off (contents s ip))), t) \<and>
    bview t = bview s \<and> inodes t = inodes s"
proof -
  obtain t where t: "readi devsw ip off n s =
      Ok ((int (min n (i_size (inodes s ip) - off)), take n (drop off (contents s ip))), t)" "tx s 0 (bview s) t"
    using readi_contents[OF assms, of devsw] by blast
  then show ?thesis using tx_view[OF t(2)] tx_ftx(2)[OF t(2)] by blast
qed

theorem readi_correct_witness: "\<exists>t. readi no_dev 0 0 10 sample_fs = Ok ((0, []), t)"
proof -
  have "room sample_fs 0 (Suc 0)" by (rule room_mono[OF sample_room]) auto
  moreover have "T_FILE \<noteq> T_DEV" by (simp add: T_FILE_def T_DEV_def)
  ultimately show ?thesis
    using readi_correct[of sample_fs 0 0 0 0 10 no_dev] sample_ino_ok(1) sample_dir(2)
    by (auto simp: contents_def)
qed

text \<open>
  C2. \<open>writei\<close> of \<open>src\<close> at an offset inside the file or at its end returns the number of bytes,
  replaces that part of the contents by \<open>src\<close> (growing the file if it reaches beyond the end), and
  changes no block that belongs to another file and no other cached inode.
\<close>

theorem writei_correct:
  assumes "room s (6 * nchunks off (length src) + 1) (Suc (Suc h))" and "ino_ok s ip" and "no_holes s ip"
    and "i_type (inodes s ip) \<noteq> T_DEV" and "i_inum (inodes s ip) < sb_ninodes (sb s)"
    and "off \<le> i_size (inodes s ip)" and "off + length src \<le> MAXFILE * BSIZE"
    and "2 * nchunks off (length src) \<le> nfree (sb s) (bview s)"
  shows "\<exists>t. writei devsw ip src off s = Ok (int (length src), t) \<and> ino_ok t ip \<and> no_holes t ip \<and>
    contents t ip = take off (contents s ip) @ src @ drop (off + length src) (contents s ip) \<and>
    inodes t = (inodes s)(ip := (inodes s ip)\<lparr>i_size := max (i_size (inodes s ip)) (off + length src),
      i_addrs := i_addrs (inodes t ip)\<rparr>) \<and> sb t = sb s \<and>
    (\<forall>b. data_blk (sb s) (bview s) b \<longrightarrow> b \<notin> iblocks (bview s) (inodes s ip) \<longrightarrow> bview t b = bview s b)"
  using assms by (rule writei_contents)

theorem writei_correct_witness:
  "\<exists>t. writei no_dev 0 [104, 105] 0 sample_fs = Ok (2, t) \<and> contents t 0 = [104, 105] \<and> ino_ok t 0"
proof -
  have nc: "nchunks 0 (length [104 :: byte, 105]) = 1" by (simp add: nchunks_def BSIZE_def)
  have "room sample_fs (6 * nchunks 0 (length [104 :: byte, 105]) + 1) (Suc (Suc 0))"
    unfolding nc by (rule room_mono[OF sample_room]) auto
  moreover have "T_FILE \<noteq> T_DEV" "sb_ninodes mkfs_sb = 200" "2 \<le> MAXFILE * BSIZE"
    by (simp_all add: T_FILE_def T_DEV_def mkfs_sb_def MAXFILE_def NDIRECT_def BSIZE_def)
  moreover have "2 * nchunks 0 (length [104 :: byte, 105]) \<le> nfree mkfs_sb sample_disk" using nc sample_free by simp
  ultimately show ?thesis
    using writei_correct[of sample_fs 0 "[104, 105]" 0 0 no_dev] sample_ino_ok(1) sample_dir(2)
    by (auto simp: contents_def sample_view)
qed

section \<open>Directories and paths\<close>



text \<open>
  C28. The names \<open>skipelem\<close> takes off a path one after the other are its components between
  slashes, each cut to \<open>DIRSIZ\<close> characters; empty components (leading, doubled and trailing
  slashes) do not count.
\<close>

theorem skipelem_components: "path_walk path = map (take DIRSIZ) (components path)"
  by (rule path_walk_components)

end
