(* ===== verification/Fifo.thy ===== *)
theory Fifo
  imports Prelude
begin

text \<open>
  The interface of a bounded FIFO of bytes.  The pipe (pipe.c) and the console's input buffer
  (console.c) provide it with arrays indexed by free-running 32-bit counters; what their users
  rely on is proved here once, from the laws of the interface.
\<close>

locale fifo =
  fixes items :: "'q \<Rightarrow> 'e list" and wf :: "'q \<Rightarrow> bool" and cap :: nat
    and put :: "'e \<Rightarrow> 'q \<Rightarrow> 'q" and get :: "'q \<Rightarrow> 'e \<times> 'q"
  assumes bound: "wf q \<Longrightarrow> length (items q) \<le> cap"
    and put_items: "wf q \<Longrightarrow> length (items q) < cap \<Longrightarrow> items (put x q) = items q @ [x]"
    and put_wf: "wf q \<Longrightarrow> length (items q) < cap \<Longrightarrow> wf (put x q)"
    and get_items: "wf q \<Longrightarrow> items q \<noteq> [] \<Longrightarrow> items q = fst (get q) # items (snd (get q))"
    and get_wf: "wf q \<Longrightarrow> items q \<noteq> [] \<Longrightarrow> wf (snd (get q))"
begin

text \<open>Store as much of a sequence as there is room for; take out at most \<open>n\<close> items.\<close>

fun put_many :: "'e list \<Rightarrow> 'q \<Rightarrow> 'e list \<times> 'q" where
  "put_many [] q = ([], q)"
| "put_many (x # xs) q = (if length (items q) < cap then put_many xs (put x q) else (x # xs, q))"

fun get_many :: "nat \<Rightarrow> 'q \<Rightarrow> 'e list \<times> 'q" where
  "get_many 0 q = ([], q)"
| "get_many (Suc n) q =
     (if items q = [] then ([], q)
      else let (x, q) = get q; (xs, q) = get_many n q in (x # xs, q))"

lemma put_many_items:
  assumes "wf q" and "put_many xs q = (rest, q')"
  shows "wf q'" and "items q' @ rest = items q @ xs" and "rest \<noteq> [] \<Longrightarrow> length (items q') = cap"
proof -
  have "wf q' \<and> items q' @ rest = items q @ xs \<and> (rest \<noteq> [] \<longrightarrow> length (items q') = cap)"
    using assms
  proof (induction xs q rule: put_many.induct)
    case (2 x xs q)
    show ?case
    proof (cases "length (items q) < cap")
      case True
      then show ?thesis using 2 put_wf[of q x] put_items[of q x] by simp
    next
      case False
      then show ?thesis using 2 bound[of q] by simp
    qed
  qed auto
  then show "wf q'" "items q' @ rest = items q @ xs" "rest \<noteq> [] \<Longrightarrow> length (items q') = cap" by blast+
qed

lemma get_many_items:
  assumes "wf q" and "get_many n q = (xs, q')"
  shows "wf q'" and "items q = xs @ items q'" and "length xs = min n (length (items q))"
proof -
  have "wf q' \<and> items q = xs @ items q' \<and> length xs = min n (length (items q))"
    using assms
  proof (induction n q arbitrary: xs q' rule: get_many.induct)
    case (2 n q)
    show ?case
    proof (cases "items q = []")
      case True
      then show ?thesis using 2 by simp
    next
      case False
      obtain x p where g: "get q = (x, p)" by (cases "get q")
      obtain ys p' where m: "get_many n p = (ys, p')" by (cases "get_many n p")
      have it: "items q = x # items p" "wf p" using get_items[OF 2(2) False] get_wf[OF 2(2) False] g by auto
      have IH: "wf p'" "items p = ys @ items p'" "length ys = min n (length (items p))"
        using 2(1)[OF False g[symmetric] refl it(2) m] by blast+
      have eq: "xs = x # ys" "q' = p'" using 2(3) False g m by auto
      have "items q = xs @ items q'" unfolding it(1) IH(2) eq by simp
      moreover have "length xs = min (Suc n) (length (items q))" unfolding it(1) eq by (simp add: IH(3))
      ultimately show ?thesis using IH(1) eq(2) by blast
    qed
  qed auto
  then show "wf q'" "items q = xs @ items q'" "length xs = min n (length (items q))" by blast+
qed

end

section \<open>Arrays with free-running counters\<close>

text \<open>
  Both buffers are arrays indexed by \<open>counter % SIZE\<close> with \<open>uint\<close> counters that are never
  reset; the indices survive the wrap at \<open>2^32\<close> because the size divides it.
\<close>

definition ring_items :: "nat \<Rightarrow> (nat \<Rightarrow> 'e) \<Rightarrow> uint \<Rightarrow> uint \<Rightarrow> 'e list" where
  "ring_items sz d r w = map (\<lambda>i. d (unat (r + of_nat i) mod sz)) [0..<unat (w - r)]"

lemma length_ring_items [simp]: "length (ring_items sz d r w) = unat (w - r)"
  by (simp add: ring_items_def)

lemma ring_items_Nil [simp]: "ring_items sz d r w = [] \<longleftrightarrow> r = w"
  by (simp add: ring_items_def unat_eq_zero) auto

definition ring_size :: "nat \<Rightarrow> bool" where
  "ring_size sz \<longleftrightarrow> sz dvd 4294967296 \<and> sz < 4294967296"

lemma ring_size_pos: "ring_size sz \<Longrightarrow> 0 < sz"
  by (auto simp: ring_size_def intro!: Nat.gr0I)

lemma unat_add_mod:
  assumes "ring_size sz"
  shows "unat (r + of_nat i :: uint) mod sz = (unat r + i) mod sz"
proof -
  have "unat (r + of_nat i) = (unat r + i) mod 4294967296"
    by (simp add: unat_word_ariths unat_of_nat mod_add_right_eq)
  then show ?thesis using assms by (simp add: mod_mod_cancel ring_size_def)
qed

lemma unat_Suc_diff:
  assumes "unat (w - r :: uint) < sz" and "ring_size sz"
  shows "unat (w + 1 - r) = Suc (unat (w - r))"
proof -
  have "unat (1 + (w - r)) = Suc (unat (w - r))"
    using assms by (simp add: unat_word_ariths ring_size_def)
  then show ?thesis by (simp add: algebra_simps)
qed

lemma unat_diff_Suc:
  assumes "r \<noteq> (w :: uint)"
  shows "unat (w - r) = Suc (unat (w - (r + 1)))"
proof -
  have "w - r \<noteq> 0" using assms by simp
  then have "unat (w - r - 1) = unat (w - r) - 1" "unat (w - r) \<noteq> 0"
    by (simp_all add: unat_minus_one unat_eq_zero)
  then show ?thesis by (simp add: algebra_simps)
qed

lemma ring_put:
  assumes "unat (w - r) < sz" and "ring_size sz"
  shows "ring_items sz (d(unat w mod sz := x)) r (w + 1) = ring_items sz d r w @ [x]"
proof -
  let ?n = "unat (w - r)"
  have w: "r + of_nat ?n = w" by simp
  have last: "unat w mod sz = (unat r + ?n) mod sz" using unat_add_mod[OF assms(2), of r ?n] by simp
  have other: "(unat r + i) mod sz \<noteq> (unat r + ?n) mod sz" if "i < ?n" for i
  proof
    assume "(unat r + i) mod sz = (unat r + ?n) mod sz"
    then have "sz dvd (unat r + ?n) - (unat r + i)"
      using mod_eq_dvd_iff_nat[of "unat r + i" "unat r + ?n" sz] that by simp
    then have "sz dvd ?n - i" by simp
    then show False using that assms(1) by (auto dest: dvd_imp_le)
  qed
  show ?thesis
    using other by (auto simp: ring_items_def unat_Suc_diff[OF assms] last unat_add_mod[OF assms(2)])
qed

lemma ring_get:
  assumes "r \<noteq> w"
  shows "ring_items sz d r w = d (unat r mod sz) # ring_items sz d (r + 1) w"
proof -
  have "[0..<unat (w - r)] = 0 # map Suc [0..<unat (w - (r + 1))]"
    unfolding unat_diff_Suc[OF assms] map_Suc_upt by (rule upt_conv_Cons) simp
  then show ?thesis by (simp add: ring_items_def add.assoc add.commute[of 1])
qed

end
