(* ===== verification/Pipe.thy ===== *)
theory Pipe
  imports Fifo
begin

text \<open>
  Pipes (pipe.c): the ring buffer with its two ends, \<open>pipewrite\<close> and \<open>piperead\<close> up to the
  point where they return or go to sleep, \<open>pipeclose\<close>, and the two processes at the ends of a
  pipe as a step relation in which \<open>sleep\<close> and \<open>wakeup\<close> on the channels \<open>&p->nread\<close> and
  \<open>&p->nwrite\<close> are explicit.
\<close>

definition PIPESIZE :: nat where [consts_defs]: "PIPESIZE = 512"

record pipe =
  p_data :: "nat \<Rightarrow> byte"
  nread :: uint
  nwrite :: uint
  readopen :: bool
  writeopen :: bool

text \<open>The fields \<open>pipealloc\<close> sets; the data bytes are whatever the page held.\<close>

definition pipe_init :: "(nat \<Rightarrow> byte) \<Rightarrow> pipe" where
  "pipe_init d = \<lparr>p_data = d, nread = 0, nwrite = 0, readopen = True, writeopen = True\<rparr>"

text \<open>The buffer accesses of the two loops.\<close>

definition pipe_put :: "byte \<Rightarrow> pipe \<Rightarrow> pipe" where
  "pipe_put c p = p\<lparr>p_data := (p_data p)(unat (nwrite p) mod PIPESIZE := c), nwrite := nwrite p + 1\<rparr>"

definition pipe_get :: "pipe \<Rightarrow> byte \<times> pipe" where
  "pipe_get p = (p_data p (unat (nread p) mod PIPESIZE), p\<lparr>nread := nread p + 1\<rparr>)"

definition pipe_full :: "pipe \<Rightarrow> bool" where
  "pipe_full p \<longleftrightarrow> nwrite p = nread p + of_nat PIPESIZE"

definition pipe_empty :: "pipe \<Rightarrow> bool" where
  "pipe_empty p \<longleftrightarrow> nread p = nwrite p"

section \<open>The operations\<close>

text \<open>
  How a call ends or pauses.  \<open>WSleep rest\<close>: asleep on \<open>&p->nwrite\<close> with the bytes \<open>rest\<close> still to
  store, after a wakeup of \<open>&p->nread\<close>; the loop continues there when the process runs again.
  \<open>WDone\<close> returns \<open>n\<close> after that wakeup; \<open>WErr\<close> returns \<open>-1\<close> with no wakeup.
\<close>

datatype wr = WDone | WErr | WSleep "byte list"

fun pipewrite :: "bool \<Rightarrow> byte list \<Rightarrow> pipe \<Rightarrow> wr \<times> pipe" where
  "pipewrite killed [] p = (WDone, p)"
| "pipewrite killed (c # cs) p =
     (if pipe_full p
      then (if \<not> readopen p \<or> killed then (WErr, p) else (WSleep (c # cs), p))
      else pipewrite killed cs (pipe_put c p))"

text \<open>\<open>RSleep\<close>: asleep on \<open>&p->nread\<close>; \<open>RDone bs\<close> returns the bytes and wakes \<open>&p->nwrite\<close>.\<close>

datatype rd = RDone "byte list" | RErr | RSleep

fun piperead_copy :: "nat \<Rightarrow> pipe \<Rightarrow> byte list \<times> pipe" where
  "piperead_copy 0 p = ([], p)"
| "piperead_copy (Suc n) p =
     (if pipe_empty p then ([], p)
      else let (c, p) = pipe_get p; (cs, p) = piperead_copy n p in (c # cs, p))"

definition piperead :: "bool \<Rightarrow> nat \<Rightarrow> pipe \<Rightarrow> rd \<times> pipe" where
  "piperead killed n p =
     (if pipe_empty p \<and> writeopen p then (if killed then (RErr, p) else (RSleep, p))
      else let (cs, p) = piperead_copy n p in (RDone cs, p))"

text \<open>\<open>pipeclose\<close>: the new pipe and whether its page is freed.\<close>

definition pipeclose :: "bool \<Rightarrow> pipe \<Rightarrow> pipe \<times> bool" where
  "pipeclose writable p =
     (let p = (if writable then p\<lparr>writeopen := False\<rparr> else p\<lparr>readopen := False\<rparr>)
      in (p, \<not> readopen p \<and> \<not> writeopen p))"

section \<open>The ring buffer is a FIFO\<close>

definition pipe_items :: "pipe \<Rightarrow> byte list" where
  "pipe_items p = ring_items PIPESIZE (p_data p) (nread p) (nwrite p)"

definition pipe_wf :: "pipe \<Rightarrow> bool" where
  "pipe_wf p \<longleftrightarrow> unat (nwrite p - nread p) \<le> PIPESIZE"

lemma PIPESIZE_ring: "ring_size PIPESIZE"
  by (simp add: ring_size_def PIPESIZE_def)

lemma pipe_empty_items: "pipe_empty p \<longleftrightarrow> pipe_items p = []"
  by (simp add: pipe_empty_def pipe_items_def)

lemma pipe_full_items:
  assumes "pipe_wf p"
  shows "pipe_full p \<longleftrightarrow> \<not> length (pipe_items p) < PIPESIZE"
proof -
  have "pipe_full p \<longleftrightarrow> nwrite p - nread p = of_nat PIPESIZE"
    by (auto simp: pipe_full_def algebra_simps)
  also have "\<dots> \<longleftrightarrow> unat (nwrite p - nread p) = PIPESIZE"
    using unsigned_word_eqI[of "nwrite p - nread p" "of_nat PIPESIZE", where ?'a = nat]
    by (auto simp: PIPESIZE_def)
  finally show ?thesis using assms by (auto simp: pipe_items_def pipe_wf_def)
qed

interpretation pq: fifo pipe_items pipe_wf PIPESIZE pipe_put pipe_get
proof unfold_locales
  fix q :: pipe and x
  show "pipe_wf q \<Longrightarrow> length (pipe_items q) \<le> PIPESIZE"
    by (simp add: pipe_wf_def pipe_items_def)
  show "pipe_wf q \<Longrightarrow> length (pipe_items q) < PIPESIZE \<Longrightarrow> pipe_items (pipe_put x q) = pipe_items q @ [x]"
    by (simp add: pipe_items_def pipe_put_def ring_put[OF _ PIPESIZE_ring])
  show "pipe_wf q \<Longrightarrow> length (pipe_items q) < PIPESIZE \<Longrightarrow> pipe_wf (pipe_put x q)"
    by (simp add: pipe_items_def pipe_put_def pipe_wf_def unat_Suc_diff[OF _ PIPESIZE_ring])
  show "pipe_wf q \<Longrightarrow> pipe_items q \<noteq> [] \<Longrightarrow> pipe_items q = fst (pipe_get q) # pipe_items (snd (pipe_get q))"
    by (simp add: pipe_items_def pipe_get_def ring_get)
  show "pipe_wf q \<Longrightarrow> pipe_items q \<noteq> [] \<Longrightarrow> pipe_wf (snd (pipe_get q))"
    using unat_diff_Suc[of "nread q" "nwrite q"] by (simp add: pipe_items_def pipe_get_def pipe_wf_def)
qed

lemma pipewrite_many:
  assumes "pipe_wf p" and "pipewrite killed cs p = (r, p')"
  shows "\<exists>rest. pq.put_many cs p = (rest, p') \<and>
    (case r of WDone \<Rightarrow> rest = [] | WErr \<Rightarrow> rest \<noteq> [] \<and> (killed \<or> \<not> readopen p)
     | WSleep l \<Rightarrow> l = rest \<and> rest \<noteq> [] \<and> \<not> killed \<and> readopen p)"
  using assms
proof (induction killed cs p rule: pipewrite.induct)
  case (2 killed c cs p)
  note full = pipe_full_items[OF 2(2)]
  show ?case
  proof (cases "pipe_full p")
    case True
    then show ?thesis using 2(3) full by (auto split: if_splits)
  next
    case False
    then have "pipe_wf (pipe_put c p)" using full pq.put_wf[OF 2(2)] by simp
    moreover have "readopen (pipe_put c p) = readopen p" by (simp add: pipe_put_def)
    ultimately show ?thesis using 2(1)[OF False] 2(3) False full by (simp cong: wr.case_cong)
  qed
qed auto

lemma piperead_copy_many: "piperead_copy n p = pq.get_many n p"
proof (induction n arbitrary: p)
  case (Suc n)
  then show ?case by (simp add: pipe_empty_items)
qed simp

text \<open>\<open>pipewrite\<close> and \<open>piperead\<close> in terms of the queue of bytes in the pipe.\<close>

lemma pipewrite_queue:
  assumes "pipe_wf p" and "pipewrite killed cs p = (r, p')"
  shows "\<exists>rest. pipe_wf p' \<and> pipe_items p' @ rest = pipe_items p @ cs \<and>
    (case r of WDone \<Rightarrow> rest = []
     | WErr \<Rightarrow> rest \<noteq> [] \<and> pipe_full p' \<and> (killed \<or> \<not> readopen p)
     | WSleep l \<Rightarrow> l = rest \<and> rest \<noteq> [] \<and> pipe_full p' \<and> \<not> killed \<and> readopen p)"
proof -
  obtain rest where m: "pq.put_many cs p = (rest, p')"
    "case r of WDone \<Rightarrow> rest = [] | WErr \<Rightarrow> rest \<noteq> [] \<and> (killed \<or> \<not> readopen p)
     | WSleep l \<Rightarrow> l = rest \<and> rest \<noteq> [] \<and> \<not> killed \<and> readopen p"
    using pipewrite_many[OF assms] by blast
  note q = pq.put_many_items[OF assms(1) m(1)]
  have "pipe_full p'" if "rest \<noteq> []" using q(3)[OF that] by (simp add: pipe_full_items[OF q(1)])
  then show ?thesis using q(1,2) m(2) by (intro exI[of _ rest]) (auto split: wr.splits)
qed

lemma piperead_queue:
  assumes "pipe_wf p" and "piperead killed n p = (r, p')"
  shows "pipe_wf p' \<and>
    (case r of
       RDone cs \<Rightarrow> pipe_items p = cs @ pipe_items p' \<and> length cs = min n (length (pipe_items p))
         \<and> (pipe_items p = [] \<longrightarrow> \<not> writeopen p)
     | RErr \<Rightarrow> p' = p \<and> pipe_items p = [] \<and> writeopen p \<and> killed
     | RSleep \<Rightarrow> p' = p \<and> pipe_items p = [] \<and> writeopen p \<and> \<not> killed)"
proof (cases "pipe_items p = [] \<and> writeopen p")
  case True
  then show ?thesis using assms by (auto simp: piperead_def pipe_empty_items split: if_splits)
next
  case False
  obtain cs where cs: "pq.get_many n p = (cs, p')" "r = RDone cs"
    using assms(2) False by (auto simp: piperead_def pipe_empty_items piperead_copy_many split: prod.splits if_splits)
  then show ?thesis using pq.get_many_items[OF assms(1) cs(1)] False by (simp only: rd.case) blast
qed

lemma pipe_ends_kept:
  "pipewrite killed cs p = (r, p') \<Longrightarrow> readopen p' = readopen p \<and> writeopen p' = writeopen p"
  "piperead killed n p = (r', p') \<Longrightarrow> readopen p' = readopen p \<and> writeopen p' = writeopen p"
proof -
  show "pipewrite killed cs p = (r, p') \<Longrightarrow> readopen p' = readopen p \<and> writeopen p' = writeopen p"
    by (induction killed cs p rule: pipewrite.induct) (auto simp: pipe_put_def split: if_splits)
  have copy: "piperead_copy n p = (xs, q) \<Longrightarrow> readopen q = readopen p \<and> writeopen q = writeopen p" for xs q
    by (induction n p arbitrary: xs q rule: piperead_copy.induct)
      (auto simp: pipe_get_def split: if_splits prod.splits)
  show "piperead killed n p = (r', p') \<Longrightarrow> readopen p' = readopen p \<and> writeopen p' = writeopen p"
    by (auto simp: piperead_def dest: copy split: if_splits prod.splits)
qed

lemma pipeclose_queue:
  "pipe_items (fst (pipeclose w p)) = pipe_items p" "pipe_wf (fst (pipeclose w p)) = pipe_wf p"
  "pipe_full (fst (pipeclose w p)) = pipe_full p" "pipe_empty (fst (pipeclose w p)) = pipe_empty p"
  "readopen (fst (pipeclose w p)) = (readopen p \<and> w)"
  "writeopen (fst (pipeclose w p)) = (writeopen p \<and> \<not> w)"
  by (simp_all add: pipeclose_def Let_def pipe_items_def pipe_wf_def pipe_full_def pipe_empty_def)

section \<open>A writer and a reader\<close>

text \<open>
  The two processes on a pipe.  Between two sleeps a call runs under \<open>p->lock\<close>, so it is one step.
  \<open>wtodo\<close> is what the current \<open>pipewrite\<close> has yet to store; \<open>wasleep\<close> and \<open>rasleep\<close> say that the
  writer is asleep on \<open>&p->nwrite\<close> and the reader on \<open>&p->nread\<close>; a \<open>wakeup\<close> of the channel clears
  them, and so does \<open>kill\<close> (proc.c).  \<open>sent\<close> and \<open>got\<close> record the bytes stored and delivered.
\<close>

record psys =
  pp :: pipe
  wtodo :: "byte list"
  wasleep :: bool
  rasleep :: bool
  wkilled :: bool
  rkilled :: bool
  sent :: "byte list"
  got :: "byte list"

definition psys_init :: "(nat \<Rightarrow> byte) \<Rightarrow> psys" where
  "psys_init d = \<lparr>pp = pipe_init d, wtodo = [], wasleep = False, rasleep = False,
     wkilled = False, rkilled = False, sent = [], got = []\<rparr>"

inductive pstep :: "psys \<Rightarrow> psys \<Rightarrow> bool" where
  write_call: "\<not> wasleep s \<Longrightarrow> writeopen (pp s) \<Longrightarrow> wtodo s = [] \<Longrightarrow> pstep s (s\<lparr>wtodo := cs\<rparr>)"
| write_done: "\<not> wasleep s \<Longrightarrow> writeopen (pp s) \<Longrightarrow> pipewrite (wkilled s) (wtodo s) (pp s) = (WDone, p) \<Longrightarrow>
    pstep s (s\<lparr>pp := p, wtodo := [], sent := sent s @ wtodo s, rasleep := False\<rparr>)"
| write_sleep: "\<not> wasleep s \<Longrightarrow> writeopen (pp s) \<Longrightarrow> pipewrite (wkilled s) (wtodo s) (pp s) = (WSleep rest, p) \<Longrightarrow>
    wtodo s = stored @ rest \<Longrightarrow>
    pstep s (s\<lparr>pp := p, wtodo := rest, sent := sent s @ stored, wasleep := True, rasleep := False\<rparr>)"
| write_err: "\<not> wasleep s \<Longrightarrow> writeopen (pp s) \<Longrightarrow> pipewrite (wkilled s) (wtodo s) (pp s) = (WErr, p) \<Longrightarrow>
    pipe_items p = pipe_items (pp s) @ stored \<Longrightarrow>
    pstep s (s\<lparr>pp := p, wtodo := [], sent := sent s @ stored\<rparr>)"
| read_done: "\<not> rasleep s \<Longrightarrow> readopen (pp s) \<Longrightarrow> piperead (rkilled s) n (pp s) = (RDone cs, p) \<Longrightarrow>
    pstep s (s\<lparr>pp := p, got := got s @ cs, wasleep := False\<rparr>)"
| read_sleep: "\<not> rasleep s \<Longrightarrow> readopen (pp s) \<Longrightarrow> piperead (rkilled s) n (pp s) = (RSleep, p) \<Longrightarrow>
    pstep s (s\<lparr>pp := p, rasleep := True\<rparr>)"
| read_err: "\<not> rasleep s \<Longrightarrow> readopen (pp s) \<Longrightarrow> piperead (rkilled s) n (pp s) = (RErr, p) \<Longrightarrow> pstep s (s\<lparr>pp := p\<rparr>)"
| close_write: "\<not> wasleep s \<Longrightarrow> writeopen (pp s) \<Longrightarrow> wtodo s = [] \<Longrightarrow>
    pstep s (s\<lparr>pp := fst (pipeclose True (pp s)), rasleep := False\<rparr>)"
| close_read: "\<not> rasleep s \<Longrightarrow> readopen (pp s) \<Longrightarrow> pstep s (s\<lparr>pp := fst (pipeclose False (pp s)), wasleep := False\<rparr>)"
| kill_writer: "pstep s (s\<lparr>wkilled := True, wasleep := False\<rparr>)"
| kill_reader: "pstep s (s\<lparr>rkilled := True, rasleep := False\<rparr>)"

definition psys_inv :: "psys \<Rightarrow> bool" where
  "psys_inv s \<longleftrightarrow> pipe_wf (pp s) \<and> sent s = got s @ pipe_items (pp s) \<and>
     (wasleep s \<longrightarrow> pipe_full (pp s) \<and> readopen (pp s) \<and> \<not> wkilled s \<and> wtodo s \<noteq> []) \<and>
     (rasleep s \<longrightarrow> (pipe_empty (pp s) \<or> wkilled s) \<and> readopen (pp s) \<and> writeopen (pp s) \<and> \<not> rkilled s)"

lemma psys_inv_init: "psys_inv (psys_init d)"
  by (simp add: psys_inv_def psys_init_def pipe_init_def pipe_wf_def pipe_items_def ring_items_def)

lemma pipe_full_not_empty: "pipe_wf p \<Longrightarrow> pipe_full p \<Longrightarrow> \<not> pipe_empty p"
  by (auto simp: pipe_full_items pipe_empty_items PIPESIZE_def)

lemma psys_inv_write:
  assumes "psys_inv s" and "\<not> wasleep s" and "pipewrite (wkilled s) (wtodo s) (pp s) = (r, p)"
  shows "pipe_wf p" and "r = WDone \<Longrightarrow> sent s @ wtodo s = got s @ pipe_items p"
    and "r = WSleep rest \<Longrightarrow> wtodo s = stored @ rest \<Longrightarrow> sent s @ stored = got s @ pipe_items p"
    and "r = WSleep rest \<Longrightarrow> pipe_full p \<and> readopen p \<and> \<not> wkilled s \<and> rest \<noteq> []"
    and "r = WErr \<Longrightarrow> pipe_full p \<and> (wkilled s \<or> \<not> readopen p)"
proof -
  have inv: "pipe_wf (pp s)" "sent s = got s @ pipe_items (pp s)" using assms(1) by (auto simp: psys_inv_def)
  obtain left where q: "pipe_wf p" "pipe_items p @ left = pipe_items (pp s) @ wtodo s"
    "case r of WDone \<Rightarrow> left = []
     | WErr \<Rightarrow> left \<noteq> [] \<and> pipe_full p \<and> (wkilled s \<or> \<not> readopen (pp s))
     | WSleep l \<Rightarrow> l = left \<and> left \<noteq> [] \<and> pipe_full p \<and> \<not> wkilled s \<and> readopen (pp s)"
    using pipewrite_queue[OF inv(1) assms(3)] by blast
  show "pipe_wf p" by (rule q(1))
  show "sent s @ wtodo s = got s @ pipe_items p" if "r = WDone" using q(2,3) inv(2) that by simp
  show "sent s @ stored = got s @ pipe_items p" if "r = WSleep rest" "wtodo s = stored @ rest"
    using q(2,3) inv(2) that by simp
  show "pipe_full p \<and> readopen p \<and> \<not> wkilled s \<and> rest \<noteq> []" if "r = WSleep rest"
    using q(3) pipe_ends_kept(1)[OF assms(3)] that by simp
  show "pipe_full p \<and> (wkilled s \<or> \<not> readopen p)" if "r = WErr"
    using q(3) pipe_ends_kept(1)[OF assms(3)] that by simp
qed

text \<open>
  The two ends are closed by different processes here, so a reader that sleeps holds the read end
  open: a failed write next to a sleeping reader is the write of a killed process.
\<close>

lemma psys_inv_step: "pstep s t \<Longrightarrow> psys_inv s \<Longrightarrow> psys_inv t"
proof (induction rule: pstep.induct)
  case (write_done s p)
  then show ?case using psys_inv_write[OF write_done(4,1,3)] by (simp add: psys_inv_def)
next
  case (write_sleep s rest p stored)
  then show ?case
    using psys_inv_write(1,4)[OF write_sleep(5,1,3)] psys_inv_write(3)[OF write_sleep(5,1,3) refl write_sleep(4)]
    by (simp add: psys_inv_def)
next
  case (write_err s p stored)
  then show ?case
    using psys_inv_write(1,5)[OF write_err(5,1,3)] pipe_ends_kept(1)[OF write_err(3)]
    by (simp add: psys_inv_def) blast
next
  case (read_done s n cs p)
  have inv: "pipe_wf (pp s)" "sent s = got s @ pipe_items (pp s)" using read_done(4) by (auto simp: psys_inv_def)
  have "pipe_wf p" "pipe_items (pp s) = cs @ pipe_items p" using piperead_queue[OF inv(1) read_done(3)] by auto
  then show ?case using read_done(1) inv(2) by (simp add: psys_inv_def)
next
  case (read_sleep s n p)
  then show ?case using piperead_queue[OF _ read_sleep(3)] by (simp add: psys_inv_def pipe_empty_items)
next
  case (read_err s n p)
  then show ?case using piperead_queue[OF _ read_err(3)] by (simp add: psys_inv_def)
qed (auto simp: psys_inv_def pipeclose_queue)

definition psys_reach :: "(nat \<Rightarrow> byte) \<Rightarrow> psys \<Rightarrow> bool" where
  "psys_reach d s \<longleftrightarrow> pstep\<^sup>*\<^sup>* (psys_init d) s"

lemma psys_reach_inv: "psys_reach d s \<Longrightarrow> psys_inv s"
  unfolding psys_reach_def
  by (induction rule: rtranclp_induct) (auto intro: psys_inv_init psys_inv_step)

lemmas psys_reach_step = rtranclp.rtrancl_into_rtrancl[of pstep "psys_init d" for d, folded psys_reach_def]

lemma psys_reach_init: "psys_reach d (psys_init d)"
  by (simp add: psys_reach_def)

lemma pipe_init_items [simp]: "pipe_wf (pipe_init d)" "pipe_items (pipe_init d) = []" "pipe_empty (pipe_init d)"
  by (simp_all add: pipe_init_def pipe_wf_def pipe_items_def pipe_empty_def ring_items_def)

section \<open>Properties\<close>

text \<open>C32. A pipe is a bounded FIFO.  \<open>pipewrite\<close> on a well-formed pipe, whatever its counters, stores
  a prefix of the bytes behind those already there and leaves the pipe well formed; it returns
  normally exactly when it stored them all, and otherwise the pipe is full, and the call fails if the
  read end is closed or the process killed, and sleeps holding exactly the unstored bytes if not.\<close>

theorem pipewrite_correct:
  assumes "pipe_wf p"
  shows "\<exists>rest. pipe_wf (snd (pipewrite killed cs p)) \<and>
    pipe_items (snd (pipewrite killed cs p)) @ rest = pipe_items p @ cs \<and>
    (case fst (pipewrite killed cs p) of
       WDone \<Rightarrow> rest = []
     | WErr \<Rightarrow> rest \<noteq> [] \<and> pipe_full (snd (pipewrite killed cs p)) \<and> (killed \<or> \<not> readopen p)
     | WSleep l \<Rightarrow> l = rest \<and> rest \<noteq> [] \<and> pipe_full (snd (pipewrite killed cs p)) \<and> \<not> killed \<and> readopen p)"
  by (rule pipewrite_queue[OF assms]) simp

theorem pipewrite_correct_witness:
  "let p = \<lparr>p_data = (\<lambda>_. 0), nread = 4294967295, nwrite = 4294967295, readopen = True, writeopen = True\<rparr> in
     pipe_wf p \<and> pipe_items (snd (pipewrite False [7, 8] p)) = [7, 8] \<and> nwrite (snd (pipewrite False [7, 8] p)) = 1"
proof -
  let ?p = "\<lparr>p_data = (\<lambda>_. 0), nread = 4294967295, nwrite = 4294967295, readopen = True, writeopen = True\<rparr>"
  have wf: "pipe_wf ?p" "pipe_items ?p = []" by (simp_all add: pipe_wf_def pipe_items_def ring_items_def)
  have w: "fst (pipewrite False [7, 8] ?p) = WDone" "nwrite (snd (pipewrite False [7, 8] ?p)) = 1"
    by (simp_all add: pipe_full_def pipe_put_def PIPESIZE_def)
  show ?thesis using pipewrite_correct[OF wf(1), of False "[7, 8]"] wf w by (simp del: pipewrite.simps)
qed

text \<open>C33. \<open>piperead\<close> delivers the oldest bytes first, as many as were asked for or as there are, and
  removes exactly those; it returns nothing only when the pipe is empty and the write end closed, and
  otherwise sleeps, or fails when killed, leaving the pipe as it was.\<close>

theorem piperead_correct:
  assumes "pipe_wf p"
  shows "let (r, p') = piperead killed n p in pipe_wf p' \<and>
    (case r of
       RDone cs \<Rightarrow> pipe_items p = cs @ pipe_items p' \<and> length cs = min n (length (pipe_items p))
         \<and> (pipe_items p = [] \<longrightarrow> \<not> writeopen p)
     | RErr \<Rightarrow> p' = p \<and> pipe_items p = [] \<and> writeopen p \<and> killed
     | RSleep \<Rightarrow> p' = p \<and> pipe_items p = [] \<and> writeopen p \<and> \<not> killed)"
  using piperead_queue[OF assms, of killed n] by (cases "piperead killed n p") simp

theorem piperead_correct_witness:
  "let p = \<lparr>p_data = (\<lambda>i. if i = 511 then 7 else 8), nread = 4294967295, nwrite = 1, readopen = True, writeopen = True\<rparr> in
     pipe_wf p \<and> fst (piperead False 1 p) = RDone [7] \<and> length (pipe_items (snd (piperead False 1 p))) = 1"
proof -
  let ?p = "\<lparr>p_data = (\<lambda>i. if i = 511 then 7 else (8::byte)), nread = 4294967295, nwrite = 1, readopen = True, writeopen = True\<rparr>"
  have wf: "pipe_wf ?p" "length (pipe_items ?p) = 2" by (simp_all add: pipe_wf_def pipe_items_def PIPESIZE_def)
  have r: "fst (piperead False 1 ?p) = RDone [7]"
    by (simp add: piperead_def pipe_empty_def pipe_get_def PIPESIZE_def)
  show ?thesis
    using piperead_correct[OF wf(1), of False 1] wf r by (cases "piperead False 1 ?p") auto
qed

text \<open>C5. Under every interleaving of a writer, a reader, closes and kills, the bytes delivered
  followed by the bytes in the pipe are the bytes stored: nothing is lost, duplicated or reordered,
  and the pipe never holds more than \<open>PIPESIZE\<close> bytes.\<close>

theorem pipe_fifo:
  assumes "psys_reach d s"
  shows "sent s = got s @ pipe_items (pp s) \<and> length (pipe_items (pp s)) \<le> PIPESIZE"
  using psys_reach_inv[OF assms] pq.bound by (simp add: psys_inv_def)

text \<open>The run behind the witnesses: a two-byte write and a one-byte read.\<close>

definition demo_pipe :: pipe where
  "demo_pipe = pipe_put 8 (pipe_put 7 (pipe_init (\<lambda>_. 0)))"

definition demo_psys :: psys where
  "demo_psys = (psys_init (\<lambda>_. 0))\<lparr>pp := snd (pipe_get demo_pipe), sent := [7, 8], got := [7]\<rparr>"

lemma demo_psys_reach: "psys_reach (\<lambda>_. 0) demo_psys"
proof -
  let ?s = "psys_init (\<lambda>_. 0)"
  have 1: "psys_reach (\<lambda>_. 0) (?s\<lparr>wtodo := [7, 8]\<rparr>)"
    by (rule psys_reach_step[OF psys_reach_init pstep.write_call]) (simp_all add: psys_init_def pipe_init_def)
  have 2: "psys_reach (\<lambda>_. 0) (?s\<lparr>wtodo := [7, 8], pp := demo_pipe, wtodo := [], sent := [] @ [7, 8], rasleep := False\<rparr>)"
    using psys_reach_step[OF 1 pstep.write_done[of _ demo_pipe]]
    by (simp add: psys_init_def pipe_init_def demo_pipe_def pipe_full_def pipe_put_def PIPESIZE_def)
  show ?thesis
    using psys_reach_step[OF 2 pstep.read_done[of _ 1 "[7]" "snd (pipe_get demo_pipe)"]]
    by (simp add: psys_init_def pipe_init_def demo_psys_def demo_pipe_def pipe_put_def pipe_get_def
        PIPESIZE_def piperead_def pipe_empty_def)
qed

theorem pipe_fifo_witness:
  "psys_reach (\<lambda>_. 0) demo_psys \<and> got demo_psys = [7] \<and> pipe_items (pp demo_psys) = [8]"
  using pipe_fifo[OF demo_psys_reach] demo_psys_reach by (simp add: demo_psys_def)

text \<open>C22. The two ends never sleep on each other: in no reachable state are writer and reader both
  asleep, a sleeping writer faces a full pipe whose read end is open, and a sleeping reader an empty
  pipe whose write end is open, unless the writer has been killed.\<close>

theorem pipe_no_deadlock:
  assumes "psys_reach d s"
  shows "\<not> (wasleep s \<and> rasleep s)
    \<and> (wasleep s \<longrightarrow> pipe_full (pp s) \<and> readopen (pp s))
    \<and> (rasleep s \<longrightarrow> writeopen (pp s) \<and> (pipe_empty (pp s) \<or> wkilled s))"
  using psys_reach_inv[OF assms] pipe_full_not_empty by (auto simp: psys_inv_def)

lemma reader_sleeps_reach: "psys_reach d ((psys_init d)\<lparr>rasleep := True\<rparr>)"
proof -
  have "psys_reach d ((psys_init d)\<lparr>pp := pipe_init d, rasleep := True\<rparr>)"
    by (rule psys_reach_step[OF psys_reach_init pstep.read_sleep[where n = 1]])
      (simp_all add: psys_init_def piperead_def, simp_all add: pipe_init_def)
  then show ?thesis by (simp add: psys_init_def)
qed

theorem pipe_no_deadlock_witness:
  "psys_reach (\<lambda>_. 0) ((psys_init (\<lambda>_. 0))\<lparr>rasleep := True\<rparr>) \<and>
   pipe_empty (pp ((psys_init (\<lambda>_. 0))\<lparr>rasleep := True\<rparr>))"
  using pipe_no_deadlock[OF reader_sleeps_reach, of "\<lambda>_. 0"] reader_sleeps_reach by (simp add: psys_init_def)

text \<open>The exception of the previous property happens: \<open>pipewrite\<close> returns \<open>-1\<close> to a killed
  process without the \<open>wakeup(&p->nread)\<close> of its other exits, so a reader can be left asleep beside a
  full pipe.\<close>

theorem killed_writer_loses_wakeup:
  "\<exists>s. psys_reach d s \<and> rasleep s \<and> wtodo s = [] \<and> length (pipe_items (pp s)) = PIPESIZE"
proof -
  let ?cs = "replicate 513 0 :: byte list" and ?s = "psys_init d"
  obtain r p where w: "pipewrite True ?cs (pipe_init d) = (r, p)" by (cases "pipewrite True ?cs (pipe_init d)")
  obtain rest where q: "pipe_wf p" "pipe_items p @ rest = ?cs"
    "case r of WDone \<Rightarrow> rest = [] | WErr \<Rightarrow> rest \<noteq> [] \<and> pipe_full p \<and> (True \<or> \<not> readopen (pipe_init d))
     | WSleep l \<Rightarrow> l = rest \<and> rest \<noteq> [] \<and> pipe_full p \<and> \<not> True \<and> readopen (pipe_init d)"
    using pipewrite_queue[OF pipe_init_items(1) w] by auto
  have "length (pipe_items p) + length rest = 513" using arg_cong[OF q(2), of length] by simp
  then have "rest \<noteq> []" using pq.bound[OF q(1)] by (auto simp: PIPESIZE_def)
  then have r: "r = WErr" "pipe_full p" using q(3) by (auto split: wr.splits)
  have full: "length (pipe_items p) = PIPESIZE"
    using r(2) pq.bound[OF q(1)] by (simp add: pipe_full_items[OF q(1)])
  have 1: "psys_reach d (?s\<lparr>rasleep := True, wkilled := True, wasleep := False\<rparr>)"
    using psys_reach_step[OF reader_sleeps_reach pstep.kill_writer] by simp
  have 2: "psys_reach d (?s\<lparr>rasleep := True, wkilled := True, wasleep := False, wtodo := ?cs\<rparr>)"
    by (rule psys_reach_step[OF 1 pstep.write_call]) (simp_all add: psys_init_def, simp add: pipe_init_def)
  have "psys_reach d (?s\<lparr>rasleep := True, wkilled := True, wasleep := False, wtodo := ?cs,
      pp := p, wtodo := [], sent := [] @ pipe_items p\<rparr>)"
    using psys_reach_step[OF 2 pstep.write_err[of _ p "pipe_items p"]] w r
    by (simp add: psys_init_def, simp add: pipe_init_def)
  then show ?thesis using full by (rule_tac exI) (rule conjI, assumption, simp)
qed

end
