(* ===== verification/Kalloc.thy ===== *)
theory Kalloc
  imports CString
begin

text \<open>
  The physical page allocator (kalloc.c) and the address arithmetic of memlayout.h and mmu.h.
  Memory is a function from kernel virtual addresses to bytes; the free list is threaded through
  the first word of each free page, as in the source.  The model refines an abstract page pool:
  a list of distinct pages, handed out and taken back at its head.
\<close>

section \<open>Addresses\<close>

definition PGSIZE :: nat where [consts_defs]: "PGSIZE = 4096"
definition EXTMEM :: nat where [consts_defs]: "EXTMEM = 0x100000"
definition PHYSTOP :: nat where [consts_defs]: "PHYSTOP = 0xE000000"
definition DEVSPACE :: nat where [consts_defs]: "DEVSPACE = 0xFE000000"
definition KERNBASE :: nat where [consts_defs]: "KERNBASE = 0x80000000"
definition KERNLINK :: nat where [consts_defs]: "KERNLINK = KERNBASE + EXTMEM"

text \<open>\<open>uint\<close> arithmetic on addresses, with its wrap at \<open>2^32\<close> written out.\<close>

definition V2P :: "nat \<Rightarrow> nat" where
  "V2P a = (a + (4294967296 - KERNBASE)) mod 4294967296"

definition P2V :: "nat \<Rightarrow> nat" where
  "P2V a = (a + KERNBASE) mod 4294967296"

definition PGROUNDUP :: "nat \<Rightarrow> nat" where
  "PGROUNDUP sz = (sz + PGSIZE - 1) mod 4294967296 div PGSIZE * PGSIZE"

definition PGROUNDDOWN :: "nat \<Rightarrow> nat" where
  "PGROUNDDOWN a = a div PGSIZE * PGSIZE"

section \<open>The allocator\<close>

text \<open>
  \<open>kend\<close> is the address of the linker symbol \<open>end\<close>, \<open>kdata\<close> that of \<open>data\<close> (used by vm.c).  The
  spin lock makes \<open>kalloc\<close> and \<open>kfree\<close> atomic; \<open>use_lock\<close> only says whether it is taken.
\<close>

record kmem_state =
  mem :: mem
  freelist :: nat
  use_lock :: bool
  kend :: nat
  kdata :: nat

definition kfree :: "nat \<Rightarrow> 'a kmem_state_scheme \<Rightarrow> 'a kmem_state_scheme res" where
  "kfree v s =
     (if v mod PGSIZE \<noteq> 0 \<or> v < kend s \<or> PHYSTOP \<le> V2P v then Panic ''kfree''
      else Ok (s\<lparr>mem := put32 v (freelist s) (memset (mem s) v 1 PGSIZE), freelist := v\<rparr>))"

definition kalloc :: "'a kmem_state_scheme \<Rightarrow> nat \<times> 'a kmem_state_scheme" where
  "kalloc s =
     (let r = freelist s in
      if r \<noteq> 0 then (r, s\<lparr>freelist := get32 (mem s) r\<rparr>) else (r, s))"

function freerange_loop :: "nat \<Rightarrow> nat \<Rightarrow> 'a kmem_state_scheme \<Rightarrow> 'a kmem_state_scheme res" where
  "freerange_loop p vend s =
     (if p + PGSIZE \<le> vend then rbind (kfree p s) (freerange_loop (p + PGSIZE) vend) else Ok s)"
  by pat_completeness auto
termination
  by (relation "measure (\<lambda>(p, vend, s). vend - p)") (auto simp: PGSIZE_def)

declare freerange_loop.simps [simp del]

definition freerange :: "nat \<Rightarrow> nat \<Rightarrow> 'a kmem_state_scheme \<Rightarrow> 'a kmem_state_scheme res" where
  "freerange vstart vend s = freerange_loop (PGROUNDUP vstart) vend s"

definition kinit1 :: "nat \<Rightarrow> nat \<Rightarrow> 'a kmem_state_scheme \<Rightarrow> 'a kmem_state_scheme res" where
  "kinit1 vstart vend s = freerange vstart vend (s\<lparr>use_lock := False\<rparr>)"

definition kinit2 :: "nat \<Rightarrow> nat \<Rightarrow> 'a kmem_state_scheme \<Rightarrow> 'a kmem_state_scheme res" where
  "kinit2 vstart vend s = rbind (freerange vstart vend s) (\<lambda>s. Ok (s\<lparr>use_lock := True\<rparr>))"

section \<open>The page pool\<close>

text \<open>The list the \<open>next\<close> pointers spell, starting at address \<open>p\<close>.\<close>

fun chain :: "mem \<Rightarrow> nat \<Rightarrow> nat list \<Rightarrow> bool" where
  "chain m p [] \<longleftrightarrow> p = 0"
| "chain m p (x # xs) \<longleftrightarrow> p = x \<and> p \<noteq> 0 \<and> chain m (get32 m p) xs"

definition page_ok :: "'a kmem_state_scheme \<Rightarrow> nat \<Rightarrow> bool" where
  "page_ok s v \<longleftrightarrow> v mod PGSIZE = 0 \<and> kend s \<le> v \<and> KERNBASE \<le> v \<and> v < KERNBASE + PHYSTOP"

definition pool :: "'a kmem_state_scheme \<Rightarrow> nat list \<Rightarrow> bool" where
  "pool s xs \<longleftrightarrow> chain (mem s) (freelist s) xs \<and> distinct xs \<and> (\<forall>v\<in>set xs. page_ok s v)"

definition in_page :: "nat \<Rightarrow> nat \<Rightarrow> bool" where
  "in_page v a \<longleftrightarrow> v \<le> a \<and> a < v + PGSIZE"

lemma V2P_diff:
  assumes "KERNBASE \<le> v" and "v < 4294967296"
  shows "V2P v = v - KERNBASE"
proof -
  obtain x where "v = KERNBASE + x" using assms(1) le_Suc_ex by blast
  then show ?thesis using assms(2) by (simp add: V2P_def KERNBASE_def)
qed

lemma page_ok_V2P: "page_ok s v \<Longrightarrow> V2P v = v - KERNBASE"
  by (rule V2P_diff) (auto simp: page_ok_def consts_defs)

lemma page_ok_less: "page_ok s v \<Longrightarrow> v + PGSIZE \<le> 4294967296 \<and> 0 < v"
  by (auto simp: page_ok_def consts_defs)

lemma kfree_guard: "page_ok s v \<Longrightarrow> \<not> (v mod PGSIZE \<noteq> 0 \<or> v < kend s \<or> PHYSTOP \<le> V2P v)"
  unfolding page_ok_V2P by (auto simp: page_ok_def consts_defs)

text \<open>Distinct pages do not overlap.\<close>

lemma page_div: "v mod PGSIZE = 0 \<Longrightarrow> in_page v a \<Longrightarrow> PGSIZE * (a div PGSIZE) = v"
proof -
  assume "v mod PGSIZE = 0" and a: "in_page v a"
  then obtain k where k: "v = PGSIZE * k" by (auto simp: mod_eq_0_iff_dvd)
  have "a div PGSIZE = k" using a by (intro div_nat_eqI) (auto simp: in_page_def k PGSIZE_def)
  then show ?thesis using k by simp
qed

lemma pages_disjoint:
  assumes "v mod PGSIZE = 0" and "w mod PGSIZE = 0" and "in_page v a" and "in_page w a"
  shows "v = w"
  using page_div[OF assms(1,3)] page_div[OF assms(2,4)] by simp

lemma memset_at: "memset m dst c n x = (if dst \<le> x \<and> x < dst + n then ucast c else m x)"
proof (cases "dst mod 4 = 0 \<and> n mod 4 = 0")
  case True
  then have "4 * (n div 4) = n" by presburger
  then show ?thesis using True stosl_at[OF memset_word] by (auto simp: memset_def Let_def)
next
  case False
  then show ?thesis by (auto simp: memset_def stosb_at)
qed

lemma get32_congI:
  assumes "\<And>i. i < 4 \<Longrightarrow> m (a + i) = m' (a + i)"
  shows "get32 m a = get32 m' a"
  using assms[of 0] assms[of 1] assms[of 2] assms[of 3] by (simp add: get32_def)

lemma chain_cong:
  assumes "\<And>x i. x \<in> set xs \<Longrightarrow> i < 4 \<Longrightarrow> m' (x + i) = m (x + i)"
  shows "chain m' p xs = chain m p xs"
  using assms
proof (induction xs arbitrary: p)
  case (Cons x xs)
  have "get32 m' x = get32 m x" using Cons.prems by (intro get32_congI) auto
  then show ?case using Cons by auto
qed simp

text \<open>A change of memory outside the free pages, to fields other than the list head, keeps the pool.\<close>

lemma pool_frame:
  assumes "pool s xs" and "freelist t = freelist s" and "kend t = kend s"
    and "\<And>a. mem t a \<noteq> mem s a \<Longrightarrow> \<exists>v. v \<notin> set xs \<and> v mod PGSIZE = 0 \<and> in_page v a"
  shows "pool t xs"
proof -
  have "mem t (x + i) = mem s (x + i)" if x: "x \<in> set xs" and i: "i < 4" for x i
  proof (rule ccontr)
    assume ne: "mem t (x + i) \<noteq> mem s (x + i)"
    obtain v where v: "v \<notin> set xs" "v mod PGSIZE = 0" "in_page v (x + i)" 
      using assms(4)[of "x + i", OF ne] by (elim exE conjE) (rule that)
    have "page_ok s x" using assms(1) x unfolding pool_def by blast
    then have "x mod PGSIZE = 0" by (simp add: page_ok_def)
    moreover have "in_page x (x + i)" using i by (simp add: in_page_def PGSIZE_def)
    ultimately have "v = x" by (rule pages_disjoint[OF v(2) _ v(3)])
    then show False using v(1) x by simp
  qed
  then have "chain (mem t) (freelist s) xs = chain (mem s) (freelist s) xs" by (intro chain_cong) auto
  then show ?thesis using assms(1,2,3) by (simp add: pool_def page_ok_def)
qed

lemma kalloc_Nil: "pool s [] \<Longrightarrow> kalloc s = (0, s)"
  by (simp add: pool_def kalloc_def)

lemma kalloc_Cons:
  assumes "pool s (v # vs)"
  shows "kalloc s = (v, s\<lparr>freelist := get32 (mem s) v\<rparr>)" and "pool (snd (kalloc s)) vs"
    and "page_ok s v" and "v \<notin> set vs" and "v \<noteq> 0"
proof -
  show k: "kalloc s = (v, s\<lparr>freelist := get32 (mem s) v\<rparr>)" using assms by (auto simp: pool_def kalloc_def)
  show "pool (snd (kalloc s)) vs" unfolding k using assms by (auto simp: pool_def page_ok_def)
  show "page_ok s v" "v \<notin> set vs" "v \<noteq> 0" using assms by (auto simp: pool_def)
qed

lemma pool_freelist_less: "pool s vs \<Longrightarrow> freelist s < 4294967296"
proof (cases vs)
  case (Cons v ws)
  moreover assume "pool s vs"
  ultimately have "freelist s = v" "page_ok s v" by (auto simp: pool_def)
  then show ?thesis by (simp add: page_ok_def consts_defs)
qed (simp add: pool_def)

lemma kfree_pool:
  assumes "pool s vs" and "page_ok s v" and "v \<notin> set vs"
  shows "\<exists>t. kfree v s = Ok t \<and> pool t (v # vs) \<and> kend t = kend s \<and> kdata t = kdata s \<and> use_lock t = use_lock s
    \<and> (\<forall>a. \<not> in_page v a \<longrightarrow> mem t a = mem s a) \<and> (\<forall>a. in_page v a \<longrightarrow> v + 4 \<le> a \<longrightarrow> mem t a = 1)"
proof -
  let ?m = "put32 v (freelist s) (memset (mem s) v 1 PGSIZE)"
  let ?t = "s\<lparr>mem := ?m, freelist := v\<rparr>"
  have k: "kfree v s = Ok ?t" using kfree_guard[OF assms(2)] by (auto simp: kfree_def)
  have out: "?m a = mem s a" if "\<not> in_page v a" for a
  proof -
    have "a < v \<or> v + 4 \<le> a" using that by (auto simp: in_page_def PGSIZE_def)
    then show ?thesis using that by (auto simp: put32_apply_other memset_at in_page_def)
  qed
  have junk: "?m a = 1" if "in_page v a" "v + 4 \<le> a" for a
    using that by (simp add: put32_apply_other memset_at in_page_def)
  have head: "get32 ?m v = freelist s"
  proof -
    show ?thesis using pool_freelist_less[OF assms(1)] by simp
  qed
  have "pool (s\<lparr>mem := ?m\<rparr>) vs"
  proof (rule pool_frame[OF assms(1)])
    fix a
    assume "mem (s\<lparr>mem := ?m\<rparr>) a \<noteq> mem s a"
    then have "in_page v a" using out[of a] by auto
    then show "\<exists>v. v \<notin> set vs \<and> v mod PGSIZE = 0 \<and> in_page v a"
      using assms(2,3) by (intro exI[of _ v]) (simp add: page_ok_def)
  qed simp_all
  then have "pool ?t (v # vs)"
    using head assms(2,3) page_ok_less[OF assms(2)] by (simp add: pool_def page_ok_def)
  then show ?thesis using k out junk by (intro exI[of _ ?t]) simp
qed

text \<open>The interface the rest of the kernel allocates through, and what it can rely on.\<close>

locale page_source =
  fixes holds :: "'s \<Rightarrow> nat list \<Rightarrow> bool" and ok :: "'s \<Rightarrow> nat \<Rightarrow> bool"
    and alloc :: "'s \<Rightarrow> nat \<times> 's" and give :: "nat \<Rightarrow> 's \<Rightarrow> 's res"
  assumes alloc_none: "holds s [] \<Longrightarrow> fst (alloc s) = 0"
    and alloc_page: "holds s (v # vs) \<Longrightarrow> fst (alloc s) = v \<and> holds (snd (alloc s)) vs"
    and alloc_ok: "holds s (v # vs) \<Longrightarrow> ok (snd (alloc s)) w = ok s w \<and> ok s v \<and> v \<notin> set vs"
    and give_page: "holds s vs \<Longrightarrow> ok s v \<Longrightarrow> v \<notin> set vs \<Longrightarrow> \<exists>t. give v s = Ok t \<and> holds t (v # vs) \<and> (\<forall>w. ok t w = ok s w)"
begin

primrec alloc_many :: "nat \<Rightarrow> 's \<Rightarrow> nat list \<times> 's" where
  "alloc_many 0 s = ([], s)"
| "alloc_many (Suc n) s = (let (v, s) = alloc s; (vs, s) = alloc_many n s in (v # vs, s))"

lemma alloc_many_pages:
  assumes "holds s (us @ vs)"
  shows "fst (alloc_many (length us) s) = us \<and> holds (snd (alloc_many (length us) s)) vs
    \<and> (\<forall>w. ok (snd (alloc_many (length us) s)) w = ok s w)"
  using assms
proof (induction us arbitrary: s)
  case (Cons u us)
  obtain v t where a: "alloc s = (v, t)" by (cases "alloc s")
  have t: "v = u" "holds t (us @ vs)" "ok t w = ok s w" for w
    using alloc_page[of s u "us @ vs"] alloc_ok[of s u "us @ vs" w] Cons.prems a by auto
  show ?case using Cons.IH[OF t(2)] a t(1,3) by (simp add: split_beta)
qed simp

lemma give_all:
  assumes "holds s vs" and "distinct us" and "set us \<inter> set vs = {}" and "\<forall>v\<in>set us. ok s v"
  shows "\<exists>t. rfold give us s = Ok t \<and> holds t (rev us @ vs)"
  using assms
proof (induction us arbitrary: s vs)
  case (Cons u us)
  obtain t where t: "give u s = Ok t" "holds t (u # vs)" "\<forall>w. ok t w = ok s w"
    using give_page[of s vs u] Cons.prems by auto
  have "\<exists>r. rfold give us t = Ok r \<and> holds r (rev us @ (u # vs))"
    using Cons.prems t(3) by (intro Cons.IH[OF t(2)]) auto
  then show ?case using t(1) by auto
qed simp

end

interpretation kp: page_source pool page_ok kalloc kfree
proof unfold_locales
  fix s :: "'a kmem_state_scheme" and v w vs
  show "pool s [] \<Longrightarrow> fst (kalloc s) = 0" by (simp add: kalloc_Nil)
  show "pool s (v # vs) \<Longrightarrow> fst (kalloc s) = v \<and> pool (snd (kalloc s)) vs"
    using kalloc_Cons(1,2)[of s v vs] by auto
  show "pool s (v # vs) \<Longrightarrow> page_ok (snd (kalloc s)) w = page_ok s w \<and> page_ok s v \<and> v \<notin> set vs"
    using kalloc_Cons(1,3,4)[of s v vs] by (auto simp: page_ok_def)
  assume "pool s vs" "page_ok s v" "v \<notin> set vs"
  from kfree_pool[OF this]
  show "\<exists>t. kfree v s = Ok t \<and> pool t (v # vs) \<and> (\<forall>w. page_ok t w = page_ok s w)"
    unfolding page_ok_def by metis
qed

text \<open>The pages \<open>freerange\<close> visits, in ascending order.\<close>

definition pages_in :: "nat \<Rightarrow> nat \<Rightarrow> nat list" where
  "pages_in p vend = map (\<lambda>i. p + i * PGSIZE) [0..<(vend - p) div PGSIZE]"

lemma pages_in_Cons: "p + PGSIZE \<le> vend \<Longrightarrow> pages_in p vend = p # pages_in (p + PGSIZE) vend"
proof -
  assume "p + PGSIZE \<le> vend"
  then obtain d where d: "vend = p + PGSIZE + d" using le_Suc_ex by blast
  have "(vend - p) div PGSIZE = Suc ((vend - (p + PGSIZE)) div PGSIZE)" by (simp add: d PGSIZE_def)
  then show ?thesis by (simp add: pages_in_def upt_conv_Cons map_Suc_upt[symmetric] comp_def algebra_simps del: upt_Suc)
qed

lemma pages_in_Nil: "\<not> p + PGSIZE \<le> vend \<Longrightarrow> pages_in p vend = []"
  by (simp add: pages_in_def div_eq_0_iff PGSIZE_def)

lemma freerange_loop_fold: "freerange_loop p vend s = rfold kfree (pages_in p vend) s"
proof (induction p vend s rule: freerange_loop.induct)
  case (1 p vend s)
  then show ?case
    by (subst freerange_loop.simps) (cases "kfree p s"; simp add: pages_in_Cons pages_in_Nil)
qed

lemma pages_in_ok:
  assumes "v \<in> set (pages_in p vend)" and "p mod PGSIZE = 0"
  shows "v mod PGSIZE = 0 \<and> p \<le> v \<and> v + PGSIZE \<le> vend"
proof -
  obtain i where i: "v = p + i * PGSIZE" "i < (vend - p) div PGSIZE"
    using assms(1) unfolding pages_in_def set_map by fastforce
  then have "Suc i * PGSIZE \<le> vend - p" using div_times_less_eq_dividend[of "vend - p" PGSIZE]
    by (meson Suc_leI le_trans mult_le_mono1)
  then show ?thesis using i assms(2) by (auto simp: PGSIZE_def)
qed

lemma distinct_pages_in: "distinct (pages_in p vend)"
  by (auto simp: pages_in_def distinct_map inj_on_def PGSIZE_def)

lemma PGROUNDUP_props:
  assumes "a + PGSIZE \<le> 4294967296"
  shows "PGROUNDUP a mod PGSIZE = 0" and "a \<le> PGROUNDUP a" and "PGROUNDUP a < a + PGSIZE"
proof -
  have r: "PGROUNDUP a = (a + 4095) div 4096 * 4096" using assms by (simp add: PGROUNDUP_def PGSIZE_def)
  show "PGROUNDUP a mod PGSIZE = 0" by (simp add: r PGSIZE_def)
  show "a \<le> PGROUNDUP a" "PGROUNDUP a < a + PGSIZE" unfolding r PGSIZE_def by linarith+
qed

section \<open>Properties\<close>

text \<open>C15. \<open>kalloc\<close> and \<open>kfree\<close> implement a pool of distinct pages, although its list is threaded
  through the free pages themselves: allocation takes the head and fails only on an empty pool;
  freeing a page that is not free puts it at the head, fills the rest of it with ones and touches no
  other byte of memory.\<close>

theorem kalloc_kfree_pool:
  assumes "pool s vs"
  shows "(case vs of
      [] \<Rightarrow> kalloc s = (0, s)
    | v # ws \<Rightarrow> fst (kalloc s) = v \<and> pool (snd (kalloc s)) ws \<and> mem (snd (kalloc s)) = mem s)
    \<and> (page_ok s v \<and> v \<notin> set vs \<longrightarrow> (\<exists>t. kfree v s = Ok t \<and> pool t (v # vs)
        \<and> (\<forall>a. \<not> in_page v a \<longrightarrow> mem t a = mem s a) \<and> (\<forall>a. in_page v a \<longrightarrow> v + 4 \<le> a \<longrightarrow> mem t a = 1)))"
proof
  show "case vs of [] \<Rightarrow> kalloc s = (0, s)
    | v # ws \<Rightarrow> fst (kalloc s) = v \<and> pool (snd (kalloc s)) ws \<and> mem (snd (kalloc s)) = mem s"
  proof (cases vs)
    case Nil
    then show ?thesis using assms kalloc_Nil by simp
  next
    case (Cons v ws)
    then show ?thesis using kalloc_Cons(1,2)[of s v ws] assms by simp
  qed
  show "page_ok s v \<and> v \<notin> set vs \<longrightarrow> (\<exists>t. kfree v s = Ok t \<and> pool t (v # vs)
        \<and> (\<forall>a. \<not> in_page v a \<longrightarrow> mem t a = mem s a) \<and> (\<forall>a. in_page v a \<longrightarrow> v + 4 \<le> a \<longrightarrow> mem t a = 1))"
    using kfree_pool[OF assms, of v] by metis
qed

definition boot_kmem :: kmem_state where
  "boot_kmem = \<lparr>mem = (\<lambda>_. 0), freelist = 0, use_lock = False, kend = 0x80110000, kdata = 0x80109000\<rparr>"

theorem kalloc_kfree_pool_witness:
  "pool boot_kmem [] \<and> kalloc boot_kmem = (0, boot_kmem) \<and> (\<exists>t. kfree 0x80110000 boot_kmem = Ok t \<and> pool t [0x80110000])"
proof -
  have p: "pool boot_kmem []" "page_ok boot_kmem 0x80110000"
    by (simp_all add: pool_def boot_kmem_def page_ok_def consts_defs)
  then show ?thesis using kalloc_kfree_pool[OF p(1), of "0x80110000"] by auto
qed

text \<open>C29. \<open>freerange\<close>, and with it \<open>kinit1\<close> and \<open>kinit2\<close>, returns and puts on the free list exactly the
  whole pages between its bounds, the last one first, in front of the pages already there.\<close>

theorem freerange_pool:
  assumes "pool s vs" and "max (kend s) KERNBASE \<le> vstart" and "vend \<le> KERNBASE + PHYSTOP" and "vstart \<le> vend"
    and "\<forall>v\<in>set vs. v < vstart"
  shows "\<exists>t. freerange vstart vend s = Ok t \<and> pool t (rev (pages_in (PGROUNDUP vstart) vend) @ vs)"
proof -
  note r = PGROUNDUP_props[of vstart]
  have le: "vstart + PGSIZE \<le> 4294967296" using assms(3,4) by (simp add: consts_defs)
  have "page_ok s v \<and> v \<notin> set vs" if "v \<in> set (pages_in (PGROUNDUP vstart) vend)" for v
    using pages_in_ok[OF that r(1)[OF le]] r(2)[OF le] assms(2,3,5) by (auto simp: page_ok_def PGSIZE_def)
  then show ?thesis
    unfolding freerange_def freerange_loop_fold
    by (intro kp.give_all assms(1) distinct_pages_in) auto
qed

theorem freerange_pool_witness:
  "\<exists>t. freerange 0x80110001 0x80113000 boot_kmem = Ok t \<and> pool t [0x80112000, 0x80111000]"
proof -
  have p: "pool boot_kmem []" by (simp add: pool_def boot_kmem_def)
  have "pages_in (PGROUNDUP 0x80110001) 0x80113000 = [0x80111000, 0x80112000]"
    by (simp add: pages_in_def PGROUNDUP_def PGSIZE_def upt_rec)
  then show ?thesis
    using freerange_pool[OF p, of "0x80110001" "0x80113000"] by (simp add: boot_kmem_def consts_defs)
qed

end
