(* ===== verification/Vm.thy ===== *)
theory Vm
  imports Kalloc
begin

unbundle bit_operations_syntax

text \<open>
  Page tables (vm.c).  A page directory and the page tables it points to are pages of the memory
  of \<open>Kalloc\<close>, read and written word by word at the addresses the code computes.
\<close>

definition PDX :: "nat \<Rightarrow> nat" where "PDX va = va div 4194304 mod 1024"
definition PTX :: "nat \<Rightarrow> nat" where "PTX va = va div 4096 mod 1024"
definition PTE_P :: nat where [consts_defs]: "PTE_P = 1"
definition PTE_W :: nat where [consts_defs]: "PTE_W = 2"
definition PTE_U :: nat where [consts_defs]: "PTE_U = 4"
definition NPDENTRIES :: nat where [consts_defs]: "NPDENTRIES = 1024"
definition PTE_ADDR :: "nat \<Rightarrow> nat" where "PTE_ADDR pte = pte div 4096 * 4096"
definition PTE_FLAGS :: "nat \<Rightarrow> nat" where "PTE_FLAGS pte = pte mod 4096"

text \<open>
  The globals of vm.c and the processor registers it loads: \<open>kpgdir\<close>; \<open>cr3\<close>; the task state segment
  fields \<open>esp0\<close>, \<open>ss0\<close> and \<open>iomb\<close>; the task register.
\<close>

record vm_state = kmem_state +
  kpgdir :: nat
  cr3 :: nat
  ts_esp0 :: nat
  ts_ss0 :: nat
  ts_iomb :: nat
  ts_reg :: nat

section \<open>Walking and mapping\<close>

text \<open>The address of a page table entry, 0 for the null pointer.\<close>

definition walkpgdir :: "nat \<Rightarrow> nat \<Rightarrow> bool \<Rightarrow> 'a kmem_state_scheme \<Rightarrow> nat \<times> 'a kmem_state_scheme" where
  "walkpgdir pgdir va alloc s =
     (let pde = pgdir + 4 * PDX va; e = get32 (mem s) pde in
      if e AND PTE_P \<noteq> 0 then (P2V (PTE_ADDR e) + 4 * PTX va, s)
      else if \<not> alloc then (0, s)
      else let (pgtab, s) = kalloc s in
        if pgtab = 0 then (0, s)
        else (pgtab + 4 * PTX va,
              s\<lparr>mem := put32 pde (V2P pgtab OR PTE_P OR PTE_W OR PTE_U) (memset (mem s) pgtab 0 PGSIZE)\<rparr>))"

text \<open>
  The loop of \<open>mappages\<close>.  The addresses \<open>a\<close> and \<open>last\<close> are page aligned, so the loop counts page
  numbers: 20-bit words, whose increment wraps as \<open>a += PGSIZE\<close> does.
\<close>

function mappages_loop :: "nat \<Rightarrow> 20 word \<Rightarrow> 20 word \<Rightarrow> nat \<Rightarrow> nat \<Rightarrow> 'a kmem_state_scheme
    \<Rightarrow> (int \<times> 'a kmem_state_scheme) res" where
  "mappages_loop pgdir a alast pa perm s =
     (let (pte, s) = walkpgdir pgdir (unat a * PGSIZE) True s in
      if pte = 0 then Ok (-1, s)
      else if get32 (mem s) pte AND PTE_P \<noteq> 0 then Panic ''remap''
      else let s = s\<lparr>mem := put32 pte (pa OR perm OR PTE_P) (mem s)\<rparr> in
        if a = alast then Ok (0, s)
        else mappages_loop pgdir (a + 1) alast ((pa + PGSIZE) mod 4294967296) perm s)"
  by pat_completeness auto
termination
proof (relation "measure (\<lambda>(pgdir, a, alast, pa, perm, s). unat (alast - a))", simp)
  fix a alast :: "20 word"
  assume "a \<noteq> alast"
  then have "alast - a \<noteq> 0" by simp
  then have "unat (alast - a - 1) < unat (alast - a)" by (simp add: unat_minus_one unat_gt_0)
  then have "unat (alast - (a + 1)) < unat (alast - a)" by (simp add: diff_diff_eq)
  then show "((pgdir, a + 1, alast, (pa + PGSIZE) mod 4294967296, perm, s''), pgdir, a, alast, pa, perm, s)
    \<in> measure (\<lambda>(pgdir, a, alast, pa, perm, s). unat (alast - a))" for pgdir pa perm s s'' by simp
qed

declare mappages_loop.simps [simp del]

definition mappages :: "nat \<Rightarrow> nat \<Rightarrow> nat \<Rightarrow> nat \<Rightarrow> nat \<Rightarrow> 'a kmem_state_scheme
    \<Rightarrow> (int \<times> 'a kmem_state_scheme) res" where
  "mappages pgdir va size' pa perm s =
     mappages_loop pgdir (of_nat (va div PGSIZE))
       (of_nat ((va + size' + 4294967295) mod 4294967296 div PGSIZE)) pa perm s"

section \<open>Releasing memory\<close>

text \<open>
  \<open>deallocuvm\<close> skips a whole page table when its directory entry is absent.  If the counter wraps
  at \<open>2^32\<close> the C loop starts over and never ends, which is the \<open>Fault\<close> of the model; no caller
  passes a size above \<open>KERNBASE\<close>.
\<close>

function deallocuvm_loop :: "nat \<Rightarrow> nat \<Rightarrow> nat \<Rightarrow> 'a kmem_state_scheme \<Rightarrow> 'a kmem_state_scheme res" where
  "deallocuvm_loop pgdir a oldsz s =
     (if \<not> a < oldsz then Ok s
      else
        let pte = fst (walkpgdir pgdir a False s);
            next = (if pte = 0 then (PDX a + 1) * 4194304 mod 4294967296 else (a + PGSIZE) mod 4294967296);
            r = (if pte \<noteq> 0 \<and> get32 (mem s) pte AND PTE_P \<noteq> 0
                 then let pa = PTE_ADDR (get32 (mem s) pte) in
                   if pa = 0 then Panic ''kfree''
                   else rbind (kfree (P2V pa) s) (\<lambda>s. Ok (s\<lparr>mem := put32 pte 0 (mem s)\<rparr>))
                 else Ok s)
        in if next \<le> a then rbind r (\<lambda>s. Fault ''deallocuvm wraps'')
           else rbind r (deallocuvm_loop pgdir next oldsz))"
  by pat_completeness auto
termination
  by (relation "measure (\<lambda>(pgdir, a, oldsz, s). oldsz - a)") (auto simp: Let_def split: if_splits)

declare deallocuvm_loop.simps [simp del]

definition deallocuvm :: "nat \<Rightarrow> nat \<Rightarrow> nat \<Rightarrow> 'a kmem_state_scheme \<Rightarrow> (nat \<times> 'a kmem_state_scheme) res" where
  "deallocuvm pgdir oldsz newsz s =
     (if oldsz \<le> newsz then Ok (oldsz, s)
      else rbind (deallocuvm_loop pgdir (PGROUNDUP newsz) oldsz s) (\<lambda>s. Ok (newsz, s)))"

definition freevm_entry :: "nat \<Rightarrow> nat \<Rightarrow> 'a kmem_state_scheme \<Rightarrow> 'a kmem_state_scheme res" where
  "freevm_entry pgdir i s =
     (let e = get32 (mem s) (pgdir + 4 * i) in
      if e AND PTE_P \<noteq> 0 then kfree (P2V (PTE_ADDR e)) s else Ok s)"

definition freevm :: "nat \<Rightarrow> 'a kmem_state_scheme \<Rightarrow> 'a kmem_state_scheme res" where
  "freevm pgdir s =
     (if pgdir = 0 then Panic ''freevm: no pgdir''
      else rbind (deallocuvm pgdir KERNBASE 0 s) (\<lambda>(_, s).
        rbind (rfold (freevm_entry pgdir) [0..<NPDENTRIES] s) (kfree pgdir)))"

section \<open>The kernel part of an address space\<close>

definition kmap :: "'a kmem_state_scheme \<Rightarrow> (nat \<times> nat \<times> nat \<times> nat) list" where
  "kmap s =
     [(KERNBASE, 0, EXTMEM, PTE_W),
      (KERNLINK, V2P KERNLINK, V2P (kdata s), 0),
      (kdata s, V2P (kdata s), PHYSTOP, PTE_W),
      (DEVSPACE, DEVSPACE, 0, PTE_W)]"

fun setupkvm_loop :: "nat \<Rightarrow> (nat \<times> nat \<times> nat \<times> nat) list \<Rightarrow> 'a kmem_state_scheme \<Rightarrow> (nat \<times> 'a kmem_state_scheme) res" where
  "setupkvm_loop pgdir [] s = Ok (pgdir, s)"
| "setupkvm_loop pgdir ((virt, phys_start, phys_end, perm) # ks) s =
     rbind (mappages pgdir virt ((phys_end + 4294967296 - phys_start) mod 4294967296) phys_start perm s) (\<lambda>(r, s).
       if r < 0 then rbind (freevm pgdir s) (\<lambda>s. Ok (0, s))
       else setupkvm_loop pgdir ks s)"

definition setupkvm :: "'a kmem_state_scheme \<Rightarrow> (nat \<times> 'a kmem_state_scheme) res" where
  "setupkvm s =
     (let (pgdir, s) = kalloc s in
      if pgdir = 0 then Ok (0, s)
      else
        let s = s\<lparr>mem := memset (mem s) pgdir 0 PGSIZE\<rparr> in
        if DEVSPACE < P2V PHYSTOP then Panic ''PHYSTOP too high''
        else setupkvm_loop pgdir (kmap s) s)"

definition switchkvm :: "'a vm_state_scheme \<Rightarrow> 'a vm_state_scheme" where
  "switchkvm s = s\<lparr>cr3 := V2P (kpgdir s)\<rparr>"

definition kvmalloc :: "'a vm_state_scheme \<Rightarrow> 'a vm_state_scheme res" where
  "kvmalloc s = rbind (setupkvm s) (\<lambda>(d, s). Ok (switchkvm (s\<lparr>kpgdir := d\<rparr>)))"

text \<open>\<open>switchuvm\<close> for a process with the given kernel stack and page directory.\<close>

definition KSTACKSIZE :: nat where [consts_defs]: "KSTACKSIZE = 4096"

definition switchuvm :: "(nat \<times> nat) option \<Rightarrow> 'a vm_state_scheme \<Rightarrow> 'a vm_state_scheme res" where
  "switchuvm p s =
     (case p of
        None \<Rightarrow> Panic ''switchuvm: no process''
      | Some (kstack, pgdir) \<Rightarrow>
          if kstack = 0 then Panic ''switchuvm: no kstack''
          else if pgdir = 0 then Panic ''switchuvm: no pgdir''
          else Ok (s\<lparr>ts_ss0 := 2 * 8, ts_esp0 := (kstack + KSTACKSIZE) mod 4294967296,
                     ts_iomb := 0xFFFF, ts_reg := 5 * 8, cr3 := V2P pgdir\<rparr>))"

section \<open>The user part of an address space\<close>

definition inituvm :: "nat \<Rightarrow> nat \<Rightarrow> nat \<Rightarrow> 'a kmem_state_scheme \<Rightarrow> 'a kmem_state_scheme res" where
  "inituvm pgdir init sz s =
     (if PGSIZE \<le> sz then Panic ''inituvm: more than a page''
      else let (m, s) = kalloc s in
        if m = 0 then Fault ''inituvm: null page''
        else
          let s = s\<lparr>mem := memset (mem s) m 0 PGSIZE\<rparr> in
          rbind (mappages pgdir 0 PGSIZE (V2P m) (PTE_W OR PTE_U) s) (\<lambda>(_, s).
            Ok (s\<lparr>mem := memmove (mem s) m init sz\<rparr>)))"

text \<open>\<open>newsz < KERNBASE\<close> here, so the counter does not wrap.\<close>

function allocuvm_loop :: "nat \<Rightarrow> nat \<Rightarrow> nat \<Rightarrow> nat \<Rightarrow> 'a kmem_state_scheme \<Rightarrow> (nat \<times> 'a kmem_state_scheme) res" where
  "allocuvm_loop pgdir a oldsz newsz s =
     (if \<not> a < newsz then Ok (newsz, s)
      else
        let (m, s) = kalloc s in
        if m = 0 then rbind (deallocuvm pgdir newsz oldsz s) (\<lambda>(_, s). Ok (0, s))
        else
          let s = s\<lparr>mem := memset (mem s) m 0 PGSIZE\<rparr> in
          rbind (mappages pgdir a PGSIZE (V2P m) (PTE_W OR PTE_U) s) (\<lambda>(r, s).
            if r < 0
            then rbind (deallocuvm pgdir newsz oldsz s) (\<lambda>(_, s). rbind (kfree m s) (\<lambda>s. Ok (0, s)))
            else allocuvm_loop pgdir (a + PGSIZE) oldsz newsz s))"
  by pat_completeness auto
termination
  by (relation "measure (\<lambda>(pgdir, a, oldsz, newsz, s). newsz - a)") (auto simp: PGSIZE_def)

declare allocuvm_loop.simps [simp del]

definition allocuvm :: "nat \<Rightarrow> nat \<Rightarrow> nat \<Rightarrow> 'a kmem_state_scheme \<Rightarrow> (nat \<times> 'a kmem_state_scheme) res" where
  "allocuvm pgdir oldsz newsz s =
     (if KERNBASE \<le> newsz then Ok (0, s)
      else if newsz < oldsz then Ok (oldsz, s)
      else allocuvm_loop pgdir (PGROUNDUP oldsz) oldsz newsz s)"

definition clearpteu :: "nat \<Rightarrow> nat \<Rightarrow> 'a kmem_state_scheme \<Rightarrow> 'a kmem_state_scheme res" where
  "clearpteu pgdir uva s =
     (let pte = fst (walkpgdir pgdir uva False s) in
      if pte = 0 then Panic ''clearpteu''
      else let e = get32 (mem s) pte in Ok (s\<lparr>mem := put32 pte (e - (e AND PTE_U)) (mem s)\<rparr>))"

text \<open>A process is smaller than \<open>KERNBASE\<close>; a counter that wraps would never reach \<open>sz\<close>.\<close>

function copyuvm_loop :: "nat \<Rightarrow> nat \<Rightarrow> nat \<Rightarrow> nat \<Rightarrow> 'a kmem_state_scheme \<Rightarrow> (nat \<times> 'a kmem_state_scheme) res" where
  "copyuvm_loop pgdir d i sz s =
     (if \<not> i < sz then Ok (d, s)
      else
        let pte = fst (walkpgdir pgdir i False s) in
        if pte = 0 then Panic ''copyuvm: pte should exist''
        else if get32 (mem s) pte AND PTE_P = 0 then Panic ''copyuvm: page not present''
        else
          let pa = PTE_ADDR (get32 (mem s) pte); flags = PTE_FLAGS (get32 (mem s) pte); (m, s) = kalloc s in
          if m = 0 then rbind (freevm d s) (\<lambda>s. Ok (0, s))
          else
            let s = s\<lparr>mem := memmove (mem s) m (P2V pa) PGSIZE\<rparr> in
            rbind (mappages d i PGSIZE (V2P m) flags s) (\<lambda>(r, s).
              if r < 0 then rbind (kfree m s) (\<lambda>s. rbind (freevm d s) (\<lambda>s. Ok (0, s)))
              else if 4294967296 \<le> i + PGSIZE then Fault ''copyuvm wraps''
              else copyuvm_loop pgdir d (i + PGSIZE) sz s))"
  by pat_completeness auto
termination
  by (relation "measure (\<lambda>(pgdir, d, i, sz, s). sz - i)") (auto simp: PGSIZE_def)

declare copyuvm_loop.simps [simp del]

definition copyuvm :: "nat \<Rightarrow> nat \<Rightarrow> 'a kmem_state_scheme \<Rightarrow> (nat \<times> 'a kmem_state_scheme) res" where
  "copyuvm pgdir sz s =
     rbind (setupkvm s) (\<lambda>(d, s). if d = 0 then Ok (0, s) else copyuvm_loop pgdir d 0 sz s)"

text \<open>\<open>uva2ka\<close> does not test the pointer \<open>walkpgdir\<close> returns before following it.\<close>

definition uva2ka :: "nat \<Rightarrow> nat \<Rightarrow> 'a kmem_state_scheme \<Rightarrow> nat res" where
  "uva2ka pgdir uva s =
     (let pte = fst (walkpgdir pgdir uva False s) in
      if pte = 0 then Fault ''uva2ka: null pte''
      else let e = get32 (mem s) pte in
        if e AND PTE_P = 0 then Ok 0
        else if e AND PTE_U = 0 then Ok 0
        else Ok (P2V (PTE_ADDR e)))"

function copyout :: "nat \<Rightarrow> nat \<Rightarrow> nat \<Rightarrow> nat \<Rightarrow> 'a kmem_state_scheme \<Rightarrow> (int \<times> 'a kmem_state_scheme) res" where
  "copyout pgdir va p len s =
     (if len = 0 then Ok (0, s)
      else
        let va0 = PGROUNDDOWN va in
        rbind (uva2ka pgdir va0 s) (\<lambda>pa0.
          if pa0 = 0 then Ok (-1, s)
          else
            let n = min (PGSIZE - (va - va0)) len in
            copyout pgdir ((va0 + PGSIZE) mod 4294967296) (p + n) (len - n)
              (s\<lparr>mem := memmove (mem s) (pa0 + (va - va0)) p n\<rparr>)))"
  by pat_completeness auto
termination
  by (relation "measure (\<lambda>(pgdir, va, p, len, s). len)")
    (auto simp: PGROUNDDOWN_def PGSIZE_def minus_div_mult_eq_mod)

declare copyout.simps [simp del]

end
