(* ===== verification/Vm_Props.thy ===== *)
theory Vm_Props
  imports Vm
begin

unbundle bit_operations_syntax

text \<open>
  What the page tables of vm.c mean: the entry a two-level walk finds for an address, the
  well-formedness of a page directory inside the memory of the allocator, and the effect of
  \<open>walkpgdir\<close>, \<open>mappages\<close>, \<open>allocuvm\<close> and \<open>copyout\<close> on that meaning.
\<close>

section \<open>Entries\<close>

definition present :: "nat \<Rightarrow> bool" where "present e \<longleftrightarrow> odd e"

lemma and_PTE_P: "e AND PTE_P = 0 \<longleftrightarrow> \<not> present e"
  by (simp add: PTE_P_def present_def and_one_eq mod2_eq_if)

lemma or_aligned:
  assumes "pa mod 4096 = (0 :: nat)" and "f < 4096"
  shows "pa OR f = pa + f"
proof -
  have t: "pa AND mask 12 = 0" "f AND mask 12 = f"
    using assms by (simp_all add: take_bit_eq_mod flip: take_bit_eq_mask)
  have "pa AND f = (pa AND mask 12) AND f" by (metis t(2) and.assoc and.commute)
  then have "pa AND f = 0" by (simp add: t(1))
  then show ?thesis using disjunctive_add_eq_or[of pa f] by simp
qed

lemma or_flags_less:
  assumes "a < 4096" and "b < (4096 :: nat)"
  shows "a OR b < 4096"
proof -
  have "take_bit 12 a = a" "take_bit 12 b = b" using assms by (simp_all add: take_bit_eq_mod)
  then have "take_bit 12 (a OR b) = a OR b" by (simp add: take_bit_or)
  then show ?thesis using take_bit_nat_less_exp[of 12 "a OR b"] by simp
qed

lemma PTE_parts:
  assumes "pa mod 4096 = 0" and "f < 4096"
  shows "PTE_ADDR (pa OR f) = pa" and "PTE_FLAGS (pa OR f) = f"
proof -
  obtain k where k: "pa = 4096 * k" using assms(1) by auto
  show "PTE_ADDR (pa OR f) = pa" "PTE_FLAGS (pa OR f) = f"
    unfolding or_aligned[OF assms] using assms(2) by (simp_all add: k PTE_ADDR_def PTE_FLAGS_def)
qed

lemma V2P_P2V: "page_ok s v \<Longrightarrow> P2V (V2P v) = v"
  by (simp add: page_ok_V2P P2V_def) (auto simp: page_ok_def consts_defs)

lemma page_ok_phys:
  assumes "page_ok s v"
  obtains k where "V2P v = 4096 * k" and "V2P v + 4096 \<le> PHYSTOP" and "v = KERNBASE + 4096 * k"
proof -
  have v: "v mod 4096 = 0" "KERNBASE \<le> v" "v < KERNBASE + PHYSTOP" using assms by (auto simp: page_ok_def PGSIZE_def)
  then obtain l where l: "v = 4096 * l" by auto
  have "V2P v = 4096 * (l - 0x80000)"
    using page_ok_V2P[OF assms] by (simp add: l KERNBASE_def diff_mult_distrib2)
  moreover have "0x80000 \<le> l" "l < 0x80000 + 0xE000" using v(2,3) unfolding l consts_defs by simp_all
  ultimately show ?thesis using that[of "l - 0x80000"] by (simp add: l consts_defs)
qed

lemma V2P_aligned: "page_ok s v \<Longrightarrow> V2P v mod 4096 = 0"
  by (erule page_ok_phys) simp

lemma PD_PT_eq:
  assumes "va < 4294967296" and "vb < 4294967296"
  shows "PDX va = PDX vb \<and> PTX va = PTX vb \<longleftrightarrow> va div 4096 = vb div 4096"
proof -
  have pd: "PDX v = v div 4096 div 1024" if "v < 4294967296" for v
    using that div_mult2_eq[of v 4096 1024] less_mult_imp_div_less[of v 1024 4194304] by (simp add: PDX_def)
  show ?thesis unfolding pd[OF assms(1)] pd[OF assms(2)] PTX_def by (metis div_mult_mod_eq)
qed

section \<open>The meaning of a page directory\<close>

definition pde :: "'a kmem_state_scheme \<Rightarrow> nat \<Rightarrow> nat \<Rightarrow> nat" where
  "pde s pgdir i = get32 (mem s) (pgdir + 4 * i)"

definition table :: "'a kmem_state_scheme \<Rightarrow> nat \<Rightarrow> nat \<Rightarrow> nat" where
  "table s pgdir i = P2V (PTE_ADDR (pde s pgdir i))"

text \<open>The entry for an address, 0 where there is no page table.\<close>

definition pte_at :: "'a kmem_state_scheme \<Rightarrow> nat \<Rightarrow> nat \<Rightarrow> nat" where
  "pte_at s pgdir va =
     (if present (pde s pgdir (PDX va)) then get32 (mem s) (table s pgdir (PDX va) + 4 * PTX va) else 0)"

text \<open>
  A well-formed directory beside a pool of free pages: the directory and its tables are distinct
  pages of the allocator's memory, none of them free.
\<close>

definition pt_wf :: "'a kmem_state_scheme \<Rightarrow> nat \<Rightarrow> nat list \<Rightarrow> bool" where
  "pt_wf s pgdir vs \<longleftrightarrow> pool s vs \<and> page_ok s pgdir \<and> pgdir \<notin> set vs \<and>
     (\<forall>i<1024. present (pde s pgdir i) \<longrightarrow>
        page_ok s (table s pgdir i) \<and> table s pgdir i \<noteq> pgdir \<and> table s pgdir i \<notin> set vs \<and>
        (\<forall>j<1024. present (pde s pgdir j) \<longrightarrow> table s pgdir i = table s pgdir j \<longrightarrow> i = j))"

text \<open>The pages that hold the structure itself.\<close>

definition pt_page :: "'a kmem_state_scheme \<Rightarrow> nat \<Rightarrow> nat \<Rightarrow> bool" where
  "pt_page s pgdir v \<longleftrightarrow> v = pgdir \<or> (\<exists>i<1024. present (pde s pgdir i) \<and> v = table s pgdir i)"

lemma PDX_less [simp]: "PDX va < 1024" and PTX_less [simp]: "PTX va < 1024"
  by (simp_all add: PDX_def PTX_def)

text \<open>Words inside pages.\<close>

lemma word_in_page: "i < 1024 \<Longrightarrow> k < 4 \<Longrightarrow> in_page v (v + 4 * i + k)"
  by (simp add: in_page_def PGSIZE_def)

lemma get32_other_page:
  assumes "\<And>a. in_page v a \<Longrightarrow> m' a = m a" and "i < 1024"
  shows "get32 m' (v + 4 * i) = get32 m (v + 4 * i)"
  using assms word_in_page by (intro get32_congI) blast

lemma put32_outside:
  assumes "v mod PGSIZE = 0" and "w mod PGSIZE = 0" and "v \<noteq> w" and "i < 1024" and "in_page w a"
  shows "put32 (v + 4 * i) x m a = m a"
proof (rule put32_apply_other, rule ccontr)
  assume "\<not> (a < v + 4 * i \<or> v + 4 * i + 4 \<le> a)"
  then have "in_page v a" using assms(4) by (auto simp: in_page_def PGSIZE_def)
  then show False using pages_disjoint[OF assms(1,2)] assms(3,5) by blast
qed

lemma get32_put32_page:
  assumes "i < 1024" and "j < 1024"
  shows "get32 (put32 (v + 4 * i) x m) (v + 4 * j) = (if i = j then x mod 4294967296 else get32 m (v + 4 * j))"
  by (cases "i = j") (auto intro!: get32_put32_other)

lemma get32_memset_page:
  assumes "i < 1024"
  shows "get32 (memset m v 0 PGSIZE) (v + 4 * i) = 0"
  using assms by (simp add: get32_def memset_at PGSIZE_def)

lemma page_ok_aligned: "page_ok s v \<Longrightarrow> v mod PGSIZE = 0"
  by (simp add: page_ok_def)

lemma page_ok_cong: "kend t = kend s \<Longrightarrow> page_ok t v = page_ok s v"
  by (simp add: page_ok_def)

text \<open>States that agree on the structure's own pages give every address the same entry.\<close>

lemma pt_wf_page: "pt_wf s pgdir vs \<Longrightarrow> pt_page s pgdir v \<Longrightarrow> page_ok s v \<and> v \<notin> set vs"
  by (auto simp: pt_wf_def pt_page_def)

lemma pt_page_pgdir: "pt_page s pgdir pgdir"
  by (simp add: pt_page_def)

lemma pt_page_table: "present (pde s pgdir (PDX va)) \<Longrightarrow> pt_page s pgdir (table s pgdir (PDX va))"
  unfolding pt_page_def using PDX_less by blast

lemma pt_frame:
  assumes wf: "pt_wf s pgdir vs" and "kend t = kend s" and "freelist t = freelist s"
    and agree: "\<And>a. mem t a \<noteq> mem s a \<Longrightarrow> \<exists>v. v mod PGSIZE = 0 \<and> in_page v a \<and> \<not> pt_page s pgdir v \<and> v \<notin> set vs"
  shows "pt_wf t pgdir vs" and "\<And>va. pte_at t pgdir va = pte_at s pgdir va"
    and "\<And>i. i < 1024 \<Longrightarrow> pde t pgdir i = pde s pgdir i"
proof -
  have same: "mem t a = mem s a" if "in_page v a" "pt_page s pgdir v" for v a
  proof (rule ccontr)
    assume ne: "mem t a \<noteq> mem s a"
    obtain w where w: "w mod PGSIZE = 0" "in_page w a" "\<not> pt_page s pgdir w"
      using agree[OF ne] by (elim exE conjE) (rule that)
    have "w = v"
      using pages_disjoint[OF w(1) _ w(2) that(1)] pt_wf_page[OF wf that(2)] by (simp add: page_ok_def)
    then show False using w(3) that(2) by simp
  qed
  show d: "pde t pgdir i = pde s pgdir i" if "i < 1024" for i
    unfolding pde_def by (rule get32_other_page[OF _ that]) (rule same[OF _ pt_page_pgdir])
  have tab: "table t pgdir i = table s pgdir i" if "i < 1024" for i
    using d[OF that] by (simp add: table_def)
  show "pte_at t pgdir va = pte_at s pgdir va" for va
    unfolding pte_at_def d[OF PDX_less] tab[OF PDX_less]
    by (auto intro!: get32_other_page same pt_page_table)
  have "pool t vs"
  proof (rule pool_frame)
    show "pool s vs" using wf by (simp add: pt_wf_def)
    show "\<exists>v. v \<notin> set vs \<and> v mod PGSIZE = 0 \<and> in_page v a" if "mem t a \<noteq> mem s a" for a
      using agree[OF that] by metis
  qed (fact assms)+
  then show "pt_wf t pgdir vs"
    using wf d tab unfolding pt_wf_def by (simp add: page_ok_cong[OF assms(2)])
qed

section \<open>Walking\<close>

lemma walkpgdir_present:
  "present (pde s pgdir (PDX va)) \<Longrightarrow> walkpgdir pgdir va al s = (table s pgdir (PDX va) + 4 * PTX va, s)"
  by (simp add: walkpgdir_def Let_def pde_def table_def and_PTE_P)

lemma walkpgdir_absent: "\<not> present (pde s pgdir (PDX va)) \<Longrightarrow> walkpgdir pgdir va False s = (0, s)"
  by (simp add: walkpgdir_def Let_def pde_def and_PTE_P)

lemma table_entry:
  assumes "page_ok s v"
  shows "present (V2P v OR PTE_P OR PTE_W OR PTE_U)" and "P2V (PTE_ADDR (V2P v OR PTE_P OR PTE_W OR PTE_U)) = v"
    and "V2P v OR PTE_P OR PTE_W OR PTE_U < 4294967296"
proof -
  have e: "V2P v OR PTE_P OR PTE_W OR PTE_U = V2P v OR 7" by (simp add: consts_defs or.assoc)
  obtain k where k: "V2P v = 4096 * k" "V2P v + 4096 \<le> PHYSTOP" using page_ok_phys[OF assms] by metis
  have s: "V2P v OR 7 = V2P v + 7" using k(1) by (intro or_aligned) simp_all
  show "present (V2P v OR PTE_P OR PTE_W OR PTE_U)" unfolding e s present_def by (simp add: k)
  show "V2P v OR PTE_P OR PTE_W OR PTE_U < 4294967296" using k(2) unfolding e s by (simp add: consts_defs)
  show "P2V (PTE_ADDR (V2P v OR PTE_P OR PTE_W OR PTE_U)) = v"
    unfolding e using PTE_parts(1)[of "V2P v" 7] V2P_P2V[OF assms] k(1) by simp
qed

lemma walkpgdir_alloc:
  assumes wf: "pt_wf s pgdir (v # vs)" and absent: "\<not> present (pde s pgdir (PDX va))"
  obtains t where "walkpgdir pgdir va True s = (v + 4 * PTX va, t)" and "pt_wf t pgdir vs"
    and "kend t = kend s" and "\<And>vb. pte_at t pgdir vb = pte_at s pgdir vb"
    and "\<And>i. i < 1024 \<Longrightarrow> present (pde t pgdir i) \<longleftrightarrow> present (pde s pgdir i) \<or> i = PDX va"
    and "\<And>i. i < 1024 \<Longrightarrow> table t pgdir i = (if i = PDX va then v else table s pgdir i)"
    and "\<And>a. mem t a \<noteq> mem s a \<Longrightarrow> in_page pgdir a \<or> in_page v a"
proof -
  define E where "E = (V2P v OR PTE_P OR PTE_W OR PTE_U)"
  define m where "m = put32 (pgdir + 4 * PDX va) E (memset (mem s) v 0 PGSIZE)"
  define t where "t = s\<lparr>freelist := get32 (mem s) v, mem := m\<rparr>"
  have pl: "pool s (v # vs)" using wf by (simp add: pt_wf_def)
  note kc = kalloc_Cons[OF pl]
  have walk: "walkpgdir pgdir va True s = (v + 4 * PTX va, t)"
    using absent kc(1,5) by (simp add: walkpgdir_def Let_def pde_def and_PTE_P t_def m_def E_def)
  note E = table_entry[OF kc(3), folded E_def]
  have al: "v mod PGSIZE = 0" "pgdir mod PGSIZE = 0" "pgdir \<noteq> v" "page_ok s pgdir"
    using wf kc(3) by (auto simp: pt_wf_def page_ok_def)
  have clean: "memset (mem s) v 0 PGSIZE a = mem s a" if "w mod PGSIZE = 0" "w \<noteq> v" "in_page w a" for w a
  proof -
    have "\<not> in_page v a" using pages_disjoint[OF al(1) that(1) _ that(3)] that(2) by blast
    then show ?thesis by (auto simp: memset_at in_page_def)
  qed
  have d: "pde t pgdir i = (if i = PDX va then E else pde s pgdir i)" if "i < 1024" for i
    using get32_put32_page[OF PDX_less that] get32_other_page[OF clean[OF al(2,3)] that] E(3)
    by (simp add: pde_def t_def m_def)
  have tab: "table t pgdir i = (if i = PDX va then v else table s pgdir i)" if "i < 1024" for i
    using d[OF that] E(2) by (simp add: table_def)
  have pres: "present (pde t pgdir i) \<longleftrightarrow> present (pde s pgdir i) \<or> i = PDX va" if "i < 1024" for i
    using d[OF that] E(1) by simp
  have out: "m a = memset (mem s) v 0 PGSIZE a" if "in_page w a" "w mod PGSIZE = 0" "w \<noteq> pgdir" for w a
    unfolding m_def by (rule put32_outside[OF al(2) that(2) that(3)[symmetric] PDX_less that(1)])
  have old: "page_ok s (table s pgdir i) \<and> table s pgdir i \<noteq> pgdir \<and> table s pgdir i \<noteq> v"
    if "i < 1024" "present (pde s pgdir i)" for i using wf that by (auto simp: pt_wf_def)
  have entries: "pte_at t pgdir vb = pte_at s pgdir vb" for vb
  proof (cases "PDX vb = PDX va")
    case True
    have "get32 m (v + 4 * PTX vb) = get32 (memset (mem s) v 0 PGSIZE) (v + 4 * PTX vb)"
      by (rule get32_other_page[OF _ PTX_less]) (rule out[OF _ al(1) al(3)[symmetric]])
    then show ?thesis
      using True absent pres[OF PDX_less] tab[OF PDX_less] get32_memset_page[OF PTX_less]
      by (simp add: pte_at_def t_def)
  next
    case False
    show ?thesis
    proof (cases "present (pde s pgdir (PDX vb))")
      case True
      note o = old[OF PDX_less True]
      have "get32 m (table s pgdir (PDX vb) + 4 * PTX vb) = get32 (mem s) (table s pgdir (PDX vb) + 4 * PTX vb)"
      proof (rule get32_other_page[OF _ PTX_less])
        fix a
        assume a: "in_page (table s pgdir (PDX vb)) a"
        have "table s pgdir (PDX vb) mod PGSIZE = 0" using o by (simp add: page_ok_def)
        then show "m a = mem s a" using out[OF a] clean[OF _ _ a] o by simp
      qed
      then show ?thesis using True False pres[OF PDX_less] tab[OF PDX_less] by (simp add: pte_at_def t_def)
    next
      case no: False
      then show ?thesis using False pres[OF PDX_less] by (simp add: pte_at_def)
    qed
  qed
  have chg: "in_page pgdir a \<or> in_page v a" if "mem t a \<noteq> mem s a" for a
  proof (rule ccontr)
    assume n: "\<not> (in_page pgdir a \<or> in_page v a)"
    then have "a < pgdir + 4 * PDX va \<or> pgdir + 4 * PDX va + 4 \<le> a"
      using PDX_less[of va] unfolding in_page_def PGSIZE_def by linarith
    then have "mem t a = mem s a" using n by (auto simp: t_def m_def put32_apply_other memset_at in_page_def)
    then show False using that by simp
  qed
  have "pool t vs"
  proof (rule pool_frame[OF kc(2)])
    show "\<exists>w. w \<notin> set vs \<and> w mod PGSIZE = 0 \<and> in_page w a" if "mem t a \<noteq> mem (snd (kalloc s)) a" for a
      using chg[of a] that kc(1,4) al wf by (auto simp: pt_wf_def)
  qed (simp_all add: t_def kc(1))
  moreover have "page_ok t w = page_ok s w" for w by (simp add: t_def page_ok_def)
  ultimately have "pt_wf t pgdir vs"
    using wf kc(3,4) al(3) unfolding pt_wf_def by (simp add: pres tab) auto
  then show ?thesis using that walk entries pres tab chg by (simp add: t_def)
qed

text \<open>
  The step relation of page table operations: pages \<open>us\<close> leave the pool, the structure grows at most
  by them, and memory changes only inside the structure and those pages.
\<close>

definition pt_step :: "nat \<Rightarrow> 'a kmem_state_scheme \<Rightarrow> nat list \<Rightarrow> 'a kmem_state_scheme \<Rightarrow> nat list \<Rightarrow> bool" where
  "pt_step pgdir s vs t ws \<longleftrightarrow> pt_wf t pgdir ws \<and> kend t = kend s \<and> (\<exists>us. vs = us @ ws \<and>
     (\<forall>v. pt_page s pgdir v \<longrightarrow> pt_page t pgdir v) \<and>
     (\<forall>v. pt_page t pgdir v \<longrightarrow> pt_page s pgdir v \<or> v \<in> set us) \<and>
     (\<forall>a. mem t a \<noteq> mem s a \<longrightarrow> (\<exists>v. (pt_page s pgdir v \<or> v \<in> set us) \<and> in_page v a)))"

lemma pt_stepI:
  assumes "pt_wf t pgdir ws" and "kend t = kend s" and "vs = us @ ws"
    and "\<And>v. pt_page s pgdir v \<Longrightarrow> pt_page t pgdir v"
    and "\<And>v. pt_page t pgdir v \<Longrightarrow> pt_page s pgdir v \<or> v \<in> set us"
    and "\<And>a. mem t a \<noteq> mem s a \<Longrightarrow> \<exists>v. (pt_page s pgdir v \<or> v \<in> set us) \<and> in_page v a"
  shows "pt_step pgdir s vs t ws"
  unfolding pt_step_def using assms by blast

lemma pt_step_refl: "pt_wf s pgdir vs \<Longrightarrow> pt_step pgdir s vs s vs"
  by (rule pt_stepI[where us = "[]"]) auto

lemma pt_step_trans:
  assumes "pt_step pgdir r vs s ws" and "pt_step pgdir s ws t xs"
  shows "pt_step pgdir r vs t xs"
proof -
  obtain us where u: "vs = us @ ws" "\<And>v. pt_page r pgdir v \<Longrightarrow> pt_page s pgdir v"
    "\<And>v. pt_page s pgdir v \<Longrightarrow> pt_page r pgdir v \<or> v \<in> set us"
    "\<And>a. mem s a \<noteq> mem r a \<Longrightarrow> \<exists>v. (pt_page r pgdir v \<or> v \<in> set us) \<and> in_page v a"
    using assms(1) unfolding pt_step_def by blast
  obtain us' where u': "ws = us' @ xs" "\<And>v. pt_page s pgdir v \<Longrightarrow> pt_page t pgdir v"
    "\<And>v. pt_page t pgdir v \<Longrightarrow> pt_page s pgdir v \<or> v \<in> set us'"
    "\<And>a. mem t a \<noteq> mem s a \<Longrightarrow> \<exists>v. (pt_page s pgdir v \<or> v \<in> set us') \<and> in_page v a"
    using assms(2) unfolding pt_step_def by blast
  show ?thesis
  proof (rule pt_stepI[where us = "us @ us'"])
    show "pt_wf t pgdir xs" "kend t = kend r" "vs = (us @ us') @ xs"
      using assms u(1) u'(1) by (auto simp: pt_step_def)
    show "pt_page r pgdir v \<Longrightarrow> pt_page t pgdir v" for v using u(2) u'(2) by blast
    show "pt_page t pgdir v \<Longrightarrow> pt_page r pgdir v \<or> v \<in> set (us @ us')" for v using u(3) u'(3) by auto
    show "\<exists>v. (pt_page r pgdir v \<or> v \<in> set (us @ us')) \<and> in_page v a" if "mem t a \<noteq> mem r a" for a
    proof (cases "mem s a = mem r a")
      case True
      then show ?thesis using u'(4)[of a] that u(3) by fastforce
    next
      case False
      then show ?thesis using u(4)[of a] by auto
    qed
  qed
qed

lemma pt_step_wf: "pt_step pgdir s vs t ws \<Longrightarrow> pt_wf t pgdir ws"
  by (simp add: pt_step_def)

lemma walkpgdir_Ok:
  assumes wf: "pt_wf s pgdir vs" and room: "present (pde s pgdir (PDX va)) \<or> vs \<noteq> []"
  obtains t ws where "walkpgdir pgdir va True s = (table t pgdir (PDX va) + 4 * PTX va, t)"
    and "pt_step pgdir s vs t ws" and "length vs \<le> length ws + 1"
    and "present (pde t pgdir (PDX va))" and "\<And>vb. pte_at t pgdir vb = pte_at s pgdir vb"
proof (cases "present (pde s pgdir (PDX va))")
  case True
  show ?thesis by (rule that[OF walkpgdir_present[OF True] pt_step_refl[OF wf] _ True]) simp_all
next
  case False
  then obtain v ws where vs: "vs = v # ws" using room by (cases vs) auto
  obtain t where t: "walkpgdir pgdir va True s = (v + 4 * PTX va, t)" "pt_wf t pgdir ws" "kend t = kend s"
    "\<And>vb. pte_at t pgdir vb = pte_at s pgdir vb"
    "\<And>i. i < 1024 \<Longrightarrow> present (pde t pgdir i) \<longleftrightarrow> present (pde s pgdir i) \<or> i = PDX va"
    "\<And>i. i < 1024 \<Longrightarrow> table t pgdir i = (if i = PDX va then v else table s pgdir i)"
    "\<And>a. mem t a \<noteq> mem s a \<Longrightarrow> in_page pgdir a \<or> in_page v a"
    by (rule walkpgdir_alloc[OF wf[unfolded vs] False]) (rule that)
  have pg: "pt_page t pgdir w \<longleftrightarrow> pt_page s pgdir w \<or> w = v" for w
  proof -
    have "(\<exists>i<1024. present (pde t pgdir i) \<and> w = table t pgdir i) \<longleftrightarrow>
      (\<exists>i<1024. present (pde s pgdir i) \<and> w = table s pgdir i) \<or> w = v"
      using t(5,6) False PDX_less[of va] by metis
    then show ?thesis unfolding pt_page_def by blast
  qed
  have "pt_step pgdir s vs t ws"
  proof (rule pt_stepI[where us = "[v]", OF t(2,3)])
    show "\<exists>w. (pt_page s pgdir w \<or> w \<in> set [v]) \<and> in_page w a" if "mem t a \<noteq> mem s a" for a
      using t(7)[OF that] pt_page_pgdir[of s pgdir] by auto
  qed (simp_all add: pg vs)
  then show ?thesis using that[of t ws] t(1,4) t(5,6)[OF PDX_less] vs by simp
qed

section \<open>Setting an entry\<close>

lemma write_pte:
  fixes x :: nat
  assumes wf: "pt_wf s pgdir vs" and pres: "present (pde s pgdir (PDX va))"
  defines "t \<equiv> s\<lparr>mem := put32 (table s pgdir (PDX va) + 4 * PTX va) x (mem s)\<rparr>"
  shows "pt_step pgdir s vs t vs"
    and "pte_at t pgdir vb = (if PDX vb = PDX va \<and> PTX vb = PTX va then x mod 4294967296 else pte_at s pgdir vb)"
proof -
  let ?T = "table s pgdir (PDX va)"
  have T: "page_ok s ?T" "?T \<noteq> pgdir" "?T \<notin> set vs" using wf pres PDX_less by (auto simp: pt_wf_def)
  have al: "?T mod PGSIZE = 0" "pgdir mod PGSIZE = 0" using T(1) wf by (auto simp: pt_wf_def page_ok_def)
  have out: "mem t a = mem s a" if "in_page w a" "w mod PGSIZE = 0" "?T \<noteq> w" for w a
    using put32_outside[OF al(1) that(2,3) PTX_less that(1)] by (simp add: t_def)
  have d: "pde t pgdir i = pde s pgdir i" if "i < 1024" for i
    unfolding pde_def by (rule get32_other_page[OF _ that]) (rule out[OF _ al(2) T(2)])
  have tab: "table t pgdir i = table s pgdir i" if "i < 1024" for i using d[OF that] by (simp add: table_def)
  have uniq: "table s pgdir i = ?T \<Longrightarrow> i = PDX va" if "i < 1024" "present (pde s pgdir i)" for i
    using wf that pres PDX_less unfolding pt_wf_def by metis
  have tal: "table s pgdir i mod PGSIZE = 0" if "i < 1024" "present (pde s pgdir i)" for i
    using wf that by (auto simp: pt_wf_def page_ok_def)
  show "pte_at t pgdir vb = (if PDX vb = PDX va \<and> PTX vb = PTX va then x mod 4294967296 else pte_at s pgdir vb)"
  proof (cases "PDX vb = PDX va")
    case True
    then show ?thesis
      using pres d[OF PDX_less] tab[OF PDX_less] get32_put32_page[OF PTX_less PTX_less, of ?T va x "mem s" vb]
      by (simp add: pte_at_def t_def)
  next
    case False
    show ?thesis
    proof (cases "present (pde s pgdir (PDX vb))")
      case True
      have ne: "?T \<noteq> table s pgdir (PDX vb)" using uniq[OF PDX_less True] False by metis
      have "get32 (mem t) (table s pgdir (PDX vb) + 4 * PTX vb) = get32 (mem s) (table s pgdir (PDX vb) + 4 * PTX vb)"
        by (rule get32_other_page[OF _ PTX_less]) (rule out[OF _ tal[OF PDX_less True] ne])
      then show ?thesis using False True d[OF PDX_less] tab[OF PDX_less] by (simp add: pte_at_def)
    next
      case no: False
      then show ?thesis using False d[OF PDX_less] by (simp add: pte_at_def)
    qed
  qed
  have chg: "in_page ?T a" if "mem t a \<noteq> mem s a" for a
  proof (rule ccontr)
    assume "\<not> in_page ?T a"
    then have "a < ?T + 4 * PTX va \<or> ?T + 4 * PTX va + 4 \<le> a"
      using PTX_less[of va] unfolding in_page_def PGSIZE_def by linarith
    then show False using that by (simp add: t_def put32_apply_other)
  qed
  have "pool t vs"
  proof (rule pool_frame)
    show "pool s vs" using wf by (simp add: pt_wf_def)
    show "\<exists>w. w \<notin> set vs \<and> w mod PGSIZE = 0 \<and> in_page w a" if "mem t a \<noteq> mem s a" for a
      using chg[OF that] T(3) al(1) by (intro exI[of _ ?T]) simp
  qed (simp_all add: t_def)
  moreover have k: "kend t = kend s" by (simp add: t_def)
  ultimately have "pt_wf t pgdir vs"
    using wf unfolding pt_wf_def by (simp add: d tab page_ok_cong[OF k])
  moreover have "pt_page t pgdir w = pt_page s pgdir w" for w unfolding pt_page_def by (auto simp: d tab)
  ultimately show "pt_step pgdir s vs t vs"
    using chg pt_page_table[OF pres] by (intro pt_stepI[where us = "[]"] k) (auto intro!: exI[of _ ?T])
qed

section \<open>Mapping\<close>

lemma leaf_entry:
  assumes "pa mod 4096 = 0" and "perm < 4096" and "pa < 4294967296"
  shows "(pa OR perm OR PTE_P) mod 4294967296 = pa OR perm OR PTE_P" and "present (pa OR perm OR PTE_P)"
    and "PTE_ADDR (pa OR perm OR PTE_P) = pa" and "PTE_FLAGS (pa OR perm OR PTE_P) = perm OR PTE_P"
proof -
  have f: "perm OR PTE_P < 4096" using assms(2) by (intro or_flags_less) (simp_all add: PTE_P_def)
  obtain k where k: "pa = 4096 * k" using assms(1) by auto
  then have "pa + 4096 \<le> 4294967296" using assms(3) by simp
  then show "(pa OR perm OR PTE_P) mod 4294967296 = pa OR perm OR PTE_P"
    using f unfolding or_aligned[OF assms(1) f] by simp
  show "present (pa OR perm OR PTE_P)" by (simp add: present_def PTE_P_def even_or_iff)
  show "PTE_ADDR (pa OR perm OR PTE_P) = pa" "PTE_FLAGS (pa OR perm OR PTE_P) = perm OR PTE_P"
    using PTE_parts[OF assms(1) f] by auto
qed

lemma page_number:
  assumes "va < 4294967296" and "n < 1048576"
  shows "PDX va = PDX (n * PGSIZE) \<and> PTX va = PTX (n * PGSIZE) \<longleftrightarrow> va div PGSIZE = n"
  using PD_PT_eq[OF assms(1), of "n * 4096"] assms(2) by (simp add: PGSIZE_def)

text \<open>\<open>f\<close> gives the new entry of a page from its number and its old entry.\<close>

definition maps :: "nat \<Rightarrow> (nat \<Rightarrow> nat \<Rightarrow> nat) \<Rightarrow> 'a kmem_state_scheme \<Rightarrow> nat list \<Rightarrow> 'a kmem_state_scheme \<Rightarrow> nat list \<Rightarrow> bool" where
  "maps pgdir f s vs t ws \<longleftrightarrow> pt_step pgdir s vs t ws \<and>
     (\<forall>va<4294967296. pte_at t pgdir va = f (va div PGSIZE) (pte_at s pgdir va))"

lemma maps_trans:
  assumes "maps pgdir f r vs s ws" and "maps pgdir g s ws t xs"
    and "\<And>n e. n < 1048576 \<Longrightarrow> g n (f n e) = h n e"
  shows "maps pgdir h r vs t xs"
proof -
  have "va div PGSIZE < 1048576" if "va < 4294967296" for va
    using that less_mult_imp_div_less[of va 1048576 4096] by (simp add: PGSIZE_def)
  then show ?thesis
    using assms pt_step_trans[of pgdir r vs s ws t xs] by (simp add: maps_def)
qed

lemma maps_wf: "maps pgdir f s vs t ws \<Longrightarrow> pt_wf t pgdir ws"
  unfolding maps_def by (blast dest: pt_step_wf)

lemma map_one:
  assumes wf: "pt_wf s pgdir vs" and room: "vs \<noteq> []" and n: "n < 1048576"
    and absent: "\<not> present (pte_at s pgdir (n * PGSIZE))"
  shows "\<exists>t ws pte. walkpgdir pgdir (n * PGSIZE) True s = (pte, t) \<and> pte \<noteq> 0 \<and> \<not> present (get32 (mem t) pte)
    \<and> length vs \<le> length ws + 1
    \<and> maps pgdir (\<lambda>m e. if m = n then x mod 4294967296 else e) s vs (t\<lparr>mem := put32 pte x (mem t)\<rparr>) ws"
proof -
  let ?va = "n * PGSIZE"
  obtain t ws where t: "walkpgdir pgdir ?va True s = (table t pgdir (PDX ?va) + 4 * PTX ?va, t)"
    "pt_step pgdir s vs t ws" "length vs \<le> length ws + 1"
    "present (pde t pgdir (PDX ?va))" "\<And>vb. pte_at t pgdir vb = pte_at s pgdir vb"
    by (rule walkpgdir_Ok[OF wf disjI2[OF room]]) (rule that)
  note wf' = pt_step_wf[OF t(2)]
  let ?T = "table t pgdir (PDX ?va)"
  have "page_ok t ?T" using wf' t(4) PDX_less by (auto simp: pt_wf_def)
  then have "?T + 4 * PTX ?va \<noteq> 0" using page_ok_less by auto
  moreover have "\<not> present (get32 (mem t) (?T + 4 * PTX ?va))"
    using t(4) absent[folded t(5)] by (simp add: pte_at_def)
  moreover note w = write_pte[OF wf' t(4), of x]
  have "maps pgdir (\<lambda>m e. if m = n then x mod 4294967296 else e) s vs
      (t\<lparr>mem := put32 (?T + 4 * PTX ?va) x (mem t)\<rparr>) ws"
    unfolding maps_def using pt_step_trans[OF t(2) w(1)] w(2) page_number[OF _ n] t(5) by simp
  ultimately show ?thesis using t(1,3) by blast
qed

definition region :: "nat \<Rightarrow> nat \<Rightarrow> nat \<Rightarrow> nat \<Rightarrow> nat \<Rightarrow> nat \<Rightarrow> nat" where
  "region n k pa perm m e =
     (if n \<le> m \<and> m \<le> n + k then (pa + (m - n) * PGSIZE) OR perm OR PTE_P else e)"

lemma mappages_loop_Ok:
  assumes "pt_wf s pgdir vs" and "unat (alast - a) < length vs" and "unat a + unat (alast - a) < 1048576"
    and "pa mod 4096 = 0" and "pa + unat (alast - a) * PGSIZE < 4294967296" and "perm < 4096"
    and "\<And>k. k \<le> unat (alast - a) \<Longrightarrow> \<not> present (pte_at s pgdir ((unat a + k) * PGSIZE))"
  shows "\<exists>t ws. mappages_loop pgdir a alast pa perm s = Ok (0, t)
    \<and> length vs \<le> length ws + Suc (unat (alast - a))
    \<and> maps pgdir (region (unat a) (unat (alast - a)) pa perm) s vs t ws"
  using assms
proof (induction "unat (alast - a)" arbitrary: a pa s vs)
  case 0
  then have eq: "a = alast" by (simp add: unat_eq_zero)
  let ?e = "pa OR perm OR PTE_P"
  obtain t ws pte where t: "walkpgdir pgdir (unat a * PGSIZE) True s = (pte, t)" "pte \<noteq> 0" "\<not> present (get32 (mem t) pte)"
    "length vs \<le> length ws + 1"
    "maps pgdir (\<lambda>m e. if m = unat a then ?e mod 4294967296 else e) s vs (t\<lparr>mem := put32 pte ?e (mem t)\<rparr>) ws"
    using map_one[OF 0(2), of "unat a" ?e] 0 by auto
  have "(\<lambda>m e. if m = unat a then ?e mod 4294967296 else e) = region (unat a) 0 pa perm"
    using leaf_entry(1)[of pa perm] 0 by (auto simp: region_def fun_eq_iff)
  then have "maps pgdir (region (unat a) 0 pa perm) s vs (t\<lparr>mem := put32 pte ?e (mem t)\<rparr>) ws" using t(5) by simp
  then show ?case
    using t(1-4) eq by (subst mappages_loop.simps) (auto simp: and_PTE_P)
next
  case (Suc n)
  let ?e = "pa OR perm OR PTE_P" and ?pb = "(pa + PGSIZE) mod 4294967296"
  have ne: "a \<noteq> alast" and nonempty: "vs \<noteq> []" using Suc(2,4) by auto
  have sub: "unat (alast - (a + 1)) = n"
  proof -
    have "unat (alast - a - 1) = unat (alast - a) - 1" using ne by (intro unat_minus_one) simp
    then show ?thesis using Suc(2) by (simp add: diff_diff_eq)
  qed
  have una: "unat (a + 1) = Suc (unat a)" using Suc(2,5) by (simp add: unat_word_ariths)
  have pb: "?pb = pa + PGSIZE" using Suc(2,7) by (simp add: PGSIZE_def)
  obtain t ws pte where t: "walkpgdir pgdir (unat a * PGSIZE) True s = (pte, t)" "pte \<noteq> 0" "\<not> present (get32 (mem t) pte)"
    "length vs \<le> length ws + 1"
    "maps pgdir (\<lambda>m e. if m = unat a then ?e mod 4294967296 else e) s vs (t\<lparr>mem := put32 pte ?e (mem t)\<rparr>) ws"
    using map_one[OF Suc(3) nonempty, of "unat a" ?e] Suc(5) Suc(9)[of 0] by auto
  let ?t = "t\<lparr>mem := put32 pte ?e (mem t)\<rparr>"
  have "\<exists>u xs. mappages_loop pgdir (a + 1) alast ?pb perm ?t = Ok (0, u)
    \<and> length ws \<le> length xs + Suc (unat (alast - (a + 1)))
    \<and> maps pgdir (region (unat (a + 1)) (unat (alast - (a + 1))) ?pb perm) ?t ws u xs"
  proof (rule Suc(1)[OF sub[symmetric] maps_wf[OF t(5)]])
    show "unat (alast - (a + 1)) < length ws" using Suc(2,4) t(4) sub by simp
    show "unat (a + 1) + unat (alast - (a + 1)) < 1048576" using Suc(2,5) sub una by simp
    show "?pb mod 4096 = 0" using Suc(6) unfolding pb by (simp add: PGSIZE_def)
    show "?pb + unat (alast - (a + 1)) * PGSIZE < 4294967296" using Suc(2,7) sub unfolding pb by (simp add: PGSIZE_def)
    show "perm < 4096" by (rule Suc(8))
    fix k
    assume k: "k \<le> unat (alast - (a + 1))"
    have "(unat (a + 1) + k) * PGSIZE < 4294967296" using k Suc(2,5) sub una by (simp add: PGSIZE_def)
    then have "pte_at ?t pgdir ((unat (a + 1) + k) * PGSIZE) = pte_at s pgdir ((unat a + Suc k) * PGSIZE)"
      using t(5) una by (simp add: maps_def PGSIZE_def)
    then show "\<not> present (pte_at ?t pgdir ((unat (a + 1) + k) * PGSIZE))"
      using Suc(9)[of "Suc k"] Suc(2) k sub by simp
  qed
  then obtain u xs where u: "mappages_loop pgdir (a + 1) alast ?pb perm ?t = Ok (0, u)" "length ws \<le> length xs + Suc n"
    "maps pgdir (region (Suc (unat a)) n (pa + PGSIZE) perm) ?t ws u xs" by (auto simp only: sub una pb)
  have "maps pgdir (region (unat a) (Suc n) pa perm) s vs u xs"
  proof (rule maps_trans[OF t(5) u(3)])
    fix m e
    have e: "?e mod 4294967296 = ?e" using leaf_entry(1)[of pa perm] Suc(6,7,8) by simp
    have eq: "pa + PGSIZE + (m - Suc (unat a)) * PGSIZE = pa + (m - unat a) * PGSIZE" if le: "Suc (unat a) \<le> m"
    proof -
      obtain d where "m = Suc (unat a) + d" using le le_Suc_ex by blast
      then show ?thesis by simp
    qed
    show "region (Suc (unat a)) n (pa + PGSIZE) perm m (if m = unat a then ?e mod 4294967296 else e)
      = region (unat a) (Suc n) pa perm m e"
    proof (cases "Suc (unat a) \<le> m")
      case True
      then show ?thesis unfolding region_def eq[OF True] by simp
    next
      case False
      then show ?thesis using e by (auto simp: region_def)
    qed
  qed
  moreover have "mappages_loop pgdir a alast pa perm s = Ok (0, u)"
    using t(1-3) u(1) ne by (subst mappages_loop.simps) (simp add: and_PTE_P)
  ultimately show ?case using t(4) u(2) Suc(2) by (intro exI[of _ u] exI[of _ xs]) simp
qed

text \<open>\<open>mappages\<close> on a page-aligned range inside the address space.\<close>

lemma mappages_Ok:
  assumes wf: "pt_wf s pgdir vs" and len: "k < length vs" and n: "n + k < 1048576"
    and pa: "pa mod 4096 = 0" "pa + k * PGSIZE < 4294967296" "perm < 4096"
    and absent: "\<And>i. i \<le> k \<Longrightarrow> \<not> present (pte_at s pgdir ((n + i) * PGSIZE))"
  shows "\<exists>t ws. mappages pgdir (n * PGSIZE) (Suc k * PGSIZE) pa perm s = Ok (0, t)
    \<and> length vs \<le> length ws + Suc k \<and> maps pgdir (region n k pa perm) s vs t ws"
proof -
  define a where "a = (of_nat n :: 20 word)"
  have ua: "unat a = n" using n by (simp add: a_def unat_of_nat)
  have e: "n * PGSIZE + Suc k * PGSIZE + 4294967295 = 4294967296 + (n + k) * PGSIZE + 4095"
    by (simp add: PGSIZE_def)
  have "((n + k) * PGSIZE + 4095) div PGSIZE = n + k" by (simp add: PGSIZE_def del: distrib_right_numeral)
  moreover have "(n + k) * PGSIZE + 4095 < 4294967296" using n by (simp add: PGSIZE_def)
  ultimately have l: "(n * PGSIZE + Suc k * PGSIZE + 4294967295) mod 4294967296 div PGSIZE = n + k"
    unfolding e by (simp only: add.assoc mod_add_self1 mod_less)
  have d: "unat (of_nat (n + k) - a) = k" using n by (simp add: a_def unat_of_nat)
  have m: "mappages pgdir (n * PGSIZE) (Suc k * PGSIZE) pa perm s = mappages_loop pgdir a (of_nat (n + k)) pa perm s"
    unfolding mappages_def l a_def by (simp add: PGSIZE_def)
  show ?thesis
    unfolding m
    by (rule mappages_loop_Ok[where a = a and alast = "of_nat (n + k)", unfolded d ua]) (use assms in auto)
qed

lemma mappages_page:
  assumes "pt_wf s pgdir vs" and "vs \<noteq> []" and "n < 1048576"
    and "pa mod 4096 = 0" and "pa < 4294967296" and "perm < 4096"
    and "\<not> present (pte_at s pgdir (n * PGSIZE))"
  shows "\<exists>t ws. mappages pgdir (n * PGSIZE) PGSIZE pa perm s = Ok (0, t)
    \<and> length vs \<le> length ws + 1 \<and> maps pgdir (region n 0 pa perm) s vs t ws"
  using mappages_Ok[OF assms(1), of 0 n pa perm] assms by simp

section \<open>Growing a process\<close>

text \<open>A page taken from the pool and filled is no part of the structure and leaves the entries alone.\<close>

lemma take_page:
  assumes wf: "pt_wf s pgdir (v # vs)" and m: "\<And>a. \<not> in_page v a \<Longrightarrow> m a = mem s a"
  defines "t \<equiv> (snd (kalloc s))\<lparr>mem := m\<rparr>"
  shows "pt_step pgdir s (v # vs) t vs" and "\<And>va. pte_at t pgdir va = pte_at s pgdir va" and "\<not> pt_page t pgdir v"
proof -
  have pl: "pool s (v # vs)" using wf by (simp add: pt_wf_def)
  note kc = kalloc_Cons[OF pl]
  let ?k = "snd (kalloc s)"
  have k: "mem ?k = mem s" "kend ?k = kend s" unfolding kc(1) by simp_all
  have d: "pde ?k pgdir i = pde s pgdir i" "table ?k pgdir i = table s pgdir i" "pte_at ?k pgdir i = pte_at s pgdir i"
    "pt_page ?k pgdir i = pt_page s pgdir i" for i
    by (simp_all add: pde_def table_def pte_at_def pt_page_def k)
  have wk: "pt_wf ?k pgdir vs" using wf kc(2) unfolding pt_wf_def by (simp add: d page_ok_cong[OF k(2)])
  have nv: "\<not> pt_page s pgdir v" "v \<notin> set vs" "v mod PGSIZE = 0"
    using pt_wf_page[OF wf] kc(3,4) by (auto simp: page_ok_def)
  have chg: "in_page v a" if "mem t a \<noteq> mem s a" for a using m[of a] that by (auto simp: t_def)
  have f: "pt_wf t pgdir vs" "\<And>va. pte_at t pgdir va = pte_at ?k pgdir va" "\<And>i. i < 1024 \<Longrightarrow> pde t pgdir i = pde ?k pgdir i"
  proof -
    have agree: "\<exists>w. w mod PGSIZE = 0 \<and> in_page w a \<and> \<not> pt_page ?k pgdir w \<and> w \<notin> set vs" if "mem t a \<noteq> mem ?k a" for a
      using chg[of a] that nv by (intro exI[of _ v]) (simp add: d k)
    have te: "kend t = kend ?k" "freelist t = freelist ?k" by (simp_all add: t_def)
    show "pt_wf t pgdir vs" by (rule pt_frame(1)[OF wk te agree])
    show "pte_at t pgdir va = pte_at ?k pgdir va" for va by (rule pt_frame(2)[OF wk te agree])
    show "pde t pgdir i = pde ?k pgdir i" if "i < 1024" for i by (rule pt_frame(3)[OF wk te agree that])
  qed
  have "table t pgdir i = table s pgdir i" if "i < 1024" for i using f(3)[OF that] d by (simp add: table_def)
  then have pg: "pt_page t pgdir w = pt_page s pgdir w" for w unfolding pt_page_def using f(3) d by auto
  show "pt_step pgdir s (v # vs) t vs"
    by (rule pt_stepI[where us = "[v]", OF f(1)]) (use chg pg in \<open>auto simp: t_def k\<close>)
  show "pte_at t pgdir va = pte_at s pgdir va" for va by (simp add: f(2) d)
  show "\<not> pt_page t pgdir v" using pg nv by simp
qed

text \<open>Pages outside the structure and the pool keep their bytes through a step.\<close>

lemma pt_step_page:
  assumes "pt_step pgdir s vs t ws" and "pt_wf s pgdir vs" and "\<not> pt_page s pgdir w" and "w \<notin> set vs" and "w mod PGSIZE = 0"
  shows "in_page w a \<Longrightarrow> mem t a = mem s a" and "\<not> pt_page t pgdir w" and "w \<notin> set ws"
proof -
  obtain us where u: "vs = us @ ws" "\<And>v. pt_page t pgdir v \<Longrightarrow> pt_page s pgdir v \<or> v \<in> set us"
    "\<And>a. mem t a \<noteq> mem s a \<Longrightarrow> \<exists>v. (pt_page s pgdir v \<or> v \<in> set us) \<and> in_page v a"
    using assms(1) unfolding pt_step_def by blast
  show "\<not> pt_page t pgdir w" using u(1) u(2)[of w] assms(3,4) by auto
  show "w \<notin> set ws" using assms(4) u(1) by simp
  assume a: "in_page w a"
  show "mem t a = mem s a"
  proof (rule ccontr)
    assume ne: "mem t a \<noteq> mem s a"
    obtain v where v: "pt_page s pgdir v \<or> v \<in> set us" "in_page v a" using u(3)[OF ne] by blast
    have "page_ok s v" using v(1) pt_wf_page[OF assms(2), of v] assms(2) u(1) by (auto simp: pt_wf_def pool_def)
    then have "v = w" using pages_disjoint[OF _ assms(5) v(2) a] by (simp add: page_ok_def)
    then show False using v(1) assms(3,4) u(1) by auto
  qed
qed

lemma pt_step_subset: "pt_step pgdir s vs t ws \<Longrightarrow> set ws \<subseteq> set vs"
  by (auto simp: pt_step_def)

definition user_entry :: "nat \<Rightarrow> nat" where
  "user_entry v = V2P v OR (PTE_W OR PTE_U) OR PTE_P"

text \<open>Fresh, zeroed, pairwise distinct pages \<open>g n, \<dots>, g (n + k - 1)\<close> behind the page numbers from \<open>n\<close> on.\<close>

definition grown :: "nat \<Rightarrow> nat \<Rightarrow> nat \<Rightarrow> (nat \<Rightarrow> nat) \<Rightarrow> 'a kmem_state_scheme \<Rightarrow> nat list \<Rightarrow> 'a kmem_state_scheme \<Rightarrow> nat list \<Rightarrow> bool" where
  "grown pgdir n k g s vs t ws \<longleftrightarrow>
     maps pgdir (\<lambda>m e. if n \<le> m \<and> m < n + k then user_entry (g m) else e) s vs t ws \<and> inj_on g {n..<n + k} \<and>
     (\<forall>m\<in>{n..<n + k}. g m \<in> set vs \<and> g m \<notin> set ws \<and> \<not> pt_page t pgdir (g m) \<and> (\<forall>a. in_page (g m) a \<longrightarrow> mem t a = 0))"

lemma allocuvm_page:
  assumes wf: "pt_wf s pgdir (v # vs)" and "vs \<noteq> []" and "n < 1048576" and "\<not> present (pte_at s pgdir (n * PGSIZE))"
  defines "s1 \<equiv> (snd (kalloc s))\<lparr>mem := memset (mem s) v 0 PGSIZE\<rparr>"
  shows "\<exists>t ws. mappages pgdir (n * PGSIZE) PGSIZE (V2P v) (PTE_W OR PTE_U) s1 = Ok (0, t) \<and>
    length vs \<le> length ws + 1 \<and> grown pgdir n 1 (\<lambda>_. v) s (v # vs) t ws"
proof -
  have ok: "page_ok s v" "v \<notin> set vs" using wf by (auto simp: pt_wf_def pool_def)
  have z: "memset (mem s) v 0 PGSIZE a = (if in_page v a then 0 else mem s a)" for a
    by (simp add: memset_at in_page_def)
  have tk: "pt_step pgdir s (v # vs) s1 vs" "\<And>va. pte_at s1 pgdir va = pte_at s pgdir va" "\<not> pt_page s1 pgdir v"
    unfolding s1_def by (rule take_page[OF wf], simp add: z)+
  obtain k where k: "V2P v = 4096 * k" "V2P v + 4096 \<le> PHYSTOP" using page_ok_phys[OF ok(1)] by metis
  have V: "V2P v mod 4096 = 0" "V2P v < 4294967296" using k by (simp_all add: consts_defs)
  obtain t ws where t: "mappages pgdir (n * PGSIZE) PGSIZE (V2P v) (PTE_W OR PTE_U) s1 = Ok (0, t)"
    "length vs \<le> length ws + 1" "maps pgdir (region n 0 (V2P v) (PTE_W OR PTE_U)) s1 vs t ws"
    using mappages_page[OF pt_step_wf[OF tk(1)] assms(2,3) V, of "PTE_W OR PTE_U"] assms(4) tk(2)
    by (auto simp: consts_defs)
  have st: "pt_step pgdir s1 vs t ws" using t(3) by (simp add: maps_def)
  note pg = pt_step_page[OF st pt_step_wf[OF tk(1)] tk(3) ok(2) page_ok_aligned[OF ok(1)]]
  have "maps pgdir (\<lambda>m e. if n \<le> m \<and> m < n + 1 then user_entry v else e) s (v # vs) t ws"
    using pt_step_trans[OF tk(1) st] t(3) tk(2) by (auto simp: maps_def region_def user_entry_def)
  moreover have "mem t a = 0" if "in_page v a" for a using pg(1)[OF that] that by (simp add: s1_def z)
  ultimately have "grown pgdir n 1 (\<lambda>_. v) s (v # vs) t ws" using pg(2,3) by (simp add: grown_def)
  then show ?thesis using t(1,2) by blast
qed

lemma grown_trans:
  assumes wf: "pt_wf s pgdir vs" and a: "grown pgdir n 1 g s vs t ws" and b: "grown pgdir (Suc n) k h t ws u xs"
  shows "grown pgdir n (Suc k) (\<lambda>m. if m = n then g n else h m) s vs u xs"
proof -
  let ?f = "\<lambda>m. if m = n then g n else h m"
  have A: "maps pgdir (\<lambda>m e. if n \<le> m \<and> m < n + 1 then user_entry (g m) else e) s vs t ws"
    "g n \<in> set vs" "g n \<notin> set ws" "\<not> pt_page t pgdir (g n)" "\<And>a. in_page (g n) a \<Longrightarrow> mem t a = 0"
    using a by (auto simp: grown_def)
  have B: "maps pgdir (\<lambda>m e. if Suc n \<le> m \<and> m < Suc n + k then user_entry (h m) else e) t ws u xs"
    "inj_on h {Suc n..<Suc n + k}" "\<And>m. m \<in> {Suc n..<Suc n + k} \<Longrightarrow> h m \<in> set ws \<and> h m \<notin> set xs \<and> \<not> pt_page u pgdir (h m)"
    "\<And>m a. m \<in> {Suc n..<Suc n + k} \<Longrightarrow> in_page (h m) a \<Longrightarrow> mem u a = 0"
    using b by (auto simp: grown_def)
  have sub: "set ws \<subseteq> set vs" using A(1) pt_step_subset[of pgdir s vs t ws] by (simp add: maps_def)
  have st: "pt_step pgdir t ws u xs" using B(1) by (simp add: maps_def)
  have al: "g n mod PGSIZE = 0" using wf A(2) by (auto simp: pt_wf_def pool_def page_ok_def)
  note pg = pt_step_page[OF st maps_wf[OF A(1)] A(4,3) al]
  have "maps pgdir (\<lambda>m e. if n \<le> m \<and> m < n + Suc k then user_entry (?f m) else e) s vs u xs"
    by (rule maps_trans[OF A(1) B(1)]) (auto simp: not_less_eq_eq dest: le_antisym)
  moreover have "inj_on ?f {n..<n + Suc k}"
  proof (rule inj_onI)
    fix i j
    assume "i \<in> {n..<n + Suc k}" "j \<in> {n..<n + Suc k}" and eq: "?f i = ?f j"
    then have r: "i = n \<or> i \<in> {Suc n..<Suc n + k}" "j = n \<or> j \<in> {Suc n..<Suc n + k}" by auto
    show "i = j"
    proof (cases "i = n \<or> j = n")
      case True
      then show ?thesis using r eq A(3) B(3) by (metis (full_types))
    next
      case False
      then show ?thesis using r eq inj_onD[OF B(2)] by simp
    qed
  qed
  moreover have "?f m \<in> set vs \<and> ?f m \<notin> set xs \<and> \<not> pt_page u pgdir (?f m) \<and> (\<forall>a. in_page (?f m) a \<longrightarrow> mem u a = 0)"
    if "m \<in> {n..<n + Suc k}" for m
  proof (cases "m = n")
    case True
    then show ?thesis using A(2,5) pg by simp
  next
    case False
    then have "m \<in> {Suc n..<Suc n + k}" using that by auto
    then show ?thesis using False B(3,4) sub by auto
  qed
  ultimately show ?thesis by (simp add: grown_def)
qed

lemma grown_0: "pt_wf s pgdir vs \<Longrightarrow> grown pgdir n 0 g s vs s vs"
  by (simp add: grown_def maps_def pt_step_refl)

lemma allocuvm_loop_Ok:
  assumes "pt_wf s pgdir vs" and "2 * k \<le> length vs" and "n + k \<le> 1048576"
    and "\<And>i. i < k \<Longrightarrow> (n + i) * PGSIZE < newsz" and "newsz \<le> (n + k) * PGSIZE"
    and "\<And>i. i < k \<Longrightarrow> \<not> present (pte_at s pgdir ((n + i) * PGSIZE))"
  shows "\<exists>t ws g. allocuvm_loop pgdir (n * PGSIZE) oldsz newsz s = Ok (newsz, t) \<and> grown pgdir n k g s vs t ws"
  using assms
proof (induction k arbitrary: n s vs)
  case 0
  then have "allocuvm_loop pgdir (n * PGSIZE) oldsz newsz s = Ok (newsz, s)" by (subst allocuvm_loop.simps) simp
  then show ?case using grown_0[OF 0(1)] by blast
next
  case (Suc k)
  have "Suc (Suc 0) \<le> length vs" using Suc(3) by simp
  then obtain v vs' where vs: "vs = v # vs'" "vs' \<noteq> []" by (auto simp: Suc_le_length_iff)
  note wf = Suc(2)[unfolded vs]
  have pl: "pool s (v # vs')" using wf by (simp add: pt_wf_def)
  note kc = kalloc_Cons[OF pl]
  let ?s1 = "(snd (kalloc s))\<lparr>mem := memset (mem s) v 0 PGSIZE\<rparr>"
  obtain t ws where t: "mappages pgdir (n * PGSIZE) PGSIZE (V2P v) (PTE_W OR PTE_U) ?s1 = Ok (0, t)"
    "length vs' \<le> length ws + 1" "grown pgdir n 1 (\<lambda>_. v) s vs t ws"
    using allocuvm_page[OF wf vs(2), of n] Suc(4) Suc(7)[of 0] vs(1) by auto
  have mp: "maps pgdir (\<lambda>m e. if n \<le> m \<and> m < n + 1 then user_entry v else e) s vs t ws" using t(3) by (simp add: grown_def)
  have "\<exists>u xs g. allocuvm_loop pgdir (Suc n * PGSIZE) oldsz newsz t = Ok (newsz, u) \<and> grown pgdir (Suc n) k g t ws u xs"
  proof (rule Suc(1)[OF maps_wf[OF mp]])
    show "2 * k \<le> length ws" using Suc(3) t(2) vs(1) by simp
    show "Suc n + k \<le> 1048576" using Suc(4) by simp
    show "(Suc n + i) * PGSIZE < newsz" if "i < k" for i using Suc(5)[of "Suc i"] that by simp
    show "newsz \<le> (Suc n + k) * PGSIZE" using Suc(6) by simp
    fix i
    assume i: "i < k"
    have "(Suc n + i) * PGSIZE < 4294967296" using i Suc(4) by (simp add: PGSIZE_def)
    then have "pte_at t pgdir ((Suc n + i) * PGSIZE) = pte_at s pgdir ((n + Suc i) * PGSIZE)"
      using mp by (simp add: maps_def PGSIZE_def)
    then show "\<not> present (pte_at t pgdir ((Suc n + i) * PGSIZE))" using Suc(7)[of "Suc i"] i by simp
  qed
  then obtain u xs g where u: "allocuvm_loop pgdir (Suc n * PGSIZE) oldsz newsz t = Ok (newsz, u)" "grown pgdir (Suc n) k g t ws u xs"
    by blast
  have "allocuvm_loop pgdir (n * PGSIZE) oldsz newsz s = allocuvm_loop pgdir (Suc n * PGSIZE) oldsz newsz t"
    using Suc(5)[of 0] t(1) kc(1,5) by (subst allocuvm_loop.simps) (simp add: add.commute)
  then show ?case using u(1) grown_trans[OF Suc(2) t(3) u(2)] by auto
qed

section \<open>Copying to user memory\<close>

text \<open>The kernel address behind a user address, and the pages a user program may be given.\<close>

definition frame_of :: "'a kmem_state_scheme \<Rightarrow> nat \<Rightarrow> nat \<Rightarrow> nat" where
  "frame_of s pgdir va = P2V (PTE_ADDR (pte_at s pgdir va))"

definition kaddr :: "'a kmem_state_scheme \<Rightarrow> nat \<Rightarrow> nat \<Rightarrow> nat" where
  "kaddr s pgdir va = frame_of s pgdir va + va mod PGSIZE"

definition user_page :: "'a kmem_state_scheme \<Rightarrow> nat \<Rightarrow> nat list \<Rightarrow> nat \<Rightarrow> bool" where
  "user_page s pgdir vs va \<longleftrightarrow> present (pte_at s pgdir va) \<and> pte_at s pgdir va AND PTE_U \<noteq> 0 \<and>
     page_ok s (frame_of s pgdir va) \<and> \<not> pt_page s pgdir (frame_of s pgdir va) \<and> frame_of s pgdir va \<notin> set vs"

lemma pte_at_page:
  assumes "va div PGSIZE = vb div PGSIZE"
  shows "pte_at s pgdir va = pte_at s pgdir vb"
proof -
  have "va div 4194304 = va div 4096 div 1024" "vb div 4194304 = vb div 4096 div 1024"
    by (simp_all flip: div_mult2_eq)
  then have "PDX va = PDX vb" "PTX va = PTX vb" using assms by (simp_all add: PDX_def PTX_def PGSIZE_def)
  then show ?thesis by (simp add: pte_at_def)
qed

lemma PGROUNDDOWN_div [simp]: "PGROUNDDOWN va div PGSIZE = va div PGSIZE"
  by (simp add: PGROUNDDOWN_def PGSIZE_def)

lemma PGROUNDDOWN_mod: "va - PGROUNDDOWN va = va mod PGSIZE"
  by (simp add: PGROUNDDOWN_def minus_div_mult_eq_mod)

lemma uva2ka_user:
  assumes wf: "pt_wf s pgdir vs" and u: "user_page s pgdir vs va"
  shows "uva2ka pgdir (PGROUNDDOWN va) s = Ok (frame_of s pgdir va)" and "frame_of s pgdir va \<noteq> 0"
proof -
  have e: "pte_at s pgdir (PGROUNDDOWN va) = pte_at s pgdir va" by (rule pte_at_page) simp
  let ?v = "PGROUNDDOWN va"
  have p: "present (pde s pgdir (PDX ?v))" using u e by (auto simp: user_page_def pte_at_def present_def split: if_splits)
  have "page_ok s (table s pgdir (PDX ?v))" using wf p PDX_less by (auto simp: pt_wf_def)
  then have nz: "table s pgdir (PDX ?v) + 4 * PTX ?v \<noteq> 0" using page_ok_less by auto
  show "uva2ka pgdir ?v s = Ok (frame_of s pgdir va)"
    using u p e nz walkpgdir_present[OF p, of False]
    by (simp add: uva2ka_def user_page_def frame_of_def pte_at_def and_PTE_P Let_def)
  show "frame_of s pgdir va \<noteq> 0" using u page_ok_less by (auto simp: user_page_def)
qed

text \<open>A write inside a user page changes no entry and no page of the structure.\<close>

lemma user_write:
  assumes wf: "pt_wf s pgdir vs" and u: "user_page s pgdir vs va"
    and m: "\<forall>a. \<not> in_page (frame_of s pgdir va) a \<longrightarrow> m a = mem s a"
  defines "t \<equiv> s\<lparr>mem := m\<rparr>"
  shows "pt_wf t pgdir vs" and "pte_at t pgdir = pte_at s pgdir" and "user_page t pgdir vs = user_page s pgdir vs"
    and "frame_of t pgdir = frame_of s pgdir" and "kaddr t pgdir = kaddr s pgdir"
proof -
  let ?F = "frame_of s pgdir va"
  have F: "?F mod PGSIZE = 0" "\<not> pt_page s pgdir ?F" "?F \<notin> set vs" using u by (auto simp: user_page_def page_ok_def)
  have agree: "\<exists>w. w mod PGSIZE = 0 \<and> in_page w a \<and> \<not> pt_page s pgdir w \<and> w \<notin> set vs" if "mem t a \<noteq> mem s a" for a
    using m that F by (intro exI[of _ ?F]) (auto simp: t_def)
  have te: "kend t = kend s" "freelist t = freelist s" by (simp_all add: t_def)
  note f = pt_frame[OF wf te agree]
  show "pt_wf t pgdir vs" by (rule f(1))
  show pe: "pte_at t pgdir = pte_at s pgdir" using f(2) by (simp add: fun_eq_iff)
  show fr: "frame_of t pgdir = frame_of s pgdir" by (simp add: frame_of_def fun_eq_iff pe)
  show "kaddr t pgdir = kaddr s pgdir" by (simp add: kaddr_def fun_eq_iff fr)
  have pg: "pt_page t pgdir w = pt_page s pgdir w" for w
    unfolding pt_page_def using f(3) by (auto simp: table_def)
  show "user_page t pgdir vs = user_page s pgdir vs"
    by (simp add: user_page_def fun_eq_iff pe fr pg page_ok_cong[OF te(1)])
qed

lemma same_page_add:
  assumes "va mod PGSIZE + i < PGSIZE"
  shows "(va + i) div PGSIZE = va div PGSIZE" and "(va + i) mod PGSIZE = va mod PGSIZE + i"
proof -
  have e: "va + i = (va mod PGSIZE + i) + va div PGSIZE * PGSIZE"
    using div_mult_mod_eq[of va PGSIZE] by linarith
  show "(va + i) div PGSIZE = va div PGSIZE" using assms by (subst e, subst div_mult_self1) simp_all
  show "(va + i) mod PGSIZE = va mod PGSIZE + i" using assms by (subst e, subst mod_mult_self1) simp
qed

lemma copyout_bytes:
  assumes "pt_wf s pgdir vs" and "va + len \<le> 4294967296"
    and "\<And>i. i < len \<Longrightarrow> user_page s pgdir vs (va + i)"
    and "\<And>i j. i < len \<Longrightarrow> j < len \<Longrightarrow> frame_of s pgdir (va + i) = frame_of s pgdir (va + j) \<Longrightarrow>
        (va + i) div PGSIZE = (va + j) div PGSIZE"
    and "\<And>i j. i < len \<Longrightarrow> j < len \<Longrightarrow> \<not> in_page (frame_of s pgdir (va + j)) (p + i)"
  shows "\<exists>t. copyout pgdir va p len s = Ok (0, t) \<and> pt_wf t pgdir vs \<and> pte_at t pgdir = pte_at s pgdir
    \<and> (\<forall>i<len. mem t (kaddr s pgdir (va + i)) = mem s (p + i))
    \<and> (\<forall>a. (\<forall>i<len. a \<noteq> kaddr s pgdir (va + i)) \<longrightarrow> mem t a = mem s a)"
  using assms
proof (induction len arbitrary: va p s rule: less_induct)
  case (less len)
  note wf = less(2) and bound = less(3) and user = less(4) and inj = less(5) and src = less(6)
  show ?case
  proof (cases "len = 0")
    case True
    then show ?thesis using wf by (subst copyout.simps) simp
  next
    case False
    define n where "n = min (PGSIZE - va mod PGSIZE) len"
    let ?F = "frame_of s pgdir va" and ?o = "va mod PGSIZE"
    define m where "m = memmove (mem s) (?F + ?o) p n"
    let ?s1 = "s\<lparr>mem := m\<rparr>"
    have o: "?o < PGSIZE" by (simp add: PGSIZE_def)
    then have n: "0 < n" "n \<le> len" "?o + n \<le> PGSIZE" using False by (auto simp: n_def)
    have u0: "user_page s pgdir vs va" using user[of 0] False by simp
    have mF: "m a = mem s a" if "\<not> in_page ?F a" for a
      using that n(3) by (auto simp: m_def memmove_at in_page_def)
    have mA: "\<forall>a. \<not> in_page ?F a \<longrightarrow> m a = mem s a" using mF by blast
    note w = user_write[OF wf u0 mA]
    have near: "frame_of s pgdir (va + i) = ?F" "kaddr s pgdir (va + i) = ?F + ?o + i" "(va + i) div PGSIZE = va div PGSIZE"
      if "i < n" for i
    proof -
      have q: "(va + i) div PGSIZE = va div PGSIZE" "(va + i) mod PGSIZE = ?o + i"
        using that n(3) by (auto intro!: same_page_add)
      then show "frame_of s pgdir (va + i) = ?F" using pte_at_page[OF q(1), of s pgdir] by (simp add: frame_of_def)
      then show "kaddr s pgdir (va + i) = ?F + ?o + i" using q by (simp add: kaddr_def)
      show "(va + i) div PGSIZE = va div PGSIZE" by (rule q(1))
    qed
    have src1: "m (p + i) = mem s (p + i)" if "i < len" for i using src[of i 0] False that by (intro mF) simp
    have nva: "PGROUNDDOWN va + PGSIZE = va + n" if "n < len"
    proof -
      have "n = PGSIZE - ?o" using that by (simp add: n_def)
      then show ?thesis using o div_mult_mod_eq[of va PGSIZE] unfolding PGROUNDDOWN_def by linarith
    qed
    have step: "copyout pgdir va p len s = copyout pgdir ((PGROUNDDOWN va + PGSIZE) mod 4294967296) (p + n) (len - n) ?s1"
      using False uva2ka_user[OF wf u0] by (subst copyout.simps) (simp add: PGROUNDDOWN_mod n_def m_def Let_def)
    show ?thesis
    proof (cases "n < len")
      case False
      then have "len = n" using n(2) by simp
      then have "copyout pgdir va p len s = Ok (0, ?s1)" unfolding step by (subst copyout.simps) simp
      moreover have "m (kaddr s pgdir (va + i)) = mem s (p + i)" if "i < n" for i
        using near(2)[OF that] that by (simp add: m_def memmove_at)
      moreover have "m a = mem s a" if "\<forall>i<n. a \<noteq> kaddr s pgdir (va + i)" for a
      proof -
        have "\<not> (?F + ?o \<le> a \<and> a < ?F + ?o + n)"
        proof
          assume a: "?F + ?o \<le> a \<and> a < ?F + ?o + n"
          then have "a - (?F + ?o) < n" "a = kaddr s pgdir (va + (a - (?F + ?o)))" using near(2)[of "a - (?F + ?o)"] by auto
          then show False using that by blast
        qed
        then show ?thesis by (auto simp: m_def memmove_at)
      qed
      ultimately show ?thesis using w(1,2) \<open>len = n\<close> by auto
    next
      case True
      have next_va: "(PGROUNDDOWN va + PGSIZE) mod 4294967296 = va + n" using nva[OF True] bound True by simp
      have sh: "va + n + i = va + (n + i)" "p + n + i = p + (n + i)" for i by simp_all
      have far: "(va + (n + i)) div PGSIZE \<noteq> va div PGSIZE" for i
      proof -
        have "va div PGSIZE * PGSIZE + PGSIZE \<le> va + (n + i)" using nva[OF True] by (simp add: PGROUNDDOWN_def)
        then have "Suc (va div PGSIZE) \<le> (va + (n + i)) div PGSIZE"
          by (subst less_eq_div_iff_mult_less_eq) (simp_all add: PGSIZE_def)
        then show ?thesis by simp
      qed
      have "\<exists>t. copyout pgdir (va + n) (p + n) (len - n) ?s1 = Ok (0, t) \<and> pt_wf t pgdir vs \<and> pte_at t pgdir = pte_at ?s1 pgdir
        \<and> (\<forall>i<len - n. mem t (kaddr ?s1 pgdir (va + n + i)) = mem ?s1 (p + n + i))
        \<and> (\<forall>a. (\<forall>i<len - n. a \<noteq> kaddr ?s1 pgdir (va + n + i)) \<longrightarrow> mem t a = mem ?s1 a)"
      proof (rule less(1)[OF _ w(1)], unfold w(3,4) sh)
        show "len - n < len" using n False by simp
        show "va + (n + (len - n)) \<le> 4294967296" using bound True by simp
        show "user_page s pgdir vs (va + (n + i))" if "i < len - n" for i using user that by simp
        show "(va + (n + i)) div PGSIZE = (va + (n + j)) div PGSIZE"
          if "i < len - n" "j < len - n" "frame_of s pgdir (va + (n + i)) = frame_of s pgdir (va + (n + j))" for i j
          using inj[of "n + i" "n + j"] that by simp
        show "\<not> in_page (frame_of s pgdir (va + (n + j))) (p + (n + i))" if "i < len - n" "j < len - n" for i j
          using src[of "n + i" "n + j"] that by simp
      qed
      then obtain t where t: "copyout pgdir (va + n) (p + n) (len - n) ?s1 = Ok (0, t)" "pt_wf t pgdir vs"
        "pte_at t pgdir = pte_at s pgdir" "\<And>i. i < len - n \<Longrightarrow> mem t (kaddr s pgdir (va + (n + i))) = m (p + (n + i))"
        "\<And>a. (\<And>i. i < len - n \<Longrightarrow> a \<noteq> kaddr s pgdir (va + (n + i))) \<Longrightarrow> mem t a = m a"
        unfolding w(2,5) sh by auto
      have kin: "in_page (frame_of s pgdir x) (kaddr s pgdir x)" for x by (simp add: kaddr_def in_page_def PGSIZE_def)
      have apart: "kaddr s pgdir (va + j) \<noteq> kaddr s pgdir (va + (n + i))" if "j < n" "i < len - n" for i j
      proof
        assume eq: "kaddr s pgdir (va + j) = kaddr s pgdir (va + (n + i))"
        have "user_page s pgdir vs (va + (n + i))" "user_page s pgdir vs (va + j)" using user that n by auto
        then have "frame_of s pgdir (va + j) = frame_of s pgdir (va + (n + i))"
          using pages_disjoint[OF _ _ kin kin[of "va + (n + i)", folded eq]] by (simp add: user_page_def page_ok_def)
        then have "(va + j) div PGSIZE = (va + (n + i)) div PGSIZE" using inj[of j "n + i"] that n by simp
        then show False using near(3)[OF that(1)] far[of i] by simp
      qed
      have bytes: "mem t (kaddr s pgdir (va + i)) = mem s (p + i)" if "i < len" for i
      proof (cases "i < n")
        case True
        then have "mem t (kaddr s pgdir (va + i)) = m (kaddr s pgdir (va + i))" using apart by (intro t(5)) auto
        then show ?thesis using near(2)[OF True] True by (simp add: m_def memmove_at)
      next
        case False
        then show ?thesis using t(4)[of "i - n"] that src1[OF that] by simp
      qed
      have rest: "mem t a = mem s a" if a: "\<forall>i<len. a \<noteq> kaddr s pgdir (va + i)" for a
      proof -
        have "mem t a = m a" using a by (intro t(5)) auto
        moreover have "\<not> (?F + ?o \<le> a \<and> a < ?F + ?o + n)"
        proof
          assume r: "?F + ?o \<le> a \<and> a < ?F + ?o + n"
          then have "a - (?F + ?o) < n" "a = kaddr s pgdir (va + (a - (?F + ?o)))" using near(2)[of "a - (?F + ?o)"] by auto
          then show False using a n(2) by (metis less_le_trans)
        qed
        ultimately show ?thesis by (auto simp: m_def memmove_at)
      qed
      show ?thesis using t(1-3) bytes rest unfolding step next_va by blast
    qed
  qed
qed

section \<open>Properties\<close>

text \<open>C9. Growing a process.  With a well-formed page directory, the pages between the two sizes
  unmapped, and two free pages for each of them, \<open>allocuvm\<close> returns the new size; every page between
  the old and the new size is mapped, writable and accessible to the user, to a fresh page full of
  zeros; the fresh pages are pairwise distinct, came from the free list, are no longer on it and hold
  no page table; and no other address gets a different entry.\<close>

theorem allocuvm_correct:
  assumes wf: "pt_wf s pgdir vs" and sz: "oldsz \<le> newsz" "newsz < KERNBASE"
    and n: "n = PGROUNDUP oldsz div PGSIZE" and k: "n + k = PGROUNDUP newsz div PGSIZE" and room: "2 * k \<le> length vs"
    and absent: "\<forall>m. n \<le> m \<and> m < n + k \<longrightarrow> \<not> present (pte_at s pgdir (m * PGSIZE))"
  shows "\<exists>t ws g. allocuvm pgdir oldsz newsz s = Ok (newsz, t) \<and> pt_wf t pgdir ws \<and> inj_on g {n..<n + k}
    \<and> (\<forall>va<4294967296. pte_at t pgdir va =
         (if va div PGSIZE \<in> {n..<n + k} then V2P (g (va div PGSIZE)) OR (PTE_W OR PTE_U) OR PTE_P else pte_at s pgdir va))
    \<and> (\<forall>m\<in>{n..<n + k}. g m \<in> set vs - set ws \<and> \<not> pt_page t pgdir (g m) \<and> (\<forall>a. in_page (g m) a \<longrightarrow> mem t a = 0))"
proof -
  have up: "PGROUNDUP x div PGSIZE * PGSIZE = PGROUNDUP x" for x by (simp add: PGROUNDUP_def PGSIZE_def)
  have r: "newsz \<le> PGROUNDUP newsz" "PGROUNDUP newsz < newsz + PGSIZE"
    using PGROUNDUP_props[of newsz] sz(2) by (simp_all add: consts_defs)
  have lt: "(n + i) * PGSIZE < newsz" if "i < k" for i
  proof -
    have "Suc (n + i) * PGSIZE \<le> (n + k) * PGSIZE" using that by (intro mult_le_mono1) simp
    then show ?thesis using r(2) up[of newsz] unfolding k by simp
  qed
  have le: "n + k \<le> 1048576" "newsz \<le> (n + k) * PGSIZE"
    using r up[of newsz] sz(2) unfolding k by (simp_all add: consts_defs)
  have ab: "\<not> present (pte_at s pgdir ((n + i) * PGSIZE))" if "i < k" for i using absent that by simp
  obtain t ws g where t: "allocuvm_loop pgdir (n * PGSIZE) oldsz newsz s = Ok (newsz, t)" "grown pgdir n k g s vs t ws"
    using allocuvm_loop_Ok[OF wf room le(1) lt le(2) ab, of oldsz] by auto
  have "allocuvm pgdir oldsz newsz s = Ok (newsz, t)"
    using t(1) sz up[of oldsz] by (simp add: allocuvm_def n)
  moreover have mp: "maps pgdir (\<lambda>m e. if n \<le> m \<and> m < n + k then user_entry (g m) else e) s vs t ws"
    using t(2) by (simp add: grown_def)
  ultimately show ?thesis
    using t(2) maps_wf[OF mp] by (intro exI[of _ t] exI[of _ ws] exI[of _ g]) (auto simp: grown_def maps_def user_entry_def)
qed

text \<open>A machine with an empty page directory and two free pages.\<close>

definition demo_vm :: kmem_state where
  "demo_vm = \<lparr>mem = put32 0x80111000 0x80112000 (\<lambda>_. 0), freelist = 0x80111000, use_lock = True,
     kend = 0x80110000, kdata = 0x80109000\<rparr>"

lemma demo_vm_pde: "i < 1024 \<Longrightarrow> pde demo_vm 0x80110000 i = 0"
  unfolding pde_def demo_vm_def by (simp add: get32_put32_other) (simp add: get32_def)

lemma demo_vm_wf: "pt_wf demo_vm 0x80110000 [0x80111000, 0x80112000]"
proof -
  have "pool demo_vm [0x80111000, 0x80112000]"
    by (simp add: pool_def demo_vm_def page_ok_def consts_defs get32_put32_other) (simp add: get32_def)
  then show ?thesis
    by (simp add: pt_wf_def demo_vm_pde present_def) (simp add: page_ok_def demo_vm_def consts_defs)
qed

theorem allocuvm_correct_witness:
  "\<exists>t. allocuvm 0x80110000 0 100 demo_vm = Ok (100, t) \<and> present (pte_at t 0x80110000 50)"
proof -
  have a: "pte_at demo_vm 0x80110000 va = 0" for va by (simp add: pte_at_def demo_vm_pde present_def)
  have r: "PGROUNDUP 0 div PGSIZE = 0" "PGROUNDUP 100 div PGSIZE = 1" by (simp_all add: PGROUNDUP_def PGSIZE_def)
  obtain t g where t: "allocuvm 0x80110000 0 100 demo_vm = Ok (100, t)"
    "pte_at t 0x80110000 50 = V2P (g 0) OR (PTE_W OR PTE_U) OR PTE_P"
    using allocuvm_correct[OF demo_vm_wf, of 0 100 0 1] r a by (auto simp: present_def consts_defs)
  then show ?thesis by (simp add: present_def PTE_P_def even_or_iff)
qed

text \<open>C16. Copying out to another address space.  When the \<open>len\<close> bytes at \<open>va\<close> lie in present user
  pages, different pages have different frames, and the source does not overlap them, \<open>copyout\<close> returns
  0, the bytes appear behind the user addresses whatever page boundaries they cross, every other byte
  of memory keeps its value and no page table entry changes.\<close>

theorem copyout_correct:
  assumes "pt_wf s pgdir vs" and "va + len \<le> 4294967296"
    and "\<forall>i<len. user_page s pgdir vs (va + i)"
    and "\<forall>i<len. \<forall>j<len. frame_of s pgdir (va + i) = frame_of s pgdir (va + j) \<longrightarrow>
        (va + i) div PGSIZE = (va + j) div PGSIZE"
    and "\<forall>i<len. \<forall>j<len. \<not> in_page (frame_of s pgdir (va + j)) (p + i)"
  shows "\<exists>t. copyout pgdir va p len s = Ok (0, t) \<and> pt_wf t pgdir vs \<and> pte_at t pgdir = pte_at s pgdir
    \<and> (\<forall>i<len. mem t (kaddr s pgdir (va + i)) = mem s (p + i))
    \<and> (\<forall>a. (\<forall>i<len. a \<noteq> kaddr s pgdir (va + i)) \<longrightarrow> mem t a = mem s a)"
  by (rule copyout_bytes[OF assms(1,2)]) (simp add: assms(3), use assms(4) in blast, use assms(5) in blast)

text \<open>A directory with one table and one user page at address 0.\<close>

definition demo_user :: kmem_state where
  "demo_user = \<lparr>mem = put32 0x80111000 0x112007 (put32 0x80110000 0x111007 ((\<lambda>_. 0)(0x80113000 := 65))),
     freelist = 0, use_lock = True, kend = 0x80110000, kdata = 0x80109000\<rparr>"

lemma demo_user_pde: "i < 1024 \<Longrightarrow> pde demo_user 0x80110000 i = (if i = 0 then 0x111007 else 0)"
proof -
  assume i: "i < 1024"
  have z: "get32 ((\<lambda>_. 0)(0x80113000 := 65)) (0x80110000 + 4 * i) = 0" using i by (simp add: get32_def)
  show ?thesis
  proof (cases "i = 0")
    case True
    then show ?thesis by (simp add: pde_def demo_user_def get32_put32_other)
  next
    case False
    then show ?thesis using i z by (simp add: pde_def demo_user_def get32_put32_other)
  qed
qed

lemma demo_user_table: "table demo_user 0x80110000 0 = 0x80111000"
  by (simp add: table_def demo_user_pde PTE_ADDR_def P2V_def KERNBASE_def)

lemma demo_user_pte: "pte_at demo_user 0x80110000 3 = 0x112007" "frame_of demo_user 0x80110000 3 = 0x80112000"
proof -
  have p: "PDX 3 = 0" "PTX 3 = 0" by (simp_all add: PDX_def PTX_def)
  show e: "pte_at demo_user 0x80110000 3 = 0x112007"
    unfolding pte_at_def p demo_user_table by (simp add: demo_user_pde present_def) (simp add: demo_user_def)
  show "frame_of demo_user 0x80110000 3 = 0x80112000"
    by (simp add: frame_of_def e PTE_ADDR_def P2V_def KERNBASE_def)
qed

lemma demo_user_wf: "pt_wf demo_user 0x80110000 []"
proof -
  have pr: "present (pde demo_user 0x80110000 i) \<longleftrightarrow> i = 0" if "i < 1024" for i
    using demo_user_pde[OF that] by (simp add: present_def)
  have ok: "page_ok demo_user 0x80111000" "page_ok demo_user 0x80110000" "pool demo_user []"
    by (simp_all add: page_ok_def pool_def demo_user_def consts_defs)
  show ?thesis unfolding pt_wf_def using ok by (auto simp: pr demo_user_table)
qed

lemma demo_user_page: "user_page demo_user 0x80110000 [] 3"
proof -
  have "\<not> pt_page demo_user 0x80110000 0x80112000"
    using demo_user_pde demo_user_table by (auto simp: pt_page_def present_def split: if_splits)
  moreover have "(0x112007::nat) AND 4 = 4" by simp
  moreover have "page_ok demo_user 0x80112000" by (simp add: page_ok_def demo_user_def consts_defs)
  ultimately show ?thesis unfolding user_page_def demo_user_pte by (simp add: present_def PTE_U_def)
qed

theorem copyout_correct_witness:
  "\<exists>t. copyout 0x80110000 3 0x80113000 1 demo_user = Ok (0, t) \<and> mem t 0x80112003 = 65"
proof -
  have k: "kaddr demo_user 0x80110000 3 = 0x80112003"
    unfolding kaddr_def demo_user_pte by (simp add: PGSIZE_def)
  have s: "\<not> in_page 0x80112000 0x80113000" by (simp add: in_page_def PGSIZE_def)
  have "mem demo_user 0x80113000 = 65" by (simp add: demo_user_def put32_apply_other)
  then show ?thesis
    using copyout_correct[OF demo_user_wf, of 3 1 "0x80113000"] demo_user_page s k by (auto simp: demo_user_pte)
qed

text \<open>\<open>uva2ka\<close> follows the null pointer \<open>walkpgdir\<close> returns for an address without a page table,
  and so does \<open>copyout\<close>, which has no answer of its own for such an address.\<close>

theorem uva2ka_null:
  assumes "\<not> present (pde s pgdir (PDX va))" and "PGROUNDDOWN va = va" and "0 < len"
  shows "uva2ka pgdir va s = Fault ''uva2ka: null pte'' \<and> copyout pgdir va p len s = Fault ''uva2ka: null pte''"
proof -
  have u: "uva2ka pgdir va s = Fault ''uva2ka: null pte''"
    by (simp add: uva2ka_def walkpgdir_absent[OF assms(1)])
  moreover have "copyout pgdir va p len s = Fault ''uva2ka: null pte''"
    using assms(2,3) u by (subst copyout.simps) (simp add: Let_def)
  ultimately show ?thesis by simp
qed

theorem uva2ka_null_witness: "uva2ka 0x80110000 0 demo_vm = Fault ''uva2ka: null pte''"
  using uva2ka_null[of demo_vm "0x80110000" 0 1] by (simp add: demo_vm_pde present_def PGROUNDDOWN_def)

end
