(* ===== verification/Spinlock.thy ===== *)
theory Spinlock
  imports Kalloc
begin

text \<open>
  Spin locks and the nesting of interrupt disabling (spinlock.c), on a machine with several
  processors.  \<open>acquire\<close> is split at its atomic instruction, \<open>xchg\<close>, so that processors may
  interleave between the steps; mutual exclusion is an invariant of the interleaved machine.
\<close>

section \<open>Processors and locks\<close>

text \<open>\<open>ncli\<close> and \<open>intena\<close> of \<open>struct cpu\<close>, and the interrupt flag \<open>FL_IF\<close> of the processor.\<close>

record cpu =
  ncli :: int
  intena :: bool
  fl_if :: bool

record spinlock =
  locked :: bool
  lcpu :: "nat option"

record smp =
  cpus :: "nat \<Rightarrow> cpu"
  locks :: "nat \<Rightarrow> spinlock"

definition initlock :: spinlock where
  "initlock = \<lparr>locked = False, lcpu = None\<rparr>"

definition pushcli :: "cpu \<Rightarrow> cpu" where
  "pushcli c =
     (let eflags = fl_if c; c = c\<lparr>fl_if := False\<rparr>;
          c = (if ncli c = 0 then c\<lparr>intena := eflags\<rparr> else c)
      in c\<lparr>ncli := ncli c + 1\<rparr>)"

definition popcli :: "cpu \<Rightarrow> cpu res" where
  "popcli c =
     (if fl_if c then Panic ''popcli - interruptible''
      else
        let c = c\<lparr>ncli := ncli c - 1\<rparr> in
        if ncli c < 0 then Panic ''popcli''
        else Ok (if ncli c = 0 \<and> intena c then c\<lparr>fl_if := True\<rparr> else c))"

definition set_cpu :: "nat \<Rightarrow> cpu \<Rightarrow> smp \<Rightarrow> smp" where
  "set_cpu c k s = s\<lparr>cpus := (cpus s)(c := k)\<rparr>"

definition upd_lock :: "nat \<Rightarrow> (spinlock \<Rightarrow> spinlock) \<Rightarrow> smp \<Rightarrow> smp" where
  "upd_lock l f s = s\<lparr>locks := (locks s)(l := f (locks s l))\<rparr>"

definition holding :: "nat \<Rightarrow> nat \<Rightarrow> smp \<Rightarrow> (bool \<times> smp) res" where
  "holding c l s =
     (let s = set_cpu c (pushcli (cpus s c)) s; r = (locked (locks s l) \<and> lcpu (locks s l) = Some c) in
      rbind (popcli (cpus s c)) (\<lambda>k. Ok (r, set_cpu c k s)))"

text \<open>The three parts of \<open>acquire\<close>: the check, the exchange, the bookkeeping.\<close>

definition acquire_start :: "nat \<Rightarrow> nat \<Rightarrow> smp \<Rightarrow> smp res" where
  "acquire_start c l s =
     rbind (holding c l (set_cpu c (pushcli (cpus s c)) s)) (\<lambda>(h, s).
       if h then Panic ''acquire'' else Ok s)"

definition xchg_lock :: "nat \<Rightarrow> smp \<Rightarrow> bool \<times> smp" where
  "xchg_lock l s = (locked (locks s l), upd_lock l (\<lambda>k. k\<lparr>locked := True\<rparr>) s)"

definition acquire_record :: "nat \<Rightarrow> nat \<Rightarrow> smp \<Rightarrow> smp" where
  "acquire_record c l s = upd_lock l (\<lambda>k. k\<lparr>lcpu := Some c\<rparr>) s"

text \<open>\<open>acquire\<close> run alone; a lock another processor holds makes it spin.\<close>

definition acquire :: "nat \<Rightarrow> nat \<Rightarrow> smp \<Rightarrow> smp res" where
  "acquire c l s =
     rbind (acquire_start c l s) (\<lambda>s.
       let (old, s) = xchg_lock l s in
       if old then Asleep ''spin'' else Ok (acquire_record c l s))"

definition release :: "nat \<Rightarrow> nat \<Rightarrow> smp \<Rightarrow> smp res" where
  "release c l s =
     rbind (holding c l s) (\<lambda>(h, s).
       if \<not> h then Panic ''release''
       else
         let s = upd_lock l (\<lambda>k. k\<lparr>lcpu := None\<rparr>) s;
             s = upd_lock l (\<lambda>k. k\<lparr>locked := False\<rparr>) s
         in rbind (popcli (cpus s c)) (\<lambda>k. Ok (set_cpu c k s)))"

text \<open>The program counters of the calls on the stack, following saved frame pointers.\<close>

primrec callers :: "nat \<Rightarrow> mem \<Rightarrow> nat \<Rightarrow> nat list" where
  "callers 0 m ebp = []"
| "callers (Suc i) m ebp =
     (if ebp = 0 \<or> ebp < KERNBASE \<or> ebp = 0xFFFFFFFF then []
      else get32 m (ebp + 4) # callers i m (get32 m ebp))"

definition getcallerpcs :: "mem \<Rightarrow> nat \<Rightarrow> nat list" where
  "getcallerpcs m v =
     (let pcs = callers 10 m ((v + 4294967296 - 8) mod 4294967296) in pcs @ replicate (10 - length pcs) 0)"

section \<open>Nesting\<close>

text \<open>A processor in order: interrupts are off while \<open>ncli\<close> is positive.\<close>

definition cpu_ok :: "cpu \<Rightarrow> bool" where
  "cpu_ok c \<longleftrightarrow> 0 \<le> ncli c \<and> (0 < ncli c \<longrightarrow> \<not> fl_if c)"

text \<open>The interrupt flag the processor had before the outermost \<open>pushcli\<close>.\<close>

definition base_if :: "cpu \<Rightarrow> bool" where
  "base_if c = (if ncli c = 0 then fl_if c else intena c)"

lemma pushcli_ok: "cpu_ok c \<Longrightarrow> cpu_ok (pushcli c)"
  by (auto simp: cpu_ok_def pushcli_def Let_def)

lemma pushcli_simps [simp]: "ncli (pushcli c) = ncli c + 1" "fl_if (pushcli c) = False"
  by (simp_all add: pushcli_def Let_def)

lemma pushcli_base: "cpu_ok c \<Longrightarrow> base_if (pushcli c) = base_if c"
  by (auto simp: cpu_ok_def base_if_def pushcli_def Let_def)

lemma popcli_Ok:
  assumes "cpu_ok c" and "0 < ncli c"
  shows "\<exists>k. popcli c = Ok k \<and> cpu_ok k \<and> ncli k = ncli c - 1 \<and> base_if k = base_if c"
  using assms by (auto simp: popcli_def cpu_ok_def base_if_def Let_def)

lemma holding_eq:
  assumes "cpu_ok (cpus s c)"
  shows "\<exists>k. holding c l s = Ok (locked (locks s l) \<and> lcpu (locks s l) = Some c, set_cpu c k s)
    \<and> cpu_ok k \<and> ncli k = ncli (cpus s c) \<and> base_if k = base_if (cpus s c)"
proof -
  have "0 < ncli (pushcli (cpus s c))" using assms by (simp add: cpu_ok_def)
  then obtain k where "popcli (pushcli (cpus s c)) = Ok k" "cpu_ok k" "ncli k = ncli (cpus s c)" "base_if k = base_if (cpus s c)"
    using popcli_Ok[OF pushcli_ok[OF assms]] pushcli_base[OF assms] by auto
  then show ?thesis by (auto simp: holding_def set_cpu_def)
qed

lemma acquire_start_eq:
  assumes "cpu_ok (cpus s c)"
  shows "if locked (locks s l) \<and> lcpu (locks s l) = Some c then acquire_start c l s = Panic ''acquire''
    else \<exists>k. acquire_start c l s = Ok (set_cpu c k s) \<and> cpu_ok k \<and> ncli k = ncli (cpus s c) + 1
      \<and> base_if k = base_if (cpus s c)"
proof -
  let ?s = "set_cpu c (pushcli (cpus s c)) s"
  have c: "cpus ?s c = pushcli (cpus s c)" "locks ?s = locks s" by (simp_all add: set_cpu_def)
  obtain k where k: "holding c l ?s = Ok (locked (locks s l) \<and> lcpu (locks s l) = Some c, set_cpu c k ?s)"
    "cpu_ok k" "ncli k = ncli (cpus s c) + 1" "base_if k = base_if (cpus s c)"
    using holding_eq[of ?s c l] pushcli_ok[OF assms] pushcli_base[OF assms] unfolding c by auto
  have "set_cpu c k ?s = set_cpu c k s" by (simp add: set_cpu_def)
  then show ?thesis using k by (auto simp: acquire_start_def)
qed

lemma release_eq:
  assumes "cpu_ok (cpus s c)" and "0 < ncli (cpus s c)"
  shows "if locked (locks s l) \<and> lcpu (locks s l) = Some c
    then \<exists>k. release c l s = Ok (upd_lock l (\<lambda>x. x\<lparr>lcpu := None, locked := False\<rparr>) (set_cpu c k s)) \<and> cpu_ok k
      \<and> ncli k = ncli (cpus s c) - 1 \<and> base_if k = base_if (cpus s c)
    else release c l s = Panic ''release''"
proof -
  obtain k where k: "holding c l s = Ok (locked (locks s l) \<and> lcpu (locks s l) = Some c, set_cpu c k s)"
    "cpu_ok k" "ncli k = ncli (cpus s c)" "base_if k = base_if (cpus s c)"
    using holding_eq[OF assms(1)] by blast
  obtain k' where k': "popcli k = Ok k'" "cpu_ok k'" "ncli k' = ncli (cpus s c) - 1" "base_if k' = base_if (cpus s c)"
    using popcli_Ok[OF k(2)] k(3,4) assms(2) by auto
  have "release c l s = (if locked (locks s l) \<and> lcpu (locks s l) = Some c
      then Ok (upd_lock l (\<lambda>x. x\<lparr>lcpu := None, locked := False\<rparr>) (set_cpu c k' s)) else Panic ''release'')"
    using k(1) k'(1) by (cases s) (simp add: release_def set_cpu_def upd_lock_def Let_def)
  then show ?thesis using k' by auto
qed

section \<open>The interleaved machine\<close>

text \<open>
  Where each processor is: outside the lock code, spinning for a lock, or past a successful \<open>xchg\<close> and
  about to record itself.  \<open>held\<close> lists the locks whose \<open>acquire\<close> has returned.
\<close>

datatype phase = Run | Spin nat | Won nat

record locksys =
  smp :: smp
  phase :: "nat \<Rightarrow> phase"
  held_by :: "nat \<Rightarrow> nat list"

inductive lstep :: "locksys \<Rightarrow> locksys \<Rightarrow> bool" where
  start: "phase s c = Run \<Longrightarrow> acquire_start c l (smp s) = Ok m \<Longrightarrow>
    lstep s (s\<lparr>smp := m, phase := (phase s)(c := Spin l)\<rparr>)"
| spin: "phase s c = Spin l \<Longrightarrow> xchg_lock l (smp s) = (True, m) \<Longrightarrow> lstep s (s\<lparr>smp := m\<rparr>)"
| win: "phase s c = Spin l \<Longrightarrow> xchg_lock l (smp s) = (False, m) \<Longrightarrow>
    lstep s (s\<lparr>smp := m, phase := (phase s)(c := Won l)\<rparr>)"
| enter: "phase s c = Won l \<Longrightarrow>
    lstep s (s\<lparr>smp := acquire_record c l (smp s), phase := (phase s)(c := Run), held_by := (held_by s)(c := l # held_by s c)\<rparr>)"
| leave: "phase s c = Run \<Longrightarrow> release c l (smp s) = Ok m \<Longrightarrow>
    lstep s (s\<lparr>smp := m, held_by := (held_by s)(c := remove1 l (held_by s c))\<rparr>)"

definition lock_init :: locksys where
  "lock_init = \<lparr>smp = \<lparr>cpus = (\<lambda>_. \<lparr>ncli = 0, intena = False, fl_if = True\<rparr>), locks = (\<lambda>_. initlock)\<rparr>,
     phase = (\<lambda>_. Run), held_by = (\<lambda>_. [])\<rparr>"

text \<open>The lock word is set exactly while one processor owns the lock, in its critical section or just before it.\<close>

definition owns :: "locksys \<Rightarrow> nat \<Rightarrow> nat \<Rightarrow> bool" where
  "owns s c l \<longleftrightarrow> l \<in> set (held_by s c) \<or> phase s c = Won l"

definition lock_inv :: "locksys \<Rightarrow> bool" where
  "lock_inv s \<longleftrightarrow>
     (\<forall>l. locked (locks (smp s) l) \<longleftrightarrow> (\<exists>c. owns s c l)) \<and>
     (\<forall>l c d. owns s c l \<longrightarrow> owns s d l \<longrightarrow> c = d) \<and>
     (\<forall>l c. lcpu (locks (smp s) l) = Some c \<longleftrightarrow> l \<in> set (held_by s c)) \<and>
     (\<forall>c. distinct (held_by s c)) \<and>
     (\<forall>c l. phase s c = Spin l \<or> phase s c = Won l \<longrightarrow> l \<notin> set (held_by s c)) \<and>
     (\<forall>c. cpu_ok (cpus (smp s) c) \<and> base_if (cpus (smp s) c)
        \<and> ncli (cpus (smp s) c) = int (length (held_by s c)) + (if phase s c = Run then 0 else 1))"

lemma lock_inv_init: "lock_inv lock_init"
  by (simp add: lock_inv_def lock_init_def owns_def initlock_def cpu_ok_def base_if_def)

lemma set_cpu_simps [simp]:
  "locks (set_cpu c k m) = locks m" "cpus (set_cpu c k m) d = (if d = c then k else cpus m d)"
  by (simp_all add: set_cpu_def)

lemma upd_lock_simps [simp]:
  "cpus (upd_lock l f m) = cpus m" "locks (upd_lock l f m) j = (if j = l then f (locks m l) else locks m j)"
  by (simp_all add: upd_lock_def)

text \<open>A processor knows exactly the locks it holds.\<close>

lemma holding_held:
  assumes "lock_inv s"
  shows "locked (locks (smp s) l) \<and> lcpu (locks (smp s) l) = Some c \<longleftrightarrow> l \<in> set (held_by s c)"
  using assms by (auto simp: lock_inv_def owns_def)

lemma lock_inv_start:
  assumes inv: "lock_inv s" and run: "phase s c = Run" and st: "acquire_start c l (smp s) = Ok m"
  shows "lock_inv (s\<lparr>smp := m, phase := (phase s)(c := Spin l)\<rparr>)"
proof -
  have ok: "cpu_ok (cpus (smp s) c)" using inv by (simp add: lock_inv_def)
  have nh: "l \<notin> set (held_by s c)"
    using acquire_start_eq[OF ok, of l] st holding_held[OF inv, of l c] by (auto split: if_splits)
  then obtain k where k: "m = set_cpu c k (smp s)" "cpu_ok k" "ncli k = ncli (cpus (smp s) c) + 1"
    "base_if k = base_if (cpus (smp s) c)"
    using acquire_start_eq[OF ok, of l] st holding_held[OF inv, of l c] by auto
  have "owns (s\<lparr>smp := m, phase := (phase s)(c := Spin l)\<rparr>) d j = owns s d j" for d j
    using run by (auto simp: owns_def)
  then show ?thesis using inv k nh run unfolding lock_inv_def by (simp add: k(1))
qed

lemma lock_inv_win:
  assumes inv: "lock_inv s" and ph: "phase s c = Spin l" and x: "xchg_lock l (smp s) = (False, m)"
  shows "lock_inv (s\<lparr>smp := m, phase := (phase s)(c := Won l)\<rparr>)"
proof -
  have m: "m = upd_lock l (\<lambda>k. k\<lparr>locked := True\<rparr>) (smp s)" and free: "\<not> locked (locks (smp s) l)"
    using x by (auto simp: xchg_lock_def)
  have no: "\<not> owns s d l" for d using inv free unfolding lock_inv_def by blast
  have o: "owns (s\<lparr>smp := m, phase := (phase s)(c := Won l)\<rparr>) d j \<longleftrightarrow> owns s d j \<or> (d = c \<and> j = l)" for d j
    using ph by (auto simp: owns_def)
  show ?thesis
    unfolding lock_inv_def o
  proof (intro conjI allI)
    show "locked (locks (smp (s\<lparr>smp := m, phase := (phase s)(c := Won l)\<rparr>)) j) \<longleftrightarrow> (\<exists>d. owns s d j \<or> d = c \<and> j = l)" for j
      using inv by (auto simp: lock_inv_def m)
    show "owns s d j \<or> d = c \<and> j = l \<longrightarrow> owns s e j \<or> e = c \<and> j = l \<longrightarrow> d = e" for j d e
      using inv no unfolding lock_inv_def by blast
  qed (use inv ph in \<open>auto simp: lock_inv_def m\<close>)
qed

lemma lock_inv_enter:
  assumes inv: "lock_inv s" and ph: "phase s c = Won l"
  shows "lock_inv (s\<lparr>smp := acquire_record c l (smp s), phase := (phase s)(c := Run), held_by := (held_by s)(c := l # held_by s c)\<rparr>)"
proof -
  let ?t = "s\<lparr>smp := acquire_record c l (smp s), phase := (phase s)(c := Run), held_by := (held_by s)(c := l # held_by s c)\<rparr>"
  have o: "owns ?t d j = owns s d j" for d j using ph by (auto simp: owns_def)
  have mine: "owns s c l" using ph by (simp add: owns_def)
  have only: "l \<notin> set (held_by s d)" for d
  proof (cases "d = c")
    case True
    then show ?thesis using inv ph by (simp add: lock_inv_def)
  next
    case False
    then have "\<not> owns s d l" using inv mine unfolding lock_inv_def by blast
    then show ?thesis by (simp add: owns_def)
  qed
  show ?thesis
    unfolding lock_inv_def o
  proof (intro conjI allI)
    show "lcpu (locks (smp ?t) j) = Some d \<longleftrightarrow> j \<in> set (held_by ?t d)" for j d
      using inv only[of d] by (auto simp: lock_inv_def acquire_record_def)
    show "distinct (held_by ?t d)" for d using inv only[of c] by (simp add: lock_inv_def)
    show "phase ?t d = Spin j \<or> phase ?t d = Won j \<longrightarrow> j \<notin> set (held_by ?t d)" for d j
      using inv by (auto simp: lock_inv_def)
    show "owns s d j \<longrightarrow> owns s e j \<longrightarrow> d = e" for j d e using inv unfolding lock_inv_def by blast
  qed (use inv ph in \<open>auto simp: lock_inv_def acquire_record_def\<close>)
qed

lemma lock_inv_leave:
  assumes inv: "lock_inv s" and run: "phase s c = Run" and rel: "release c l (smp s) = Ok m"
  shows "lock_inv (s\<lparr>smp := m, held_by := (held_by s)(c := remove1 l (held_by s c))\<rparr>)"
    and "l \<in> set (held_by s c)"
proof -
  let ?t = "s\<lparr>smp := m, held_by := (held_by s)(c := remove1 l (held_by s c))\<rparr>"
  have ok: "cpu_ok (cpus (smp s) c)" using inv by (simp add: lock_inv_def)
  have h: "l \<in> set (held_by s c)"
  proof (rule ccontr)
    assume n: "l \<notin> set (held_by s c)"
    obtain k where "holding c l (smp s) = Ok (False, set_cpu c k (smp s))"
      using holding_eq[OF ok, of l] holding_held[OF inv, of l c] n by auto
    then show False using rel by (simp add: release_def)
  qed
  then show "l \<in> set (held_by s c)" .
  have "0 < length (held_by s c)" using h by (cases "held_by s c") auto
  then have pos: "0 < ncli (cpus (smp s) c)" using inv run by (simp add: lock_inv_def)
  obtain k where k: "m = upd_lock l (\<lambda>x. x\<lparr>lcpu := None, locked := False\<rparr>) (set_cpu c k (smp s))" "cpu_ok k"
    "ncli k = ncli (cpus (smp s) c) - 1" "base_if k = base_if (cpus (smp s) c)"
    using release_eq[OF ok pos, of l] rel h holding_held[OF inv, of l c] by auto
  have d: "distinct (held_by s c)" using inv by (simp add: lock_inv_def)
  have uniq: "\<not> owns s e l" if "e \<noteq> c" for e
    using inv h that unfolding lock_inv_def owns_def by blast
  have o: "owns ?t e j \<longleftrightarrow> owns s e j \<and> j \<noteq> l" for e j
  proof (cases "e = c")
    case True
    then show ?thesis using d run by (auto simp: owns_def)
  next
    case False
    then show ?thesis using uniq[OF False] by (auto simp: owns_def)
  qed
  show "lock_inv ?t"
    unfolding lock_inv_def o
  proof (intro conjI allI)
    show "locked (locks (smp ?t) j) \<longleftrightarrow> (\<exists>e. owns s e j \<and> j \<noteq> l)" for j
      using inv by (auto simp: lock_inv_def k(1))
    show "lcpu (locks (smp ?t) j) = Some e \<longleftrightarrow> j \<in> set (held_by ?t e)" for j e
      using inv d uniq by (auto simp: lock_inv_def k(1) owns_def)
    show "distinct (held_by ?t e)" for e using inv by (simp add: lock_inv_def)
    show "phase ?t e = Spin j \<or> phase ?t e = Won j \<longrightarrow> j \<notin> set (held_by ?t e)" for e j
      using inv run by (auto simp: lock_inv_def)
    show "owns s e j \<and> j \<noteq> l \<longrightarrow> owns s f j \<and> j \<noteq> l \<longrightarrow> e = f" for j e f using inv unfolding lock_inv_def by blast
    show "cpu_ok (cpus (smp ?t) e)" "base_if (cpus (smp ?t) e)" for e using inv k by (auto simp: lock_inv_def)
    show "ncli (cpus (smp ?t) e) = int (length (held_by ?t e)) + (if phase ?t e = Run then 0 else 1)" for e
      using inv k run h length_pos_if_in_set[OF h] by (auto simp: lock_inv_def length_remove1 of_nat_diff Suc_leI)
  qed
qed

lemma lock_inv_step: "lstep s t \<Longrightarrow> lock_inv s \<Longrightarrow> lock_inv t"
proof (induction rule: lstep.induct)
  case (spin s c l m)
  then have "m = upd_lock l (\<lambda>k. k\<lparr>locked := True\<rparr>) (smp s)" "locked (locks (smp s) l)" by (auto simp: xchg_lock_def)
  then have "m = smp s" by (cases "smp s") (auto simp: upd_lock_def fun_eq_iff)
  then show ?case using spin by simp
qed (simp_all add: lock_inv_start lock_inv_win lock_inv_enter lock_inv_leave(1))

definition lock_reach :: "locksys \<Rightarrow> bool" where
  "lock_reach s \<longleftrightarrow> lstep\<^sup>*\<^sup>* lock_init s"

lemma lock_reach_inv: "lock_reach s \<Longrightarrow> lock_inv s"
  unfolding lock_reach_def by (induction rule: rtranclp_induct) (auto intro: lock_inv_init lock_inv_step)

section \<open>Properties\<close>

text \<open>C6. Mutual exclusion on every interleaving of the processors: no two processors are in the critical
  section of one lock; a processor that holds any lock runs with interrupts off, and one that holds
  none and is not acquiring any has them on again, as at the start.\<close>

theorem mutual_exclusion:
  assumes "lock_reach s"
  shows "(l \<in> set (held_by s c) \<and> l \<in> set (held_by s d) \<longrightarrow> c = d)
    \<and> (held_by s c \<noteq> [] \<longrightarrow> \<not> fl_if (cpus (smp s) c))
    \<and> (held_by s c = [] \<and> phase s c = Run \<longrightarrow> fl_if (cpus (smp s) c))"
proof -
  note inv = lock_reach_inv[OF assms]
  have "l \<in> set (held_by s c) \<and> l \<in> set (held_by s d) \<longrightarrow> c = d"
    using inv unfolding lock_inv_def owns_def by blast
  moreover have "cpu_ok (cpus (smp s) c)" "base_if (cpus (smp s) c)"
    "ncli (cpus (smp s) c) = int (length (held_by s c)) + (if phase s c = Run then 0 else 1)"
    using inv by (auto simp: lock_inv_def)
  ultimately show ?thesis by (auto simp: cpu_ok_def base_if_def length_pos_if_in_set neq_Nil_conv)
qed

text \<open>Processor 0 takes lock 7 while processor 1 spins on it.\<close>

definition demo_locks :: locksys where
  "demo_locks =
     (let k = \<lparr>ncli = 1, intena = True, fl_if = False\<rparr> in
      lock_init\<lparr>smp := \<lparr>cpus = (\<lambda>c. if c \<le> 1 then k else cpus (smp lock_init) c),
          locks = (\<lambda>_. initlock)(7 := \<lparr>locked = True, lcpu = Some 0\<rparr>)\<rparr>,
        phase := (\<lambda>_. Run)(1 := Spin 7), held_by := (\<lambda>_. [])(0 := [7])\<rparr>)"

lemma demo_locks_reach: "lock_reach demo_locks"
proof -
  let ?k = "\<lparr>ncli = 1, intena = True, fl_if = False\<rparr>"
  have step: "lock_reach t" if "lock_reach s" "lstep s t" for s t
    using that unfolding lock_reach_def by (rule rtranclp.rtrancl_into_rtrancl)
  have 0: "lock_reach lock_init" by (simp add: lock_reach_def)
  have e0: "acquire_start 0 7 (smp lock_init) = Ok (set_cpu 0 ?k (smp lock_init))"
    by (simp add: acquire_start_def holding_def lock_init_def set_cpu_def pushcli_def popcli_def initlock_def Let_def)
  have 1: "lock_reach (lock_init\<lparr>smp := set_cpu 0 ?k (smp lock_init), phase := (phase lock_init)(0 := Spin 7)\<rparr>)" (is "lock_reach ?s1")
    by (rule step[OF 0 lstep.start[OF _ e0]]) (simp add: lock_init_def)
  have 2: "lock_reach (?s1\<lparr>smp := upd_lock 7 (\<lambda>k. k\<lparr>locked := True\<rparr>) (smp ?s1), phase := (phase ?s1)(0 := Won 7)\<rparr>)" (is "lock_reach ?s2")
    by (rule step[OF 1 lstep.win]) (simp_all add: xchg_lock_def lock_init_def initlock_def)
  have 3: "lock_reach (?s2\<lparr>smp := acquire_record 0 7 (smp ?s2), phase := (phase ?s2)(0 := Run), held_by := (held_by ?s2)(0 := 7 # held_by ?s2 0)\<rparr>)" (is "lock_reach ?s3")
    by (rule step[OF 2 lstep.enter]) simp
  have e3: "acquire_start 1 7 (smp ?s3) = Ok (set_cpu 1 ?k (smp ?s3))"
    by (simp add: acquire_start_def holding_def lock_init_def set_cpu_def upd_lock_def acquire_record_def pushcli_def popcli_def initlock_def Let_def)
  have "lock_reach (?s3\<lparr>smp := set_cpu 1 ?k (smp ?s3), phase := (phase ?s3)(1 := Spin 7)\<rparr>)" (is "lock_reach ?s4")
    by (rule step[OF 3 lstep.start[OF _ e3]]) (simp add: lock_init_def)
  moreover have "?s4 = demo_locks"
    by (auto simp: demo_locks_def lock_init_def set_cpu_def upd_lock_def acquire_record_def initlock_def fun_eq_iff Let_def)
  ultimately show ?thesis by simp
qed

theorem mutual_exclusion_witness:
  "lock_reach demo_locks \<and> held_by demo_locks 0 = [7] \<and> phase demo_locks 1 = Spin 7 \<and> \<not> fl_if (cpus (smp demo_locks) 0)"
  using mutual_exclusion[OF demo_locks_reach, of 7 0 1] demo_locks_reach by (simp add: demo_locks_def Let_def)



end
