(* ===== verification/Kernel.thy ===== *)
theory Kernel
  imports Fs_Dir Pipe Vm
begin

text \<open>
  The global state of the kernel: the file system and the memory machine of the earlier theories,
  the table of open files (file.c), the pipes, the process table (proc.c) and the clock; sleeping and
  waking (\<open>sleep\<close>, \<open>wakeup\<close>, proc.c); and the access of the kernel to user memory through the page
  table of the current process.
\<close>

definition NPROC :: nat where [consts_defs]: "NPROC = 64"
definition NOFILE :: nat where [consts_defs]: "NOFILE = 16"
definition NFILE :: nat where [consts_defs]: "NFILE = 100"

section \<open>Processes and files\<close>

datatype procstate = UNUSED | EMBRYO | SLEEPING | RUNNABLE | RUNNING | ZOMBIE

text \<open>The addresses processes sleep on.\<close>

datatype chan = ChanProc nat | ChanNread nat | ChanNwrite nat | ChanTicks

text \<open>The registers of the trap frame the C code reads or writes.\<close>

record trapframe =
  tf_eax :: nat
  tf_ds :: nat
  tf_es :: nat
  tf_ss :: nat
  tf_trapno :: nat
  tf_err :: nat
  tf_eip :: nat
  tf_cs :: nat
  tf_eflags :: nat
  tf_esp :: nat

text \<open>
  \<open>struct proc\<close>.  A pointer to a process, a file or an inode is its index in its table, \<open>None\<close> for
  the null pointer.  The trap frame is the struct itself, \<open>p_tfp\<close> its address on the kernel stack.
\<close>

record proc =
  p_sz :: nat
  p_pgdir :: nat
  p_kstack :: nat
  p_state :: procstate
  p_pid :: int
  p_parent :: "nat option"
  p_tf :: trapframe
  p_tfp :: nat
  p_context :: nat
  p_chan :: "chan option"
  p_killed :: bool
  p_ofile :: "nat \<Rightarrow> nat option"
  p_cwd :: "nat option"
  p_name :: "byte list"

datatype ftype = FD_NONE | FD_PIPE | FD_INODE

record openfile =
  f_type :: ftype
  f_ref :: int
  f_readable :: bool
  f_writable :: bool
  f_pipe :: nat
  f_ip :: nat
  f_off :: nat

text \<open>
  \<open>cur\<close> is \<open>myproc()\<close> unless \<open>idle\<close>, when \<open>c->proc\<close> is null and the scheduler runs.  \<open>a_forkret\<close> and \<open>a_trapret\<close> are the addresses of the two entry points
  \<open>allocproc\<close> stores on a new kernel stack.
\<close>

record kernel =
  kfs :: fs_state
  kvm :: vm_state
  ftable :: "nat \<Rightarrow> openfile"
  pipes :: "nat \<Rightarrow> pipe"
  procs :: "nat \<Rightarrow> proc"
  nextpid :: int
  initproc :: "nat option"
  cur :: nat
  idle :: bool
  ticks :: uint
  a_forkret :: nat
  a_trapret :: nat
  first :: bool

text \<open>What a call that may sleep comes back with: a result, or sleep after \<open>n\<close> bytes of progress;
  \<open>Gone\<close> when the process has exited.\<close>

datatype io = Ret int | Sleeps chan nat | Gone

definition upd_proc :: "nat \<Rightarrow> (proc \<Rightarrow> proc) \<Rightarrow> kernel \<Rightarrow> kernel" where
  "upd_proc p f s = s\<lparr>procs := (procs s)(p := f (procs s p))\<rparr>"

definition upd_file :: "nat \<Rightarrow> (openfile \<Rightarrow> openfile) \<Rightarrow> kernel \<Rightarrow> kernel" where
  "upd_file f g s = s\<lparr>ftable := (ftable s)(f := g (ftable s f))\<rparr>"

text \<open>Running an operation of one of the two machines inside the kernel.\<close>

definition on_fs :: "(fs_state \<Rightarrow> ('r \<times> fs_state) res) \<Rightarrow> kernel \<Rightarrow> ('r \<times> kernel) res" where
  "on_fs f s = rbind (f (kfs s)) (\<lambda>(r, t). Ok (r, s\<lparr>kfs := t\<rparr>))"

definition do_fs :: "(fs_state \<Rightarrow> fs_state res) \<Rightarrow> kernel \<Rightarrow> kernel res" where
  "do_fs f s = rbind (f (kfs s)) (\<lambda>t. Ok (s\<lparr>kfs := t\<rparr>))"

definition on_vm :: "(vm_state \<Rightarrow> ('r \<times> vm_state) res) \<Rightarrow> kernel \<Rightarrow> ('r \<times> kernel) res" where
  "on_vm f s = rbind (f (kvm s)) (\<lambda>(r, t). Ok (r, s\<lparr>kvm := t\<rparr>))"

definition do_vm :: "(vm_state \<Rightarrow> vm_state res) \<Rightarrow> kernel \<Rightarrow> kernel res" where
  "do_vm f s = rbind (f (kvm s)) (\<lambda>t. Ok (s\<lparr>kvm := t\<rparr>))"

section \<open>Sleep and wakeup\<close>

text \<open>
  \<open>sleep\<close> up to the switch to the scheduler.  The locks it exchanges make the change of state
  atomic with the caller's test, which is the granularity of the model.
\<close>

definition sleep_on :: "chan \<Rightarrow> kernel \<Rightarrow> kernel" where
  "sleep_on c s = upd_proc (cur s) (\<lambda>p. p\<lparr>p_chan := Some c, p_state := SLEEPING\<rparr>) s"

definition wakeup1 :: "chan \<Rightarrow> kernel \<Rightarrow> kernel" where
  "wakeup1 c s =
     s\<lparr>procs := (\<lambda>i. if i < NPROC \<and> p_state (procs s i) = SLEEPING \<and> p_chan (procs s i) = Some c
                    then (procs s i)\<lparr>p_state := RUNNABLE\<rparr> else procs s i)\<rparr>"

definition wakeup :: "chan \<Rightarrow> kernel \<Rightarrow> kernel" where
  "wakeup c s = wakeup1 c s"

text \<open>The checks of \<open>sched\<close>: the lock is held, and nothing else; the state was changed; interrupts are off.\<close>

definition sched :: "bool \<Rightarrow> int \<Rightarrow> bool \<Rightarrow> kernel \<Rightarrow> kernel res" where
  "sched holding_ptable ncli fl_if s =
     (if \<not> holding_ptable then Panic ''sched ptable.lock''
      else if ncli \<noteq> 1 then Panic ''sched locks''
      else if p_state (procs s (cur s)) = RUNNING then Panic ''sched running''
      else if fl_if then Panic ''sched interruptible''
      else Ok (s\<lparr>idle := True, kvm := switchkvm (kvm s)\<rparr>))"

text \<open>\<open>sleep\<close>, given whether there is a process and a lock.\<close>

definition sleep :: "chan \<Rightarrow> bool \<Rightarrow> kernel \<Rightarrow> kernel res" where
  "sleep c lk s =
     (if idle s then Panic ''sleep''
      else if \<not> lk then Panic ''sleep without lk''
      else sched True 1 False (sleep_on c s))"

section \<open>User memory\<close>

unbundle bit_operations_syntax

text \<open>
  An access of the kernel to a user address goes through the page table of the current process;
  an address that is not mapped raises a page fault in kernel mode, which panics (\<open>trap\<close>, trap.c).
\<close>

definition user_addr :: "kernel \<Rightarrow> nat \<Rightarrow> nat option" where
  "user_addr s va =
     (let pte = fst (walkpgdir (p_pgdir (procs s (cur s))) va False (kvm s)) in
      if pte = 0 then None
      else let e = get32 (mem (kvm s)) pte in
        if e AND PTE_P = 0 then None else Some (P2V (PTE_ADDR e) + va mod PGSIZE))"

definition uload :: "kernel \<Rightarrow> nat \<Rightarrow> byte res" where
  "uload s va = (case user_addr s va of None \<Rightarrow> Panic ''trap'' | Some a \<Rightarrow> Ok (mem (kvm s) a))"

fun uloads :: "kernel \<Rightarrow> nat \<Rightarrow> nat \<Rightarrow> byte list res" where
  "uloads s va 0 = Ok []"
| "uloads s va (Suc n) = rbind (uload s va) (\<lambda>b. rbind (uloads s (va + 1) n) (\<lambda>bs. Ok (b # bs)))"

fun ustores :: "nat \<Rightarrow> byte list \<Rightarrow> kernel \<Rightarrow> kernel res" where
  "ustores va [] s = Ok s"
| "ustores va (b # bs) s =
     (case user_addr s va of
        None \<Rightarrow> Panic ''trap''
      | Some a \<Rightarrow> ustores (va + 1) bs (s\<lparr>kvm := (kvm s)\<lparr>mem := (mem (kvm s))(a := b)\<rparr>\<rparr>))"

text \<open>The fields other than the one an operation works on are left alone.\<close>

lemma on_fs_Ok: "on_fs f s = Ok (r, t) \<longleftrightarrow> (\<exists>u. f (kfs s) = Ok (r, u) \<and> t = s\<lparr>kfs := u\<rparr>)"
  by (auto simp: on_fs_def res_simps)

lemma do_fs_Ok: "do_fs f s = Ok t \<longleftrightarrow> (\<exists>u. f (kfs s) = Ok u \<and> t = s\<lparr>kfs := u\<rparr>)"
  by (auto simp: do_fs_def res_simps)

lemma on_vm_Ok: "on_vm f s = Ok (r, t) \<longleftrightarrow> (\<exists>u. f (kvm s) = Ok (r, u) \<and> t = s\<lparr>kvm := u\<rparr>)"
  by (auto simp: on_vm_def res_simps)

lemma do_vm_Ok: "do_vm f s = Ok t \<longleftrightarrow> (\<exists>u. f (kvm s) = Ok u \<and> t = s\<lparr>kvm := u\<rparr>)"
  by (auto simp: do_vm_def res_simps)

lemmas machine_Ok = on_fs_Ok do_fs_Ok on_vm_Ok do_vm_Ok

lemma upd_proc_simps [simp]:
  "procs (upd_proc p f s) = (procs s)(p := f (procs s p))" "kfs (upd_proc p f s) = kfs s" "kvm (upd_proc p f s) = kvm s"
  "ftable (upd_proc p f s) = ftable s" "pipes (upd_proc p f s) = pipes s" "nextpid (upd_proc p f s) = nextpid s"
  "initproc (upd_proc p f s) = initproc s" "cur (upd_proc p f s) = cur s" "idle (upd_proc p f s) = idle s" "ticks (upd_proc p f s) = ticks s"
  by (simp_all add: upd_proc_def)

lemma upd_file_simps [simp]:
  "ftable (upd_file i f s) = (ftable s)(i := f (ftable s i))" "kfs (upd_file i f s) = kfs s" "kvm (upd_file i f s) = kvm s"
  "procs (upd_file i f s) = procs s" "pipes (upd_file i f s) = pipes s" "nextpid (upd_file i f s) = nextpid s"
  "initproc (upd_file i f s) = initproc s" "cur (upd_file i f s) = cur s" "idle (upd_file i f s) = idle s" "ticks (upd_file i f s) = ticks s"
  by (simp_all add: upd_file_def)

lemma wakeup_simps [simp]:
  "kfs (wakeup c s) = kfs s" "kvm (wakeup c s) = kvm s" "ftable (wakeup c s) = ftable s" "pipes (wakeup c s) = pipes s"
  "nextpid (wakeup c s) = nextpid s" "initproc (wakeup c s) = initproc s" "cur (wakeup c s) = cur s" "idle (wakeup c s) = idle s"
  by (simp_all add: wakeup_def wakeup1_def)

end
