(* ===== verification/File.thy ===== *)
theory File
  imports Kernel
begin

text \<open>
  Open files (file.c) and the two ends of a pipe (\<open>pipealloc\<close>, pipe.c): the reference counts of the
  file table, and reading and writing through an open file.
\<close>

section \<open>The operations\<close>

definition filealloc :: "kernel \<Rightarrow> nat option \<times> kernel" where
  "filealloc s =
     (case find (\<lambda>f. f_ref (ftable s f) = 0) [0..<NFILE] of
        Some f \<Rightarrow> (Some f, upd_file f (\<lambda>x. x\<lparr>f_ref := 1\<rparr>) s)
      | None \<Rightarrow> (None, s))"

definition filedup :: "nat \<Rightarrow> kernel \<Rightarrow> kernel res" where
  "filedup f s =
     (if f_ref (ftable s f) < 1 then Panic ''filedup''
      else Ok (upd_file f (\<lambda>x. x\<lparr>f_ref := f_ref x + 1\<rparr>) s))"

text \<open>\<open>pipeclose\<close> with its wakeups and the release of the page.\<close>

definition pipeclose_k :: "nat \<Rightarrow> bool \<Rightarrow> kernel \<Rightarrow> kernel res" where
  "pipeclose_k p writable s =
     (let (q, gone) = pipeclose writable (pipes s p);
          s = s\<lparr>pipes := (pipes s)(p := q)\<rparr>;
          s = wakeup (if writable then ChanNread p else ChanNwrite p) s
      in if gone then do_vm (kfree p) s else Ok s)"

definition fileclose :: "nat \<Rightarrow> kernel \<Rightarrow> kernel res" where
  "fileclose f s =
     (if f_ref (ftable s f) < 1 then Panic ''fileclose''
      else
        let s = upd_file f (\<lambda>x. x\<lparr>f_ref := f_ref x - 1\<rparr>) s in
        if 0 < f_ref (ftable s f) then Ok s
        else
          let ff = ftable s f; s = upd_file f (\<lambda>x. x\<lparr>f_ref := 0, f_type := FD_NONE\<rparr>) s in
          if f_type ff = FD_PIPE then pipeclose_k (f_pipe ff) (f_writable ff) s
          else if f_type ff = FD_INODE then
            rbind (do_fs begin_op s) (\<lambda>s. rbind (do_fs (iput (f_ip ff)) s) (do_fs end_op))
          else Ok s)"

definition filestat :: "nat \<Rightarrow> kernel \<Rightarrow> (stat option \<times> kernel) res" where
  "filestat f s =
     (let ip = f_ip (ftable s f) in
      if f_type (ftable s f) = FD_INODE then
        rbind (do_fs (ilock ip) s) (\<lambda>s.
        let st = stati ip (kfs s) in
        rbind (do_fs (iunlock ip) s) (\<lambda>s. Ok (Some st, s)))
      else Ok (None, s))"

text \<open>\<open>piperead\<close> and \<open>pipewrite\<close> with their sleeps and wakeups.\<close>

definition piperead_k :: "nat \<Rightarrow> nat \<Rightarrow> kernel \<Rightarrow> ((io \<times> byte list) \<times> kernel) res" where
  "piperead_k p n s =
     (let (r, q) = piperead (p_killed (procs s (cur s))) n (pipes s p); s = s\<lparr>pipes := (pipes s)(p := q)\<rparr> in
      case r of
        RErr \<Rightarrow> Ok ((Ret (-1), []), s)
      | RSleep \<Rightarrow> rbind (sleep (ChanNread p) True s) (\<lambda>s. Ok ((Sleeps (ChanNread p) 0, []), s))
      | RDone cs \<Rightarrow> Ok ((Ret (int (length cs)), cs), wakeup (ChanNwrite p) s))"

definition pipewrite_k :: "nat \<Rightarrow> byte list \<Rightarrow> kernel \<Rightarrow> (io \<times> kernel) res" where
  "pipewrite_k p cs s =
     (let (r, q) = pipewrite (p_killed (procs s (cur s))) cs (pipes s p); s = s\<lparr>pipes := (pipes s)(p := q)\<rparr> in
      case r of
        WErr \<Rightarrow> Ok (Ret (-1), s)
      | WSleep rest \<Rightarrow>
          rbind (sleep (ChanNwrite p) True (wakeup (ChanNread p) s)) (\<lambda>s.
          Ok (Sleeps (ChanNwrite p) (length cs - length rest), s))
      | WDone \<Rightarrow> Ok (Ret (int (length cs)), wakeup (ChanNread p) s))"

text \<open>The bytes read are returned; the system call stores them at the user's address.\<close>

definition fileread :: "(nat \<Rightarrow> fs_state devsw) \<Rightarrow> nat \<Rightarrow> nat \<Rightarrow> kernel \<Rightarrow> ((io \<times> byte list) \<times> kernel) res" where
  "fileread devsw f n s =
     (let ff = ftable s f; ip = f_ip ff in
      if \<not> f_readable ff then Ok ((Ret (-1), []), s)
      else if f_type ff = FD_PIPE then piperead_k (f_pipe ff) n s
      else if f_type ff = FD_INODE then
        rbind (do_fs (ilock ip) s) (\<lambda>s.
        rbind (on_fs (readi devsw ip (f_off ff) n) s) (\<lambda>((r, bs), s).
        let s = (if 0 < r then upd_file f (\<lambda>x. x\<lparr>f_off := (f_off x + nat r) mod 4294967296\<rparr>) s else s) in
        rbind (do_fs (iunlock ip) s) (\<lambda>s. Ok ((Ret r, bs), s))))
      else Panic ''fileread'')"

text \<open>\<open>((MAXOPBLOCKS-1-1-2) / 2) * 512\<close> bytes per transaction.\<close>

definition FILE_MAX :: nat where
  "FILE_MAX = nat ((MAXOPBLOCKS - 1 - 1 - 2) div 2) * 512"

text \<open>The loop of \<open>filewrite\<close> over the bytes still to write; its result is whether it wrote them all.\<close>

function filewrite_loop :: "(nat \<Rightarrow> fs_state devsw) \<Rightarrow> nat \<Rightarrow> byte list \<Rightarrow> kernel \<Rightarrow> (bool \<times> kernel) res" where
  "filewrite_loop devsw f bs s =
     (if bs = [] then Ok (True, s)
      else
        let n1 = min (length bs) FILE_MAX; ip = f_ip (ftable s f) in
        rbind (do_fs begin_op s) (\<lambda>s.
        rbind (do_fs (ilock ip) s) (\<lambda>s.
        rbind (on_fs (writei devsw ip (take n1 bs) (f_off (ftable s f))) s) (\<lambda>(r, s).
        let s = (if 0 < r then upd_file f (\<lambda>x. x\<lparr>f_off := (f_off x + nat r) mod 4294967296\<rparr>) s else s) in
        rbind (do_fs (iunlock ip) s) (\<lambda>s.
        rbind (do_fs end_op s) (\<lambda>s.
        if r < 0 then Ok (False, s)
        else if r \<noteq> int n1 then Panic ''short filewrite''
        else filewrite_loop devsw f (drop n1 bs) s))))))"
  by pat_completeness auto
termination
  by (relation "measure (\<lambda>(devsw, f, bs, s). length bs)") (auto simp: FILE_MAX_def MAXOPBLOCKS_def)

declare filewrite_loop.simps [simp del]

definition filewrite :: "(nat \<Rightarrow> fs_state devsw) \<Rightarrow> nat \<Rightarrow> byte list \<Rightarrow> kernel \<Rightarrow> (io \<times> kernel) res" where
  "filewrite devsw f bs s =
     (let ff = ftable s f in
      if \<not> f_writable ff then Ok (Ret (-1), s)
      else if f_type ff = FD_PIPE then pipewrite_k (f_pipe ff) bs s
      else if f_type ff = FD_INODE then
        rbind (filewrite_loop devsw f bs s) (\<lambda>(all, s). Ok (Ret (if all then int (length bs) else -1), s))
      else Panic ''filewrite'')"

definition pipealloc :: "kernel \<Rightarrow> ((nat \<times> nat) option \<times> kernel) res" where
  "pipealloc s =
     (let (f0, s) = filealloc s in
      case f0 of
        None \<Rightarrow> Ok (None, s)
      | Some f0 \<Rightarrow>
          let (f1, s) = filealloc s in
          case f1 of
            None \<Rightarrow> rbind (fileclose f0 s) (\<lambda>s. Ok (None, s))
          | Some f1 \<Rightarrow>
              let (p, vm) = kalloc (kvm s); s = s\<lparr>kvm := vm\<rparr> in
              if p = 0 then rbind (fileclose f0 s) (\<lambda>s. rbind (fileclose f1 s) (\<lambda>s. Ok (None, s)))
              else
                let s = s\<lparr>pipes := (pipes s)(p := pipe_init (\<lambda>k. mem (kvm s) (p + k)))\<rparr>;
                    s = upd_file f0 (\<lambda>x. x\<lparr>f_type := FD_PIPE, f_readable := True, f_writable := False, f_pipe := p\<rparr>) s;
                    s = upd_file f1 (\<lambda>x. x\<lparr>f_type := FD_PIPE, f_readable := False, f_writable := True, f_pipe := p\<rparr>) s
                in Ok (Some (f0, f1), s))"

end
