(* ===== verification/Proc.thy ===== *)
theory Proc
  imports File
begin

text \<open>
  Processes (proc.c): creation, \<open>fork\<close>, \<open>exit\<close>, \<open>wait\<close>, \<open>kill\<close>, the scheduler's choice and the
  switches between process states, each a function on the state of the kernel.
\<close>

section \<open>Finding the processor\<close>

text \<open>\<open>apicids\<close> lists \<open>cpus[i].apicid\<close> for \<open>i < ncpu\<close>; the result is the index of the processor.\<close>

definition mycpu :: "bool \<Rightarrow> nat list \<Rightarrow> nat \<Rightarrow> nat res" where
  "mycpu fl_if apicids lapicid =
     (if fl_if then Panic (''mycpu called with interrupts enabled'' @ [CHR 0x0A])
      else case find (\<lambda>i. apicids ! i = lapicid) [0..<length apicids] of
        Some i \<Rightarrow> Ok i
      | None \<Rightarrow> Panic (''unknown apicid'' @ [CHR 0x0A]))"

definition cpuid :: "bool \<Rightarrow> nat list \<Rightarrow> nat \<Rightarrow> nat res" where
  "cpuid fl_if apicids lapicid = mycpu fl_if apicids lapicid"

section \<open>Creating processes\<close>

definition TF_SIZE :: nat where "TF_SIZE = 76"
definition CONTEXT_SIZE :: nat where "CONTEXT_SIZE = 20"

text \<open>The kernel stack of a new process: a trap frame, the return address \<open>trapret\<close>, a context.\<close>

definition allocproc :: "kernel \<Rightarrow> nat option \<times> kernel" where
  "allocproc s =
     (case find (\<lambda>p. p_state (procs s p) = UNUSED) [0..<NPROC] of
        None \<Rightarrow> (None, s)
      | Some p \<Rightarrow>
          let s = upd_proc p (\<lambda>x. x\<lparr>p_state := EMBRYO, p_pid := nextpid s\<rparr>) (s\<lparr>nextpid := nextpid s + 1\<rparr>);
              (k, vm) = kalloc (kvm s);
              s = upd_proc p (\<lambda>x. x\<lparr>p_kstack := k\<rparr>) (s\<lparr>kvm := vm\<rparr>)
          in if k = 0 then (None, upd_proc p (\<lambda>x. x\<lparr>p_state := UNUSED\<rparr>) s)
             else
               let sp = k + KSTACKSIZE - TF_SIZE; tf = sp; ret = sp - 4; ctx = ret - CONTEXT_SIZE;
                   m = put32 ret (a_trapret s) (mem (kvm s));
                   m = memset m ctx 0 CONTEXT_SIZE;
                   m = put32 (ctx + 16) (a_forkret s) m
               in (Some p, upd_proc p (\<lambda>x. x\<lparr>p_tfp := tf, p_context := ctx\<rparr>) (s\<lparr>kvm := (kvm s)\<lparr>mem := m\<rparr>\<rparr>)))"

definition zero_tf :: trapframe where
  "zero_tf = \<lparr>tf_eax = 0, tf_ds = 0, tf_es = 0, tf_ss = 0, tf_trapno = 0, tf_err = 0, tf_eip = 0, tf_cs = 0, tf_eflags = 0, tf_esp = 0\<rparr>"

text \<open>\<open>code\<close> and \<open>size\<close> are the linker symbols of the embedded first program; \<open>SEG_UCODE\<close> is 3,
  \<open>SEG_UDATA\<close> 4, \<open>DPL_USER\<close> 3 and \<open>FL_IF\<close> \<open>0x200\<close>.\<close>

definition userinit :: "(nat \<Rightarrow> fs_state devsw) \<Rightarrow> nat \<Rightarrow> nat \<Rightarrow> kernel \<Rightarrow> kernel res" where
  "userinit devsw code size' s =
     (case allocproc s of
        (None, s) \<Rightarrow> Fault ''userinit: no process''
      | (Some p, s) \<Rightarrow>
          let s = s\<lparr>initproc := Some p\<rparr> in
          rbind (on_vm setupkvm s) (\<lambda>(d, s).
          let s = upd_proc p (\<lambda>x. x\<lparr>p_pgdir := d\<rparr>) s in
          if d = 0 then Panic ''userinit: out of memory?''
          else
            rbind (do_vm (inituvm d code size') s) (\<lambda>s.
            let tf = zero_tf\<lparr>tf_cs := 3 * 8 + 3, tf_ds := 4 * 8 + 3, tf_es := 4 * 8 + 3, tf_ss := 4 * 8 + 3,
                       tf_eflags := 0x200, tf_esp := PGSIZE, tf_eip := 0\<rparr>;
                s = upd_proc p (\<lambda>x. x\<lparr>p_sz := PGSIZE, p_tf := tf, p_name := map (of_nat \<circ> of_char) ''initcode''\<rparr>) s in
            rbind (on_fs (namei devsw 0 [47]) s) (\<lambda>(ip, s).
            Ok (upd_proc p (\<lambda>x. x\<lparr>p_cwd := ip, p_state := RUNNABLE\<rparr>) s)))))"

text \<open>\<open>sz + n\<close> is \<open>uint\<close> arithmetic: it wraps for a negative \<open>n\<close> below \<open>-sz\<close>.\<close>

definition growproc :: "int \<Rightarrow> kernel \<Rightarrow> (int \<times> kernel) res" where
  "growproc n s =
     (let p = procs s (cur s); sz = p_sz p; new = nat ((int sz + n) mod 4294967296);
          r = (if 0 < n then on_vm (allocuvm (p_pgdir p) sz new) s
               else if n < 0 then on_vm (deallocuvm (p_pgdir p) sz new) s
               else Ok (sz, s))
      in rbind r (\<lambda>(sz', s).
        if n \<noteq> 0 \<and> sz' = 0 then Ok (-1, s)
        else
          let s = upd_proc (cur s) (\<lambda>x. x\<lparr>p_sz := sz'\<rparr>) s in
          rbind (do_vm (switchuvm (Some (p_kstack p, p_pgdir p))) s) (\<lambda>s. Ok (0, s))))"

definition dup_files :: "nat \<Rightarrow> nat \<Rightarrow> nat \<Rightarrow> kernel \<Rightarrow> kernel res" where
  "dup_files curproc np i s =
     (case p_ofile (procs s curproc) i of
        None \<Rightarrow> Ok s
      | Some f \<Rightarrow>
          rbind (filedup f s) (\<lambda>s.
          Ok (upd_proc np (\<lambda>x. x\<lparr>p_ofile := (p_ofile x)(i := Some f)\<rparr>) s)))"

definition fork :: "kernel \<Rightarrow> (int \<times> kernel) res" where
  "fork s =
     (let curproc = cur s in
      case allocproc s of
        (None, s) \<Rightarrow> Ok (-1, s)
      | (Some np, s) \<Rightarrow>
          rbind (on_vm (copyuvm (p_pgdir (procs s curproc)) (p_sz (procs s curproc))) s) (\<lambda>(d, s).
          let s = upd_proc np (\<lambda>x. x\<lparr>p_pgdir := d\<rparr>) s in
          if d = 0 then
            rbind (do_vm (kfree (p_kstack (procs s np))) s) (\<lambda>s.
            Ok (-1, upd_proc np (\<lambda>x. x\<lparr>p_kstack := 0, p_state := UNUSED\<rparr>) s))
          else
            let p = procs s curproc;
                s = upd_proc np (\<lambda>x. x\<lparr>p_sz := p_sz p, p_parent := Some curproc, p_tf := (p_tf p)\<lparr>tf_eax := 0\<rparr>\<rparr>) s in
            rbind (rfold (dup_files curproc np) [0..<NOFILE] s) (\<lambda>s.
            case p_cwd (procs s curproc) of
              None \<Rightarrow> Fault ''fork: null cwd''
            | Some ip \<Rightarrow>
                let s = s\<lparr>kfs := snd (idup ip (kfs s))\<rparr>;
                    s = upd_proc np (\<lambda>x. x\<lparr>p_cwd := Some ip, p_name := p_name (procs s curproc), p_state := RUNNABLE\<rparr>) s
                in Ok (p_pid (procs s np), s))))"

section \<open>Exit and wait\<close>

definition close_files :: "nat \<Rightarrow> nat \<Rightarrow> kernel \<Rightarrow> kernel res" where
  "close_files p fd s =
     (case p_ofile (procs s p) fd of
        None \<Rightarrow> Ok s
      | Some f \<Rightarrow> rbind (fileclose f s) (\<lambda>s. Ok (upd_proc p (\<lambda>x. x\<lparr>p_ofile := (p_ofile x)(fd := None)\<rparr>) s)))"

definition wake_proc :: "nat option \<Rightarrow> kernel \<Rightarrow> kernel" where
  "wake_proc p s = (case p of None \<Rightarrow> s | Some q \<Rightarrow> wakeup1 (ChanProc q) s)"

definition reparent :: "nat \<Rightarrow> nat \<Rightarrow> kernel \<Rightarrow> kernel" where
  "reparent curproc p s =
     (if p_parent (procs s p) = Some curproc then
        let s = upd_proc p (\<lambda>x. x\<lparr>p_parent := initproc s\<rparr>) s in
        if p_state (procs s p) = ZOMBIE then wake_proc (initproc s) s else s
      else s)"

text \<open>\<open>exit\<close> up to its switch to the scheduler, from which it does not come back.\<close>

definition exit :: "kernel \<Rightarrow> kernel res" where
  "exit s =
     (let curproc = cur s in
      if Some curproc = initproc s then Panic ''init exiting''
      else
        rbind (rfold (close_files curproc) [0..<NOFILE] s) (\<lambda>s.
        rbind (do_fs begin_op s) (\<lambda>s.
        case p_cwd (procs s curproc) of
          None \<Rightarrow> Fault ''exit: null cwd''
        | Some ip \<Rightarrow>
            rbind (do_fs (iput ip) s) (\<lambda>s.
            rbind (do_fs end_op s) (\<lambda>s.
            let s = upd_proc curproc (\<lambda>x. x\<lparr>p_cwd := None\<rparr>) s;
                s = wake_proc (p_parent (procs s curproc)) s;
                s = fold (reparent curproc) [0..<NPROC] s
            in sched True 1 False (upd_proc curproc (\<lambda>x. x\<lparr>p_state := ZOMBIE\<rparr>) s))))))"

definition reap :: "nat \<Rightarrow> kernel \<Rightarrow> (int \<times> kernel) res" where
  "reap p s =
     (let pid = p_pid (procs s p) in
      rbind (do_vm (kfree (p_kstack (procs s p))) s) (\<lambda>s.
      let s = upd_proc p (\<lambda>x. x\<lparr>p_kstack := 0\<rparr>) s in
      rbind (do_vm (freevm (p_pgdir (procs s p))) s) (\<lambda>s.
      Ok (pid, upd_proc p (\<lambda>x. x\<lparr>p_pid := 0, p_parent := None, p_name := 0 # tl (p_name x), p_killed := False,
                                p_state := UNUSED\<rparr>) s))))"

text \<open>One turn of the loop of \<open>wait\<close>: it returns, or sleeps and scans again when woken.\<close>

definition wait :: "kernel \<Rightarrow> (io \<times> kernel) res" where
  "wait s =
     (case find (\<lambda>p. p_parent (procs s p) = Some (cur s) \<and> p_state (procs s p) = ZOMBIE) [0..<NPROC] of
        Some p \<Rightarrow> rbind (reap p s) (\<lambda>(pid, s). Ok (Ret pid, s))
      | None \<Rightarrow>
          if \<not> list_ex (\<lambda>p. p_parent (procs s p) = Some (cur s)) [0..<NPROC] \<or> p_killed (procs s (cur s))
          then Ok (Ret (-1), s)
          else rbind (sleep (ChanProc (cur s)) True s) (\<lambda>s. Ok (Sleeps (ChanProc (cur s)) 0, s)))"

section \<open>Scheduling\<close>

text \<open>The body of the scheduler's loop for the table entry \<open>p\<close>, up to the switch to the process.\<close>

definition scheduler_run :: "nat \<Rightarrow> kernel \<Rightarrow> kernel res" where
  "scheduler_run p s =
     (if p_state (procs s p) \<noteq> RUNNABLE then Ok s
      else
        rbind (do_vm (switchuvm (Some (p_kstack (procs s p), p_pgdir (procs s p)))) (s\<lparr>cur := p, idle := False\<rparr>)) (\<lambda>s.
        Ok (upd_proc p (\<lambda>x. x\<lparr>p_state := RUNNING\<rparr>) (s\<lparr>kfs := (kfs s)\<lparr>curpid := p_pid (procs s p)\<rparr>\<rparr>))))"

definition yield :: "kernel \<Rightarrow> kernel res" where
  "yield s = sched True 1 False (upd_proc (cur s) (\<lambda>x. x\<lparr>p_state := RUNNABLE\<rparr>) s)"

text \<open>What \<open>sleep\<close> does first when the process runs again.\<close>

definition sleep_resume :: "kernel \<Rightarrow> kernel" where
  "sleep_resume s = upd_proc (cur s) (\<lambda>x. x\<lparr>p_chan := None\<rparr>) s"

definition forkret :: "kernel \<Rightarrow> kernel res" where
  "forkret s =
     (if first s then
        rbind (do_fs (iinit ROOTDEV) (s\<lparr>first := False\<rparr>)) (do_fs (initlog ROOTDEV))
      else Ok s)"

definition kill :: "int \<Rightarrow> kernel \<Rightarrow> int \<times> kernel" where
  "kill pid s =
     (case find (\<lambda>p. p_pid (procs s p) = pid) [0..<NPROC] of
        None \<Rightarrow> (-1, s)
      | Some p \<Rightarrow>
          (0, upd_proc p (\<lambda>x. let x = x\<lparr>p_killed := True\<rparr> in
                if p_state x = SLEEPING then x\<lparr>p_state := RUNNABLE\<rparr> else x) s))"

section \<open>The scheduler\<close>

text \<open>
  One turn of the endless loop of \<open>scheduler\<close>.  \<open>swtch\<close> (swtch.S) hands the processor over;
  \<open>run p s\<close> is what the process \<open>p\<close> makes of the state until it calls \<open>sched\<close>.  The list records the
  processes that got the processor.
\<close>

definition scheduler_step :: "(nat \<Rightarrow> kernel \<Rightarrow> kernel) \<Rightarrow> nat \<Rightarrow> nat list \<times> kernel \<Rightarrow> (nat list \<times> kernel) res" where
  "scheduler_step run p st = (case st of (picked, s) \<Rightarrow>
     if p_state (procs s p) \<noteq> RUNNABLE then Ok (picked, s)
     else
       rbind (scheduler_run p s) (\<lambda>s.
       let s = run p s in
       Ok (picked @ [p], s\<lparr>kvm := switchkvm (kvm s), idle := True\<rparr>)))"

definition scheduler :: "(nat \<Rightarrow> kernel \<Rightarrow> kernel) \<Rightarrow> kernel \<Rightarrow> (nat list \<times> kernel) res" where
  "scheduler run s = rfold (scheduler_step run) [0..<NPROC] ([], s\<lparr>idle := True\<rparr>)"

end
