(* ===== verification/Syscall.thy ===== *)
theory Syscall
  imports Proc
begin

text \<open>
  The arguments of system calls (syscall.c), which the kernel reads from the stack of the process
  after checking them against its size, and the system calls on processes (sysproc.c).
\<close>

section \<open>Arguments\<close>

text \<open>The value of 32 bits as an \<open>int\<close>, and back.\<close>

definition int32 :: "nat \<Rightarrow> int" where
  "int32 v = (if v < 2147483648 then int v else int v - 4294967296)"

definition nat32 :: "int \<Rightarrow> nat" where
  "nat32 r = nat (r mod 4294967296)"

definition bytes32 :: "byte list \<Rightarrow> nat" where
  "bytes32 bs = get32 (\<lambda>k. bs ! k) 0"

abbreviation cur_proc :: "kernel \<Rightarrow> proc" where
  "cur_proc s \<equiv> procs s (cur s)"

definition fetchint :: "nat \<Rightarrow> kernel \<Rightarrow> int option res" where
  "fetchint addr s =
     (if p_sz (cur_proc s) \<le> addr \<or> p_sz (cur_proc s) < (addr + 4) mod 4294967296 then Ok None
      else rbind (uloads s addr 4) (\<lambda>bs. Ok (Some (int32 (bytes32 bs)))))"

text \<open>The characters of a string with at most \<open>n\<close> left before the end of the address space.\<close>

primrec fetchstr_loop :: "nat \<Rightarrow> nat \<Rightarrow> kernel \<Rightarrow> byte list option res" where
  "fetchstr_loop 0 va s = Ok None"
| "fetchstr_loop (Suc n) va s =
     rbind (uload s va) (\<lambda>b.
     if b = 0 then Ok (Some [])
     else rbind (fetchstr_loop n (va + 1) s) (\<lambda>r. Ok (map_option (Cons b) r)))"

text \<open>The result is the string, whose length the C function returns.\<close>

definition fetchstr :: "nat \<Rightarrow> kernel \<Rightarrow> byte list option res" where
  "fetchstr addr s =
     (if p_sz (cur_proc s) \<le> addr then Ok None
      else fetchstr_loop (p_sz (cur_proc s) - addr) addr s)"

definition argint :: "nat \<Rightarrow> kernel \<Rightarrow> int option res" where
  "argint n s = fetchint ((tf_esp (p_tf (cur_proc s)) + 4 + 4 * n) mod 4294967296) s"

definition argptr :: "nat \<Rightarrow> int \<Rightarrow> kernel \<Rightarrow> nat option res" where
  "argptr n size' s =
     rbind (argint n s) (\<lambda>r.
     case r of
       None \<Rightarrow> Ok None
     | Some i \<Rightarrow>
         let a = nat32 i; sz = p_sz (cur_proc s) in
         if size' < 0 \<or> sz \<le> a \<or> sz < (a + nat size') mod 4294967296 then Ok None
         else Ok (Some a))"

definition argstr :: "nat \<Rightarrow> kernel \<Rightarrow> byte list option res" where
  "argstr n s =
     rbind (argint n s) (\<lambda>r.
     case r of
       None \<Rightarrow> Ok None
     | Some addr \<Rightarrow> fetchstr (nat32 addr) s)"

text \<open>\<open>if(arg... < 0) return -1;\<close>\<close>

definition with_arg :: "'a option res \<Rightarrow> kernel \<Rightarrow> ('a \<Rightarrow> (io \<times> kernel) res) \<Rightarrow> (io \<times> kernel) res" where
  "with_arg r s k = rbind r (\<lambda>x. case x of None \<Rightarrow> Ok (Ret (-1), s) | Some a \<Rightarrow> k a)"

section \<open>Calls on processes\<close>

definition ret :: "(int \<times> kernel) res \<Rightarrow> (io \<times> kernel) res" where
  "ret r = rbind r (\<lambda>(v, s). Ok (Ret v, s))"

definition sys_fork :: "kernel \<Rightarrow> (io \<times> kernel) res" where
  "sys_fork s = ret (fork s)"

definition sys_exit :: "kernel \<Rightarrow> (io \<times> kernel) res" where
  "sys_exit s = rbind (exit s) (\<lambda>s. Ok (Gone, s))"

definition sys_wait :: "kernel \<Rightarrow> (io \<times> kernel) res" where
  "sys_wait s = wait s"

definition sys_kill :: "kernel \<Rightarrow> (io \<times> kernel) res" where
  "sys_kill s = with_arg (argint 0 s) s (\<lambda>pid. ret (Ok (kill pid s)))"

definition sys_getpid :: "kernel \<Rightarrow> (io \<times> kernel) res" where
  "sys_getpid s = Ok (Ret (p_pid (cur_proc s)), s)"

definition sys_sbrk :: "kernel \<Rightarrow> (io \<times> kernel) res" where
  "sys_sbrk s =
     with_arg (argint 0 s) s (\<lambda>n.
     let addr = p_sz (cur_proc s) in
     rbind (growproc n s) (\<lambda>(r, s).
     if r < 0 then Ok (Ret (-1), s) else Ok (Ret (int addr), s)))"

text \<open>The loop of \<open>sys_sleep\<close>, entered again whenever the process is woken; \<open>ticks - ticks0 < n\<close> compares
  unsigned numbers.\<close>

definition sys_sleep_loop :: "uint \<Rightarrow> int \<Rightarrow> kernel \<Rightarrow> (io \<times> kernel) res" where
  "sys_sleep_loop ticks0 n s =
     (if ticks s - ticks0 < of_int n then
        if p_killed (cur_proc s) then Ok (Ret (-1), s)
        else rbind (sleep ChanTicks True s) (\<lambda>s. Ok (Sleeps ChanTicks 0, s))
      else Ok (Ret 0, s))"

definition sys_sleep :: "kernel \<Rightarrow> (io \<times> kernel) res" where
  "sys_sleep s = with_arg (argint 0 s) s (\<lambda>n. sys_sleep_loop (ticks s) n s)"

definition sys_uptime :: "kernel \<Rightarrow> (io \<times> kernel) res" where
  "sys_uptime s = Ok (Ret (uint (ticks s)), s)"

section \<open>What the checks are worth\<close>

text \<open>Every page below the size of the process is mapped.\<close>

definition user_mapped :: "kernel \<Rightarrow> bool" where
  "user_mapped s \<longleftrightarrow> p_sz (cur_proc s) \<le> KERNBASE \<and> (\<forall>va < p_sz (cur_proc s). user_addr s va \<noteq> None)"

lemma uload_mapped: "user_mapped s \<Longrightarrow> va < p_sz (cur_proc s) \<Longrightarrow> \<exists>b. uload s va = Ok b"
  by (auto simp: user_mapped_def uload_def split: option.splits)

lemma uloads_mapped:
  assumes "user_mapped s" and "va + n \<le> p_sz (cur_proc s)"
  shows "\<exists>bs. uloads s va n = Ok bs \<and> length bs = n \<and> (\<forall>i<n. uload s (va + i) = Ok (bs ! i))"
  using assms(2)
proof (induction n arbitrary: va)
  case (Suc n)
  obtain b where b: "uload s va = Ok b" using uload_mapped[OF assms(1), of va] Suc.prems by auto
  obtain bs where bs: "uloads s (va + 1) n = Ok bs" "length bs = n" "\<And>i. i < n \<Longrightarrow> uload s (va + 1 + i) = Ok (bs ! i)"
    using Suc.IH[of "va + 1"] Suc.prems by auto
  have "uload s (va + i) = Ok ((b # bs) ! i)" if "i < Suc n" for i
    using b bs(3)[of "i - 1"] that by (cases i) auto
  then show ?case using b bs by auto
qed simp

lemma fetchint_total:
  assumes "user_mapped s" and "addr < 4294967296"
  shows "\<exists>r. fetchint addr s = Ok r \<and> (r \<noteq> None \<longleftrightarrow> addr + 4 \<le> p_sz (cur_proc s))"
proof (cases "addr + 4 \<le> p_sz (cur_proc s)")
  case True
  have "(addr + 4) mod 4294967296 = addr + 4"
    using True assms(1) by (simp add: user_mapped_def KERNBASE_def)
  then show ?thesis using True uloads_mapped[OF assms(1) True] by (auto simp: fetchint_def res_simps)
next
  case False
  have "p_sz (cur_proc s) < (addr + 4) mod 4294967296" if "addr < p_sz (cur_proc s)"
    using False that assms(1) by (simp add: user_mapped_def KERNBASE_def)
  then show ?thesis using False by (auto simp: fetchint_def not_le)
qed

lemma fetchstr_loop_total:
  assumes "user_mapped s" and "va + n = p_sz (cur_proc s)"
  shows "\<exists>r. fetchstr_loop n va s = Ok r \<and>
    (case r of None \<Rightarrow> \<forall>i<n. uload s (va + i) \<noteq> Ok 0
     | Some cs \<Rightarrow> length cs < n \<and> uload s (va + length cs) = Ok 0 \<and> (\<forall>i<length cs. uload s (va + i) = Ok (cs ! i) \<and> cs ! i \<noteq> 0))"
  using assms(2)
proof (induction n arbitrary: va)
  case (Suc n)
  obtain b where b: "uload s va = Ok b" using uload_mapped[OF assms(1), of va] Suc.prems by auto
  show ?case
  proof (cases "b = 0")
    case True
    then show ?thesis using b by simp
  next
    case False
    obtain r where r: "fetchstr_loop n (va + 1) s = Ok r"
      "case r of None \<Rightarrow> \<forall>i<n. uload s (va + 1 + i) \<noteq> Ok 0
       | Some cs \<Rightarrow> length cs < n \<and> uload s (va + 1 + length cs) = Ok 0 \<and> (\<forall>i<length cs. uload s (va + 1 + i) = Ok (cs ! i) \<and> cs ! i \<noteq> 0)"
      using Suc.IH[of "va + 1"] Suc.prems by auto
    show ?thesis
    proof (cases r)
      case None
      have "uload s (va + i) \<noteq> Ok 0" if "i < Suc n" for i using r(2) None b False that by (cases i) auto
      then show ?thesis using b False r(1) None by simp
    next
      case (Some cs)
      have "uload s (va + i) = Ok ((b # cs) ! i) \<and> (b # cs) ! i \<noteq> 0" if "i < Suc (length cs)" for i
        using r(2) Some b False that by (cases i) auto
      then show ?thesis using b False r Some by auto
    qed
  qed
qed simp

end
