(* ===== verification/Sysfile.thy ===== *)
theory Sysfile
  imports Syscall
begin

text \<open>
  The system calls on files (sysfile.c).  What they do inside the file system is a function on its
  state; the system call itself checks the arguments, opens and closes the transaction and works on
  the descriptors of the process.
\<close>

unbundle bit_operations_syntax

section \<open>Descriptors\<close>

text \<open>The descriptor and the file.\<close>

definition argfd :: "nat \<Rightarrow> kernel \<Rightarrow> (nat \<times> nat) option res" where
  "argfd n s =
     rbind (argint n s) (\<lambda>r.
     case r of
       None \<Rightarrow> Ok None
     | Some fd \<Rightarrow>
         if fd < 0 \<or> int NOFILE \<le> fd then Ok None
         else case p_ofile (cur_proc s) (nat fd) of
           None \<Rightarrow> Ok None
         | Some f \<Rightarrow> Ok (Some (nat fd, f)))"

definition fdalloc :: "nat \<Rightarrow> kernel \<Rightarrow> nat option \<times> kernel" where
  "fdalloc f s =
     (case find (\<lambda>fd. p_ofile (cur_proc s) fd = None) [0..<NOFILE] of
        Some fd \<Rightarrow> (Some fd, upd_proc (cur s) (\<lambda>p. p\<lparr>p_ofile := (p_ofile p)(fd := Some f)\<rparr>) s)
      | None \<Rightarrow> (None, s))"

definition sys_dup :: "kernel \<Rightarrow> (io \<times> kernel) res" where
  "sys_dup s =
     with_arg (argfd 0 s) s (\<lambda>(_, f).
     case fdalloc f s of
       (None, s) \<Rightarrow> Ok (Ret (-1), s)
     | (Some fd, s) \<Rightarrow> rbind (filedup f s) (\<lambda>s. Ok (Ret (int fd), s)))"

text \<open>\<open>fileread\<close> stores the bytes it reads at the address given.\<close>

definition sys_read :: "(nat \<Rightarrow> fs_state devsw) \<Rightarrow> kernel \<Rightarrow> (io \<times> kernel) res" where
  "sys_read devsw s =
     with_arg (argfd 0 s) s (\<lambda>(_, f).
     with_arg (argint 2 s) s (\<lambda>n.
     with_arg (argptr 1 n s) s (\<lambda>p.
     rbind (fileread devsw f (nat n) s) (\<lambda>((r, bs), s).
     rbind (ustores p bs s) (\<lambda>s. Ok (r, s))))))"

definition sys_write :: "(nat \<Rightarrow> fs_state devsw) \<Rightarrow> kernel \<Rightarrow> (io \<times> kernel) res" where
  "sys_write devsw s =
     with_arg (argfd 0 s) s (\<lambda>(_, f).
     with_arg (argint 2 s) s (\<lambda>n.
     with_arg (argptr 1 n s) s (\<lambda>p.
     rbind (uloads s p (nat n)) (\<lambda>bs. filewrite devsw f bs s))))"

definition sys_close :: "kernel \<Rightarrow> (io \<times> kernel) res" where
  "sys_close s =
     with_arg (argfd 0 s) s (\<lambda>(fd, f).
     rbind (fileclose f (upd_proc (cur s) (\<lambda>p. p\<lparr>p_ofile := (p_ofile p)(fd := None)\<rparr>) s)) (\<lambda>s.
     Ok (Ret 0, s)))"

text \<open>\<open>struct stat\<close>: the type at 0, the device at 4, the inode number at 8, the links at 12 and the size
  at 16; the bytes between them are left alone.\<close>

definition STAT_SIZE :: nat where "STAT_SIZE = 20"

definition short_bytes :: "short \<Rightarrow> byte list" where
  "short_bytes v = [ucast v, ucast (drop_bit 8 v)]"

definition word_bytes :: "nat \<Rightarrow> byte list" where
  "word_bytes v = map (put32 0 v (\<lambda>_. 0)) [0..<4]"

definition ustore_stat :: "nat \<Rightarrow> stat \<Rightarrow> kernel \<Rightarrow> kernel res" where
  "ustore_stat a st s =
     rbind (ustores (a + 4) (word_bytes (st_dev st)) s) (\<lambda>s.
     rbind (ustores (a + 8) (word_bytes (st_ino st)) s) (\<lambda>s.
     rbind (ustores a (short_bytes (st_type st)) s) (\<lambda>s.
     rbind (ustores (a + 12) (short_bytes (st_nlink st)) s) (\<lambda>s.
     ustores (a + 16) (word_bytes (st_size st)) s))))"

definition sys_fstat :: "kernel \<Rightarrow> (io \<times> kernel) res" where
  "sys_fstat s =
     with_arg (argfd 0 s) s (\<lambda>(_, f).
     with_arg (argptr 1 (int STAT_SIZE) s) s (\<lambda>a.
     rbind (filestat f s) (\<lambda>(st, s).
     case st of
       None \<Rightarrow> Ok (Ret (-1), s)
     | Some st \<Rightarrow> rbind (ustore_stat a st s) (\<lambda>s. Ok (Ret 0, s)))))"

section \<open>Names\<close>

text \<open>The current directory of the process; a process in the kernel has one.\<close>

definition with_cwd :: "kernel \<Rightarrow> (nat \<Rightarrow> 'r res) \<Rightarrow> 'r res" where
  "with_cwd s k = (case p_cwd (cur_proc s) of None \<Rightarrow> Fault ''null cwd'' | Some cwd \<Rightarrow> k cwd)"

definition nlink_add :: "nat \<Rightarrow> short \<Rightarrow> 'a fs_state_scheme \<Rightarrow> 'a fs_state_scheme" where
  "nlink_add ip d s = upd_inode ip (\<lambda>n. n\<lparr>i_nlink := i_nlink n + d\<rparr>) s"

text \<open>The code at the label \<open>bad\<close> of \<open>sys_link\<close>.\<close>

definition link_bad :: "nat \<Rightarrow> 'a fs_state_scheme \<Rightarrow> (int \<times> 'a fs_state_scheme) res" where
  "link_bad ip s =
     rbind (ilock ip s) (\<lambda>s.
     rbind (iupdate ip (nlink_add ip (-1) s)) (\<lambda>s.
     rbind (iunlockput ip s) (\<lambda>s. Ok (-1, s))))"

text \<open>\<open>sys_link\<close> between \<open>begin_op\<close> and \<open>end_op\<close>.\<close>

definition link_op :: "(nat \<Rightarrow> 'a fs_state_scheme devsw) \<Rightarrow> nat \<Rightarrow> byte list \<Rightarrow> byte list \<Rightarrow>
    'a fs_state_scheme \<Rightarrow> (int \<times> 'a fs_state_scheme) res" where
  "link_op devsw cwd old new s =
     rbind (namei devsw cwd old s) (\<lambda>(r, s).
     case r of
       None \<Rightarrow> Ok (-1, s)
     | Some ip \<Rightarrow>
         rbind (ilock ip s) (\<lambda>s.
         if i_type (inodes s ip) = T_DIR then rbind (iunlockput ip s) (\<lambda>s. Ok (-1, s))
         else
           rbind (iupdate ip (nlink_add ip 1 s)) (\<lambda>s.
           rbind (iunlock ip s) (\<lambda>s.
           rbind (nameiparent devsw cwd new s) (\<lambda>(r, s).
           case r of
             None \<Rightarrow> link_bad ip s
           | Some (dp, name) \<Rightarrow>
               rbind (ilock dp s) (\<lambda>s.
               rbind (if i_dev (inodes s dp) \<noteq> i_dev (inodes s ip) then Ok (-1, s)
                      else dirlink devsw dp name (i_inum (inodes s ip)) s) (\<lambda>(r, s).
               if r < 0 then rbind (iunlockput dp s) (link_bad ip)
               else rbind (iunlockput dp s) (\<lambda>s. rbind (iput ip s) (\<lambda>s. Ok (0, s))))))))))"

text \<open>A call that works on the file system inside a transaction.\<close>

definition in_op :: "(fs_state \<Rightarrow> (int \<times> fs_state) res) \<Rightarrow> kernel \<Rightarrow> (io \<times> kernel) res" where
  "in_op f s =
     rbind (do_fs begin_op s) (\<lambda>s.
     rbind (on_fs f s) (\<lambda>(r, s).
     rbind (do_fs end_op s) (\<lambda>s. Ok (Ret r, s))))"

definition sys_link :: "(nat \<Rightarrow> fs_state devsw) \<Rightarrow> kernel \<Rightarrow> (io \<times> kernel) res" where
  "sys_link devsw s =
     with_arg (argstr 0 s) s (\<lambda>old.
     with_arg (argstr 1 s) s (\<lambda>new.
     with_cwd s (\<lambda>cwd. in_op (link_op devsw cwd old new) s)))"

primrec isdirempty_loop :: "(nat \<Rightarrow> 'a fs_state_scheme devsw) \<Rightarrow> nat list \<Rightarrow> nat \<Rightarrow>
    'a fs_state_scheme \<Rightarrow> (bool \<times> 'a fs_state_scheme) res" where
  "isdirempty_loop devsw [] dp s = Ok (True, s)"
| "isdirempty_loop devsw (off # offs) dp s =
     rbind (readi devsw dp off DIRENT_SIZE s) (\<lambda>((r, de), s).
     if r \<noteq> int DIRENT_SIZE then Panic ''isdirempty: readi''
     else if de_inum de \<noteq> 0 then Ok (False, s)
     else isdirempty_loop devsw offs dp s)"

definition isdirempty :: "(nat \<Rightarrow> 'a fs_state_scheme devsw) \<Rightarrow> nat \<Rightarrow> 'a fs_state_scheme \<Rightarrow>
    (bool \<times> 'a fs_state_scheme) res" where
  "isdirempty devsw dp s = isdirempty_loop devsw (drop 2 (dir_offs (i_size (inodes s dp)))) dp s"

text \<open>The code at the label \<open>bad\<close> of \<open>sys_unlink\<close>.\<close>

definition unlink_bad :: "nat \<Rightarrow> 'a fs_state_scheme \<Rightarrow> (int \<times> 'a fs_state_scheme) res" where
  "unlink_bad dp s = rbind (iunlockput dp s) (\<lambda>s. Ok (-1, s))"

definition unlink_op :: "(nat \<Rightarrow> 'a fs_state_scheme devsw) \<Rightarrow> nat \<Rightarrow> byte list \<Rightarrow>
    'a fs_state_scheme \<Rightarrow> (int \<times> 'a fs_state_scheme) res" where
  "unlink_op devsw cwd path s =
     rbind (nameiparent devsw cwd path s) (\<lambda>(r, s).
     case r of
       None \<Rightarrow> Ok (-1, s)
     | Some (dp, name) \<Rightarrow>
         rbind (ilock dp s) (\<lambda>s.
         if namecmp (chars name) (chars [46]) = 0 \<or> namecmp (chars name) (chars [46, 46]) = 0 then unlink_bad dp s
         else
           rbind (dirlookup devsw dp name s) (\<lambda>(r, s).
           case r of
             None \<Rightarrow> unlink_bad dp s
           | Some (off, ip) \<Rightarrow>
               rbind (ilock ip s) (\<lambda>s.
               if i_nlink (inodes s ip) <s 1 then Panic ''unlink: nlink < 1''
               else
                 rbind (if i_type (inodes s ip) = T_DIR then isdirempty devsw ip s else Ok (True, s)) (\<lambda>(empty, s).
                 if \<not> empty then rbind (iunlockput ip s) (unlink_bad dp)
                 else
                   rbind (writei devsw dp (replicate DIRENT_SIZE 0) off s) (\<lambda>(r, s).
                   if r \<noteq> int DIRENT_SIZE then Panic ''unlink: writei''
                   else
                     rbind (if i_type (inodes s ip) = T_DIR then iupdate dp (nlink_add dp (-1) s) else Ok s) (\<lambda>s.
                     rbind (iunlockput dp s) (\<lambda>s.
                     rbind (iupdate ip (nlink_add ip (-1) s)) (\<lambda>s.
                     rbind (iunlockput ip s) (\<lambda>s. Ok (0, s)))))))))))"

definition sys_unlink :: "(nat \<Rightarrow> fs_state devsw) \<Rightarrow> kernel \<Rightarrow> (io \<times> kernel) res" where
  "sys_unlink devsw s =
     with_arg (argstr 0 s) s (\<lambda>path. with_cwd s (\<lambda>cwd. in_op (unlink_op devsw cwd path) s))"

text \<open>The entries \<open>.\<close> and \<open>..\<close> of a new directory.\<close>

definition create_dots :: "(nat \<Rightarrow> 'a fs_state_scheme devsw) \<Rightarrow> nat \<Rightarrow> nat \<Rightarrow> 'a fs_state_scheme \<Rightarrow> 'a fs_state_scheme res" where
  "create_dots devsw dp ip s =
     rbind (iupdate dp (nlink_add dp 1 s)) (\<lambda>s.
     rbind (dirlink devsw ip [46] (i_inum (inodes s ip)) s) (\<lambda>(r, s).
     if r < 0 then Panic ''create dots''
     else
       rbind (dirlink devsw ip [46, 46] (i_inum (inodes s dp)) s) (\<lambda>(r, s).
       if r < 0 then Panic ''create dots'' else Ok s)))"

text \<open>The inode is returned locked.\<close>

definition create :: "(nat \<Rightarrow> 'a fs_state_scheme devsw) \<Rightarrow> nat \<Rightarrow> byte list \<Rightarrow> short \<Rightarrow> short \<Rightarrow> short \<Rightarrow>
    'a fs_state_scheme \<Rightarrow> (nat option \<times> 'a fs_state_scheme) res" where
  "create devsw cwd path type major minor s =
     rbind (nameiparent devsw cwd path s) (\<lambda>(r, s).
     case r of
       None \<Rightarrow> Ok (None, s)
     | Some (dp, name) \<Rightarrow>
         rbind (ilock dp s) (\<lambda>s.
         rbind (dirlookup devsw dp name s) (\<lambda>(r, s).
         case r of
           Some (off, ip) \<Rightarrow>
             rbind (iunlockput dp s) (\<lambda>s.
             rbind (ilock ip s) (\<lambda>s.
             if type = T_FILE \<and> i_type (inodes s ip) = T_FILE then Ok (Some ip, s)
             else rbind (iunlockput ip s) (\<lambda>s. Ok (None, s))))
         | None \<Rightarrow>
             rbind (ialloc (i_dev (inodes s dp)) type s) (\<lambda>(ip, s).
             rbind (ilock ip s) (\<lambda>s.
             rbind (iupdate ip (upd_inode ip (\<lambda>n. n\<lparr>i_major := major, i_minor := minor, i_nlink := 1\<rparr>) s)) (\<lambda>s.
             rbind (if type = T_DIR then create_dots devsw dp ip s else Ok s) (\<lambda>s.
             rbind (dirlink devsw dp name (i_inum (inodes s ip)) s) (\<lambda>(r, s).
             if r < 0 then Panic ''create: dirlink''
             else rbind (iunlockput dp s) (\<lambda>s. Ok (Some ip, s))))))))))"

section \<open>Opening files\<close>

definition O_RDONLY :: int where "O_RDONLY = 0"
definition O_WRONLY :: int where "O_WRONLY = 1"
definition O_RDWR :: int where "O_RDWR = 2"
definition O_CREATE :: int where "O_CREATE = 0x200"

text \<open>The inode \<open>sys_open\<close> opens, locked, or \<open>None\<close>.\<close>

definition open_inode :: "(nat \<Rightarrow> 'a fs_state_scheme devsw) \<Rightarrow> nat \<Rightarrow> byte list \<Rightarrow> int \<Rightarrow>
    'a fs_state_scheme \<Rightarrow> (nat option \<times> 'a fs_state_scheme) res" where
  "open_inode devsw cwd path omode s =
     (if omode AND O_CREATE \<noteq> 0 then create devsw cwd path T_FILE 0 0 s
      else
        rbind (namei devsw cwd path s) (\<lambda>(r, s).
        case r of
          None \<Rightarrow> Ok (None, s)
        | Some ip \<Rightarrow>
            rbind (ilock ip s) (\<lambda>s.
            if i_type (inodes s ip) = T_DIR \<and> omode \<noteq> O_RDONLY then rbind (iunlockput ip s) (\<lambda>s. Ok (None, s))
            else Ok (Some ip, s))))"

text \<open>Giving up an inode inside the transaction, with the result \<open>-1\<close>.\<close>

definition fail_op :: "nat \<Rightarrow> kernel \<Rightarrow> (io \<times> kernel) res" where
  "fail_op ip s =
     rbind (do_fs (iunlockput ip) s) (\<lambda>s. rbind (do_fs end_op s) (\<lambda>s. Ok (Ret (-1), s)))"

definition sys_open :: "(nat \<Rightarrow> fs_state devsw) \<Rightarrow> kernel \<Rightarrow> (io \<times> kernel) res" where
  "sys_open devsw s =
     with_arg (argstr 0 s) s (\<lambda>path.
     with_arg (argint 1 s) s (\<lambda>omode.
     with_cwd s (\<lambda>cwd.
     rbind (do_fs begin_op s) (\<lambda>s.
     rbind (on_fs (open_inode devsw cwd path omode) s) (\<lambda>(r, s).
     case r of
       None \<Rightarrow> rbind (do_fs end_op s) (\<lambda>s. Ok (Ret (-1), s))
     | Some ip \<Rightarrow>
         case filealloc s of
           (None, s) \<Rightarrow> fail_op ip s
         | (Some f, s) \<Rightarrow>
             case fdalloc f s of
               (None, s) \<Rightarrow> rbind (fileclose f s) (fail_op ip)
             | (Some fd, s) \<Rightarrow>
                 rbind (do_fs (iunlock ip) s) (\<lambda>s.
                 rbind (do_fs end_op s) (\<lambda>s.
                 Ok (Ret (int fd), upd_file f (\<lambda>x. x\<lparr>f_type := FD_INODE, f_ip := ip, f_off := 0,
                   f_readable := (omode AND O_WRONLY = 0),
                   f_writable := (omode AND O_WRONLY \<noteq> 0 \<or> omode AND O_RDWR \<noteq> 0)\<rparr>) s))))))))"

definition sys_mkdir :: "(nat \<Rightarrow> fs_state devsw) \<Rightarrow> kernel \<Rightarrow> (io \<times> kernel) res" where
  "sys_mkdir devsw s =
     rbind (do_fs begin_op s) (\<lambda>s.
     rbind (argstr 0 s) (\<lambda>path.
     rbind (case path of None \<Rightarrow> Ok (None, s) | Some path \<Rightarrow> with_cwd s (\<lambda>cwd. on_fs (create devsw cwd path T_DIR 0 0) s)) (\<lambda>(r, s).
     case r of
       None \<Rightarrow> rbind (do_fs end_op s) (\<lambda>s. Ok (Ret (-1), s))
     | Some ip \<Rightarrow>
         rbind (do_fs (iunlockput ip) s) (\<lambda>s. rbind (do_fs end_op s) (\<lambda>s. Ok (Ret 0, s))))))"

text \<open>The device numbers are cut to 16 bits on the way into \<open>create\<close>.\<close>

definition sys_mknod :: "(nat \<Rightarrow> fs_state devsw) \<Rightarrow> kernel \<Rightarrow> (io \<times> kernel) res" where
  "sys_mknod devsw s =
     rbind (do_fs begin_op s) (\<lambda>s.
     let fail = rbind (do_fs end_op s) (\<lambda>s. Ok (Ret (-1), s)) in
     rbind (argstr 0 s) (\<lambda>path.
     case path of
       None \<Rightarrow> fail
     | Some path \<Rightarrow>
         rbind (argint 1 s) (\<lambda>major.
         case major of
           None \<Rightarrow> fail
         | Some major \<Rightarrow>
             rbind (argint 2 s) (\<lambda>minor.
             case minor of
               None \<Rightarrow> fail
             | Some minor \<Rightarrow>
                 rbind (with_cwd s (\<lambda>cwd. on_fs (create devsw cwd path T_DEV (of_int major) (of_int minor)) s)) (\<lambda>(r, s).
                 case r of
                   None \<Rightarrow> rbind (do_fs end_op s) (\<lambda>s. Ok (Ret (-1), s))
                 | Some ip \<Rightarrow>
                     rbind (do_fs (iunlockput ip) s) (\<lambda>s. rbind (do_fs end_op s) (\<lambda>s. Ok (Ret 0, s))))))))"

definition sys_chdir :: "(nat \<Rightarrow> fs_state devsw) \<Rightarrow> kernel \<Rightarrow> (io \<times> kernel) res" where
  "sys_chdir devsw s =
     rbind (do_fs begin_op s) (\<lambda>s.
     rbind (argstr 0 s) (\<lambda>path.
     with_cwd s (\<lambda>cwd.
     rbind (case path of None \<Rightarrow> Ok (None, s) | Some path \<Rightarrow> on_fs (namei devsw cwd path) s) (\<lambda>(r, s).
     case r of
       None \<Rightarrow> rbind (do_fs end_op s) (\<lambda>s. Ok (Ret (-1), s))
     | Some ip \<Rightarrow>
         rbind (do_fs (ilock ip) s) (\<lambda>s.
         if i_type (inodes (kfs s) ip) \<noteq> T_DIR then fail_op ip s
         else
           rbind (do_fs (iunlock ip) s) (\<lambda>s.
           rbind (do_fs (iput cwd) s) (\<lambda>s.
           rbind (do_fs end_op s) (\<lambda>s.
           Ok (Ret 0, upd_proc (cur s) (\<lambda>p. p\<lparr>p_cwd := Some ip\<rparr>) s)))))))))"

definition sys_pipe :: "kernel \<Rightarrow> (io \<times> kernel) res" where
  "sys_pipe s =
     with_arg (argptr 0 8 s) s (\<lambda>fd.
     rbind (pipealloc s) (\<lambda>(r, s).
     case r of
       None \<Rightarrow> Ok (Ret (-1), s)
     | Some (rfile, wfile) \<Rightarrow>
         let fail = (\<lambda>s. rbind (fileclose rfile s) (\<lambda>s. rbind (fileclose wfile s) (\<lambda>s. Ok (Ret (-1), s)))) in
         case fdalloc rfile s of
           (None, s) \<Rightarrow> fail s
         | (Some fd0, s) \<Rightarrow>
             case fdalloc wfile s of
               (None, s) \<Rightarrow> fail (upd_proc (cur s) (\<lambda>p. p\<lparr>p_ofile := (p_ofile p)(fd0 := None)\<rparr>) s)
             | (Some fd1, s) \<Rightarrow>
                 rbind (ustores fd (word_bytes fd0) s) (\<lambda>s.
                 rbind (ustores (fd + 4) (word_bytes fd1) s) (\<lambda>s.
                 Ok (Ret 0, s)))))"

end
