(* ===== verification/Exec.thy ===== *)
theory Exec
  imports Sysfile
begin

text \<open>
  Running a program: the ELF headers (elf.h), \<open>loaduvm\<close> (vm.c), \<open>exec\<close> (exec.c) and \<open>sys_exec\<close>
  (sysfile.c).
\<close>

unbundle bit_operations_syntax

section \<open>ELF headers\<close>

definition ELF_MAGIC :: nat where "ELF_MAGIC = 0x464C457F"
definition ELF_PROG_LOAD :: nat where "ELF_PROG_LOAD = 1"
definition ELFHDR_SIZE :: nat where "ELFHDR_SIZE = 52"
definition PROGHDR_SIZE :: nat where "PROGHDR_SIZE = 32"
definition MAXARG :: nat where "MAXARG = 32"

text \<open>The fields \<open>exec\<close> reads.\<close>

record elfhdr =
  e_magic :: nat
  e_entry :: nat
  e_phoff :: nat
  e_phnum :: nat

record proghdr =
  ph_type :: nat
  ph_off :: nat
  ph_vaddr :: nat
  ph_filesz :: nat
  ph_memsz :: nat

definition dec_elfhdr :: "byte list \<Rightarrow> elfhdr" where
  "dec_elfhdr bs = (let d = (\<lambda>k. bs ! k) in
     \<lparr>e_magic = get32 d 0, e_entry = get32 d 24, e_phoff = get32 d 28, e_phnum = get16 d 44\<rparr>)"

definition dec_proghdr :: "byte list \<Rightarrow> proghdr" where
  "dec_proghdr bs = (let d = (\<lambda>k. bs ! k) in
     \<lparr>ph_type = get32 d 0, ph_off = get32 d 4, ph_vaddr = get32 d 8, ph_filesz = get32 d 16, ph_memsz = get32 d 20\<rparr>)"

section \<open>Loading\<close>

definition kstores :: "nat \<Rightarrow> byte list \<Rightarrow> kernel \<Rightarrow> kernel" where
  "kstores a bs s =
     s\<lparr>kvm := (kvm s)\<lparr>mem := (\<lambda>x. if a \<le> x \<and> x < a + length bs then bs ! (x - a) else mem (kvm s) x)\<rparr>\<rparr>"

text \<open>\<open>n\<close> is \<open>sz - i\<close>, the bytes still to load.\<close>

function loaduvm_loop :: "(nat \<Rightarrow> fs_state devsw) \<Rightarrow> nat \<Rightarrow> nat \<Rightarrow> nat \<Rightarrow> nat \<Rightarrow> nat \<Rightarrow> kernel \<Rightarrow> (int \<times> kernel) res" where
  "loaduvm_loop devsw pgdir addr ip offset n s =
     (if n = 0 then Ok (0, s)
      else
        let pte = fst (walkpgdir pgdir addr False (kvm s)) in
        if pte = 0 then Panic ''loaduvm: address should exist''
        else
          let pa = PTE_ADDR (get32 (mem (kvm s)) pte); m = min n PGSIZE in
          rbind (on_fs (readi devsw ip offset m) s) (\<lambda>((r, bs), s).
          let s = kstores (P2V pa) bs s in
          if r \<noteq> int m then Ok (-1, s)
          else loaduvm_loop devsw pgdir ((addr + PGSIZE) mod 4294967296) ip ((offset + PGSIZE) mod 4294967296) (n - m) s))"
  by pat_completeness auto
termination
  by (relation "measure (\<lambda>(devsw, pgdir, addr, ip, offset, n, s). n)") (auto simp: PGSIZE_def)

declare loaduvm_loop.simps [simp del]

definition loaduvm :: "(nat \<Rightarrow> fs_state devsw) \<Rightarrow> nat \<Rightarrow> nat \<Rightarrow> nat \<Rightarrow> nat \<Rightarrow> nat \<Rightarrow> kernel \<Rightarrow> (int \<times> kernel) res" where
  "loaduvm devsw pgdir addr ip offset sz s =
     (if addr mod PGSIZE \<noteq> 0 then Panic ''loaduvm: addr must be page aligned''
      else loaduvm_loop devsw pgdir addr ip offset sz s)"

text \<open>The loop over the program headers; \<open>None\<close> is the jump to \<open>bad\<close>.\<close>

primrec exec_load :: "nat \<Rightarrow> (nat \<Rightarrow> fs_state devsw) \<Rightarrow> nat \<Rightarrow> nat \<Rightarrow> nat \<Rightarrow> nat \<Rightarrow> kernel \<Rightarrow> (nat option \<times> kernel) res" where
  "exec_load 0 devsw ip pgdir off sz s = Ok (Some sz, s)"
| "exec_load (Suc n) devsw ip pgdir off sz s =
     rbind (on_fs (readi devsw ip off PROGHDR_SIZE) s) (\<lambda>((r, bs), s).
     if r \<noteq> int PROGHDR_SIZE then Ok (None, s)
     else
       let ph = dec_proghdr bs; off = (off + PROGHDR_SIZE) mod 4294967296; top = (ph_vaddr ph + ph_memsz ph) mod 4294967296 in
       if ph_type ph \<noteq> ELF_PROG_LOAD then exec_load n devsw ip pgdir off sz s
       else if ph_memsz ph < ph_filesz ph \<or> top < ph_vaddr ph then Ok (None, s)
       else
         rbind (on_vm (allocuvm pgdir sz top) s) (\<lambda>(sz, s).
         if sz = 0 \<or> ph_vaddr ph mod PGSIZE \<noteq> 0 then Ok (None, s)
         else
           rbind (loaduvm devsw pgdir (ph_vaddr ph) ip (ph_off ph) (ph_filesz ph) s) (\<lambda>(r, s).
           if r < 0 then Ok (None, s) else exec_load n devsw ip pgdir off sz s)))"

section \<open>The stack of the new program\<close>

text \<open>\<open>copyout\<close> of bytes that lie in the address space of the caller or on the kernel stack.\<close>

function copyout_list :: "nat \<Rightarrow> nat \<Rightarrow> byte list \<Rightarrow> kernel \<Rightarrow> (int \<times> kernel) res" where
  "copyout_list pgdir va bs s =
     (if bs = [] then Ok (0, s)
      else
        let va0 = PGROUNDDOWN va in
        rbind (uva2ka pgdir va0 (kvm s)) (\<lambda>pa0.
        if pa0 = 0 then Ok (-1, s)
        else
          let n = min (PGSIZE - (va - va0)) (length bs) in
          copyout_list pgdir ((va0 + PGSIZE) mod 4294967296) (drop n bs) (kstores (pa0 + (va - va0)) (take n bs) s)))"
  by pat_completeness auto
termination
proof (relation "measure (\<lambda>(pgdir, va, bs, s). length bs)", goal_cases)
  case (2 pgdir va bs s x xa xb)
  have "va - PGROUNDDOWN va < PGSIZE" by (simp add: PGROUNDDOWN_def PGSIZE_def)
  then show ?case using 2 by (auto simp: min_def)
qed simp

declare copyout_list.simps [simp del]

text \<open>Pushing the argument strings; the second component of the result lists their addresses.\<close>

primrec push_args :: "nat \<Rightarrow> byte list list \<Rightarrow> nat \<Rightarrow> nat list \<Rightarrow> kernel \<Rightarrow> ((nat \<times> nat list) option \<times> kernel) res" where
  "push_args pgdir [] sp us s = Ok (Some (sp, us), s)"
| "push_args pgdir (arg # args) sp us s =
     (if MAXARG \<le> length us then Ok (None, s)
      else
        let sp = nat ((int sp - int (length arg + 1)) mod 4294967296); sp = sp - sp mod 4 in
        rbind (copyout_list pgdir sp (arg @ [0]) s) (\<lambda>(r, s).
        if r < 0 then Ok (None, s) else push_args pgdir args sp (us @ [sp]) s))"

text \<open>The words on top of the strings: a return address, \<open>argc\<close>, \<open>argv\<close> and the vector itself.\<close>

definition ustack_words :: "nat \<Rightarrow> nat list \<Rightarrow> nat list" where
  "ustack_words sp us = [0xffffffff, length us, nat ((int sp - int ((length us + 1) * 4)) mod 4294967296)] @ us @ [0]"

definition exec_stack :: "nat \<Rightarrow> byte list list \<Rightarrow> nat \<Rightarrow> kernel \<Rightarrow> (nat option \<times> kernel) res" where
  "exec_stack pgdir argv sp s =
     rbind (push_args pgdir argv sp [] s) (\<lambda>(r, s).
     case r of
       None \<Rightarrow> Ok (None, s)
     | Some (sp, us) \<Rightarrow>
         let sp' = nat ((int sp - int ((3 + length us + 1) * 4)) mod 4294967296) in
         rbind (copyout_list pgdir sp' (concat (map word_bytes (ustack_words sp us))) s) (\<lambda>(r, s).
         if r < 0 then Ok (None, s) else Ok (Some sp', s)))"

section \<open>exec\<close>

text \<open>The code at the label \<open>bad\<close>, while \<open>ip\<close> is still locked and after it was given up.\<close>

definition exec_bad :: "nat \<Rightarrow> nat option \<Rightarrow> kernel \<Rightarrow> (int \<times> kernel) res" where
  "exec_bad pgdir ip s =
     rbind (if pgdir \<noteq> 0 then do_vm (freevm pgdir) s else Ok s) (\<lambda>s.
     case ip of
       None \<Rightarrow> Ok (-1, s)
     | Some ip \<Rightarrow> rbind (do_fs (iunlockput ip) s) (\<lambda>s. rbind (do_fs end_op s) (\<lambda>s. Ok (-1, s))))"

text \<open>The part of a path behind its last slash.\<close>

fun last_elem :: "byte list \<Rightarrow> byte list \<Rightarrow> byte list" where
  "last_elem name [] = name"
| "last_elem name (c # cs) = (if c = SL then last_elem cs cs else last_elem name cs)"

text \<open>From the allocation of the stack on, with the program loaded up to \<open>sz\<close>.\<close>

definition exec_commit :: "byte list \<Rightarrow> byte list list \<Rightarrow> nat \<Rightarrow> nat \<Rightarrow> nat \<Rightarrow> kernel \<Rightarrow> (int \<times> kernel) res" where
  "exec_commit path argv entry pgdir sz s =
     (let sz = PGROUNDUP sz in
      rbind (on_vm (allocuvm pgdir sz ((sz + 2 * PGSIZE) mod 4294967296)) s) (\<lambda>(sz, s).
      if sz = 0 then exec_bad pgdir None s
      else
        rbind (do_vm (clearpteu pgdir (sz - 2 * PGSIZE)) s) (\<lambda>s.
        rbind (exec_stack pgdir argv sz s) (\<lambda>(r, s).
        case r of
          None \<Rightarrow> exec_bad pgdir None s
        | Some sp \<Rightarrow>
            let old = p_pgdir (cur_proc s);
                s = upd_proc (cur s) (\<lambda>p. p\<lparr>p_name := take 15 (last_elem path path), p_pgdir := pgdir, p_sz := sz,
                      p_tf := (p_tf p)\<lparr>tf_eip := entry, tf_esp := sp\<rparr>\<rparr>) s in
            rbind (do_vm (switchuvm (Some (p_kstack (cur_proc s), pgdir))) s) (\<lambda>s.
            rbind (do_vm (freevm old) s) (\<lambda>s. Ok (0, s)))))))"

definition exec :: "(nat \<Rightarrow> fs_state devsw) \<Rightarrow> byte list \<Rightarrow> byte list list \<Rightarrow> kernel \<Rightarrow> (int \<times> kernel) res" where
  "exec devsw path argv s =
     with_cwd s (\<lambda>cwd.
     rbind (do_fs begin_op s) (\<lambda>s.
     rbind (on_fs (namei devsw cwd path) s) (\<lambda>(r, s).
     case r of
       None \<Rightarrow> rbind (do_fs end_op s) (\<lambda>s. Ok (-1, s))
     | Some ip \<Rightarrow>
         rbind (do_fs (ilock ip) s) (\<lambda>s.
         rbind (on_fs (readi devsw ip 0 ELFHDR_SIZE) s) (\<lambda>((r, bs), s).
         let elf = dec_elfhdr bs in
         if r \<noteq> int ELFHDR_SIZE \<or> e_magic elf \<noteq> ELF_MAGIC then exec_bad 0 (Some ip) s
         else
           rbind (on_vm setupkvm s) (\<lambda>(pgdir, s).
           if pgdir = 0 then exec_bad 0 (Some ip) s
           else
             rbind (exec_load (e_phnum elf) devsw ip pgdir (e_phoff elf) 0 s) (\<lambda>(r, s).
             case r of
               None \<Rightarrow> exec_bad pgdir (Some ip) s
             | Some sz \<Rightarrow>
                 rbind (do_fs (iunlockput ip) s) (\<lambda>s.
                 rbind (do_fs end_op s) (\<lambda>s.
                 exec_commit path argv (e_entry elf) pgdir sz s)))))))))"

text \<open>The vector of arguments: at most \<open>MAXARG\<close> words with the null pointer; \<open>n\<close> are left.\<close>

primrec fetch_argv :: "nat \<Rightarrow> nat \<Rightarrow> byte list list \<Rightarrow> kernel \<Rightarrow> byte list list option res" where
  "fetch_argv 0 uargv args s = Ok None"
| "fetch_argv (Suc n) uargv args s =
     rbind (fetchint uargv s) (\<lambda>r.
     case r of
       None \<Rightarrow> Ok None
     | Some uarg \<Rightarrow>
         if uarg = 0 then Ok (Some args)
         else
           rbind (fetchstr (nat32 uarg) s) (\<lambda>r.
           case r of
             None \<Rightarrow> Ok None
           | Some arg \<Rightarrow> fetch_argv n ((uargv + 4) mod 4294967296) (args @ [arg]) s))"

definition sys_exec :: "(nat \<Rightarrow> fs_state devsw) \<Rightarrow> kernel \<Rightarrow> (io \<times> kernel) res" where
  "sys_exec devsw s =
     with_arg (argstr 0 s) s (\<lambda>path.
     with_arg (argint 1 s) s (\<lambda>uargv.
     with_arg (fetch_argv MAXARG (nat32 uargv) [] s) s (\<lambda>argv.
     ret (exec devsw path argv s))))"

end
