(* ===== verification/Trap.thy ===== *)
theory Trap
  imports Exec
begin

text \<open>
  Entering the kernel: the dispatch of system calls (\<open>syscall\<close>, syscall.c) and of traps and
  interrupts (\<open>trap\<close>, trap.c).
\<close>

unbundle bit_operations_syntax

section \<open>System calls\<close>

definition SYS_fork :: nat where [consts_defs]: "SYS_fork = 1"
definition SYS_exit :: nat where [consts_defs]: "SYS_exit = 2"
definition SYS_wait :: nat where [consts_defs]: "SYS_wait = 3"
definition SYS_pipe :: nat where [consts_defs]: "SYS_pipe = 4"
definition SYS_read :: nat where [consts_defs]: "SYS_read = 5"
definition SYS_kill :: nat where [consts_defs]: "SYS_kill = 6"
definition SYS_exec :: nat where [consts_defs]: "SYS_exec = 7"
definition SYS_fstat :: nat where [consts_defs]: "SYS_fstat = 8"
definition SYS_chdir :: nat where [consts_defs]: "SYS_chdir = 9"
definition SYS_dup :: nat where [consts_defs]: "SYS_dup = 10"
definition SYS_getpid :: nat where [consts_defs]: "SYS_getpid = 11"
definition SYS_sbrk :: nat where [consts_defs]: "SYS_sbrk = 12"
definition SYS_sleep :: nat where [consts_defs]: "SYS_sleep = 13"
definition SYS_uptime :: nat where [consts_defs]: "SYS_uptime = 14"
definition SYS_open :: nat where [consts_defs]: "SYS_open = 15"
definition SYS_write :: nat where [consts_defs]: "SYS_write = 16"
definition SYS_mknod :: nat where [consts_defs]: "SYS_mknod = 17"
definition SYS_unlink :: nat where [consts_defs]: "SYS_unlink = 18"
definition SYS_link :: nat where [consts_defs]: "SYS_link = 19"
definition SYS_mkdir :: nat where [consts_defs]: "SYS_mkdir = 20"
definition SYS_close :: nat where [consts_defs]: "SYS_close = 21"

definition syscalls :: "(nat \<Rightarrow> fs_state devsw) \<Rightarrow> nat \<Rightarrow> (kernel \<Rightarrow> (io \<times> kernel) res) option" where
  "syscalls devsw = map_of [
     (SYS_fork, sys_fork), (SYS_exit, sys_exit), (SYS_wait, sys_wait), (SYS_pipe, sys_pipe), (SYS_read, sys_read devsw),
     (SYS_kill, sys_kill), (SYS_exec, sys_exec devsw), (SYS_fstat, sys_fstat), (SYS_chdir, sys_chdir devsw), (SYS_dup, sys_dup),
     (SYS_getpid, sys_getpid), (SYS_sbrk, sys_sbrk), (SYS_sleep, sys_sleep), (SYS_uptime, sys_uptime), (SYS_open, sys_open devsw),
     (SYS_write, sys_write devsw), (SYS_mknod, sys_mknod devsw), (SYS_unlink, sys_unlink devsw), (SYS_link, sys_link devsw), (SYS_mkdir, sys_mkdir devsw),
     (SYS_close, sys_close)]"

lemma syscalls_range:
  assumes "syscalls devsw n = Some f"
  shows "f \<in> {sys_fork, sys_exit, sys_wait, sys_pipe, sys_read devsw, sys_kill, sys_exec devsw, sys_fstat, sys_chdir devsw,
    sys_dup, sys_getpid, sys_sbrk, sys_sleep, sys_uptime, sys_open devsw, sys_write devsw, sys_mknod devsw,
    sys_unlink devsw, sys_link devsw, sys_mkdir devsw, sys_close}"
  using map_of_SomeD[OF assms[unfolded syscalls_def]] by auto

definition set_eax :: "int \<Rightarrow> kernel \<Rightarrow> kernel" where
  "set_eax r s = upd_proc (cur s) (\<lambda>p. p\<lparr>p_tf := (p_tf p)\<lparr>tf_eax := nat32 r\<rparr>\<rparr>) s"

text \<open>The result goes to \<open>eax\<close>, unless the call has gone to sleep or the process has exited.\<close>

definition syscall :: "(nat \<Rightarrow> fs_state devsw) \<Rightarrow> kernel \<Rightarrow> (io \<times> kernel) res" where
  "syscall devsw s =
     (let num = int32 (tf_eax (p_tf (cur_proc s))) in
      case (if 0 < num then syscalls devsw (nat num) else None) of
        Some f \<Rightarrow>
          rbind (f s) (\<lambda>(r, s).
          case r of
            Ret v \<Rightarrow> Ok (r, set_eax v s)
          | _ \<Rightarrow> Ok (r, s))
      | None \<Rightarrow> Ok (Ret (-1), set_eax (-1) s))"

section \<open>Traps\<close>

definition T_SYSCALL :: nat where [consts_defs]: "T_SYSCALL = 64"
definition T_IRQ0 :: nat where [consts_defs]: "T_IRQ0 = 32"
definition IRQ_TIMER :: nat where [consts_defs]: "IRQ_TIMER = 0"
definition IRQ_KBD :: nat where [consts_defs]: "IRQ_KBD = 1"
definition IRQ_COM1 :: nat where [consts_defs]: "IRQ_COM1 = 4"
definition IRQ_IDE :: nat where [consts_defs]: "IRQ_IDE = 14"
definition IRQ_SPURIOUS :: nat where [consts_defs]: "IRQ_SPURIOUS = 31"
definition DPL_USER :: nat where [consts_defs]: "DPL_USER = 3"

definition user_mode :: "trapframe \<Rightarrow> bool" where
  "user_mode tf \<longleftrightarrow> tf_cs tf AND 3 = DPL_USER"

text \<open>The clock interrupt; only the first processor counts.\<close>

definition clock_tick :: "nat \<Rightarrow> kernel \<Rightarrow> kernel" where
  "clock_tick cpu s = (if cpu = 0 then wakeup ChanTicks (s\<lparr>ticks := ticks s + 1\<rparr>) else s)"

text \<open>The \<open>switch\<close> on the number of the trap; \<open>dev\<close> gives the interrupt handlers of the devices.\<close>

definition trap_switch :: "(nat \<Rightarrow> kernel \<Rightarrow> kernel) \<Rightarrow> nat \<Rightarrow> trapframe \<Rightarrow> kernel \<Rightarrow> kernel res" where
  "trap_switch dev cpu tf s =
     (let no = tf_trapno tf in
      if no = T_IRQ0 + IRQ_TIMER then Ok (clock_tick cpu s)
      else if no = T_IRQ0 + IRQ_IDE then Ok (dev IRQ_IDE s)
      else if no = T_IRQ0 + IRQ_IDE + 1 then Ok s
      else if no = T_IRQ0 + IRQ_KBD then Ok (dev IRQ_KBD s)
      else if no = T_IRQ0 + IRQ_COM1 then Ok (dev IRQ_COM1 s)
      else if no = T_IRQ0 + 7 \<or> no = T_IRQ0 + IRQ_SPURIOUS then Ok s
      else if idle s \<or> tf_cs tf AND 3 = 0 then Panic ''trap''
      else Ok (upd_proc (cur s) (\<lambda>p. p\<lparr>p_killed := True\<rparr>) s))"

definition must_exit :: "trapframe \<Rightarrow> kernel \<Rightarrow> bool" where
  "must_exit tf s \<longleftrightarrow> \<not> idle s \<and> p_killed (cur_proc s) \<and> user_mode tf"

text \<open>The end of \<open>trap\<close>, behind the call of \<open>yield\<close>: reached at once, or when the process runs again.\<close>

definition trap_end :: "trapframe \<Rightarrow> kernel \<Rightarrow> kernel res" where
  "trap_end tf s = (if must_exit tf s then exit s else Ok s)"

text \<open>\<open>trap\<close> until it returns, or until the process gives up the processor.\<close>

definition trap :: "(nat \<Rightarrow> fs_state devsw) \<Rightarrow> (nat \<Rightarrow> kernel \<Rightarrow> kernel) \<Rightarrow> nat \<Rightarrow> trapframe \<Rightarrow> kernel \<Rightarrow> kernel res" where
  "trap devsw dev cpu tf s =
     (if tf_trapno tf = T_SYSCALL then
        if p_killed (cur_proc s) then exit s
        else
          rbind (syscall devsw (upd_proc (cur s) (\<lambda>p. p\<lparr>p_tf := tf\<rparr>) s)) (\<lambda>(r, s).
          case r of
            Ret _ \<Rightarrow> if p_killed (cur_proc s) then exit s else Ok s
          | _ \<Rightarrow> Ok s)
      else
        rbind (trap_switch dev cpu tf s) (\<lambda>s.
        if must_exit tf s then exit s
        else if \<not> idle s \<and> p_state (cur_proc s) = RUNNING \<and> tf_trapno tf = T_IRQ0 + IRQ_TIMER then yield s
        else trap_end tf s))"

end
