(* ===== verification/Proc_Props.thy ===== *)
theory Proc_Props
  imports Proc
begin

text \<open>
  The process table as a state machine: the steps a processor can take between two releases of
  \<open>ptable.lock\<close>, and the invariant of the table they preserve.
\<close>

section \<open>The invariant\<close>

definition live :: "procstate \<Rightarrow> bool" where
  "live st \<longleftrightarrow> st = SLEEPING \<or> st = RUNNABLE \<or> st = RUNNING"

text \<open>
  Every process but the first has a parent, which is alive; unused entries have none.  Process
  identifiers are positive, below \<open>nextpid\<close> and distinct.  A process asleep in \<open>wait\<close> has a child, but
  no dead one, and has not been killed.  Only the current process is running.
\<close>

definition parent_inv :: "(nat \<Rightarrow> proc) \<Rightarrow> nat \<Rightarrow> bool" where
  "parent_inv P k \<longleftrightarrow> k < NPROC \<and> live (p_state (P k)) \<and> p_parent (P k) = None \<and>
     (\<forall>i<NPROC. p_state (P i) \<noteq> EMBRYO) \<and>
     (\<forall>i<NPROC. p_state (P i) = UNUSED \<longrightarrow> p_parent (P i) = None) \<and>
     (\<forall>i<NPROC. p_state (P i) \<noteq> UNUSED \<longrightarrow> i \<noteq> k \<longrightarrow>
        (\<exists>q<NPROC. p_parent (P i) = Some q \<and> q \<noteq> i \<and> live (p_state (P q))))"

definition pid_inv :: "(nat \<Rightarrow> proc) \<Rightarrow> int \<Rightarrow> bool" where
  "pid_inv P n \<longleftrightarrow> 0 < n \<and> (\<forall>i<NPROC. p_pid (P i) < n \<and> (p_state (P i) \<noteq> UNUSED \<longrightarrow> 0 < p_pid (P i))) \<and>
     (\<forall>i<NPROC. \<forall>j<NPROC. p_state (P i) \<noteq> UNUSED \<longrightarrow> p_state (P j) \<noteq> UNUSED \<longrightarrow> p_pid (P i) = p_pid (P j) \<longrightarrow> i = j)"

definition wait_inv :: "(nat \<Rightarrow> proc) \<Rightarrow> bool" where
  "wait_inv P \<longleftrightarrow> (\<forall>i<NPROC. \<forall>q. p_state (P i) = SLEEPING \<longrightarrow> p_chan (P i) = Some (ChanProc q) \<longrightarrow>
     q = i \<and> \<not> p_killed (P i) \<and> (\<exists>j<NPROC. p_parent (P j) = Some i) \<and>
     (\<forall>j<NPROC. p_parent (P j) = Some i \<longrightarrow> p_state (P j) \<noteq> ZOMBIE))"

definition run_inv :: "(nat \<Rightarrow> proc) \<Rightarrow> nat \<Rightarrow> bool \<Rightarrow> bool" where
  "run_inv P c idl \<longleftrightarrow> (\<forall>i<NPROC. p_state (P i) = RUNNING \<longleftrightarrow> \<not> idl \<and> i = c) \<and> (\<not> idl \<longrightarrow> c < NPROC)"

definition proc_inv :: "kernel \<Rightarrow> bool" where
  "proc_inv s \<longleftrightarrow> (\<exists>k. initproc s = Some k \<and> parent_inv (procs s) k) \<and> pid_inv (procs s) (nextpid s) \<and>
     wait_inv (procs s) \<and> run_inv (procs s) (cur s) (idle s)"

text \<open>The steps.  Other parts of the kernel sleep on channels of their own and wake them.\<close>

definition other_chan :: "chan \<Rightarrow> bool" where
  "other_chan c \<longleftrightarrow> (\<forall>q. c \<noteq> ChanProc q)"

inductive kstep :: "kernel \<Rightarrow> kernel \<Rightarrow> bool" where
  k_fork: "\<not> idle s \<Longrightarrow> fork s = Ok (r, t) \<Longrightarrow> kstep s t"
| k_exit: "\<not> idle s \<Longrightarrow> exit s = Ok t \<Longrightarrow> kstep s t"
| k_wait: "\<not> idle s \<Longrightarrow> wait s = Ok (r, t) \<Longrightarrow> kstep s t"
| k_sleep: "\<not> idle s \<Longrightarrow> other_chan c \<Longrightarrow> sleep c True s = Ok t \<Longrightarrow> kstep s t"
| k_resume: "\<not> idle s \<Longrightarrow> kstep s (sleep_resume s)"
| k_wakeup: "other_chan c \<Longrightarrow> kstep s (wakeup c s)"
| k_kill: "\<not> idle s \<Longrightarrow> kstep s (snd (kill pid s))"
| k_yield: "\<not> idle s \<Longrightarrow> yield s = Ok t \<Longrightarrow> kstep s t"
| k_schedule: "idle s \<Longrightarrow> p < NPROC \<Longrightarrow> scheduler_run p s = Ok t \<Longrightarrow> kstep s t"
| k_grow: "\<not> idle s \<Longrightarrow> growproc n s = Ok (r, t) \<Longrightarrow> kstep s t"
| k_fault: "\<not> idle s \<Longrightarrow> kstep s (upd_proc (cur s) (\<lambda>x. x\<lparr>p_killed := True\<rparr>) s)"

section \<open>Wakeups and changes of state\<close>

lemma live_simps [simp]: "live SLEEPING" "live RUNNABLE" "live RUNNING" "\<not> live UNUSED" "\<not> live EMBRYO" "\<not> live ZOMBIE"
  by (simp_all add: live_def)

lemma parent_invD:
  assumes "parent_inv P k"
  shows "k < NPROC" and "live (p_state (P k))" and "p_parent (P k) = None"
    and "\<And>i. i < NPROC \<Longrightarrow> p_state (P i) \<noteq> EMBRYO"
    and "\<And>i. i < NPROC \<Longrightarrow> p_state (P i) = UNUSED \<Longrightarrow> p_parent (P i) = None"
    and "\<And>i. i < NPROC \<Longrightarrow> p_state (P i) \<noteq> UNUSED \<Longrightarrow> i \<noteq> k \<Longrightarrow>
      \<exists>q<NPROC. p_parent (P i) = Some q \<and> q \<noteq> i \<and> live (p_state (P q))"
  using assms unfolding parent_inv_def by blast+

lemma pid_invD:
  assumes "pid_inv P n"
  shows "0 < n" and "\<And>i. i < NPROC \<Longrightarrow> p_pid (P i) < n" and "\<And>i. i < NPROC \<Longrightarrow> p_state (P i) \<noteq> UNUSED \<Longrightarrow> 0 < p_pid (P i)"
    and "\<And>i j. i < NPROC \<Longrightarrow> j < NPROC \<Longrightarrow> p_state (P i) \<noteq> UNUSED \<Longrightarrow> p_state (P j) \<noteq> UNUSED \<Longrightarrow>
      p_pid (P i) = p_pid (P j) \<Longrightarrow> i = j"
  using assms unfolding pid_inv_def by blast+

lemma wait_invD:
  assumes "wait_inv P" and "i < NPROC" and "p_state (P i) = SLEEPING" and "p_chan (P i) = Some (ChanProc q)"
  shows "q = i" and "\<not> p_killed (P i)" and "\<exists>j<NPROC. p_parent (P j) = Some i"
    and "\<And>j. j < NPROC \<Longrightarrow> p_parent (P j) = Some i \<Longrightarrow> p_state (P j) \<noteq> ZOMBIE"
  using assms unfolding wait_inv_def by blast+

text \<open>A change of state among the live ones keeps the shape of the tree.\<close>

lemma parent_inv_live:
  assumes "parent_inv P k"
    and "\<And>i. i < NPROC \<Longrightarrow> p_parent (Q i) = p_parent (P i) \<and> (p_state (Q i) = p_state (P i) \<or> live (p_state (P i)) \<and> live (p_state (Q i)))"
  shows "parent_inv Q k"
proof -
  have l: "live (p_state (Q i)) = live (p_state (P i))" if "i < NPROC" for i using assms(2)[OF that] by auto
  have u: "p_state (Q i) = UNUSED \<longleftrightarrow> p_state (P i) = UNUSED" "p_state (Q i) = EMBRYO \<longleftrightarrow> p_state (P i) = EMBRYO" if "i < NPROC" for i
    using assms(2)[OF that] by auto
  show ?thesis
    unfolding parent_inv_def
  proof (intro conjI allI impI)
    fix i
    assume i: "i < NPROC" "p_state (Q i) \<noteq> UNUSED" "i \<noteq> k"
    then obtain q where "q < NPROC" "p_parent (P i) = Some q" "q \<noteq> i" "live (p_state (P q))"
      using assms(1) u(1)[OF i(1)] unfolding parent_inv_def by blast
    then show "\<exists>q<NPROC. p_parent (Q i) = Some q \<and> q \<noteq> i \<and> live (p_state (Q q))"
      using assms(2)[OF i(1)] l by metis
  qed (use assms(1) l u assms(2) in \<open>auto simp: parent_inv_def\<close>)
qed

lemma pid_inv_same:
  assumes "pid_inv P n" and "\<And>i. i < NPROC \<Longrightarrow> p_pid (Q i) = p_pid (P i) \<and> (p_state (Q i) = UNUSED \<longleftrightarrow> p_state (P i) = UNUSED)"
  shows "pid_inv Q n"
  using assms unfolding pid_inv_def by (metis (no_types, lifting))

text \<open>Waking sleepers, and nothing else, keeps the promise to those in \<open>wait\<close>.\<close>

lemma wait_inv_wake:
  assumes "wait_inv P"
    and "\<And>i. i < NPROC \<Longrightarrow> p_parent (Q i) = p_parent (P i) \<and> (p_state (Q i) = ZOMBIE \<longleftrightarrow> p_state (P i) = ZOMBIE)"
    and "\<And>i q. i < NPROC \<Longrightarrow> p_state (Q i) = SLEEPING \<Longrightarrow> p_chan (Q i) = Some (ChanProc q) \<Longrightarrow>
       p_state (P i) = SLEEPING \<and> p_chan (P i) = Some (ChanProc q) \<and> p_killed (Q i) = p_killed (P i)"
  shows "wait_inv Q"
  using assms unfolding wait_inv_def by (metis (no_types, lifting))

text \<open>One process moves between live states, and is not put to sleep in \<open>wait\<close> by it.\<close>

lemma proc_inv_move:
  assumes inv: "proc_inv s" and p: "p < NPROC"
    and keep: "p_parent x = p_parent (procs s p)" "p_pid x = p_pid (procs s p)" "live (p_state (procs s p))" "live (p_state x)"
    and slp: "\<And>q. p_state x = SLEEPING \<Longrightarrow> p_chan x \<noteq> Some (ChanProc q)"
    and t: "procs t = (procs s)(p := x)" "nextpid t = nextpid s" "initproc t = initproc s"
    and run: "run_inv (procs t) (cur t) (idle t)"
  shows "proc_inv t"
proof -
  obtain k where k: "initproc s = Some k" "parent_inv (procs s) k" using inv by (auto simp: proc_inv_def)
  have "parent_inv (procs t) k" by (rule parent_inv_live[OF k(2)]) (use keep in \<open>auto simp: t\<close>)
  moreover have "pid_inv (procs t) (nextpid s)"
    by (rule pid_inv_same[of "procs s"]) (use inv keep in \<open>auto simp: t proc_inv_def\<close>)
  moreover have "wait_inv (procs t)"
    by (rule wait_inv_wake[of "procs s"]) (use inv keep slp in \<open>auto simp: t proc_inv_def split: if_splits\<close>)
  ultimately show ?thesis using k(1) run by (auto simp: proc_inv_def t)
qed

lemma run_inv_sleep:
  assumes "run_inv P c False" and "p_state x \<noteq> RUNNING"
  shows "run_inv (P(c := x)) c True"
  using assms by (auto simp: run_inv_def)

lemma proc_inv_cur: "proc_inv s \<Longrightarrow> \<not> idle s \<Longrightarrow> cur s < NPROC \<and> p_state (procs s (cur s)) = RUNNING"
  by (auto simp: proc_inv_def run_inv_def)

lemma run_inv_same:
  assumes "run_inv P c i" and "\<And>j. j < NPROC \<Longrightarrow> p_state (Q j) = RUNNING \<longleftrightarrow> p_state (P j) = RUNNING"
  shows "run_inv Q c i"
  using assms by (simp add: run_inv_def)

lemma proc_inv_yield:
  assumes inv: "proc_inv s" and run: "\<not> idle s" and y: "yield s = Ok t"
  shows "proc_inv t"
proof -
  have t: "t = (upd_proc (cur s) (\<lambda>x. x\<lparr>p_state := RUNNABLE\<rparr>) s)\<lparr>idle := True, kvm := switchkvm (kvm s)\<rparr>"
    using y by (simp add: yield_def sched_def)
  note c = proc_inv_cur[OF inv run]
  have r: "run_inv (procs s) (cur s) False" using inv run by (simp add: proc_inv_def)
  show ?thesis
    by (rule proc_inv_move[OF inv, of "cur s" "(procs s (cur s))\<lparr>p_state := RUNNABLE\<rparr>"])
      (use c run_inv_sleep[OF r] in \<open>auto simp: t\<close>)
qed

lemma proc_inv_sleep:
  assumes inv: "proc_inv s" and run: "\<not> idle s" and oc: "other_chan c" and y: "sleep c True s = Ok t"
  shows "proc_inv t"
proof -
  have t: "t = (sleep_on c s)\<lparr>idle := True, kvm := switchkvm (kvm s)\<rparr>"
    using y run by (simp add: sleep_def sched_def sleep_on_def)
  note cu = proc_inv_cur[OF inv run]
  have r: "run_inv (procs s) (cur s) False" using inv run by (simp add: proc_inv_def)
  show ?thesis
    by (rule proc_inv_move[OF inv, of "cur s" "(procs s (cur s))\<lparr>p_chan := Some c, p_state := SLEEPING\<rparr>"])
      (use cu oc run_inv_sleep[OF r] in \<open>auto simp: t sleep_on_def other_chan_def\<close>)
qed

lemma proc_inv_schedule:
  assumes inv: "proc_inv s" and idle: "idle s" and p: "p < NPROC" and sr: "scheduler_run p s = Ok t"
  shows "proc_inv t"
proof (cases "p_state (procs s p) = RUNNABLE")
  case False
  then show ?thesis using sr inv by (simp add: scheduler_run_def)
next
  case True
  then obtain v where t: "t = upd_proc p (\<lambda>x. x\<lparr>p_state := RUNNING\<rparr>)
      (s\<lparr>cur := p, idle := False, kvm := v, kfs := (kfs s)\<lparr>curpid := p_pid (procs s p)\<rparr>\<rparr>)"
    using sr by (auto simp: scheduler_run_def do_vm_def res_simps)
  have r: "run_inv (procs s) (cur s) True" using inv idle by (simp add: proc_inv_def)
  show ?thesis
    by (rule proc_inv_move[OF inv p, of "(procs s p)\<lparr>p_state := RUNNING\<rparr>"])
      (use True p r in \<open>auto simp: t run_inv_def\<close>)
qed

lemma proc_inv_wakeup:
  assumes "proc_inv s"
  shows "proc_inv (wakeup1 c s)"
proof -
  obtain k where k: "initproc s = Some k" "parent_inv (procs s) k" using assms by (auto simp: proc_inv_def)
  have "parent_inv (procs (wakeup1 c s)) k" by (rule parent_inv_live[OF k(2)]) (auto simp: wakeup1_def)
  moreover have "pid_inv (procs (wakeup1 c s)) (nextpid s)"
    by (rule pid_inv_same[of "procs s"]) (use assms in \<open>auto simp: wakeup1_def proc_inv_def\<close>)
  moreover have "wait_inv (procs (wakeup1 c s))"
    by (rule wait_inv_wake[of "procs s"]) (use assms in \<open>auto simp: wakeup1_def proc_inv_def split: if_splits\<close>)
  moreover have "run_inv (procs (wakeup1 c s)) (cur s) (idle s)"
    by (rule run_inv_same[of "procs s"]) (use assms in \<open>auto simp: wakeup1_def proc_inv_def\<close>)
  ultimately show ?thesis using k(1) by (simp add: proc_inv_def wakeup1_def)
qed

lemma proc_inv_kill:
  assumes inv: "proc_inv s"
  shows "proc_inv (snd (kill pid s))"
proof (cases "find (\<lambda>p. p_pid (procs s p) = pid) [0..<NPROC]")
  case None
  then show ?thesis using inv by (simp add: kill_def)
next
  case (Some p)
  let ?x = "let x = (procs s p)\<lparr>p_killed := True\<rparr> in if p_state x = SLEEPING then x\<lparr>p_state := RUNNABLE\<rparr> else x"
  let ?t = "snd (kill pid s)"
  have p: "p < NPROC" using find_Some_in_set[OF Some] by simp
  have t: "?t = upd_proc p (\<lambda>_. ?x) s" using Some by (simp add: kill_def upd_proc_def)
  obtain k where k: "initproc s = Some k" "parent_inv (procs s) k" using inv by (auto simp: proc_inv_def)
  have "parent_inv (procs ?t) k" by (rule parent_inv_live[OF k(2)]) (auto simp: t Let_def)
  moreover have "pid_inv (procs ?t) (nextpid s)"
    by (rule pid_inv_same[of "procs s"]) (use inv in \<open>auto simp: t Let_def proc_inv_def\<close>)
  moreover have "wait_inv (procs ?t)"
    by (rule wait_inv_wake[of "procs s"]) (use inv in \<open>auto simp: t Let_def proc_inv_def split: if_splits\<close>)
  moreover have "run_inv (procs ?t) (cur s) (idle s)"
    by (rule run_inv_same[of "procs s"]) (use inv in \<open>auto simp: t Let_def proc_inv_def\<close>)
  ultimately show ?thesis using k(1) by (simp add: proc_inv_def t)
qed

text \<open>Changes to fields the invariant does not mention, and to those of a running process it does not.\<close>

lemma proc_inv_cur_upd:
  assumes inv: "proc_inv s" and run: "\<not> idle s"
    and "procs t = (procs s)(cur s := x)" "nextpid t = nextpid s" "initproc t = initproc s" "cur t = cur s" "idle t = idle s"
    and "p_parent x = p_parent (procs s (cur s))" "p_pid x = p_pid (procs s (cur s))" "p_state x = RUNNING"
  shows "proc_inv t"
proof -
  note c = proc_inv_cur[OF inv run]
  have "run_inv (procs s) (cur s) False" using inv run by (simp add: proc_inv_def)
  then have "run_inv (procs t) (cur t) (idle t)" using assms(3,6,7,10) run c by (auto simp: run_inv_def)
  then show ?thesis using assms c by (intro proc_inv_move[OF inv, of "cur s" x]) simp_all
qed

lemma proc_inv_cong:
  assumes "proc_inv s" and "procs t = procs s" "nextpid t = nextpid s" "initproc t = initproc s" "cur t = cur s" "idle t = idle s"
  shows "proc_inv t"
  using assms by (simp add: proc_inv_def)

lemma growproc_procs:
  assumes "growproc n s = Ok (r, t)"
  shows "\<exists>sz'. (procs t = procs s \<or> procs t = (procs s)(cur s := (procs s (cur s))\<lparr>p_sz := sz'\<rparr>)) \<and>
    nextpid t = nextpid s \<and> initproc t = initproc s \<and> cur t = cur s \<and> idle t = idle s \<and> ftable t = ftable s"
proof -
  define P where "P = procs s (cur s)"
  define new where "new = nat ((int (p_sz P) + n) mod 4294967296)"
  obtain sz' u where u: "(if 0 < n then on_vm (allocuvm (p_pgdir P) (p_sz P) new) s
      else if n < 0 then on_vm (deallocuvm (p_pgdir P) (p_sz P) new) s else Ok (p_sz P, s)) = Ok (sz', u)"
    and rest: "(if n \<noteq> 0 \<and> sz' = 0 then Ok (-1, u)
        else rbind (do_vm (switchuvm (Some (p_kstack P, p_pgdir P))) (upd_proc (cur u) (\<lambda>x. x\<lparr>p_sz := sz'\<rparr>) u)) (\<lambda>s. Ok (0, s)))
      = Ok (r, t)"
    using assms unfolding growproc_def Let_def P_def[symmetric] new_def[symmetric]
    by (auto simp: rbind_eq_Ok simp del: of_nat_add)
  obtain v where v: "u = s\<lparr>kvm := v\<rparr>"
    using u by (auto simp: on_vm_Ok split: if_splits) (metis kernel.surjective kernel.update_convs(2))
  show ?thesis
    using rest by (auto simp: v do_vm_Ok res_simps split: if_splits)
qed

lemma proc_inv_grow:
  assumes inv: "proc_inv s" and run: "\<not> idle s" and g: "growproc n s = Ok (r, t)"
  shows "proc_inv t"
proof -
  obtain sz' where t: "procs t = procs s \<or> procs t = (procs s)(cur s := (procs s (cur s))\<lparr>p_sz := sz'\<rparr>)"
    "nextpid t = nextpid s" "initproc t = initproc s" "cur t = cur s" "idle t = idle s"
    using growproc_procs[OF g] by blast
  show ?thesis using t(1)
  proof
    assume "procs t = procs s"
    then show ?thesis using t by (intro proc_inv_cong[OF inv]) auto
  next
    assume "procs t = (procs s)(cur s := (procs s (cur s))\<lparr>p_sz := sz'\<rparr>)"
    then show ?thesis using proc_inv_cur[OF inv run] t(2-)
      by (intro proc_inv_cur_upd[OF inv run, of t "(procs s (cur s))\<lparr>p_sz := sz'\<rparr>"]) simp_all
  qed
qed

section \<open>Fork\<close>

lemma allocproc_None:
  assumes "allocproc s = (None, t)"
  shows "\<exists>p x. (procs t = procs s \<and> nextpid t = nextpid s \<or>
      p < NPROC \<and> p_state (procs s p) = UNUSED \<and> procs t = (procs s)(p := x) \<and> p_state x = UNUSED \<and> p_parent x = p_parent (procs s p)
        \<and> p_pid x = nextpid s \<and> nextpid t = nextpid s + 1 \<and> p_ofile x = p_ofile (procs s p))
    \<and> initproc t = initproc s \<and> cur t = cur s \<and> idle t = idle s \<and> ftable t = ftable s"
proof (cases "find (\<lambda>p. p_state (procs s p) = UNUSED) [0..<NPROC]")
  case None
  then show ?thesis using assms by (simp add: allocproc_def)
next
  case (Some p)
  have p: "p < NPROC" "p_state (procs s p) = UNUSED" using find_Some_in_set[OF Some] by auto
  show ?thesis
    using assms Some p by (auto simp: allocproc_def Let_def split: prod.splits if_splits intro!: exI[of _ p])
qed

lemma allocproc_Some:
  assumes "allocproc s = (Some p, t)"
  shows "p < NPROC" and "p_state (procs s p) = UNUSED" and "\<And>i. i < p \<Longrightarrow> p_state (procs s i) \<noteq> UNUSED"
    and "\<exists>k. k \<noteq> 0 \<and> fst (kalloc (kvm s)) = k \<and>
      procs t = (procs s)(p := (procs s p)\<lparr>p_state := EMBRYO, p_pid := nextpid s, p_kstack := k,
        p_tfp := k + KSTACKSIZE - TF_SIZE, p_context := k + KSTACKSIZE - TF_SIZE - 4 - CONTEXT_SIZE\<rparr>)"
    and "nextpid t = nextpid s + 1" and "initproc t = initproc s" and "cur t = cur s" and "idle t = idle s"
    and "kfs t = kfs s" and "ftable t = ftable s"
proof -
  have f: "find (\<lambda>p. p_state (procs s p) = UNUSED) [0..<NPROC] = Some p"
    using assms by (auto simp: allocproc_def Let_def split: option.splits prod.splits if_splits)
  show "p < NPROC" "p_state (procs s p) = UNUSED" using find_Some_in_set[OF f] by auto
  show "p_state (procs s i) \<noteq> UNUSED" if "i < p" for i
    using f that by (auto simp: find_Some_iff)
  show "\<exists>k. k \<noteq> 0 \<and> fst (kalloc (kvm s)) = k \<and>
      procs t = (procs s)(p := (procs s p)\<lparr>p_state := EMBRYO, p_pid := nextpid s, p_kstack := k,
        p_tfp := k + KSTACKSIZE - TF_SIZE, p_context := k + KSTACKSIZE - TF_SIZE - 4 - CONTEXT_SIZE\<rparr>)"
    using assms f by (auto simp: allocproc_def Let_def fun_eq_iff split: prod.splits if_splits)
  show "nextpid t = nextpid s + 1" "initproc t = initproc s" "cur t = cur s" "idle t = idle s" "kfs t = kfs s" "ftable t = ftable s"
    using assms f by (auto simp: allocproc_def Let_def split: prod.splits if_splits)
qed

text \<open>The descriptors of the child: the parent's where it has one.\<close>

definition copy_fds :: "nat set \<Rightarrow> (nat \<Rightarrow> nat option) \<Rightarrow> (nat \<Rightarrow> nat option) \<Rightarrow> nat \<Rightarrow> nat option" where
  "copy_fds F A B = (\<lambda>i. if i \<in> F \<and> A i \<noteq> None then A i else B i)"

lemma copy_fds_insert: "copy_fds F A (copy_fds {fd} A B) = copy_fds (insert fd F) A B"
  by (auto simp: copy_fds_def fun_eq_iff)

lemma dup_files_procs:
  assumes "rfold (dup_files c np) fds s = Ok t" and "c \<noteq> np"
  shows "procs t = (procs s)(np := (procs s np)\<lparr>p_ofile := copy_fds (set fds) (p_ofile (procs s c)) (p_ofile (procs s np))\<rparr>)
    \<and> nextpid t = nextpid s \<and> initproc t = initproc s \<and> cur t = cur s \<and> idle t = idle s \<and> kvm t = kvm s \<and> kfs t = kfs s
    \<and> (\<forall>f. f_ref (ftable t f) = f_ref (ftable s f) + (\<Sum>fd\<leftarrow>fds. of_bool (p_ofile (procs s c) fd = Some f)))"
  using assms(1)
proof (induction fds arbitrary: s)
  case Nil
  then show ?case by (simp add: copy_fds_def)
next
  case (Cons fd fds)
  then obtain u where u: "dup_files c np fd s = Ok u" "rfold (dup_files c np) fds u = Ok t" by (auto simp: res_simps)
  have pu: "procs u = (procs s)(np := (procs s np)\<lparr>p_ofile := copy_fds {fd} (p_ofile (procs s c)) (p_ofile (procs s np))\<rparr>)"
    "nextpid u = nextpid s" "initproc u = initproc s" "cur u = cur s" "idle u = idle s" "kvm u = kvm s" "kfs u = kfs s"
    using u(1)
    by (auto simp: dup_files_def filedup_def copy_fds_def fun_upd_def fun_eq_iff res_simps split: option.splits if_splits
        intro!: proc.equality)
  have fu: "f_ref (ftable u f) = f_ref (ftable s f) + of_bool (p_ofile (procs s c) fd = Some f)" for f
    using u(1) by (auto simp: dup_files_def filedup_def rbind_eq_Ok split: option.splits if_splits)
  have "p_ofile (procs u c) = p_ofile (procs s c)" using assms(2) by (simp add: pu(1))
  then show ?case using Cons.IH[OF u(2)] fu by (simp add: pu copy_fds_insert fun_upd_def cong: if_cong)
qed

text \<open>The process \<open>fork\<close> makes.\<close>

definition forked :: "kernel \<Rightarrow> nat \<Rightarrow> proc \<Rightarrow> bool" where
  "forked s np x \<longleftrightarrow>
     (let p = procs s (cur s) in
      p_state x = RUNNABLE \<and> p_pid x = nextpid s \<and> p_parent x = Some (cur s) \<and> p_sz x = p_sz p \<and>
      p_tf x = (p_tf p)\<lparr>tf_eax := 0\<rparr> \<and> p_name x = p_name p \<and> p_cwd x = p_cwd p \<and> p_cwd x \<noteq> None \<and>
      p_ofile x = copy_fds {0..<NOFILE} (p_ofile p) (p_ofile (procs s np)) \<and> p_killed x = p_killed (procs s np))"

lemma fork_procs:
  assumes "fork s = Ok (r, t)" and "p_state (procs s (cur s)) \<noteq> UNUSED"
  shows "initproc t = initproc s \<and> cur t = cur s \<and> idle t = idle s \<and>
    (r = -1 \<and> procs t = procs s \<and> nextpid t = nextpid s \<and> ftable t = ftable s \<or>
     (\<exists>np x. np < NPROC \<and> p_state (procs s np) = UNUSED \<and> procs t = (procs s)(np := x) \<and> nextpid t = nextpid s + 1 \<and> p_pid x = nextpid s \<and>
       (r = -1 \<and> p_state x = UNUSED \<and> p_parent x = p_parent (procs s np) \<and> p_ofile x = p_ofile (procs s np) \<and> ftable t = ftable s \<or>
        r = nextpid s \<and> forked s np x \<and>
          (\<forall>f. f_ref (ftable t f) = f_ref (ftable s f) + (\<Sum>fd\<leftarrow>[0..<NOFILE]. of_bool (p_ofile (procs s (cur s)) fd = Some f))))))"
proof (cases "allocproc s")
  case (Pair o1 u)
  show ?thesis
  proof (cases o1)
    case None
    then show ?thesis using assms(1) allocproc_None[of s u] Pair by (auto simp: fork_def)
  next
    case (Some np)
    note al = allocproc_Some[of s np u, OF Pair[unfolded Some]]
    have ne: "np \<noteq> cur s" using al(2) assms(2) by auto
    obtain k where k: "k \<noteq> 0" "procs u = (procs s)(np := (procs s np)\<lparr>p_state := EMBRYO, p_pid := nextpid s, p_kstack := k,
        p_tfp := k + KSTACKSIZE - TF_SIZE, p_context := k + KSTACKSIZE - TF_SIZE - 4 - CONTEXT_SIZE\<rparr>)"
      using al(4) by blast
    obtain d v where d: "copyuvm (p_pgdir (procs s (cur s))) (p_sz (procs s (cur s))) (kvm u) = Ok (d, v)"
      using assms(1) ne unfolding fork_def Let_def Pair Some by (auto simp: on_vm_def k(2) res_simps)
    show ?thesis
    proof (cases "d = 0")
      case True
      then obtain v' where t: "t = upd_proc np (\<lambda>x. x\<lparr>p_kstack := 0, p_state := UNUSED\<rparr>)
          ((upd_proc np (\<lambda>x. x\<lparr>p_pgdir := 0\<rparr>) (u\<lparr>kvm := v\<rparr>))\<lparr>kvm := v'\<rparr>)" "r = -1"
        using assms(1) d ne unfolding fork_def Let_def Pair Some
        by (auto simp: on_vm_def do_vm_def k(2) res_simps)
      have "\<exists>x. procs t = (procs s)(np := x) \<and> p_pid x = nextpid s \<and> p_state x = UNUSED \<and> p_parent x = p_parent (procs s np) \<and>
          p_ofile x = p_ofile (procs s np)"
        by (rule exI[of _ "procs t np"]) (simp add: t(1) k(2))
      moreover have "nextpid t = nextpid s + 1" "initproc t = initproc s" "cur t = cur s" "idle t = idle s" "ftable t = ftable s"
        using al(5-10) by (simp_all add: t(1))
      ultimately show ?thesis using al(1,2) t(2) by metis
    next
      case False
      define u2 where "u2 = upd_proc np (\<lambda>x. x\<lparr>p_sz := p_sz (procs s (cur s)), p_parent := Some (cur s),
          p_tf := (p_tf (procs s (cur s)))\<lparr>tf_eax := 0\<rparr>\<rparr>) (upd_proc np (\<lambda>x. x\<lparr>p_pgdir := d\<rparr>) (u\<lparr>kvm := v\<rparr>))"
      have p2: "procs u2 = (procs s)(np := procs u2 np)" using k(2) by (simp add: u2_def)
      have f: "fork s = rbind (rfold (dup_files (cur s) np) [0..<NOFILE] u2) (\<lambda>s'.
          case p_cwd (procs s' (cur s)) of None \<Rightarrow> Fault ''fork: null cwd''
          | Some ip \<Rightarrow>
              let s' = s'\<lparr>kfs := snd (idup ip (kfs s'))\<rparr>;
                  s' = upd_proc np (\<lambda>x. x\<lparr>p_cwd := Some ip, p_name := p_name (procs s' (cur s)), p_state := RUNNABLE\<rparr>) s'
              in Ok (p_pid (procs s' np), s'))"
        using d ne False unfolding fork_def Let_def Pair Some u2_def by (simp add: on_vm_def k(2))
      obtain w where w: "rfold (dup_files (cur s) np) [0..<NOFILE] u2 = Ok w"
        using assms(1) unfolding f by (auto simp: rbind_eq_Ok)
      note dw = dup_files_procs[OF w ne[symmetric]]
      have wc: "procs w (cur s) = procs s (cur s)" using dw ne p2 by (metis fun_upd_apply)
      obtain ip where ip: "p_cwd (procs s (cur s)) = Some ip" using assms(1) w wc unfolding f by (auto split: option.splits)
      have t: "t = upd_proc np (\<lambda>x. x\<lparr>p_cwd := Some ip, p_name := p_name (procs s (cur s)), p_state := RUNNABLE\<rparr>)
          (w\<lparr>kfs := snd (idup ip (kfs w))\<rparr>)" "r = p_pid (procs t np)"
        using assms(1) w wc ip unfolding f by (auto simp: Let_def)
      have pw: "procs w = (procs u2)(np := (procs u2 np)\<lparr>p_ofile := copy_fds {0..<NOFILE} (p_ofile (procs s (cur s))) (p_ofile (procs s np))\<rparr>)"
        "nextpid w = nextpid s + 1" "initproc w = initproc s" "cur w = cur s" "idle w = idle s"
        using dw al(5-8) ne k(2) by (simp_all add: u2_def)
      have x: "procs t = (procs s)(np := procs t np)"
        using p2 by (simp add: t(1) pw(1)) (metis fun_upd_upd)
      have "forked s np (procs t np) \<and> p_pid (procs t np) = nextpid s"
        using ip k(2) by (simp add: forked_def Let_def t(1) pw(1) u2_def)
      moreover have "nextpid t = nextpid s + 1" "initproc t = initproc s" "cur t = cur s" "idle t = idle s"
        using pw by (simp_all add: t(1))
      moreover have "\<forall>f. f_ref (ftable t f) = f_ref (ftable s f) + (\<Sum>fd\<leftarrow>[0..<NOFILE]. of_bool (p_ofile (procs s (cur s)) fd = Some f))"
        using dw al(10) ne k(2) by (simp add: t(1) u2_def)
      ultimately show ?thesis using al(1,2) t(2) x by metis
    qed
  qed
qed

lemma proc_inv_fork:
  assumes inv: "proc_inv s" and run: "\<not> idle s" and f: "fork s = Ok (r, t)"
  shows "proc_inv t"
proof -
  note c = proc_inv_cur[OF inv run]
  obtain k where k: "initproc s = Some k" "parent_inv (procs s) k" using inv by (auto simp: proc_inv_def)
  have pid: "pid_inv (procs s) (nextpid s)" and wt: "wait_inv (procs s)" and rn: "run_inv (procs s) (cur s) (idle s)"
    using inv by (simp_all add: proc_inv_def)
  have un: "p_state (procs s (cur s)) \<noteq> UNUSED" using c by simp
  note F = fork_procs[OF f un]
  note same = conjunct1[OF F] conjunct1[OF conjunct2[OF F]] conjunct1[OF conjunct2[OF conjunct2[OF F]]]
  from F show ?thesis
  proof (elim conjE disjE exE, goal_cases)
    case 1
    then show ?thesis by (intro proc_inv_cong[OF inv])
  next
    case (2 np x)
    note b = 2(4-7,8,10,11)
    have "parent_inv (procs t) k" by (rule parent_inv_live[OF k(2)]) (use b in auto)
    moreover have "pid_inv (procs t) (nextpid t)" using pid b by (auto simp: pid_inv_def)
    moreover have "wait_inv (procs t)" by (rule wait_inv_wake[OF wt]) (use b in \<open>auto split: if_splits\<close>)
    moreover have "run_inv (procs t) (cur t) (idle t)" using run_inv_same[OF rn, of "procs t"] b same by auto
    ultimately show ?thesis using k(1) same by (simp add: proc_inv_def)
  next
    case (3 np x)
    note c = 3(4-8,10)
    have x: "p_state x = RUNNABLE" "p_parent x = Some (cur s)" using c(6) by (simp_all add: forked_def Let_def)
    have "np \<noteq> k" using c(2) parent_invD(2)[OF k(2)] by auto
    have "np \<noteq> cur s" using c(2) un by auto
    have ps: "p_state (procs t i) = (if i = np then RUNNABLE else p_state (procs s i))"
      "p_parent (procs t i) = (if i = np then Some (cur s) else p_parent (procs s i))" for i
      using x by (simp_all add: c(3))
    have lv: "live (p_state (procs s q)) \<Longrightarrow> live (p_state (procs t q))" for q using ps by simp
    have "parent_inv (procs t) k"
      unfolding parent_inv_def
    proof (intro conjI allI impI)
      fix i
      assume i: "i < NPROC" "p_state (procs t i) \<noteq> UNUSED" "i \<noteq> k"
      show "\<exists>q<NPROC. p_parent (procs t i) = Some q \<and> q \<noteq> i \<and> live (p_state (procs t q))"
      proof (cases "i = np")
        case True
        then show ?thesis using ps \<open>np \<noteq> cur s\<close> proc_inv_cur[OF inv run] by auto
      next
        case False
        then obtain q where "q < NPROC" "p_parent (procs s i) = Some q" "q \<noteq> i" "live (p_state (procs s q))"
          using parent_invD(6)[OF k(2) i(1)] i(2,3) ps by auto
        then show ?thesis using ps False lv by auto
      qed
    qed (use parent_invD(1-5)[OF k(2)] ps \<open>np \<noteq> k\<close> lv in \<open>simp_all split: if_splits\<close>)
    moreover have "pid_inv (procs t) (nextpid t)"
    proof -
      note D = pid_invD[OF pid]
      have pp: "p_pid (procs t i) = (if i = np then nextpid s else p_pid (procs s i))" for i by (simp add: c(3,5))
      have "i = j" if "i < NPROC" "j < NPROC" "p_state (procs t i) \<noteq> UNUSED" "p_state (procs t j) \<noteq> UNUSED"
        "p_pid (procs t i) = p_pid (procs t j)" for i j
        using that D(2)[of i] D(2)[of j] D(4)[of i j] unfolding pp ps by (cases "i = np"; cases "j = np") auto
      moreover have "p_pid (procs t i) < nextpid t \<and> (p_state (procs t i) \<noteq> UNUSED \<longrightarrow> 0 < p_pid (procs t i))" if "i < NPROC" for i
        using D(1) D(2,3)[OF that] unfolding pp ps c(4) by auto
      ultimately show ?thesis using D(1) c(4) unfolding pid_inv_def by auto
    qed
    moreover have "wait_inv (procs t)"
      unfolding wait_inv_def
    proof (intro allI impI)
      fix i q
      assume i: "i < NPROC" "p_state (procs t i) = SLEEPING" "p_chan (procs t i) = Some (ChanProc q)"
      then have n: "i \<noteq> np" using ps by auto
      have ti: "procs t i = procs s i" using n by (simp add: c(3))
      note D = wait_invD[OF wt i(1) i(2,3)[unfolded ti]]
      have np: "p_parent (procs s np) \<noteq> Some i" using parent_invD(5)[OF k(2) c(1,2)] by simp
      obtain j where "j < NPROC" "p_parent (procs s j) = Some i" using D(3) by blast
      then have "\<exists>j<NPROC. p_parent (procs t j) = Some i" using np by (intro exI[of _ j]) (auto simp: ps)
      moreover have "p_state (procs t j) \<noteq> ZOMBIE" if "j < NPROC" "p_parent (procs t j) = Some i" for j
        using that D(4)[of j] by (auto simp: ps split: if_splits)
      ultimately show "q = i \<and> \<not> p_killed (procs t i) \<and> (\<exists>j<NPROC. p_parent (procs t j) = Some i) \<and>
          (\<forall>j<NPROC. p_parent (procs t j) = Some i \<longrightarrow> p_state (procs t j) \<noteq> ZOMBIE)"
        using D(1,2) ti by auto
    qed
    moreover have "run_inv (procs t) (cur t) (idle t)" using rn ps c(1,2) same un by (auto simp: run_inv_def)
    ultimately show ?thesis using k(1) same by (simp add: proc_inv_def)
  qed
qed

section \<open>Exit and wait\<close>

lemma wakeup1_procs [simp]:
  "p_parent (procs (wakeup1 c s) j) = p_parent (procs s j)" "p_pid (procs (wakeup1 c s) j) = p_pid (procs s j)"
  "p_chan (procs (wakeup1 c s) j) = p_chan (procs s j)" "p_killed (procs (wakeup1 c s) j) = p_killed (procs s j)"
  "p_state (procs (wakeup1 c s) j) = ZOMBIE \<longleftrightarrow> p_state (procs s j) = ZOMBIE"
  "p_state (procs (wakeup1 c s) j) =
     (if j < NPROC \<and> p_state (procs s j) = SLEEPING \<and> p_chan (procs s j) = Some c then RUNNABLE else p_state (procs s j))"
  by (auto simp: wakeup1_def)

lemma reparent_fields [simp]:
  "initproc (reparent c p s) = initproc s" "nextpid (reparent c p s) = nextpid s" "cur (reparent c p s) = cur s"
  by (auto simp: reparent_def wake_proc_def wakeup1_def Let_def split: option.splits)

lemma fold_reparent_fields [simp]:
  "initproc (fold (reparent c) ps s) = initproc s" "nextpid (fold (reparent c) ps s) = nextpid s" "cur (fold (reparent c) ps s) = cur s"
  by (induction ps arbitrary: s) simp_all

text \<open>The table after the loop: children passed on, and the first process woken if one of them is dead.\<close>

definition dead_child :: "(nat \<Rightarrow> proc) \<Rightarrow> nat \<Rightarrow> nat \<Rightarrow> bool" where
  "dead_child P c n \<longleftrightarrow> (\<exists>j<n. p_parent (P j) = Some c \<and> p_state (P j) = ZOMBIE)"

definition adopted :: "(nat \<Rightarrow> proc) \<Rightarrow> nat \<Rightarrow> nat \<Rightarrow> nat \<Rightarrow> nat \<Rightarrow> proc" where
  "adopted P c k n i =
     (let p = (if i < n \<and> p_parent (P i) = Some c then (P i)\<lparr>p_parent := Some k\<rparr> else P i) in
      if i < NPROC \<and> p_state p = SLEEPING \<and> p_chan p = Some (ChanProc k) \<and> dead_child P c n
      then p\<lparr>p_state := RUNNABLE\<rparr> else p)"

lemma dead_child_Suc: "dead_child P c (Suc n) \<longleftrightarrow> dead_child P c n \<or> p_parent (P n) = Some c \<and> p_state (P n) = ZOMBIE"
  by (auto simp: dead_child_def less_Suc_eq)

lemma fold_reparent:
  assumes "initproc s = Some k"
  shows "procs (fold (reparent c) [0..<n] s) = adopted (procs s) c k n"
proof (induction n)
  case 0
  then show ?case by (simp add: adopted_def dead_child_def fun_eq_iff)
next
  case (Suc n)
  let ?s = "fold (reparent c) [0..<n] s"
  have i: "initproc ?s = Some k" using assms by simp
  have pn: "p_parent (procs ?s n) = p_parent (procs s n)" "p_state (procs ?s n) = ZOMBIE \<longleftrightarrow> p_state (procs s n) = ZOMBIE"
    unfolding Suc by (auto simp: adopted_def Let_def)
  have "procs (reparent c n ?s) x = adopted (procs s) c k (Suc n) x" for x
  proof (cases "p_parent (procs s n) = Some c")
    case False
    then have r: "reparent c n ?s = ?s" using pn by (simp add: reparent_def)
    have d: "dead_child (procs s) c (Suc n) = dead_child (procs s) c n" using False by (simp add: dead_child_Suc)
    show ?thesis unfolding r Suc adopted_def d using False by (auto simp: Let_def less_Suc_eq)
  next
    case True
    show ?thesis
    proof (cases "p_state (procs s n) = ZOMBIE")
      case z: True
      have d: "dead_child (procs s) c (Suc n)" using z True by (simp add: dead_child_Suc)
      have "procs (reparent c n ?s) x = procs (wakeup1 (ChanProc k) (upd_proc n (\<lambda>y. y\<lparr>p_parent := Some k\<rparr>) ?s)) x"
        using True z pn i by (simp add: reparent_def Let_def wake_proc_def)
      also have "\<dots> = adopted (procs s) c k (Suc n) x"
        using True z d unfolding wakeup1_def
        by (cases "x = n"; cases "dead_child (procs s) c n"; cases "p_parent (procs s x) = Some c"; cases "x < NPROC")
          (simp_all add: Suc adopted_def Let_def less_Suc_eq)
      finally show ?thesis .
    next
      case nz: False
      have d: "dead_child (procs s) c (Suc n) = dead_child (procs s) c n" using nz by (simp add: dead_child_Suc)
      have "procs (reparent c n ?s) x = procs (upd_proc n (\<lambda>y. y\<lparr>p_parent := Some k\<rparr>) ?s) x"
        using True nz pn i by (simp add: reparent_def Let_def)
      also have "\<dots> = adopted (procs s) c k (Suc n) x"
        using True nz unfolding adopted_def d by (simp add: Suc adopted_def Let_def less_Suc_eq)
      finally show ?thesis .
    qed
  qed
  then show ?case by (simp add: fun_eq_iff)
qed

lemma proc_inv_die:
  assumes inv: "proc_inv s" and run: "\<not> idle s" and ni: "initproc s = Some k" "cur s \<noteq> k"
  defines "c \<equiv> cur s"
  defines "u \<equiv> fold (reparent c) [0..<NPROC] (wake_proc (p_parent (procs s c)) s)"
  shows "proc_inv ((upd_proc c (\<lambda>x. x\<lparr>p_state := ZOMBIE\<rparr>) u)\<lparr>idle := True\<rparr>)"
    and "q \<noteq> c \<Longrightarrow> p_state (procs s q) = RUNNABLE \<Longrightarrow> p_state (procs u q) = RUNNABLE" and "cur u = c"
proof -
  define t where "t = (upd_proc c (\<lambda>x. x\<lparr>p_state := ZOMBIE\<rparr>) u)\<lparr>idle := True\<rparr>"
  have pi: "parent_inv (procs s) k" using inv ni(1) by (auto simp: proc_inv_def)
  note D = parent_invD[OF pi]
  have cu: "c < NPROC" "p_state (procs s c) = RUNNING" using proc_inv_cur[OF inv run] by (auto simp: c_def)
  obtain q0 where q0: "q0 < NPROC" "p_parent (procs s c) = Some q0" "q0 \<noteq> c" "live (p_state (procs s q0))"
    using D(6)[of c] cu ni(2) by (auto simp: c_def)
  let ?w = "wakeup1 (ChanProc q0) s"
  have u: "u = fold (reparent c) [0..<NPROC] ?w" by (simp add: u_def wake_proc_def q0(2))
  have fields: "initproc u = Some k" "nextpid u = nextpid s" "cur u = c" using ni(1) by (simp_all add: u wakeup1_def c_def)
  have pu: "procs u = adopted (procs ?w) c k NPROC" unfolding u by (rule fold_reparent) (simp add: wakeup1_def ni(1))
  have dw: "dead_child (procs ?w) c NPROC \<longleftrightarrow> dead_child (procs s) c NPROC"
    unfolding dead_child_def wakeup1_procs(1,5) by (rule refl)
  have par: "p_parent (procs t i) = (if p_parent (procs s i) = Some c then Some k else p_parent (procs s i))" if "i < NPROC" for i
    using that by (simp add: t_def pu adopted_def Let_def)
  have pid: "p_pid (procs t i) = p_pid (procs s i)" "p_chan (procs t i) = p_chan (procs s i)" "p_killed (procs t i) = p_killed (procs s i)" for i
    by (simp_all add: t_def pu adopted_def Let_def)
  have st: "p_state (procs t i) = p_state (procs s i) \<or> p_state (procs s i) = SLEEPING \<and> p_state (procs t i) = RUNNABLE" if "i \<noteq> c" for i
    using that by (simp add: t_def pu adopted_def Let_def)
  have stc: "p_state (procs t c) = ZOMBIE" by (simp add: t_def)
  have tf: "initproc t = Some k" "nextpid t = nextpid s" "cur t = c" "idle t" using fields by (simp_all add: t_def)
  have awake: "p_chan (procs s i) \<noteq> Some (ChanProc q0) \<and> \<not> (p_chan (procs s i) = Some (ChanProc k) \<and> dead_child (procs s) c NPROC)"
    if "i < NPROC" "p_state (procs t i) = SLEEPING" for i
    using that by (auto simp: t_def pu adopted_def Let_def dw split: if_splits)
  have lv: "live (p_state (procs t i)) = live (p_state (procs s i))" if "i \<noteq> c" for i using st[OF that] by auto
  have kc: "k \<noteq> c" using ni(2) by (simp add: c_def)
  have "parent_inv (procs t) k"
    unfolding parent_inv_def
  proof (intro conjI allI impI)
    show "k < NPROC" "live (p_state (procs t k))" "p_parent (procs t k) = None" using D(1-3) lv[OF kc] par[OF D(1)] by simp_all
    show "p_state (procs t i) \<noteq> EMBRYO" if "i < NPROC" for i using st[of i] stc D(4)[OF that] by (cases "i = c") auto
    show "p_parent (procs t i) = None" if "i < NPROC" "p_state (procs t i) = UNUSED" for i
      using st[of i] stc D(5)[OF that(1)] that(2) par[OF that(1)] by (cases "i = c") auto
    fix i
    assume i: "i < NPROC" "p_state (procs t i) \<noteq> UNUSED" "i \<noteq> k"
    have "p_state (procs s i) \<noteq> UNUSED" using st[of i] i(2) cu(2) by (cases "i = c") auto
    then obtain q where q: "q < NPROC" "p_parent (procs s i) = Some q" "q \<noteq> i" "live (p_state (procs s q))"
      using D(6)[OF i(1) _ i(3)] by blast
    show "\<exists>q<NPROC. p_parent (procs t i) = Some q \<and> q \<noteq> i \<and> live (p_state (procs t q))"
    proof (cases "q = c")
      case True
      then show ?thesis using par[OF i(1)] q D(1,2) lv[OF kc] i(3) by auto
    next
      case False
      then show ?thesis using par[OF i(1)] q lv[OF False] by auto
    qed
  qed
  moreover have "pid_inv (procs t) (nextpid t)"
  proof (rule pid_inv_same)
    show "pid_inv (procs s) (nextpid t)" using inv by (simp add: proc_inv_def tf)
    show "p_pid (procs t i) = p_pid (procs s i) \<and> (p_state (procs t i) = UNUSED \<longleftrightarrow> p_state (procs s i) = UNUSED)" for i
      using pid(1)[of i] st[of i] stc cu(2) by (cases "i = c") auto
  qed
  moreover have "wait_inv (procs t)"
    unfolding wait_inv_def
  proof (intro allI impI)
    fix i q
    assume i: "i < NPROC" "p_state (procs t i) = SLEEPING" "p_chan (procs t i) = Some (ChanProc q)"
    have ic: "i \<noteq> c" using i(2) stc by auto
    have si: "p_state (procs s i) = SLEEPING" using st[OF ic] i(2) by auto
    have wi: "wait_inv (procs s)" using inv by (simp add: proc_inv_def)
    note W = wait_invD[OF wi i(1) si i(3)[unfolded pid]]
    have nq: "i \<noteq> q0" "i = k \<Longrightarrow> \<not> dead_child (procs s) c NPROC" using awake[OF i(1,2)] i(3) W(1) pid(2) by auto
    obtain j where j: "j < NPROC" "p_parent (procs s j) = Some i" using W(3) by blast
    have "\<exists>j<NPROC. p_parent (procs t j) = Some i" using j par[OF j(1)] ic by auto
    moreover have "p_state (procs t j) \<noteq> ZOMBIE" if j: "j < NPROC" "p_parent (procs t j) = Some i" for j
    proof
      assume z: "p_state (procs t j) = ZOMBIE"
      show False
      proof (cases "p_parent (procs s j) = Some c")
        case True
        then have "i = k" "j \<noteq> c" using par[OF j(1)] j(2) q0(2,3) by auto
        then have "dead_child (procs s) c NPROC" using z st[of j] True j(1) by (auto simp: dead_child_def)
        then show False using nq(2) \<open>i = k\<close> by simp
      next
        case False
        then have p: "p_parent (procs s j) = Some i" using par[OF j(1)] j(2) by simp
        then have "j \<noteq> c" using q0(2) nq(1) by auto
        then show False using W(4)[OF j(1) p] st[of j] z by auto
      qed
    qed
    ultimately show "q = i \<and> \<not> p_killed (procs t i) \<and> (\<exists>j<NPROC. p_parent (procs t j) = Some i) \<and>
        (\<forall>j<NPROC. p_parent (procs t j) = Some i \<longrightarrow> p_state (procs t j) \<noteq> ZOMBIE)"
      using W(1,2) pid(3) by auto
  qed
  moreover have "run_inv (procs t) (cur t) (idle t)"
  proof -
    have "p_state (procs t i) \<noteq> RUNNING" if "i < NPROC" for i
    proof (cases "i = c")
      case False
      then have "p_state (procs s i) \<noteq> RUNNING" using inv run that by (auto simp: proc_inv_def run_inv_def c_def)
      then show ?thesis using st[OF False] by auto
    qed (simp add: stc)
    then show ?thesis by (simp add: run_inv_def tf)
  qed
  ultimately have "proc_inv t" using tf(1) by (simp add: proc_inv_def)
  then show "proc_inv ((upd_proc c (\<lambda>x. x\<lparr>p_state := ZOMBIE\<rparr>) u)\<lparr>idle := True\<rparr>)" by (simp add: t_def)
  show "p_state (procs u q) = RUNNABLE" if "q \<noteq> c" "p_state (procs s q) = RUNNABLE" using st[OF that(1)] that by (simp add: t_def)
  show "cur u = c" by (rule fields(3))
qed

text \<open>The parts of \<open>exit\<close> before the table is changed touch it by wakeups on other channels only.\<close>

definition tab_same :: "kernel \<Rightarrow> kernel \<Rightarrow> bool" where
  "tab_same s t \<longleftrightarrow> procs t = procs s \<and> nextpid t = nextpid s \<and> initproc t = initproc s \<and> cur t = cur s \<and> idle t = idle s \<and>
     ftable t = ftable s"

lemma proc_inv_tab: "tab_same s t \<Longrightarrow> proc_inv s \<Longrightarrow> proc_inv t"
  by (simp add: tab_same_def proc_inv_def)

lemma machine_tab:
  "do_fs f s = Ok t \<Longrightarrow> tab_same s t" "do_vm g s = Ok t \<Longrightarrow> tab_same s t"
  "on_fs f' s = Ok (r, t) \<Longrightarrow> tab_same s t" "on_vm g' s = Ok (r', t) \<Longrightarrow> tab_same s t"
  by (auto simp: machine_Ok tab_same_def)

definition quiet :: "kernel \<Rightarrow> kernel \<Rightarrow> bool" where
  "quiet s t \<longleftrightarrow> (proc_inv s \<longrightarrow> proc_inv t) \<and> (\<forall>q. p_state (procs s q) = RUNNABLE \<longrightarrow> p_state (procs t q) = RUNNABLE) \<and> initproc t = initproc s \<and> cur t = cur s \<and> idle t = idle s"

lemma quiet_refl: "quiet s s" and quiet_trans: "quiet s t \<Longrightarrow> quiet t u \<Longrightarrow> quiet s u"
  by (simp_all add: quiet_def)

lemma quiet_tab: "tab_same s t \<Longrightarrow> quiet s t"
  using proc_inv_tab by (auto simp: quiet_def tab_same_def)

lemmas quiet_fs = quiet_tab[OF machine_tab(1)]

lemma quiet_wakeup: "quiet s (wakeup c s)"
  using proc_inv_wakeup by (simp add: quiet_def wakeup_def wakeup1_def)

lemma quiet_upd_file: "quiet s (upd_file f g s)"
  by (simp add: quiet_def proc_inv_def)

lemma quiet_pipeclose:
  assumes "pipeclose_k p w s = Ok t"
  shows "quiet s t"
proof -
  obtain q gone where pc: "pipeclose w (pipes s p) = (q, gone)" by (cases "pipeclose w (pipes s p)")
  let ?s = "s\<lparr>pipes := (pipes s)(p := q)\<rparr>" and ?c = "if w then ChanNread p else ChanNwrite p"
  have "quiet s ?s" by (rule quiet_tab) (simp add: tab_same_def)
  moreover have "quiet ?s (wakeup ?c ?s)" by (rule quiet_wakeup)
  moreover have "quiet (wakeup ?c ?s) t"
    using assms pc by (auto simp: pipeclose_k_def Let_def split: if_splits intro: quiet_refl dest: machine_tab(2) quiet_tab)
  ultimately show ?thesis using quiet_trans by blast
qed

lemma quiet_fileclose:
  assumes "fileclose f s = Ok t"
  shows "quiet s t"
proof -
  let ?s1 = "upd_file f (\<lambda>x. x\<lparr>f_ref := f_ref x - 1\<rparr>) s"
  let ?s2 = "upd_file f (\<lambda>x. x\<lparr>f_ref := 0, f_type := FD_NONE\<rparr>) ?s1"
  have q: "quiet s ?s1" "quiet s ?s2" using quiet_upd_file quiet_trans by blast+
  show ?thesis
  proof (cases "0 < f_ref (ftable ?s1 f)")
    case True
    then show ?thesis using assms q(1) by (simp add: fileclose_def Let_def split: if_splits)
  next
    case last: False
    show ?thesis
    proof (cases "f_type (ftable s f)")
      case FD_NONE
      then show ?thesis using assms last q(2) by (simp add: fileclose_def Let_def split: if_splits)
    next
      case FD_PIPE
      then have "pipeclose_k (f_pipe (ftable s f)) (f_writable (ftable s f)) ?s2 = Ok t"
        using assms last by (simp add: fileclose_def Let_def split: if_splits)
      then show ?thesis using q(2) quiet_pipeclose quiet_trans by blast
    next
      case FD_INODE
      then have "rbind (do_fs begin_op ?s2) (\<lambda>x. rbind (do_fs (iput (f_ip (ftable s f))) x) (do_fs end_op)) = Ok t"
        using assms last by (simp add: fileclose_def Let_def split: if_splits)
      then obtain u v where "do_fs begin_op ?s2 = Ok u" "do_fs (iput (f_ip (ftable s f))) u = Ok v" "do_fs end_op v = Ok t"
        by (auto simp: rbind_eq_Ok)
      then show ?thesis by (blast intro: quiet_trans[OF q(2) quiet_trans[OF quiet_fs quiet_trans[OF quiet_fs quiet_fs]]])
    qed
  qed
qed

lemma quiet_close_files:
  assumes "rfold (close_files c) fds s = Ok t" and "cur s = c" and "\<not> idle s"
  shows "quiet s t"
  using assms
proof (induction fds arbitrary: s)
  case Nil
  then show ?case by (simp add: quiet_refl)
next
  case (Cons fd fds)
  then obtain u where u: "close_files c fd s = Ok u" "rfold (close_files c) fds u = Ok t" by (auto simp: res_simps)
  have "quiet s u"
  proof (cases "p_ofile (procs s c) fd")
    case None
    then show ?thesis using u(1) by (simp add: close_files_def quiet_refl)
  next
    case (Some f)
    then obtain v where v: "fileclose f s = Ok v" "u = upd_proc c (\<lambda>x. x\<lparr>p_ofile := (p_ofile x)(fd := None)\<rparr>) v"
      using u(1) by (auto simp: close_files_def res_simps)
    have qv: "quiet s v" by (rule quiet_fileclose[OF v(1)])
    have cv: "cur v = c" "\<not> idle v" using qv Cons.prems(2,3) by (simp_all add: quiet_def)
    have "proc_inv u" if "proc_inv v"
      using proc_inv_cur[OF that cv(2)] cv(1)
      by (intro proc_inv_cur_upd[OF that cv(2), of u "(procs v c)\<lparr>p_ofile := (p_ofile (procs v c))(fd := None)\<rparr>"]) (simp_all add: v(2))
    then have "quiet v u" by (simp add: quiet_def v(2))
    then show ?thesis using qv quiet_trans by blast
  qed
  moreover from this have "quiet u t" using Cons u(2) by (simp add: quiet_def)
  ultimately show ?case using quiet_trans by blast
qed

lemma proc_inv_exit:
  assumes inv: "proc_inv s" and run: "\<not> idle s" and e: "exit s = Ok t"
  shows "proc_inv t" and "p_state (procs t (cur s)) = ZOMBIE" and "idle t"
    and "q \<noteq> cur s \<Longrightarrow> p_state (procs s q) = RUNNABLE \<Longrightarrow> p_state (procs t q) = RUNNABLE"
proof -
  let ?c = "cur s"
  have ni: "Some ?c \<noteq> initproc s" using e by (auto simp: exit_def Let_def)
  obtain u where u: "rfold (close_files ?c) [0..<NOFILE] s = Ok u"
    using e ni by (auto simp: exit_def Let_def rbind_eq_Ok)
  obtain v ip where v: "do_fs begin_op u = Ok v" "p_cwd (procs v ?c) = Some ip"
    using e ni u by (auto simp: exit_def Let_def rbind_eq_Ok split: option.splits)
  obtain w x where w: "do_fs (iput ip) v = Ok w" "do_fs end_op w = Ok x"
    using e ni u v by (auto simp: exit_def Let_def rbind_eq_Ok)
  define y where "y = upd_proc ?c (\<lambda>x. x\<lparr>p_cwd := None\<rparr>) x"
  define z where "z = upd_proc ?c (\<lambda>x. x\<lparr>p_state := ZOMBIE\<rparr>) (fold (reparent ?c) [0..<NPROC] (wake_proc (p_parent (procs y ?c)) y))"
  have cz: "cur z = ?c" if "cur y = ?c" using that by (auto simp: z_def wake_proc_def wakeup1_def split: option.splits)
  have sz: "sched True 1 False z = Ok t" using e ni u v w by (auto simp: exit_def Let_def y_def z_def)
  have "quiet s x"
    by (rule quiet_trans[OF quiet_close_files[OF u refl run]
          quiet_trans[OF quiet_fs[OF v(1)] quiet_trans[OF quiet_fs[OF w(1)] quiet_fs[OF w(2)]]]])
  then have x: "proc_inv x" "initproc x = initproc s" "cur x = ?c" "\<not> idle x"
    and xr: "\<forall>q. p_state (procs s q) = RUNNABLE \<longrightarrow> p_state (procs x q) = RUNNABLE"
    using inv run by (simp_all add: quiet_def)
  have y: "proc_inv y"
    using proc_inv_cur[OF x(1,4)] x(3)
    by (intro proc_inv_cur_upd[OF x(1,4), of y "(procs x ?c)\<lparr>p_cwd := None\<rparr>"]) (simp_all add: y_def)
  obtain k where k: "initproc y = Some k" using y by (auto simp: proc_inv_def)
  have cy: "cur y = ?c" "\<not> idle y" "?c \<noteq> k" using x k ni by (auto simp: y_def)
  have t: "t = z\<lparr>idle := True, kvm := switchkvm (kvm z)\<rparr>" using sz cz[OF cy(1)] by (simp add: sched_def z_def)
  have "proc_inv (z\<lparr>idle := True\<rparr>)" using proc_inv_die(1)[OF y cy(2) k] cy by (simp add: z_def)
  then show "proc_inv t" by (rule proc_inv_tab[rotated]) (simp add: t tab_same_def)
  show "p_state (procs t ?c) = ZOMBIE" "idle t" by (simp_all add: t z_def)
  show "p_state (procs t q) = RUNNABLE" if "q \<noteq> ?c" "p_state (procs s q) = RUNNABLE"
    using proc_inv_die(2)[OF y cy(2) k, of q] cy xr that by (simp add: t z_def y_def)
qed

text \<open>\<open>wait\<close>.\<close>

lemma reap_procs:
  assumes "reap p s = Ok (pid, t)"
  shows "pid = p_pid (procs s p)" and "\<exists>x. procs t = (procs s)(p := x) \<and> p_state x = UNUSED \<and> p_parent x = None \<and> p_pid x = 0 \<and> \<not> p_killed x"
    and "nextpid t = nextpid s" and "initproc t = initproc s" and "cur t = cur s" and "idle t = idle s"
  using assms unfolding reap_def Let_def by (auto simp: do_vm_Ok rbind_eq_Ok)

lemma proc_inv_wait:
  assumes inv: "proc_inv s" and run: "\<not> idle s" and w: "wait s = Ok (r, t)"
  shows "proc_inv t"
proof -
  let ?c = "cur s"
  note cu = proc_inv_cur[OF inv run]
  obtain k where k: "initproc s = Some k" "parent_inv (procs s) k" using inv by (auto simp: proc_inv_def)
  have pid: "pid_inv (procs s) (nextpid s)" and wt: "wait_inv (procs s)" and rn: "run_inv (procs s) ?c (idle s)"
    using inv by (simp_all add: proc_inv_def)
  show ?thesis
  proof (cases "find (\<lambda>p. p_parent (procs s p) = Some ?c \<and> p_state (procs s p) = ZOMBIE) [0..<NPROC]")
    case (Some p)
    have p: "p < NPROC" "p_parent (procs s p) = Some ?c" "p_state (procs s p) = ZOMBIE" using find_Some_in_set[OF Some] by auto
    obtain pd where rp: "reap p s = Ok (pd, t)" using w Some by (auto simp: wait_def rbind_eq_Ok)
    obtain x where x: "procs t = (procs s)(p := x)" "p_state x = UNUSED" "p_parent x = None" "p_pid x = 0"
      using reap_procs(2)[OF rp] by blast
    note f = reap_procs(3-6)[OF rp]
    note D = parent_invD[OF k(2)]
    have kp: "k \<noteq> p" using D(2) p(3) by auto
    have nochild: "p_parent (procs s i) \<noteq> Some p" if "i < NPROC" for i
    proof (cases "p_state (procs s i) = UNUSED \<or> i = k")
      case True
      then show ?thesis using D(3) D(5)[OF that] by auto
    next
      case False
      then show ?thesis using D(6)[OF that] p(3) by auto
    qed
    have "parent_inv (procs t) k"
      unfolding parent_inv_def
    proof (intro conjI allI impI)
      fix i
      assume i: "i < NPROC" "p_state (procs t i) \<noteq> UNUSED" "i \<noteq> k"
      then have ip: "i \<noteq> p" using x by auto
      obtain q where "q < NPROC" "p_parent (procs s i) = Some q" "q \<noteq> i" "live (p_state (procs s q))"
        using D(6)[OF i(1)] i(2,3) ip x(1) by auto
      then show "\<exists>q<NPROC. p_parent (procs t i) = Some q \<and> q \<noteq> i \<and> live (p_state (procs t q))"
        using ip nochild[OF i(1)] by (auto simp: x(1))
    qed (use D(1-5) kp x in \<open>auto split: if_splits\<close>)
    moreover have "pid_inv (procs t) (nextpid t)"
      using pid_invD[OF pid] x f unfolding pid_inv_def by auto
    moreover have "wait_inv (procs t)"
      unfolding wait_inv_def
    proof (intro allI impI)
      fix i q
      assume i: "i < NPROC" "p_state (procs t i) = SLEEPING" "p_chan (procs t i) = Some (ChanProc q)"
      then have ip: "i \<noteq> p" using x by auto
      then have ti: "procs t i = procs s i" by (simp add: x(1))
      note W = wait_invD[OF wt i(1) i(2,3)[unfolded ti]]
      have ic: "i \<noteq> ?c" using cu i(2) ti by auto
      obtain j where j: "j < NPROC" "p_parent (procs s j) = Some i" using W(3) by blast
      have "j \<noteq> p" using j(2) p(2) ic by auto
      then have "\<exists>j<NPROC. p_parent (procs t j) = Some i" using j by (auto simp: x(1))
      moreover have "\<forall>j<NPROC. p_parent (procs t j) = Some i \<longrightarrow> p_state (procs t j) \<noteq> ZOMBIE"
        using W(4) x by auto
      ultimately show "q = i \<and> \<not> p_killed (procs t i) \<and> (\<exists>j<NPROC. p_parent (procs t j) = Some i) \<and>
          (\<forall>j<NPROC. p_parent (procs t j) = Some i \<longrightarrow> p_state (procs t j) \<noteq> ZOMBIE)"
        using W(1,2) ti by auto
    qed
    moreover have "run_inv (procs t) (cur t) (idle t)"
      unfolding f by (rule run_inv_same[OF rn]) (use x p(3) in auto)
    ultimately show ?thesis using k(1) f by (simp add: proc_inv_def)
  next
    case None
    show ?thesis
    proof (cases "t = s")
      case True
      then show ?thesis using inv by simp
    next
      case False
      then have kids: "\<exists>p<NPROC. p_parent (procs s p) = Some ?c" and nk: "\<not> p_killed (procs s ?c)"
        and t: "t = (sleep_on (ChanProc ?c) s)\<lparr>idle := True, kvm := switchkvm (kvm (sleep_on (ChanProc ?c) s))\<rparr>"
        using w None run by (auto simp: wait_def list_ex_iff sleep_def sched_def sleep_on_def split: if_splits)
      have nz: "p_state (procs s j) \<noteq> ZOMBIE" if "j < NPROC" "p_parent (procs s j) = Some ?c" for j
        using find_NoneD[OF None, of j] that by simp
      let ?x = "(procs s ?c)\<lparr>p_chan := Some (ChanProc ?c), p_state := SLEEPING\<rparr>"
      have pt: "procs t = (procs s)(?c := ?x)" by (simp add: t sleep_on_def)
      have st: "p_state (procs t i) = (if i = ?c then SLEEPING else p_state (procs s i))"
        "p_parent (procs t i) = p_parent (procs s i)" for i by (simp_all add: pt)
      have "parent_inv (procs t) k" by (rule parent_inv_live[OF k(2)]) (use cu in \<open>auto simp: pt\<close>)
      moreover have "pid_inv (procs t) (nextpid s)" by (rule pid_inv_same[OF pid]) (use cu in \<open>auto simp: pt\<close>)
      moreover have "wait_inv (procs t)"
        unfolding wait_inv_def
      proof (intro allI impI)
        fix i q
        assume i: "i < NPROC" "p_state (procs t i) = SLEEPING" "p_chan (procs t i) = Some (ChanProc q)"
        show "q = i \<and> \<not> p_killed (procs t i) \<and> (\<exists>j<NPROC. p_parent (procs t j) = Some i) \<and>
          (\<forall>j<NPROC. p_parent (procs t j) = Some i \<longrightarrow> p_state (procs t j) \<noteq> ZOMBIE)"
        proof (cases "i = ?c")
          case True
          have "p_killed (procs t ?c) = p_killed (procs s ?c)" "q = i" using i(3) True by (simp_all add: pt)
          then show ?thesis using kids nk nz st True by auto
        next
          case False
          then have ti: "procs t i = procs s i" by (simp add: pt)
          note W = wait_invD[OF wt i(1) i(2,3)[unfolded ti]]
          then show ?thesis using ti st by auto
        qed
      qed
      moreover have "run_inv (procs t) ?c True"
        unfolding pt by (rule run_inv_sleep) (use rn run in auto)
      ultimately show ?thesis using k(1) by (simp add: proc_inv_def t sleep_on_def)
    qed
  qed
qed

lemma proc_inv_step: "kstep s t \<Longrightarrow> proc_inv s \<Longrightarrow> proc_inv t"
proof (induction rule: kstep.induct)
  case (k_resume s)
  note c = proc_inv_cur[OF k_resume(2,1)]
  show ?case
    by (rule proc_inv_cur_upd[OF k_resume(2,1), of _ "(procs s (cur s))\<lparr>p_chan := None\<rparr>"]) (use c in \<open>simp_all add: sleep_resume_def\<close>)
next
  case (k_fault s)
  note c = proc_inv_cur[OF k_fault(2,1)]
  show ?case
    by (rule proc_inv_cur_upd[OF k_fault(2,1), of _ "(procs s (cur s))\<lparr>p_killed := True\<rparr>"]) (use c in simp_all)
next
  case (k_wakeup c s)
  then show ?case by (simp add: wakeup_def proc_inv_wakeup)
qed (blast intro: proc_inv_fork proc_inv_exit(1) proc_inv_wait proc_inv_sleep proc_inv_kill proc_inv_yield proc_inv_schedule proc_inv_grow)+

end
