(* ===== verification/Proc_Live.thy ===== *)
theory Proc_Live
  imports Proc_Props Fs_Props Vm_Props
begin

text \<open>
  The properties of processes: the invariant of the table on every run, what \<open>fork\<close>, \<open>exit\<close> and
  \<open>wait\<close> promise each other, and the fairness of the scheduler.
\<close>

section \<open>A sample state\<close>

text \<open>The first process, in slot 0, sleeps in \<open>wait\<close>; its child in slot 1 runs; no memory is free.\<close>

definition sample_proc :: "procstate \<Rightarrow> int \<Rightarrow> nat option \<Rightarrow> chan option \<Rightarrow> proc" where
  "sample_proc st pid par ch = \<lparr>p_sz = 0, p_pgdir = 4096, p_kstack = 8192, p_state = st, p_pid = pid, p_parent = par, p_tf = zero_tf,
     p_tfp = 0, p_context = 0, p_chan = ch, p_killed = False, p_ofile = (\<lambda>_. None), p_cwd = Some 1, p_name = []\<rparr>"

definition sample_vm :: vm_state where
  "sample_vm = \<lparr>mem = (\<lambda>_. 0), freelist = 0, use_lock = True, kend = 0x80110000, kdata = 0x80109000,
     kpgdir = 0x80110000, cr3 = 0, ts_esp0 = 0, ts_ss0 = 0, ts_iomb = 0, ts_reg = 0\<rparr>"

definition sample_kernel :: kernel where
  "sample_kernel = \<lparr>kfs = sample_fs\<lparr>log_outstanding := 0, inodes := (inodes sample_fs)(1 := (sample_inode 6 T_DIR)\<lparr>i_ref := 2\<rparr>)\<rparr>,
     kvm = sample_vm, ftable = (\<lambda>_. \<lparr>f_type = FD_NONE, f_ref = 0, f_readable = False, f_writable = False, f_pipe = 0, f_ip = 0, f_off = 0\<rparr>),
     pipes = (\<lambda>_. pipe_init (\<lambda>_. 0)),
     procs = (\<lambda>_. sample_proc UNUSED 0 None None)(0 := sample_proc SLEEPING 1 None (Some (ChanProc 0)), 1 := sample_proc RUNNING 2 (Some 0) None),
     nextpid = 3, initproc = Some 0, cur = 1, idle = False, ticks = 0, a_forkret = 0x80103000, a_trapret = 0x80105000, first = False\<rparr>"

lemma sample_proc_simps [simp]:
  "p_state (sample_proc st pid par ch) = st" "p_pid (sample_proc st pid par ch) = pid" "p_parent (sample_proc st pid par ch) = par"
  "p_chan (sample_proc st pid par ch) = ch" "p_killed (sample_proc st pid par ch) = False" "p_ofile (sample_proc st pid par ch) = (\<lambda>_. None)"
  "p_cwd (sample_proc st pid par ch) = Some 1" "p_kstack (sample_proc st pid par ch) = 8192" "p_pgdir (sample_proc st pid par ch) = 4096"
  by (simp_all add: sample_proc_def)

lemma sample_kernel_simps [simp]:
  "procs sample_kernel = (\<lambda>_. sample_proc UNUSED 0 None None)(0 := sample_proc SLEEPING 1 None (Some (ChanProc 0)), 1 := sample_proc RUNNING 2 (Some 0) None)"
  "nextpid sample_kernel = 3" "initproc sample_kernel = Some 0" "cur sample_kernel = 1" "\<not> idle sample_kernel" "kvm sample_kernel = sample_vm"
  by (simp_all add: sample_kernel_def)

lemma sample_proc_inv: "proc_inv sample_kernel"
proof -
  have "parent_inv (procs sample_kernel) 0" by (auto simp: parent_inv_def NPROC_def)
  moreover have "pid_inv (procs sample_kernel) 3" by (auto simp: pid_inv_def)
  moreover have "wait_inv (procs sample_kernel)" by (auto simp: wait_inv_def NPROC_def split: if_splits)
  moreover have "run_inv (procs sample_kernel) 1 False" by (auto simp: run_inv_def NPROC_def)
  ultimately show ?thesis by (simp add: proc_inv_def)
qed

lemma sample_yield: "\<exists>t. yield sample_kernel = Ok t \<and> p_state (procs t 0) = SLEEPING"
  by (simp add: yield_def sched_def)

section \<open>The process table\<close>




lemma sample_find: "find (\<lambda>p. p_state (procs sample_kernel p) = UNUSED) [0..<NPROC] = Some 2"
  by (simp add: NPROC_def upt_rec)

lemma sample_fork: "\<exists>t. fork sample_kernel = Ok (-1, t)"
  unfolding fork_def allocproc_def sample_find
  by (simp add: Let_def kalloc_def sample_vm_def)


text \<open>C30. What \<open>exit\<close> leaves for \<open>wait\<close>: the process is a zombie with a live parent, the parent is not
  asleep in \<open>wait\<close>, and when it calls \<open>wait\<close> with the table as it is, \<open>wait\<close> does not sleep but reaps a
  zombie child.\<close>

theorem exit_wait:
  assumes "proc_inv s" and "\<not> idle s" and "exit s = Ok t"
  shows "p_state (procs t (cur s)) = ZOMBIE \<and>
    (\<exists>q<NPROC. p_parent (procs t (cur s)) = Some q \<and> live (p_state (procs t q)) \<and>
       \<not> (p_state (procs t q) = SLEEPING \<and> p_chan (procs t q) = Some (ChanProc q)) \<and>
       (\<exists>z<NPROC. p_parent (procs t z) = Some q \<and> p_state (procs t z) = ZOMBIE \<and>
          (\<forall>u. cur u = q \<longrightarrow> procs u = procs t \<longrightarrow> wait u = rbind (reap z u) (\<lambda>(pid, v). Ok (Ret pid, v)))))"
proof -
  let ?c = "cur s"
  note e = proc_inv_exit[OF assms]
  have c: "?c < NPROC" using proc_inv_cur[OF assms(1,2)] by simp
  obtain k where k: "initproc t = Some k" "parent_inv (procs t) k" using e(1) by (auto simp: proc_inv_def)
  have ck: "?c \<noteq> k" using e(2) parent_invD(2)[OF k(2)] by auto
  obtain q where q: "q < NPROC" "p_parent (procs t ?c) = Some q" "live (p_state (procs t q))"
    using parent_invD(6)[OF k(2) c _ ck] e(2) by auto
  have wt: "wait_inv (procs t)" using e(1) by (simp add: proc_inv_def)
  have awake: "\<not> (p_state (procs t q) = SLEEPING \<and> p_chan (procs t q) = Some (ChanProc q))"
    using wait_invD(4)[OF wt q(1) _ _ c q(2)] e(2) by blast
  let ?P = "\<lambda>p. p_parent (procs t p) = Some q \<and> p_state (procs t p) = ZOMBIE"
  obtain z where z: "find ?P [0..<NPROC] = Some z"
    using c q(2) e(2) by (cases "find ?P [0..<NPROC]") (auto simp: find_None_iff)
  have "z < NPROC" "?P z" using find_Some_in_set[OF z] by auto
  moreover have "wait u = rbind (reap z u) (\<lambda>(pid, v). Ok (Ret pid, v))" if "cur u = q" "procs u = procs t" for u
    using z by (simp add: wait_def that)
  ultimately show ?thesis using e(2) q awake by blast
qed

lemma rfold_no_files: "p_ofile (procs s c) = (\<lambda>_. None) \<Longrightarrow> rfold (close_files c) fds s = Ok s"
  by (induction fds) (simp_all add: close_files_def)

lemma sample_committing: "\<not> log_committing sample_fs"
  by (simp add: sample_fs_def binit_def)

lemma sample_iput: "\<exists>v. iput 1 ((kfs sample_kernel)\<lparr>log_outstanding := 1\<rparr>) = Ok v \<and>
    log_outstanding v = 1 \<and> \<not> log_committing v \<and> lh_n v = 0"
  by (simp add: sample_kernel_def iput_def acquiresleep_def upd_inode_def Let_def sample_inode_def zero_inode_def sample_committing
      initsleeplock_def)

lemma sample_exit: "\<exists>t. exit sample_kernel = Ok t"
proof -
  have f: "rfold (close_files 1) [0..<NOFILE] sample_kernel = Ok sample_kernel" by (rule rfold_no_files) simp
  have b: "do_fs begin_op sample_kernel = Ok (sample_kernel\<lparr>kfs := (kfs sample_kernel)\<lparr>log_outstanding := 1\<rparr>\<rparr>)"
    by (simp add: do_fs_def begin_op_def sample_kernel_def sample_committing consts_defs)
  obtain v where v: "iput 1 ((kfs sample_kernel)\<lparr>log_outstanding := 1\<rparr>) = Ok v" "log_outstanding v = 1" "\<not> log_committing v" "lh_n v = 0"
    using sample_iput by blast
  have i: "do_fs (iput 1) (sample_kernel\<lparr>kfs := (kfs sample_kernel)\<lparr>log_outstanding := 1\<rparr>\<rparr>) = Ok (sample_kernel\<lparr>kfs := v\<rparr>)"
    using v(1) by (simp add: do_fs_def)
  have e: "do_fs end_op (sample_kernel\<lparr>kfs := v\<rparr>) = Ok (sample_kernel\<lparr>kfs := v\<lparr>log_outstanding := 0, log_committing := False\<rparr>\<rparr>)"
    using v(2-4) by (simp add: do_fs_def end_op_def commit_def Let_def)
  have "p_state (procs (upd_proc 1 (\<lambda>x. x\<lparr>p_state := ZOMBIE\<rparr>) s) 1) = ZOMBIE" for s by simp
  then show ?thesis
    by (simp add: exit_def Let_def f b i e sched_def wake_proc_def wakeup1_def del: One_nat_def)
qed

theorem exit_wait_witness: "\<exists>t. exit sample_kernel = Ok t \<and> p_state (procs t 1) = ZOMBIE"
proof -
  obtain t where t: "exit sample_kernel = Ok t" using sample_exit by blast
  then show ?thesis using exit_wait[OF sample_proc_inv _ t] by simp
qed

section \<open>The scheduler\<close>

text \<open>Until it calls \<open>sched\<close>, a process leaves the processes that wait for the processor runnable.\<close>

lemma kstep_runnable:
  assumes "kstep s t" and "proc_inv s" and "\<not> idle s" and "q \<noteq> cur s" and "p_state (procs s q) = RUNNABLE"
  shows "p_state (procs t q) = RUNNABLE \<and> (\<not> idle t \<longrightarrow> cur t = cur s)"
  using assms
proof (induction rule: kstep.induct)
  case (k_fork s r t)
  have "p_state (procs s (cur s)) \<noteq> UNUSED" using proc_inv_cur[OF k_fork(3,1)] by simp
  from fork_procs[OF k_fork(2) this] show ?case using k_fork(5,6) by auto
next
  case (k_exit s t)
  then show ?case using proc_inv_exit(3,4) by blast
next
  case (k_wait s r t)
  show ?case
  proof (cases "find (\<lambda>p. p_parent (procs s p) = Some (cur s) \<and> p_state (procs s p) = ZOMBIE) [0..<NPROC]")
    case None
    then show ?thesis using k_wait by (auto simp: wait_def sleep_def sched_def sleep_on_def split: if_splits)
  next
    case (Some p)
    then have z: "p_state (procs s p) = ZOMBIE" using find_Some_in_set[OF Some] by auto
    obtain pd where rp: "reap p s = Ok (pd, t)" using k_wait(2) Some by (auto simp: wait_def rbind_eq_Ok)
    obtain x where "procs t = (procs s)(p := x)" using reap_procs(2)[OF rp] by blast
    then show ?thesis using z k_wait(6) reap_procs(5)[OF rp] by auto
  qed
next
  case (k_kill s pid)
  then show ?case by (auto simp: kill_def Let_def split: option.splits)
next
  case (k_grow s n r t)
  then show ?case using growproc_procs[OF k_grow(2)] by auto
qed (auto simp: sleep_def sched_def sleep_on_def sleep_resume_def yield_def wakeup_def wakeup1_def split: if_splits)

text \<open>What a process does between getting the processor and giving it up.\<close>

inductive until_sched :: "kernel \<Rightarrow> kernel \<Rightarrow> bool" where
  us_refl: "until_sched s s"
| us_step: "until_sched s t \<Longrightarrow> \<not> idle t \<Longrightarrow> kstep t u \<Longrightarrow> until_sched s u"

lemma until_sched_runnable:
  assumes "until_sched s t" and "proc_inv s" and "\<not> idle s" and "q \<noteq> cur s" and "p_state (procs s q) = RUNNABLE"
  shows "p_state (procs t q) = RUNNABLE \<and> (\<not> idle t \<longrightarrow> cur t = cur s) \<and> proc_inv t"
  using assms
proof (induction rule: until_sched.induct)
  case (us_step s t u)
  then show ?case using kstep_runnable[OF us_step(3)] proc_inv_step[OF us_step(3)] by auto
qed simp

lemma scheduler_step_pair:
  "scheduler_step run p (picked, s) =
     (if p_state (procs s p) \<noteq> RUNNABLE then Ok (picked, s)
      else rbind (scheduler_run p s) (\<lambda>s. Ok (picked @ [p], (run p s)\<lparr>kvm := switchkvm (kvm (run p s)), idle := True\<rparr>)))"
  by (simp add: scheduler_step_def Let_def)

lemma scheduler_runs:
  assumes "rfold (scheduler_step run) ps (picked, s) = Ok (picked', t)" and "proc_inv s" and "idle s" and "set ps \<subseteq> {..<NPROC}"
    and run: "\<And>p s. proc_inv s \<Longrightarrow> \<not> idle s \<Longrightarrow> until_sched s (run p s) \<and> idle (run p s)"
  shows "set picked \<subseteq> set picked' \<and> (\<forall>q \<in> set ps. p_state (procs s q) = RUNNABLE \<longrightarrow> q \<in> set picked') \<and> proc_inv t \<and> idle t"
  using assms(1-4)
proof (induction ps arbitrary: picked s)
  case (Cons p ps)
  have p: "p < NPROC" using Cons.prems(4) by simp
  show ?case
  proof (cases "p_state (procs s p) = RUNNABLE")
    case False
    then have "rfold (scheduler_step run) ps (picked, s) = Ok (picked', t)" using Cons.prems(1) by (simp add: scheduler_step_pair)
    then show ?thesis using Cons.IH[of picked s] Cons.prems False by auto
  next
    case True
    obtain u where u: "scheduler_run p s = Ok u" using True Cons.prems(1) by (auto simp: scheduler_step_pair res_simps)
    define v where "v = (run p u)\<lparr>kvm := switchkvm (kvm (run p u)), idle := True\<rparr>"
    have rest: "rfold (scheduler_step run) ps (picked @ [p], v) = Ok (picked', t)"
      using True u Cons.prems(1) by (simp add: scheduler_step_pair v_def Let_def)
    have ui: "proc_inv u" using proc_inv_schedule[OF Cons.prems(2,3) p u] by simp
    have uf: "\<not> idle u" "cur u = p" "\<And>q. q \<noteq> p \<Longrightarrow> procs u q = procs s q"
      using u True by (auto simp: scheduler_run_def rbind_eq_Ok do_vm_Ok)
    have vt: "tab_same (run p u) v" using run[OF ui uf(1), of p] by (simp add: v_def tab_same_def)
    have keep: "p_state (procs v q) = RUNNABLE" if "p_state (procs s q) = RUNNABLE" "q \<noteq> p" for q
      using until_sched_runnable[OF _ ui uf(1), of "run p u" q] run[OF ui uf(1)] uf(2,3) that by (simp add: v_def)
    have "proc_inv (run p u)"
      using run[OF ui uf(1), of p, THEN conjunct1] ui by (induction rule: until_sched.induct) (auto intro: proc_inv_step)
    then have vi: "proc_inv v" by (rule proc_inv_tab[OF vt])
    have "idle v" by (simp add: v_def)
    then show ?thesis using Cons.IH[OF rest vi] Cons.prems(4) keep by auto
  qed
qed simp

text \<open>C21. Fairness.  In one turn of the loop of \<open>scheduler\<close> every process that is runnable at its start
  gets the processor, whatever the processes that run before it do until they call \<open>sched\<close>, and the
  invariant of the table holds at the end.\<close>

theorem scheduler_fair:
  assumes "scheduler run s = Ok (picked, t)" and "proc_inv s" and "idle s"
    and "\<And>p s. proc_inv s \<Longrightarrow> \<not> idle s \<Longrightarrow> until_sched s (run p s) \<and> idle (run p s)"
  shows "(\<forall>q<NPROC. p_state (procs s q) = RUNNABLE \<longrightarrow> q \<in> set picked) \<and> proc_inv t"
proof -
  have e: "s\<lparr>idle := True\<rparr> = s" using assms(3) by (cases s) simp
  have "rfold (scheduler_step run) [0..<NPROC] ([], s) = Ok (picked, t)" using assms(1) by (simp only: scheduler_def e)
  from scheduler_runs[OF this assms(2,3) _ assms(4)] show ?thesis by (simp add: lessThan_atLeast0)
qed

definition sample_run :: "nat \<Rightarrow> kernel \<Rightarrow> kernel" where
  "sample_run p s = (case yield s of Ok t \<Rightarrow> t | _ \<Rightarrow> s)"

lemma sample_run: "\<not> idle s \<Longrightarrow> until_sched s (sample_run p s) \<and> idle (sample_run p s)"
proof -
  assume i: "\<not> idle s"
  have y: "yield s = Ok (sample_run p s)" by (simp add: sample_run_def yield_def sched_def)
  have "until_sched s (sample_run p s)" by (rule us_step[OF us_refl i k_yield[OF i y]])
  moreover have "idle (sample_run p s)" by (simp add: sample_run_def yield_def sched_def)
  ultimately show ?thesis by blast
qed

text \<open>The sample state after the running process has yielded.\<close>

definition sample_idle :: kernel where
  "sample_idle = sample_run 1 sample_kernel"

lemma sample_idle_yield: "yield sample_kernel = Ok sample_idle"
  by (simp add: sample_idle_def sample_run_def yield_def sched_def)

lemma sample_idle_simps: "idle sample_idle" "proc_inv sample_idle"
  "procs sample_idle = (\<lambda>_. sample_proc UNUSED 0 None None)(0 := sample_proc SLEEPING 1 None (Some (ChanProc 0)), 1 := (sample_proc RUNNING 2 (Some 0) None)\<lparr>p_state := RUNNABLE\<rparr>)"
  by (simp_all add: sample_idle_def sample_run_def yield_def sched_def)
    (use proc_inv_step[OF k_yield[OF _ sample_idle_yield] sample_proc_inv] in
      \<open>simp add: sample_idle_def sample_run_def yield_def sched_def\<close>)

lemma scheduler_step_ok:
  assumes "\<And>i. p_kstack (procs s i) \<noteq> 0 \<and> p_pgdir (procs s i) \<noteq> 0"
  shows "\<exists>picked' t. scheduler_step sample_run p (picked, s) = Ok (picked', t) \<and> (\<forall>i. p_kstack (procs t i) \<noteq> 0 \<and> p_pgdir (procs t i) \<noteq> 0)"
proof (cases "p_state (procs s p) = RUNNABLE")
  case True
  have k: "(p_kstack (procs s p) = 0) = False" "(p_pgdir (procs s p) = 0) = False" using assms[of p] by blast+
  show ?thesis using assms True
    by (simp add: scheduler_step_pair scheduler_run_def do_vm_def switchuvm_def k sample_run_def yield_def sched_def)
qed (use assms in \<open>simp add: scheduler_step_pair\<close>)

lemma scheduler_ok:
  assumes "\<And>i. p_kstack (procs s i) \<noteq> 0 \<and> p_pgdir (procs s i) \<noteq> 0"
  shows "\<exists>r. rfold (scheduler_step sample_run) ps (picked, s) = Ok r"
  using assms
proof (induction ps arbitrary: picked s)
  case (Cons p ps)
  then obtain picked' t where "scheduler_step sample_run p (picked, s) = Ok (picked', t)" "\<And>i. p_kstack (procs t i) \<noteq> 0 \<and> p_pgdir (procs t i) \<noteq> 0"
    using scheduler_step_ok[of s p picked] by blast
  then show ?case using Cons.IH[of t picked'] by simp
qed simp

theorem scheduler_fair_witness: "\<exists>picked t. scheduler sample_run sample_idle = Ok (picked, t) \<and> 1 \<in> set picked"
proof -
  have "\<exists>r. scheduler sample_run sample_idle = Ok r"
    unfolding scheduler_def by (rule scheduler_ok) (simp add: sample_idle_simps sample_proc_def)
  then obtain picked t where r: "scheduler sample_run sample_idle = Ok (picked, t)" by auto
  then have "1 \<in> set picked"
    using scheduler_fair[OF r sample_idle_simps(2,1)] sample_run by (simp add: sample_idle_simps NPROC_def)
  then show ?thesis using r by blast
qed

section \<open>A process identifier of 0\<close>

text \<open>C35. \<open>kill\<close> finds the identifier 0 in an unused slot of the table: it reports success and marks the
  slot, and the mark stays when \<open>allocproc\<close> hands the slot out, so that the next process made is
  killed from birth.\<close>

theorem kill_zero:
  assumes "p < NPROC" and "p_state (procs s p) = UNUSED" and "p_pid (procs s p) = 0"
    and "\<forall>i<p. p_pid (procs s i) \<noteq> 0 \<and> p_state (procs s i) \<noteq> UNUSED"
    and "allocproc (snd (kill 0 s)) = (Some np, t)"
  shows "fst (kill 0 s) = 0 \<and> np = p \<and> p_killed (procs t np) \<and> p_state (procs t np) = EMBRYO \<and> p_pid (procs t np) = nextpid s"
proof -
  have first: "find P [0..<NPROC] = Some p" if "P p" "\<forall>i<p. \<not> P i" for P
    using that assms(1) by (auto simp: find_Some_iff intro!: exI[of _ p])
  have k: "kill 0 s = (0, upd_proc p (\<lambda>x. x\<lparr>p_killed := True\<rparr>) s)"
    using first[of "\<lambda>i. p_pid (procs s i) = 0"] assms(2-4) by (simp add: kill_def upd_proc_def)
  let ?u = "upd_proc p (\<lambda>x. x\<lparr>p_killed := True\<rparr>) s"
  have f: "find (\<lambda>i. p_state (procs ?u i) = UNUSED) [0..<NPROC] = Some p"
    using assms(2,4) by (intro first) auto
  show ?thesis using assms(5) f unfolding k by (auto simp: allocproc_def Let_def split: prod.splits if_splits)
qed

definition sample_free_kernel :: kernel where
  "sample_free_kernel = sample_kernel\<lparr>kvm := sample_vm\<lparr>freelist := 0x80111000\<rparr>\<rparr>"

lemma sample_killed: "kill 0 sample_free_kernel = (0, upd_proc 2 (\<lambda>x. x\<lparr>p_killed := True\<rparr>) sample_free_kernel)"
proof -
  have "find (\<lambda>p. p_pid (procs sample_free_kernel p) = 0) [0..<NPROC] = Some 2"
    by (simp add: sample_free_kernel_def NPROC_def upt_rec)
  then show ?thesis by (simp add: kill_def sample_free_kernel_def upd_proc_def)
qed

theorem kill_zero_witness: "\<exists>t. allocproc (snd (kill 0 sample_free_kernel)) = (Some 2, t) \<and> p_killed (procs t 2)"
proof -
  have f: "find (\<lambda>p. p_state (procs (snd (kill 0 sample_free_kernel)) p) = UNUSED) [0..<NPROC] = Some 2"
    unfolding sample_killed by (simp add: sample_free_kernel_def NPROC_def upt_rec)
  obtain t where t: "allocproc (snd (kill 0 sample_free_kernel)) = (Some 2, t)"
    unfolding allocproc_def f unfolding sample_killed
    by (simp add: Let_def sample_free_kernel_def kalloc_def sample_vm_def)
  moreover have "\<forall>i<2. p_pid (procs sample_free_kernel i) \<noteq> 0 \<and> p_state (procs sample_free_kernel i) \<noteq> UNUSED"
    by (simp add: sample_free_kernel_def)
  ultimately show ?thesis
    using kill_zero[of 2 sample_free_kernel 2 t] by (auto simp: NPROC_def sample_free_kernel_def)
qed

end
