(* ===== verification/Kernel_Props.thy ===== *)
theory Kernel_Props
  imports Trap Proc_Live
begin

text \<open>Properties of system calls and traps.\<close>

section \<open>Returning to user space\<close>

lemma exit_idle: "exit s = Ok t \<Longrightarrow> idle t"
  by (auto simp: exit_def sched_def Let_def rbind_eq_Ok split: if_splits option.splits)

lemma sleep_idle: "sleep c lk s = Ok t \<Longrightarrow> idle t"
  by (auto simp: sleep_def sched_def split: if_splits)

text \<open>A system call returns a value, or the process is off the processor.\<close>

definition rets :: "(io \<times> kernel) res \<Rightarrow> bool" where
  "rets m \<longleftrightarrow> (\<forall>r t. m = Ok (r, t) \<longrightarrow> (\<exists>v. r = Ret v) \<or> idle t)"

lemma rets_Ret [simp]: "rets (Ok (Ret v, s))" and rets_fail [simp]: "rets (Panic p)" "rets (Fault p)" "rets (Asleep p)"
  by (simp_all add: rets_def)

lemma rets_rbind: "(\<And>x. m = Ok x \<Longrightarrow> rets (k x)) \<Longrightarrow> rets (rbind m k)"
  by (auto simp: rets_def rbind_eq_Ok)

lemma rets_with_arg: "(\<And>a. rets (k a)) \<Longrightarrow> rets (with_arg r s k)"
  unfolding with_arg_def by (rule rets_rbind) (simp split: option.split)

lemma rets_with_cwd: "(\<And>a. rets (k a)) \<Longrightarrow> rets (with_cwd s k)"
  by (simp add: with_cwd_def split: option.split)

lemma rets_option: "rets a \<Longrightarrow> (\<And>x. rets (f x)) \<Longrightarrow> rets (case z of None \<Rightarrow> a | Some x \<Rightarrow> f x)"
  by (simp split: option.split)

lemma rets_prod: "(\<And>x y. rets (f x y)) \<Longrightarrow> rets (case z of (x, y) \<Rightarrow> f x y)"
  by (simp split: prod.split)

lemma rets_if: "rets a \<Longrightarrow> rets b \<Longrightarrow> rets (if c then a else b)"
  by simp

lemmas rets_intros = rets_with_arg rets_with_cwd rets_rbind rets_option rets_prod rets_if rets_Ret rets_fail

lemma rets_ret: "rets (ret m)"
  unfolding ret_def by (intro rets_intros)

lemma rets_sleep: "rets (rbind (sleep c lk s) (\<lambda>s. Ok (x s, s)))"
  by (auto simp: rets_def rbind_eq_Ok dest: sleep_idle)

lemma rets_exit: "rets (sys_exit s)"
  by (auto simp: sys_exit_def rets_def rbind_eq_Ok dest: exit_idle)

lemma rets_wait: "rets (sys_wait s)"
  unfolding sys_wait_def wait_def by (intro rets_option rets_if rets_sleep rets_Ret) (intro rets_intros)

lemma rets_sys_sleep: "rets (sys_sleep s)"
  unfolding sys_sleep_def sys_sleep_loop_def by (intro rets_with_arg rets_if rets_sleep rets_Ret)

lemma rets_procs: "rets (sys_fork s)" "rets (sys_kill s)" "rets (sys_getpid s)" "rets (sys_sbrk s)" "rets (sys_uptime s)"
  unfolding sys_fork_def sys_kill_def sys_getpid_def sys_sbrk_def sys_uptime_def Let_def
  by (intro rets_intros rets_ret)+

lemma rets_pipewrite: "rets (pipewrite_k p cs s)"
  unfolding pipewrite_k_def Let_def
  by (intro rets_prod) (simp add: rets_sleep split: wr.split)

lemma rets_write: "rets (sys_write devsw s)"
  unfolding sys_write_def filewrite_def Let_def by (intro rets_intros rets_pipewrite)

lemma ustores_idle: "ustores a bs s = Ok t \<Longrightarrow> idle t = idle s"
  by (induction bs arbitrary: a s) (auto split: option.splits)

lemma fileread_rets: "fileread devsw f n s = Ok ((r, bs), t) \<Longrightarrow> (\<exists>v. r = Ret v) \<or> idle t"
  by (auto simp: fileread_def piperead_k_def Let_def rbind_eq_Ok dest: sleep_idle split: if_splits prod.splits rd.splits)

lemma rets_read: "rets (sys_read devsw s)"
  unfolding sys_read_def
  by (intro rets_with_arg rets_prod) (auto simp: rets_def rbind_eq_Ok dest!: fileread_rets dest: ustores_idle)

lemma rets_files: "rets (sys_dup s)" "rets (sys_close s)" "rets (sys_fstat s)" "rets (sys_link devsw s)" "rets (sys_unlink devsw s)"
  "rets (sys_mkdir devsw s)" "rets (sys_mknod devsw s)" "rets (sys_chdir devsw s)" "rets (sys_exec devsw s)"
  unfolding sys_dup_def sys_close_def sys_fstat_def sys_link_def sys_unlink_def in_op_def sys_mkdir_def sys_mknod_def sys_chdir_def sys_exec_def fail_op_def Let_def
  by (intro rets_intros rets_ret)+

lemma rets_open: "rets (sys_open devsw s)" "rets (sys_pipe s)"
  unfolding sys_open_def sys_pipe_def fail_op_def Let_def by (intro rets_intros rets_ret)+

lemma rets_syscall: "rets (syscall devsw s)"
proof -
  have f: "rets (f s)" if "syscalls devsw n = Some f" for n f
  proof -
    note syscalls_range[OF that]
    then show ?thesis
      using rets_procs rets_files rets_open rets_read rets_write rets_exit rets_wait rets_sys_sleep by auto
  qed
  show ?thesis
  proof (cases "if 0 < int32 (tf_eax (p_tf (cur_proc s))) then syscalls devsw (nat (int32 (tf_eax (p_tf (cur_proc s))))) else None")
    case (Some g)
    then have "rets (g s)" using f by (auto split: if_splits)
    have "rets (rbind (g s) (\<lambda>(r, s). case r of Ret v \<Rightarrow> Ok (r, set_eax v s) | _ \<Rightarrow> Ok (r, s)))"
    proof (rule rets_rbind)
      fix x
      assume x: "g s = Ok x"
      obtain r t where "x = (r, t)" by (cases x)
      then show "rets (case x of (r, s) \<Rightarrow> case r of Ret v \<Rightarrow> Ok (r, set_eax v s) | _ \<Rightarrow> Ok (r, s))"
        using \<open>rets (g s)\<close> x by (cases r) (auto simp: rets_def)
    qed
    then show ?thesis unfolding syscall_def Let_def Some by simp
  qed (simp add: syscall_def Let_def)
qed

text \<open>C20. A killed process does not return to user space.  Whenever \<open>trap\<close> comes back with the process
  still on the processor, from a system call or from an interrupt of user code, the process is not
  marked as killed; and the tail of \<open>trap\<close> behind \<open>yield\<close> gives the same guarantee when the process
  runs again.\<close>

theorem killed_not_in_user_space:
  assumes "tf_trapno tf = T_SYSCALL \<or> user_mode tf" and "\<not> idle t"
    and "trap devsw dev cpu tf s = Ok t \<or> tf_trapno tf \<noteq> T_SYSCALL \<and> trap_end tf s = Ok t"
  shows "\<not> p_killed (cur_proc t)"
proof -
  have e: "\<not> p_killed (cur_proc t)" if "trap_end tf u = Ok t" "user_mode tf" for u
    using that assms(2) exit_idle by (auto simp: trap_end_def must_exit_def split: if_splits)
  show ?thesis
  proof (cases "tf_trapno tf = T_SYSCALL")
    case True
    then have tr: "trap devsw dev cpu tf s = Ok t" using assms(3) by blast
    have nk: "\<not> p_killed (cur_proc s)" using tr True assms(2) exit_idle by (auto simp: trap_def)
    let ?u = "upd_proc (cur s) (\<lambda>p. p\<lparr>p_tf := tf\<rparr>) s"
    obtain r v where v: "syscall devsw ?u = Ok (r, v)"
      and t: "(case r of Ret _ \<Rightarrow> if p_killed (cur_proc v) then exit v else Ok v | _ \<Rightarrow> Ok v) = Ok t"
      using tr True nk by (auto simp: trap_def rbind_eq_Ok)
    show ?thesis
    proof (cases r)
      case (Ret x)
      then show ?thesis using t assms(2) exit_idle by (auto split: if_splits)
    next
      case (Sleeps c n)
      then show ?thesis using t v assms(2) rets_syscall[of devsw ?u] by (auto simp: rets_def)
    next
      case Gone
      then show ?thesis using t v assms(2) rets_syscall[of devsw ?u] by (auto simp: rets_def)
    qed
  next
    case False
    have y: "idle t" if "yield u = Ok t" for u using that by (auto simp: yield_def sched_def split: if_splits)
    show ?thesis using False assms e exit_idle y by (auto simp: trap_def rbind_eq_Ok split: if_splits)
  qed
qed

theorem killed_not_in_user_space_witness:
  "trap no_dev (\<lambda>_ s. s) 0 (zero_tf\<lparr>tf_trapno := 39, tf_cs := 27\<rparr>) sample_kernel = Ok sample_kernel \<and>
   \<not> p_killed (cur_proc sample_kernel)"
proof -
  let ?tf = "zero_tf\<lparr>tf_trapno := 39, tf_cs := 27\<rparr>"
  have u: "user_mode ?tf" by (simp add: user_mode_def DPL_USER_def)
  have "trap no_dev (\<lambda>_ s. s) 0 ?tf sample_kernel = Ok sample_kernel"
    by (simp add: trap_def trap_switch_def trap_end_def must_exit_def Let_def consts_defs)
  then show ?thesis using killed_not_in_user_space[of ?tf sample_kernel no_dev "\<lambda>_ s. s" 0 sample_kernel] u by simp
qed

section \<open>Arguments\<close>

text \<open>C19. The checks on the arguments of system calls.  When the pages below the size of the process
  are mapped, fetching an argument never faults, whatever the stack pointer and the stored words
  are; a pointer that passes names a range inside the address space, with no wrap-around; and a
  string that passes is the bytes up to the first zero byte, which lies inside it.\<close>

theorem args_checked:
  assumes "user_mapped s" and "size' < 2147483648"
  shows "(\<exists>r. argptr n size' s = Ok r \<and>
      (\<forall>a. r = Some a \<longrightarrow> 0 \<le> size' \<and> a + nat size' \<le> p_sz (cur_proc s) \<and> a < p_sz (cur_proc s))) \<and>
    (\<exists>r. argstr n s = Ok r \<and>
      (\<forall>cs. r = Some cs \<longrightarrow> (\<exists>a. a + length cs < p_sz (cur_proc s) \<and> uload s (a + length cs) = Ok 0 \<and>
         (\<forall>i<length cs. uload s (a + i) = Ok (cs ! i) \<and> cs ! i \<noteq> 0))))"
proof -
  let ?sz = "p_sz (cur_proc s)"
  obtain r where r: "argint n s = Ok r"
    using fetchint_total[OF assms(1), of "(tf_esp (p_tf (cur_proc s)) + 4 + 4 * n) mod 4294967296"] by (auto simp: argint_def)
  have sz: "?sz \<le> 2147483648" using assms by (simp add: user_mapped_def KERNBASE_def)
  have "\<exists>p. argptr n size' s = Ok p \<and> (\<forall>a. p = Some a \<longrightarrow> 0 \<le> size' \<and> a + nat size' \<le> ?sz \<and> a < ?sz)"
  proof (cases r)
    case None
    then show ?thesis using r by (simp add: argptr_def)
  next
    case (Some i)
    have "(nat32 i + nat size') mod 4294967296 = nat32 i + nat size'" if "nat32 i < ?sz" "0 \<le> size'"
      using that sz assms(2) by simp
    then show ?thesis using r Some by (auto simp: argptr_def Let_def not_le)
  qed
  moreover have "\<exists>q. fetchstr a s = Ok q \<and> (\<forall>cs. q = Some cs \<longrightarrow> (\<exists>a. a + length cs < ?sz \<and>
      uload s (a + length cs) = Ok 0 \<and> (\<forall>i<length cs. uload s (a + i) = Ok (cs ! i) \<and> cs ! i \<noteq> 0)))" for a
  proof (cases "a < ?sz")
    case True
    then obtain q where q: "fetchstr_loop (?sz - a) a s = Ok q"
      "case q of None \<Rightarrow> \<forall>i < ?sz - a. uload s (a + i) \<noteq> Ok 0
       | Some cs \<Rightarrow> length cs < ?sz - a \<and> uload s (a + length cs) = Ok 0 \<and> (\<forall>i<length cs. uload s (a + i) = Ok (cs ! i) \<and> cs ! i \<noteq> 0)"
      using fetchstr_loop_total[OF assms(1), of a "?sz - a"] by auto
    then show ?thesis using True by (auto simp: fetchstr_def intro!: exI[of _ a])
  qed (simp add: fetchstr_def)
  ultimately show ?thesis using r by (cases r) (auto simp: argstr_def)
qed

text \<open>The sample state with one page of user memory, and the stack pointer at its end.\<close>

definition sample_user :: kernel where
  "sample_user = sample_kernel\<lparr>kvm := sample_vm\<lparr>mem := mem demo_user\<rparr>,
     procs := (procs sample_kernel)(1 := (procs sample_kernel 1)\<lparr>p_sz := 4096, p_pgdir := 0x80110000,
       p_tf := zero_tf\<lparr>tf_esp := 4092\<rparr>\<rparr>)\<rparr>"

lemma sample_user_mapped: "user_mapped sample_user"
proof -
  have a: "user_addr sample_user va \<noteq> None" if "va < 4096" for va
  proof -
    have x: "PDX va = 0" "PTX va = 0" using that by (simp_all add: PDX_def PTX_def)
    have m: "mem (kvm sample_user) = mem demo_user" "p_pgdir (cur_proc sample_user) = 0x80110000" by (simp_all add: sample_user_def)
    have e: "get32 (mem demo_user) 0x80110000 = 0x111007" using demo_user_pde[of 0] by (simp add: pde_def)
    have w: "fst (walkpgdir 0x80110000 va False (kvm sample_user)) = 0x80111000"
      unfolding walkpgdir_def Let_def x m by (simp add: e PTE_P_def PTE_ADDR_def P2V_def KERNBASE_def)
    have "get32 (mem demo_user) 0x80111000 = 0x112007" by (simp add: demo_user_def)
    then show ?thesis by (simp add: user_addr_def w m Let_def PTE_P_def)
  qed
  have "p_sz (cur_proc sample_user) = 4096" by (simp add: sample_user_def)
  then show ?thesis using a by (simp add: user_mapped_def KERNBASE_def)
qed

theorem args_checked_witness: "\<exists>r. argptr 0 8 sample_user = Ok r \<and> (\<forall>a. r = Some a \<longrightarrow> a + 8 \<le> p_sz (cur_proc sample_user))"
  using args_checked[OF sample_user_mapped, of 8 0] by fastforce

section \<open>exec\<close>

lemma tab_same_refl: "tab_same s s" and tab_same_trans: "tab_same s t \<Longrightarrow> tab_same t u \<Longrightarrow> tab_same s u"
  by (simp_all add: tab_same_def)

lemma kstores_tab: "tab_same s (kstores a bs s)"
  by (simp add: tab_same_def kstores_def)

lemma loaduvm_loop_tab: "loaduvm_loop devsw pgdir addr ip offset n s = Ok (r, t) \<Longrightarrow> tab_same s t"
proof (induction devsw pgdir addr ip offset n s arbitrary: r t rule: loaduvm_loop.induct)
  case (1 devsw pgdir addr ip offset n s)
  show ?case
  proof (cases "n = 0")
    case True
    then show ?thesis using 1(2) by (simp add: loaduvm_loop.simps tab_same_refl)
  next
    case False
    let ?pte = "fst (walkpgdir pgdir addr False (kvm s))" and ?m = "min n PGSIZE"
    let ?a = "P2V (PTE_ADDR (get32 (mem (kvm s)) ?pte))"
    have p: "?pte \<noteq> 0"
    proof
      assume "?pte = 0"
      then have "loaduvm_loop devsw pgdir addr ip offset n s = Panic ''loaduvm: address should exist''"
        using False by (simp add: loaduvm_loop.simps Let_def)
      then show False using 1(2) by simp
    qed
    then obtain v bs u where u: "on_fs (readi devsw ip offset ?m) s = Ok ((v, bs), u)"
      and rest: "(if v \<noteq> int ?m then Ok (-1, kstores ?a bs u)
         else loaduvm_loop devsw pgdir ((addr + PGSIZE) mod 4294967296) ip ((offset + PGSIZE) mod 4294967296) (n - ?m) (kstores ?a bs u)) = Ok (r, t)"
      using 1(2) False by (subst (asm) loaduvm_loop.simps) (auto simp: Let_def rbind_eq_Ok)
    have s: "tab_same s (kstores ?a bs u)" using machine_tab(3)[OF u] kstores_tab tab_same_trans by blast
    show ?thesis
    proof (cases "v = int ?m")
      case True
      have "tab_same (kstores ?a bs u) t"
        using rest True by (intro 1(1)[OF False refl p refl refl u refl refl refl]) simp_all
      then show ?thesis using s tab_same_trans by blast
    qed (use rest s in simp)
  qed
qed

lemma loaduvm_tab: "loaduvm devsw pgdir addr ip offset n s = Ok (r, t) \<Longrightarrow> tab_same s t"
  by (auto simp: loaduvm_def dest: loaduvm_loop_tab split: if_splits)

lemma exec_load_tab: "exec_load n devsw ip pgdir off sz s = Ok (r, t) \<Longrightarrow> tab_same s t"
proof (induction n arbitrary: off sz s)
  case (Suc n)
  obtain v bs u where u: "on_fs (readi devsw ip off PROGHDR_SIZE) s = Ok ((v, bs), u)"
    using Suc.prems by (auto simp: rbind_eq_Ok)
  note su = machine_tab(3)[OF u]
  define ph where "ph = dec_proghdr bs"
  define top where "top = (ph_vaddr ph + ph_memsz ph) mod 4294967296"
  define off' where "off' = (off + PROGHDR_SIZE) mod 4294967296"
  have e: "(if v \<noteq> int PROGHDR_SIZE then Ok (None, u)
     else if ph_type ph \<noteq> ELF_PROG_LOAD then exec_load n devsw ip pgdir off' sz u
     else if ph_memsz ph < ph_filesz ph \<or> top < ph_vaddr ph then Ok (None, u)
     else rbind (on_vm (allocuvm pgdir sz top) u) (\<lambda>(sz, s).
       if sz = 0 \<or> ph_vaddr ph mod PGSIZE \<noteq> 0 then Ok (None, s)
       else rbind (loaduvm devsw pgdir (ph_vaddr ph) ip (ph_off ph) (ph_filesz ph) s) (\<lambda>(r, s).
         if r < 0 then Ok (None, s) else exec_load n devsw ip pgdir off' sz s))) = Ok (r, t)"
    using Suc.prems unfolding exec_load.simps Let_def ph_def top_def off'_def by (simp add: u)
  show ?case
  proof (cases "v \<noteq> int PROGHDR_SIZE \<or> ph_type ph \<noteq> ELF_PROG_LOAD \<or> ph_memsz ph < ph_filesz ph \<or> top < ph_vaddr ph")
    case True
    then show ?thesis using e su Suc.IH tab_same_trans by (auto split: if_splits)
  next
    case False
    then obtain sz' w where w: "on_vm (allocuvm pgdir sz top) u = Ok (sz', w)" using e by (auto simp: rbind_eq_Ok)
    note sw = tab_same_trans[OF su machine_tab(4)[OF w]]
    show ?thesis
    proof (cases "sz' = 0 \<or> ph_vaddr ph mod PGSIZE \<noteq> 0")
      case True
      then show ?thesis using e w sw False by auto
    next
      case nz: False
      then obtain q x where x: "loaduvm devsw pgdir (ph_vaddr ph) ip (ph_off ph) (ph_filesz ph) w = Ok (q, x)"
        and rest: "(if q < 0 then Ok (None, x) else exec_load n devsw ip pgdir off' sz' x) = Ok (r, t)"
        using e w False by (auto simp: rbind_eq_Ok)
      show ?thesis
        using rest tab_same_trans[OF sw loaduvm_tab[OF x]] Suc.IH tab_same_trans by (auto split: if_splits)
    qed
  qed
qed (simp add: tab_same_refl)

lemma copyout_list_tab: "copyout_list pgdir va bs s = Ok (r, t) \<Longrightarrow> tab_same s t"
proof (induction pgdir va bs s arbitrary: r t rule: copyout_list.induct)
  case (1 pgdir va bs s)
  let ?va0 = "PGROUNDDOWN va"
  let ?n = "min (PGSIZE - (va - ?va0)) (length bs)"
  show ?case
  proof (cases "bs = []")
    case True
    then show ?thesis using 1(2) by (simp add: copyout_list.simps tab_same_refl)
  next
    case False
    have e: "copyout_list pgdir va bs s = rbind (uva2ka pgdir ?va0 (kvm s)) (\<lambda>pa. if pa = 0 then Ok (-1, s) else
        copyout_list pgdir ((?va0 + PGSIZE) mod 4294967296) (drop ?n bs) (kstores (pa + (va - ?va0)) (take ?n bs) s))"
      using False by (subst copyout_list.simps) (simp only: Let_def if_False)
    obtain pa where pa: "uva2ka pgdir ?va0 (kvm s) = Ok pa"
      and rest: "(if pa = 0 then Ok (-1, s) else
        copyout_list pgdir ((?va0 + PGSIZE) mod 4294967296) (drop ?n bs) (kstores (pa + (va - ?va0)) (take ?n bs) s)) = Ok (r, t)"
      using 1(2) unfolding e by (auto simp: rbind_eq_Ok)
    show ?thesis
    proof (cases "pa = 0")
      case True
      then show ?thesis using rest by (simp add: tab_same_refl)
    next
      case nz: False
      have "tab_same (kstores (pa + (va - ?va0)) (take ?n bs) s) t"
        using rest nz by (intro 1(1)[OF False refl pa nz refl]) simp
      then show ?thesis using kstores_tab tab_same_trans by blast
    qed
  qed
qed

lemma push_args_tab: "push_args pgdir args sp us s = Ok (r, t) \<Longrightarrow> tab_same s t \<and> (\<forall>sp' us'. sp mod 4 = 0 \<longrightarrow> r = Some (sp', us') \<longrightarrow> sp' mod 4 = 0)"
proof (induction args arbitrary: sp us s)
  case (Cons arg args)
  define sp' where "sp' = nat ((int sp - int (length arg + 1)) mod 4294967296)"
  have m: "(sp' - sp' mod 4) mod 4 = 0" by (simp add: minus_mod_eq_mult_div)
  show ?case
  proof (cases "MAXARG \<le> length us")
    case True
    then show ?thesis using Cons.prems by (simp add: tab_same_refl)
  next
    case False
    then obtain q u where u: "copyout_list pgdir (sp' - sp' mod 4) (arg @ [0]) s = Ok (q, u)"
      and rest: "(if q < 0 then Ok (None, u) else push_args pgdir args (sp' - sp' mod 4) (us @ [sp' - sp' mod 4]) u) = Ok (r, t)"
      using Cons.prems unfolding push_args.simps Let_def sp'_def[symmetric] by (auto simp: rbind_eq_Ok)
    note su = copyout_list_tab[OF u]
    show ?thesis
    proof (cases "q < 0")
      case True
      then show ?thesis using rest su by simp
    next
      case ok: False
      then have "push_args pgdir args (sp' - sp' mod 4) (us @ [sp' - sp' mod 4]) u = Ok (r, t)" using rest by simp
      from Cons.IH[OF this] show ?thesis using m su by (auto intro: tab_same_trans)
    qed
  qed
qed (auto simp: tab_same_refl)

lemma sub_mod4: "sp mod 4 = 0 \<Longrightarrow> nat ((int sp - int (k * 4)) mod 4294967296) mod 4 = 0"
proof -
  assume "sp mod 4 = 0"
  then have "(int sp - int (k * 4)) mod 4 = 0" by (auto simp: mod_diff_left_eq elim!: dvdE simp flip: dvd_eq_mod_eq_0)
  then have "((int sp - int (k * 4)) mod 4294967296) mod 4 = 0" by (simp add: mod_mod_cancel)
  moreover have "0 \<le> (int sp - int (k * 4)) mod 4294967296" by simp
  ultimately show ?thesis by (metis nat_eq_iff2 nat_mod_distrib nat_zero_as_int nat_numeral zero_le_numeral)
qed

lemma exec_stack_tab: "exec_stack pgdir argv sp s = Ok (r, t) \<Longrightarrow> sp mod 4 = 0 \<Longrightarrow> tab_same s t \<and> (\<forall>sp'. r = Some sp' \<longrightarrow> sp' mod 4 = 0)"
proof -
  assume e: "exec_stack pgdir argv sp s = Ok (r, t)" and m: "sp mod 4 = 0"
  obtain q u where u: "push_args pgdir argv sp [] s = Ok (q, u)" using e by (auto simp: exec_stack_def rbind_eq_Ok)
  note p = push_args_tab[OF u]
  show ?thesis
  proof (cases q)
    case None
    then show ?thesis using e u p by (simp add: exec_stack_def)
  next
    case (Some x)
    obtain sp1 us where x: "x = (sp1, us)" by (cases x)
    define sp2 where "sp2 = nat ((int sp1 - int ((3 + length us + 1) * 4)) mod 4294967296)"
    have m2: "sp2 mod 4 = 0" unfolding sp2_def by (rule sub_mod4) (use p m Some x in auto)
    obtain w v where v: "copyout_list pgdir sp2 (concat (map word_bytes (ustack_words sp1 us))) u = Ok (w, v)"
      and rest: "(if w < 0 then Ok (None, v) else Ok (Some sp2, v)) = Ok (r, t)"
      using e unfolding exec_stack_def u Let_def sp2_def by (simp add: Some x rbind_eq_Ok del: of_nat_add of_nat_mult) blast
    have "tab_same s v" using copyout_list_tab[OF v] p tab_same_trans by blast
    then show ?thesis using rest m2 by (auto split: if_splits)
  qed
qed

lemma exec_bad_tab: "exec_bad pgdir ip s = Ok (r, t) \<Longrightarrow> r = -1 \<and> tab_same s t"
  by (auto simp: exec_bad_def rbind_eq_Ok split: if_splits option.splits
      dest!: machine_tab intro: tab_same_refl) (auto simp: tab_same_def)

lemma allocuvm_size: "allocuvm pgdir oldsz newsz s = Ok (sz, t) \<Longrightarrow> sz = 0 \<or> sz = oldsz \<or> sz = newsz"
proof -
  have "allocuvm_loop pgdir a oldsz newsz s = Ok (sz, t) \<Longrightarrow> sz = 0 \<or> sz = newsz" for a
  proof (induction pgdir a oldsz newsz s rule: allocuvm_loop.induct)
    case (1 pgdir a oldsz newsz s)
    show ?case
    proof (cases "a < newsz")
      case False
      then show ?thesis using 1(2) by (simp add: allocuvm_loop.simps)
    next
      case True
      obtain m u where ka: "kalloc s = (m, u)" by (cases "kalloc s")
      define w where "w = u\<lparr>mem := memset (mem u) m 0 PGSIZE\<rparr>"
      have e: "allocuvm_loop pgdir a oldsz newsz s = (if m = 0 then rbind (deallocuvm pgdir newsz oldsz u) (\<lambda>(_, s). Ok (0, s))
          else rbind (mappages pgdir a PGSIZE (V2P m) (PTE_W OR PTE_U) w) (\<lambda>(r, s).
            if r < 0 then rbind (deallocuvm pgdir newsz oldsz s) (\<lambda>(_, s). rbind (kfree m s) (\<lambda>s. Ok (0, s)))
            else allocuvm_loop pgdir (a + PGSIZE) oldsz newsz s))"
        using True ka by (subst allocuvm_loop.simps) (simp only: Let_def if_False not_not split_conv w_def True HOL.simp_thms)
      show ?thesis
      proof (cases "m = 0")
        case True
        then show ?thesis using 1(2) unfolding e by (auto simp: rbind_eq_Ok)
      next
        case nz: False
        then obtain r v where v: "mappages pgdir a PGSIZE (V2P m) (PTE_W OR PTE_U) w = Ok (r, v)"
          and rest: "(if r < 0 then rbind (deallocuvm pgdir newsz oldsz v) (\<lambda>(_, s). rbind (kfree m s) (\<lambda>s. Ok (0, s)))
            else allocuvm_loop pgdir (a + PGSIZE) oldsz newsz v) = Ok (sz, t)"
          using 1(2) unfolding e by (auto simp: rbind_eq_Ok)
        show ?thesis
        proof (cases "r < 0")
          case True
          then show ?thesis using rest by (auto simp: rbind_eq_Ok)
        next
          case False
          then show ?thesis using rest 1(1)[of "(m, u)" m u w "(r, v)" r v] True ka nz v by (simp add: w_def)
        qed
      qed
    qed
  qed
  then show "allocuvm pgdir oldsz newsz s = Ok (sz, t) \<Longrightarrow> sz = 0 \<or> sz = oldsz \<or> sz = newsz"
    by (auto simp: allocuvm_def split: if_splits)
qed

text \<open>What the process looks like after a successful \<open>exec\<close>.\<close>

definition execd :: "byte list \<Rightarrow> proc \<Rightarrow> proc \<Rightarrow> bool" where
  "execd path p q \<longleftrightarrow> (\<exists>pgdir sz sp entry. pgdir \<noteq> 0 \<and> sz \<noteq> 0 \<and> sz mod PGSIZE = 0 \<and> sp mod 4 = 0 \<and>
     q = p\<lparr>p_name := take 15 (last_elem path path), p_pgdir := pgdir, p_sz := sz, p_tf := (p_tf p)\<lparr>tf_eip := entry, tf_esp := sp\<rparr>\<rparr>)"

lemma exec_commit_outcome:
  assumes "exec_commit path argv entry pgdir sz s = Ok (r, t)" and "pgdir \<noteq> 0"
  shows "r = -1 \<and> tab_same s t \<or> r = 0 \<and> ftable t = ftable s \<and> (\<exists>q. procs t = (procs s)(cur s := q) \<and> execd path (cur_proc s) q)"
proof -
  let ?sz = "PGROUNDUP sz"
  obtain sz1 u where u: "on_vm (allocuvm pgdir ?sz ((?sz + 2 * PGSIZE) mod 4294967296)) s = Ok (sz1, u)"
    using assms(1) by (auto simp: exec_commit_def Let_def rbind_eq_Ok)
  note su = machine_tab(4)[OF u]
  have "sz1 = 0 \<or> sz1 = ?sz \<or> sz1 = (?sz + 2 * PGSIZE) mod 4294967296"
    using u by (auto simp: on_vm_Ok dest: allocuvm_size)
  moreover have "?sz mod PGSIZE = 0" by (simp add: PGROUNDUP_def)
  moreover from this have "(?sz + 2 * PGSIZE) mod 4294967296 mod PGSIZE = 0" by (simp add: PGSIZE_def mod_mod_cancel flip: dvd_eq_mod_eq_0)
  ultimately have m: "sz1 mod PGSIZE = 0" by auto
  have "4 dvd PGSIZE" by (simp add: PGSIZE_def)
  then have "4 dvd sz1" using mod_0_imp_dvd[OF m] by (rule dvd_trans)
  then have m4: "sz1 mod 4 = 0" by simp
  show ?thesis
  proof (cases "sz1 = 0")
    case True
    then have "exec_bad pgdir None u = Ok (r, t)" using assms(1) u by (simp add: exec_commit_def Let_def)
    then show ?thesis using exec_bad_tab su tab_same_trans by blast
  next
    case False
    then obtain v where v: "do_vm (clearpteu pgdir (sz1 - 2 * PGSIZE)) u = Ok v" using assms(1) u by (auto simp: exec_commit_def Let_def rbind_eq_Ok)
    obtain q w where w: "exec_stack pgdir argv sz1 v = Ok (q, w)" using assms(1) u v False by (auto simp: exec_commit_def Let_def rbind_eq_Ok)
    note st = exec_stack_tab[OF w m4]
    have sw: "tab_same s w" using su machine_tab(2)[OF v] st tab_same_trans by blast
    show ?thesis
    proof (cases q)
      case None
      then have "exec_bad pgdir None w = Ok (r, t)" using assms(1) u v w False by (simp add: exec_commit_def Let_def)
      then show ?thesis using exec_bad_tab sw tab_same_trans by blast
    next
      case (Some sp)
      define x where "x = upd_proc (cur w) (\<lambda>p. p\<lparr>p_name := take 15 (last_elem path path), p_pgdir := pgdir, p_sz := sz1,
                      p_tf := (p_tf p)\<lparr>tf_eip := entry, tf_esp := sp\<rparr>\<rparr>) w"
      obtain y where y: "do_vm (switchuvm (Some (p_kstack (cur_proc x), pgdir))) x = Ok y"
        using assms(1) u v w False Some by (auto simp: exec_commit_def Let_def rbind_eq_Ok x_def)
      have yt: "do_vm (freevm (p_pgdir (cur_proc w))) y = Ok t \<and> r = 0"
        using assms(1) u v w False Some y by (auto simp: exec_commit_def Let_def rbind_eq_Ok x_def)
      have "tab_same x t" using machine_tab(2)[OF y] machine_tab(2)[of _ y t] yt tab_same_trans by blast
      then have "procs t = (procs s)(cur s := procs x (cur s))" "ftable t = ftable s" using sw by (simp_all add: tab_same_def x_def)
      moreover have "execd path (cur_proc s) (procs x (cur s))"
        using sw st Some assms(2) False m unfolding execd_def
        by (intro exI[of _ pgdir] exI[of _ sz1] exI[of _ sp] exI[of _ entry]) (simp add: tab_same_def x_def)
      ultimately show ?thesis using yt by blast
    qed
  qed
qed

lemma exec_outcome:
  assumes "exec devsw path argv s = Ok (r, t)"
  shows "r = -1 \<and> tab_same s t \<or>
    r = 0 \<and> ftable t = ftable s \<and> (\<exists>q. procs t = (procs s)(cur s := q) \<and> execd path (cur_proc s) q)"
proof -
  obtain cwd where cwd: "p_cwd (cur_proc s) = Some cwd" using assms by (auto simp: exec_def with_cwd_def split: option.splits)
  obtain u where u: "do_fs begin_op s = Ok u" using assms cwd by (auto simp: exec_def with_cwd_def rbind_eq_Ok)
  obtain q v where v: "on_fs (namei devsw cwd path) u = Ok (q, v)" using assms cwd u by (auto simp: exec_def with_cwd_def rbind_eq_Ok)
  have sv: "tab_same s v" using machine_tab(1)[OF u] machine_tab(3)[OF v] tab_same_trans by blast
  have fin: ?thesis if "exec_bad a b c = Ok (r, t)" "tab_same s c" for a b c
    using exec_bad_tab[OF that(1)] tab_same_trans[OF that(2)] by blast
  show ?thesis
  proof (cases q)
    case None
    then have "do_fs end_op v = Ok t" "r = -1" using assms cwd u v by (auto simp: exec_def with_cwd_def rbind_eq_Ok)
    then show ?thesis using tab_same_trans[OF sv machine_tab(1)] by blast
  next
    case (Some ip)
    obtain w where w: "do_fs (ilock ip) v = Ok w" using assms cwd u v Some by (auto simp: exec_def with_cwd_def rbind_eq_Ok)
    obtain n bs x where x: "on_fs (readi devsw ip 0 ELFHDR_SIZE) w = Ok ((n, bs), x)"
      using assms cwd u v w Some by (auto simp: exec_def with_cwd_def rbind_eq_Ok)
    have sx: "tab_same s x" using sv machine_tab(1)[OF w] machine_tab(3)[OF x] tab_same_trans by blast
    define elf where "elf = dec_elfhdr bs"
    have e: "(if n \<noteq> int ELFHDR_SIZE \<or> e_magic elf \<noteq> ELF_MAGIC then exec_bad 0 (Some ip) x
         else
           rbind (on_vm setupkvm x) (\<lambda>(pgdir, s).
           if pgdir = 0 then exec_bad 0 (Some ip) s
           else
             rbind (exec_load (e_phnum elf) devsw ip pgdir (e_phoff elf) 0 s) (\<lambda>(r, s).
             case r of
               None \<Rightarrow> exec_bad pgdir (Some ip) s
             | Some sz \<Rightarrow>
                 rbind (do_fs (iunlockput ip) s) (\<lambda>s.
                 rbind (do_fs end_op s) (\<lambda>s.
                 exec_commit path argv (e_entry elf) pgdir sz s))))) = Ok (r, t)"
      using assms unfolding exec_def with_cwd_def elf_def Let_def by (simp add: cwd u v w x Some)
    show ?thesis
    proof (cases "n \<noteq> int ELFHDR_SIZE \<or> e_magic elf \<noteq> ELF_MAGIC")
      case True
      then have "exec_bad 0 (Some ip) x = Ok (r, t)" using e by simp
      then show ?thesis using sx by (rule fin)
    next
      case False
      then obtain pgdir y where y: "on_vm setupkvm x = Ok (pgdir, y)" using e by (auto simp: rbind_eq_Ok)
      note sy = tab_same_trans[OF sx machine_tab(4)[OF y]]
      show ?thesis
      proof (cases "pgdir = 0")
        case True
        then have "exec_bad 0 (Some ip) y = Ok (r, t)" using e y False by simp
        then show ?thesis using sy by (rule fin)
      next
        case nz: False
        then obtain sz z where z: "exec_load (e_phnum elf) devsw ip pgdir (e_phoff elf) 0 y = Ok (sz, z)"
          using e y False by (auto simp: rbind_eq_Ok)
        note sz = tab_same_trans[OF sy exec_load_tab[OF z]]
        show ?thesis
        proof (cases sz)
          case None
          then have "exec_bad pgdir (Some ip) z = Ok (r, t)" using e y z False nz by simp
          then show ?thesis using sz by (rule fin)
        next
          case (Some m)
          then obtain a b where a: "do_fs (iunlockput ip) z = Ok a" "do_fs end_op a = Ok b"
            and c: "exec_commit path argv (e_entry elf) pgdir m b = Ok (r, t)"
            using e y z False nz by (auto simp: rbind_eq_Ok)
          have sb: "tab_same s b" using sz machine_tab(1)[OF a(1)] machine_tab(1)[OF a(2)] tab_same_trans by blast
          then have "procs b = procs s" "cur b = cur s" "ftable b = ftable s" by (simp_all add: tab_same_def)
          then show ?thesis using exec_commit_outcome[OF c nz] tab_same_trans[OF sb] by auto
        qed
      qed
    qed
  qed
qed

text \<open>C10. \<open>exec\<close> is all or nothing for the process that calls it.  It returns \<open>-1\<close> and the process table
  is as before, with the address space, the size and the registers of the caller; or it returns 0
  and the caller, and no other process, has a new address space, a size of whole pages, an entry
  point and an aligned stack pointer.\<close>

theorem exec_all_or_nothing:
  assumes "exec devsw path argv s = Ok (r, t)"
  shows "r = -1 \<and> procs t = procs s \<or>
    r = 0 \<and> (\<exists>q. procs t = (procs s)(cur s := q) \<and> execd path (procs s (cur s)) q)"
  using exec_outcome[OF assms] by (auto simp: tab_same_def)

lemma sample_exec: "\<exists>t. exec no_dev [] [] sample_kernel = Ok (-1, t)"
proof -
  let ?f = "(kfs sample_kernel)\<lparr>log_outstanding := 1\<rparr>"
  let ?ino = "\<lambda>n lk. (sample_inode 6 T_DIR)\<lparr>i_ref := n, i_lock := lk\<rparr>"
  have i: "inodes ?f 1 = ?ino 2 initsleeplock" by (simp add: sample_kernel_def sample_inode_def zero_inode_def)
  have b: "do_fs begin_op sample_kernel = Ok (sample_kernel\<lparr>kfs := ?f\<rparr>)"
    by (simp add: do_fs_def begin_op_def sample_kernel_def sample_committing consts_defs)
  let ?g = "upd_inode 1 (\<lambda>n. n\<lparr>i_ref := i_ref n + 1\<rparr>) ?f"
  have n: "namei no_dev 1 [] ?f = Ok (Some 1, ?g)"
    by (simp add: namei_def namex_def namex_loop.simps skipelem_def idup_def)
  have "\<exists>h. ilock 1 ?g = Ok h \<and> inodes h 1 = ?ino 3 (initsleeplock\<lparr>sl_locked := True, sl_pid := 1\<rparr>) \<and> curpid h = 1 \<and>
      log_outstanding h = 1 \<and> \<not> log_committing h \<and> lh_n h = 0"
    by (simp add: ilock_def i acquiresleep_def upd_inode_def initsleeplock_def Let_def)
       (simp add: sample_kernel_def sample_committing sample_inode_def zero_inode_def initsleeplock_def)
  then obtain h where h: "ilock 1 ?g = Ok h" "inodes h 1 = ?ino 3 (initsleeplock\<lparr>sl_locked := True, sl_pid := 1\<rparr>)" "curpid h = 1"
      "log_outstanding h = 1" "\<not> log_committing h" "lh_n h = 0" by blast
  have rd: "readi no_dev 1 0 52 h = Ok ((0, []), h)"
    by (simp add: readi_def h(2) readi_loop.simps[of 1 0 0] T_DIR_def T_DEV_def Let_def del: One_nat_def)
  have "\<exists>u. iunlockput 1 h = Ok u \<and> log_outstanding u = 1 \<and> \<not> log_committing u \<and> lh_n u = 0"
    by (simp add: iunlockput_def iunlock_def holdingsleep_def h iput_def acquiresleep_def releasesleep_def upd_inode_def Let_def del: One_nat_def)
  then obtain u where u: "iunlockput 1 h = Ok u" "log_outstanding u = 1" "\<not> log_committing u" "lh_n u = 0" by blast
  have "end_op u = Ok (u\<lparr>log_outstanding := 0, log_committing := False\<rparr>)" using u by (simp add: end_op_def commit_def Let_def)
  then show ?thesis
    using b n h(1) rd u(1)
    by (simp add: exec_def with_cwd_def on_fs_def do_fs_def exec_bad_def ELFHDR_SIZE_def Let_def del: One_nat_def)
qed

theorem exec_all_or_nothing_witness: "\<exists>t. exec no_dev [] [] sample_kernel = Ok (-1, t) \<and> procs t = procs sample_kernel"
proof -
  obtain t where t: "exec no_dev [] [] sample_kernel = Ok (-1, t)" using sample_exec by blast
  then show ?thesis using exec_all_or_nothing[OF t] by auto
qed

end
