(* ===== verification/File_Refs.thy ===== *)
theory File_Refs
  imports Kernel_Props
begin

text \<open>
  The reference counts of open files: each is the number of descriptors of all processes that refer
  to the file, and every system call keeps it so.
\<close>

unbundle bit_operations_syntax

section \<open>Counting\<close>

definition fds_of :: "(nat \<Rightarrow> nat option) \<Rightarrow> nat \<Rightarrow> int" where
  "fds_of of' f = (\<Sum>fd<NOFILE. of_bool (of' fd = Some f))"

definition refs :: "kernel \<Rightarrow> nat \<Rightarrow> int" where
  "refs s f = (\<Sum>p<NPROC. fds_of (p_ofile (procs s p)) f)"

text \<open>References in the hands of the code that runs, not yet or no longer in a descriptor.\<close>

definition slack :: "kernel \<Rightarrow> nat \<Rightarrow> int" where
  "slack s f = f_ref (ftable s f) - refs s f"

definition dead :: "procstate \<Rightarrow> bool" where
  "dead st \<longleftrightarrow> st = UNUSED \<or> st = ZOMBIE"

definition closed :: "kernel \<Rightarrow> bool" where
  "closed s \<longleftrightarrow> (\<forall>p<NPROC. dead (p_state (procs s p)) \<longrightarrow> (\<forall>fd<NOFILE. p_ofile (procs s p) fd = None))"

definition file_inv :: "kernel \<Rightarrow> bool" where
  "file_inv s \<longleftrightarrow> (\<forall>f. slack s f = 0) \<and> closed s"

lemma fds_of_upd: "fd < NOFILE \<Longrightarrow> fds_of (of'(fd := x)) f = fds_of of' f - of_bool (of' fd = Some f) + of_bool (x = Some f)"
  unfolding fds_of_def by (rule sum_fun_upd)

lemma fds_of_nonneg: "0 \<le> fds_of of' f"
  by (simp add: fds_of_def sum_nonneg)

lemma refs_upd:
  assumes "p < NPROC" and "procs t = (procs s)(p := x)"
  shows "refs t f = refs s f - fds_of (p_ofile (procs s p)) f + fds_of (p_ofile x) f"
  unfolding refs_def assms(2) by (rule sum_fun_upd[OF assms(1), of "\<lambda>q. fds_of (p_ofile q) f"])

lemma refs_cong: "(\<And>p. p_ofile (procs t p) = p_ofile (procs s p)) \<Longrightarrow> refs t f = refs s f"
  by (simp add: refs_def)

lemma refs_pos:
  assumes "p < NPROC" and "fd < NOFILE" and "p_ofile (procs s p) fd = Some f"
  shows "1 \<le> refs s f"
proof -
  have "1 = (of_bool (p_ofile (procs s p) fd = Some f) :: int)" using assms(3) by simp
  also have "\<dots> \<le> fds_of (p_ofile (procs s p)) f"
    unfolding fds_of_def using assms(2) by (intro member_le_sum) auto
  also have "\<dots> \<le> refs s f"
    unfolding refs_def using assms(1) fds_of_nonneg by (intro member_le_sum) auto
  finally show ?thesis .
qed

section \<open>The steps\<close>

text \<open>Steps that touch no descriptor and no reference count.\<close>

definition keep :: "kernel \<Rightarrow> kernel \<Rightarrow> bool" where
  "keep s t \<longleftrightarrow> (\<forall>f. f_ref (ftable t f) = f_ref (ftable s f)) \<and> (\<forall>p. p_ofile (procs t p) = p_ofile (procs s p)) \<and>
     (\<forall>p. dead (p_state (procs t p)) = dead (p_state (procs s p))) \<and> cur t = cur s"

lemma keep_refl: "keep s s" and keep_trans: "keep s t \<Longrightarrow> keep t u \<Longrightarrow> keep s u"
  by (auto simp: keep_def)

lemma keepD: "keep s t \<Longrightarrow> slack t = slack s" "keep s t \<Longrightarrow> closed t = closed s" "keep s t \<Longrightarrow> cur t = cur s"
  using refs_cong[of t s] by (auto simp: keep_def slack_def closed_def fun_eq_iff)

lemma keep_tab: "tab_same s t \<Longrightarrow> keep s t"
  by (simp add: tab_same_def keep_def)

lemmas keep_machine = keep_tab[OF machine_tab(1)] keep_tab[OF machine_tab(2)] keep_tab[OF machine_tab(3)] keep_tab[OF machine_tab(4)]

lemma dead_simps [simp]: "dead UNUSED" "dead ZOMBIE" "\<not> dead EMBRYO" "\<not> dead SLEEPING" "\<not> dead RUNNABLE" "\<not> dead RUNNING"
  by (simp_all add: dead_def)

lemma keep_wakeup: "keep s (wakeup c s)"
  by (simp add: keep_def wakeup_def wakeup1_def)

lemma keep_pipes: "keep s (s\<lparr>pipes := q\<rparr>)"
  by (simp add: keep_def)

lemma keep_upd_proc:
  assumes "\<And>x. p_ofile (g x) = p_ofile x" and "dead (p_state (g (procs s p))) = dead (p_state (procs s p))"
  shows "keep s (upd_proc p g s)"
  using assms by (simp add: keep_def)

lemma keep_upd_file: "(\<And>x. f_ref (g x) = f_ref x) \<Longrightarrow> keep s (upd_file f g s)"
  by (simp add: keep_def)

lemma keep_ustores: "ustores a bs s = Ok t \<Longrightarrow> keep s t"
  by (induction bs arbitrary: a s) (auto simp: keep_refl keep_def split: option.splits)

lemma keep_sched: "sched h n i s = Ok t \<Longrightarrow> keep s t"
  by (auto simp: sched_def keep_def split: if_splits)

lemma keep_sleep: "sleep c lk s = Ok t \<Longrightarrow> p_state (cur_proc s) = RUNNING \<Longrightarrow> keep s t"
proof -
  assume s: "sleep c lk s = Ok t" and r: "p_state (cur_proc s) = RUNNING"
  then have "sched True 1 False (sleep_on c s) = Ok t" by (auto simp: sleep_def split: if_splits)
  moreover have "keep s (sleep_on c s)" unfolding sleep_on_def by (rule keep_upd_proc) (use r in auto)
  ultimately show ?thesis using keep_sched keep_trans by blast
qed

lemma pipeclose_keep: "pipeclose_k p w s = Ok t \<Longrightarrow> keep s t"
proof -
  assume e: "pipeclose_k p w s = Ok t"
  obtain q gone where pc: "pipeclose w (pipes s p) = (q, gone)" by (cases "pipeclose w (pipes s p)")
  let ?s = "wakeup (if w then ChanNread p else ChanNwrite p) (s\<lparr>pipes := (pipes s)(p := q)\<rparr>)"
  have "keep s ?s" using keep_pipes keep_wakeup keep_trans by blast
  moreover have "(if gone then do_vm (kfree p) ?s else Ok ?s) = Ok t" using e by (simp add: pipeclose_k_def pc Let_def)
  then have "keep ?s t" by (auto intro: keep_refl keep_machine split: if_splits)
  ultimately show ?thesis using keep_trans by blast
qed

text \<open>Steps that change the count of one file by \<open>d\<close>, relative to the descriptors.\<close>

definition moves :: "int \<Rightarrow> nat \<Rightarrow> kernel \<Rightarrow> kernel \<Rightarrow> bool" where
  "moves d f s t \<longleftrightarrow> slack t = (slack s)(f := slack s f + d) \<and> (closed s \<longrightarrow> closed t) \<and> cur t = cur s \<and>
     (\<forall>p. dead (p_state (procs t p)) = dead (p_state (procs s p)))"

lemma moves_keep: "moves d f s t \<Longrightarrow> keep t u \<Longrightarrow> moves d f s u"
  using keepD[of t u] by (auto simp: moves_def keep_def)

lemma keep_moves: "keep s t \<Longrightarrow> moves d f t u \<Longrightarrow> moves d f s u"
  using keepD[of s t] by (auto simp: moves_def keep_def)

lemma moves_ref:
  assumes "\<And>g. g \<noteq> f \<Longrightarrow> f_ref (ftable t g) = f_ref (ftable s g)" and "procs t = procs s" and "cur t = cur s"
  shows "moves (f_ref (ftable t f) - f_ref (ftable s f)) f s t"
  using refs_cong[of t s] assms by (auto simp: moves_def slack_def closed_def fun_eq_iff)

lemma filedup_moves: "filedup f s = Ok t \<Longrightarrow> moves 1 f s t"
  using moves_ref[of f t s] by (auto simp: filedup_def split: if_splits)

lemma filealloc_moves: "filealloc s = (Some f, t) \<Longrightarrow> moves 1 f s t"
  using moves_ref[of f t s] find_Some_in_set[of "\<lambda>f. f_ref (ftable s f) = 0" "[0..<NFILE]" f]
  by (auto simp: filealloc_def split: option.splits)

lemma filealloc_None: "filealloc s = (None, t) \<Longrightarrow> t = s"
  by (auto simp: filealloc_def split: option.splits)

lemma fileclose_moves:
  assumes "fileclose f s = Ok t"
  shows "moves (-1) f s t"
proof -
  let ?s1 = "upd_file f (\<lambda>x. x\<lparr>f_ref := f_ref x - 1\<rparr>) s"
  let ?s2 = "upd_file f (\<lambda>x. x\<lparr>f_ref := 0, f_type := FD_NONE\<rparr>) ?s1"
  have ge: "1 \<le> f_ref (ftable s f)" using assms by (auto simp: fileclose_def split: if_splits)
  have m1: "moves (-1) f s ?s1" using moves_ref[of f ?s1 s] by simp
  show ?thesis
  proof (cases "0 < f_ref (ftable ?s1 f)")
    case True
    then show ?thesis using assms m1 ge by (simp add: fileclose_def Let_def split: if_splits)
  next
    case last: False
    then have one: "f_ref (ftable s f) = 1" using ge by simp
    have m2: "moves (-1) f s ?s2" using moves_ref[of f ?s2 s] one by simp
    show ?thesis
    proof (cases "f_type (ftable s f)")
      case FD_NONE
      then show ?thesis using assms last m2 by (simp add: fileclose_def Let_def split: if_splits)
    next
      case FD_PIPE
      then have "pipeclose_k (f_pipe (ftable s f)) (f_writable (ftable s f)) ?s2 = Ok t"
        using assms last by (simp add: fileclose_def Let_def split: if_splits)
      then show ?thesis using moves_keep[OF m2 pipeclose_keep] by blast
    next
      case FD_INODE
      then have "rbind (do_fs begin_op ?s2) (\<lambda>x. rbind (do_fs (iput (f_ip (ftable s f))) x) (do_fs end_op)) = Ok t"
        using assms last by (simp add: fileclose_def Let_def split: if_splits)
      then obtain u v where "do_fs begin_op ?s2 = Ok u" "do_fs (iput (f_ip (ftable s f))) u = Ok v" "do_fs end_op v = Ok t"
        by (auto simp: rbind_eq_Ok)
      then have "keep ?s2 t" by (blast intro: keep_trans[OF keep_machine(1) keep_trans[OF keep_machine(1) keep_machine(1)]])
      then show ?thesis by (rule moves_keep[OF m2])
    qed
  qed
qed

lemma pipeclose_ofile: "pipeclose_k p w s = Ok t \<Longrightarrow> p_ofile (procs t q) = p_ofile (procs s q)"
  using pipeclose_keep by (auto simp: keep_def)

lemma fileclose_ofile: "fileclose f s = Ok t \<Longrightarrow> p_ofile (procs t q) = p_ofile (procs s q)"
  by (auto simp: fileclose_def Let_def rbind_eq_Ok do_fs_Ok dest: pipeclose_ofile[of _ _ _ _ q] split: if_splits)

text \<open>Descriptors of the current process.\<close>

definition cur_ok :: "kernel \<Rightarrow> bool" where
  "cur_ok s \<longleftrightarrow> cur s < NPROC \<and> p_state (cur_proc s) = RUNNING"

lemma moves_fd:
  assumes "cur s < NPROC" and "\<not> dead (p_state (cur_proc s))" and "fd < NOFILE" and "p_ofile (cur_proc s) fd = a"
    and "t = upd_proc (cur s) (\<lambda>p. p\<lparr>p_ofile := (p_ofile p)(fd := b)\<rparr>) s"
  shows "slack t f = slack s f + of_bool (a = Some f) - of_bool (b = Some f)" "closed s \<Longrightarrow> closed t"
proof -
  have "refs t f = refs s f - of_bool (a = Some f) + of_bool (b = Some f)"
    using refs_upd[OF assms(1), of t s] fds_of_upd[OF assms(3)] assms(4,5) by simp
  then show "slack t f = slack s f + of_bool (a = Some f) - of_bool (b = Some f)" by (simp add: slack_def assms(5))
  show "closed s \<Longrightarrow> closed t" using assms(2) by (auto simp: closed_def assms(5))
qed

lemma moves_open:
  assumes "fdalloc f s = (Some fd, t)" and "cur s < NPROC" and "\<not> dead (p_state (cur_proc s))"
  shows "moves (-1) f s t" and "fd < NOFILE" and "p_ofile (cur_proc t) fd = Some f"
proof -
  have fd: "find (\<lambda>fd. p_ofile (cur_proc s) fd = None) [0..<NOFILE] = Some fd" using assms(1) by (auto simp: fdalloc_def split: option.splits)
  have t: "t = upd_proc (cur s) (\<lambda>p. p\<lparr>p_ofile := (p_ofile p)(fd := Some f)\<rparr>) s" using assms(1) fd by (simp add: fdalloc_def)
  show "fd < NOFILE" using find_Some_in_set[OF fd] by simp
  have "p_ofile (cur_proc s) fd = None" using find_Some_in_set[OF fd] by simp
  note m = moves_fd[OF assms(2,3) \<open>fd < NOFILE\<close> this t]
  show "moves (-1) f s t" using m by (auto simp: moves_def fun_eq_iff t)
  show "p_ofile (cur_proc t) fd = Some f" by (simp add: t)
qed

lemma moves_close:
  assumes "p_ofile (cur_proc s) fd = Some f" and "fd < NOFILE" and "cur s < NPROC" and "\<not> dead (p_state (cur_proc s))"
  shows "moves 1 f s (upd_proc (cur s) (\<lambda>p. p\<lparr>p_ofile := (p_ofile p)(fd := None)\<rparr>) s)"
  using moves_fd[OF assms(3,4,2,1) refl, of None] by (auto simp: moves_def fun_eq_iff)

lemma fdalloc_None: "fdalloc f s = (None, t) \<Longrightarrow> t = s"
  by (auto simp: fdalloc_def split: option.splits)

section \<open>System calls\<close>

lemma file_inv_keep: "keep s t \<Longrightarrow> file_inv s \<Longrightarrow> file_inv t"
  using keepD by (auto simp: file_inv_def)

lemma file_inv_moves:
  assumes "file_inv s" and "moves a f s t" and "moves (- a) f t u"
  shows "file_inv u"
  using assms by (auto simp: file_inv_def moves_def)

lemma argfd_ok: "argfd n s = Ok (Some (fd, f)) \<Longrightarrow> fd < NOFILE \<and> p_ofile (cur_proc s) fd = Some f"
proof -
  assume a: "argfd n s = Ok (Some (fd, f))"
  obtain r where r: "argint n s = Ok r" using a by (auto simp: argfd_def rbind_eq_Ok)
  show ?thesis
  proof (cases r)
    case None
    then show ?thesis using a r by (simp add: argfd_def)
  next
    case (Some i)
    then have i: "\<not> (i < 0 \<or> int NOFILE \<le> i)" using a r by (auto simp: argfd_def)
    then have "(case p_ofile (cur_proc s) (nat i) of None \<Rightarrow> Ok None | Some f \<Rightarrow> Ok (Some (nat i, f))) = Ok (Some (fd, f))"
      using a r Some by (simp add: argfd_def)
    then show ?thesis using i by (auto split: option.splits)
  qed
qed

lemma with_argD: "with_arg m s k = Ok (r, t) \<Longrightarrow> (r = Ret (-1) \<and> t = s) \<or> (\<exists>a. m = Ok (Some a) \<and> k a = Ok (r, t))"
  by (auto simp: with_arg_def rbind_eq_Ok split: option.splits)

lemma dup_refs:
  assumes "sys_dup s = Ok (r, t)" and "file_inv s" and "cur_ok s"
  shows "file_inv t"
proof -
  consider "t = s" | fd f where "argfd 0 s = Ok (Some (fd, f))"
      "(case fdalloc f s of (None, s) \<Rightarrow> Ok (Ret (-1), s) | (Some fd, s) \<Rightarrow> rbind (filedup f s) (\<lambda>s. Ok (Ret (int fd), s))) = Ok (r, t)"
    using with_argD[OF assms(1)[unfolded sys_dup_def]] by auto
  then show ?thesis
  proof cases
    case 1
    then show ?thesis using assms(2) by simp
  next
    case (2 fd f)
    obtain o1 u where u: "fdalloc f s = (o1, u)" by (cases "fdalloc f s")
    show ?thesis
    proof (cases o1)
      case None
      then show ?thesis using 2(2) u fdalloc_None[of f s u] assms(2) by simp
    next
      case (Some fd')
      then have "filedup f u = Ok t" using 2(2) u by (auto simp: rbind_eq_Ok)
      then show ?thesis
        using file_inv_moves[OF assms(2) moves_open(1)[OF u[unfolded Some]]] filedup_moves assms(3) by (simp add: cur_ok_def)
    qed
  qed
qed

lemma close_refs:
  assumes "sys_close s = Ok (r, t)" and "file_inv s" and "cur_ok s"
  shows "file_inv t"
proof -
  consider "t = s" | fd f where "argfd 0 s = Ok (Some (fd, f))"
      "fileclose f (upd_proc (cur s) (\<lambda>p. p\<lparr>p_ofile := (p_ofile p)(fd := None)\<rparr>) s) = Ok t"
    using with_argD[OF assms(1)[unfolded sys_close_def]] by (auto simp: rbind_eq_Ok)
  then show ?thesis
  proof cases
    case (2 fd f)
    have "moves 1 f s (upd_proc (cur s) (\<lambda>p. p\<lparr>p_ofile := (p_ofile p)(fd := None)\<rparr>) s)"
      using argfd_ok[OF 2(1)] assms(3) by (intro moves_close) (auto simp: cur_ok_def)
    then show ?thesis using file_inv_moves[OF assms(2) _ fileclose_moves[OF 2(2)]] by simp
  qed (use assms(2) in simp)
qed

text \<open>Several moves in a row.\<close>

definition shift :: "(nat \<Rightarrow> int) \<Rightarrow> kernel \<Rightarrow> kernel \<Rightarrow> bool" where
  "shift d s t \<longleftrightarrow> (\<forall>f. slack t f = slack s f + d f) \<and> (closed s \<longrightarrow> closed t) \<and> cur t = cur s \<and>
     (\<forall>p. dead (p_state (procs t p)) = dead (p_state (procs s p)))"

lemma moves_shift: "moves a f s t \<Longrightarrow> shift (\<lambda>g. if g = f then a else 0) s t"
  by (auto simp: moves_def shift_def)

lemma keep_shift: "keep s t \<Longrightarrow> shift (\<lambda>_. 0) s t"
  using keepD[of s t] by (auto simp: shift_def keep_def)

lemma shift_trans: "shift d s t \<Longrightarrow> shift e t u \<Longrightarrow> shift (\<lambda>g. d g + e g) s u"
  by (auto simp: shift_def)

lemma shift_cong: "shift d s t \<Longrightarrow> (\<And>g. d g = e g) \<Longrightarrow> shift e s t"
  by (simp add: shift_def)

lemma file_inv_shift: "shift d s t \<Longrightarrow> (\<And>g. d g = 0) \<Longrightarrow> file_inv s \<Longrightarrow> file_inv t"
  by (auto simp: shift_def file_inv_def)

lemma shift_cur: "shift d s t \<Longrightarrow> cur s < NPROC \<and> \<not> dead (p_state (cur_proc s)) \<Longrightarrow> cur t < NPROC \<and> \<not> dead (p_state (cur_proc t))"
  by (auto simp: shift_def)

lemma cur_ok_dead: "cur_ok s \<Longrightarrow> cur s < NPROC \<and> \<not> dead (p_state (cur_proc s))"
  by (simp add: cur_ok_def)

lemma pipealloc_shift:
  assumes "pipealloc s = Ok (r, t)"
  shows "case r of None \<Rightarrow> \<exists>d. shift d s t \<and> (\<forall>g. d g = 0)
    | Some (f0, f1) \<Rightarrow> shift (\<lambda>g. (if g = f0 then 1 else 0) + (if g = f1 then 1 else 0)) s t"
proof -
  obtain o0 a where a: "filealloc s = (o0, a)" by (cases "filealloc s")
  show ?thesis
  proof (cases o0)
    case None
    then show ?thesis using assms a filealloc_None[of s a] keep_shift[OF keep_refl] by (auto simp: pipealloc_def)
  next
    case f0: (Some f0)
    note m0 = moves_shift[OF filealloc_moves[OF a[unfolded f0]]]
    obtain o1 b where b: "filealloc a = (o1, b)" by (cases "filealloc a")
    show ?thesis
    proof (cases o1)
      case None
      then have "b = a" "fileclose f0 a = Ok t" "r = None" using assms a b f0 filealloc_None[of a b] by (auto simp: pipealloc_def rbind_eq_Ok)
      then show ?thesis using shift_trans[OF m0 moves_shift[OF fileclose_moves]] by fastforce
    next
      case f1: (Some f1)
      note m1 = shift_trans[OF m0 moves_shift[OF filealloc_moves[OF b[unfolded f1]]]]
      obtain p vm where p: "kalloc (kvm b) = (p, vm)" by (cases "kalloc (kvm b)")
      have kb: "keep b (b\<lparr>kvm := vm\<rparr>)" by (simp add: keep_def)
      note m2 = shift_trans[OF m1 keep_shift[OF kb]]
      show ?thesis
      proof (cases "p = 0")
        case True
        then obtain u where u: "fileclose f0 (b\<lparr>kvm := vm\<rparr>) = Ok u" "fileclose f1 u = Ok t" "r = None"
          using assms a b f0 f1 p by (auto simp: pipealloc_def rbind_eq_Ok)
        note m3 = shift_trans[OF shift_trans[OF m2 moves_shift[OF fileclose_moves[OF u(1)]]] moves_shift[OF fileclose_moves[OF u(2)]]]
        then show ?thesis using u(3) by auto
      next
        case False
        define c where "c = b\<lparr>kvm := vm, pipes := (pipes b)(p := pipe_init (\<lambda>k. mem vm (p + k)))\<rparr>"
        have "r = Some (f0, f1)" "t = upd_file f1 (\<lambda>x. x\<lparr>f_type := FD_PIPE, f_readable := False, f_writable := True, f_pipe := p\<rparr>)
           (upd_file f0 (\<lambda>x. x\<lparr>f_type := FD_PIPE, f_readable := True, f_writable := False, f_pipe := p\<rparr>) c)"
          using assms a b f0 f1 p False by (auto simp: pipealloc_def Let_def c_def)
        moreover have "keep b c" by (simp add: keep_def c_def)
        ultimately have "keep b t" using keep_trans keep_upd_file by (simp add: keep_def)
        then show ?thesis using shift_trans[OF m1 keep_shift] \<open>r = Some (f0, f1)\<close> by auto
      qed
    qed
  qed
qed

lemma pipe_refs:
  assumes "sys_pipe s = Ok (r, t)" and "file_inv s" and "cur_ok s"
  shows "file_inv t"
proof (cases "\<exists>fd. argptr 0 8 s = Ok (Some fd)")
  case False
  then have "t = s" using with_argD[OF assms(1)[unfolded sys_pipe_def]] by auto
  then show ?thesis using assms(2) by simp
next
  case True
  then obtain fd where fd: "argptr 0 8 s = Ok (Some fd)" by blast
  obtain q u where u: "pipealloc s = Ok (q, u)" using assms(1) fd by (auto simp: sys_pipe_def with_arg_def rbind_eq_Ok)
  note pa = pipealloc_shift[OF u]
  show ?thesis
  proof (cases q)
    case None
    then have "t = u" using assms(1) fd u by (auto simp: sys_pipe_def with_arg_def)
    then show ?thesis using pa None file_inv_shift assms(2) by auto
  next
    case (Some fs)
    obtain f0 f1 where fs: "fs = (f0, f1)" by (cases fs)
    have m: "shift (\<lambda>g. (if g = f0 then 1 else 0) + (if g = f1 then 1 else 0)) s u" using pa Some fs by simp
    define fail where "fail = (\<lambda>s. rbind (fileclose f0 s) (\<lambda>s. rbind (fileclose f1 s) (\<lambda>s. Ok (Ret (-1), s))))"
    have ff: "file_inv t" if fl: "fail v = Ok (r, t)" and sv: "shift (\<lambda>g. (if g = f0 then 1 else 0) + (if g = f1 then 1 else 0)) s v" for v
    proof -
      obtain w where w: "fileclose f0 v = Ok w" "fileclose f1 w = Ok t" using fl by (auto simp: fail_def rbind_eq_Ok)
      show ?thesis
        by (rule file_inv_shift[OF shift_trans[OF shift_trans[OF sv moves_shift[OF fileclose_moves[OF w(1)]]]
              moves_shift[OF fileclose_moves[OF w(2)]]] _ assms(2)]) auto
    qed
    have e: "(case fdalloc f0 u of
           (None, s) \<Rightarrow> fail s
         | (Some fd0, s) \<Rightarrow>
             case fdalloc f1 s of
               (None, s) \<Rightarrow> fail (upd_proc (cur s) (\<lambda>p. p\<lparr>p_ofile := (p_ofile p)(fd0 := None)\<rparr>) s)
             | (Some fd1, s) \<Rightarrow>
                 rbind (ustores fd (word_bytes fd0) s) (\<lambda>s.
                 rbind (ustores (fd + 4) (word_bytes fd1) s) (\<lambda>s.
                 Ok (Ret 0, s)))) = Ok (r, t)"
      using assms(1) unfolding sys_pipe_def with_arg_def fail_def Let_def by (simp add: fd u Some fs)
    obtain o0 a where a: "fdalloc f0 u = (o0, a)" by (cases "fdalloc f0 u")
    show ?thesis
    proof (cases o0)
      case None
      then show ?thesis using e a ff m fdalloc_None[of f0 u a] by auto
    next
      case (Some fd0)
      have cu: "cur u < NPROC" "\<not> dead (p_state (cur_proc u))" using shift_cur[OF m cur_ok_dead[OF assms(3)]] by auto
      note mo = moves_open[OF a[unfolded Some] cu]
      note ma = shift_trans[OF m moves_shift[OF mo(1)]]
      have ca: "cur a < NPROC" "\<not> dead (p_state (cur_proc a))" using shift_cur[OF ma cur_ok_dead[OF assms(3)]] by auto
      obtain o1 b where b: "fdalloc f1 a = (o1, b)" by (cases "fdalloc f1 a")
      show ?thesis
      proof (cases o1)
        case None
        let ?c = "upd_proc (cur a) (\<lambda>p. p\<lparr>p_ofile := (p_ofile p)(fd0 := None)\<rparr>) a"
        have "moves 1 f0 a ?c" by (rule moves_close[OF mo(3,2) ca])
        from shift_trans[OF ma moves_shift[OF this]]
        have mc: "shift (\<lambda>g. (if g = f0 then 1 else 0) + (if g = f1 then 1 else 0)) s ?c" by (rule shift_cong) simp
        have "fail ?c = Ok (r, t)" using e a b \<open>o0 = Some fd0\<close> None fdalloc_None[of f1 a b] by simp
        then show ?thesis using ff mc by blast
      next
        case s1: (Some fd1)
        note mb = shift_trans[OF ma moves_shift[OF moves_open(1)[OF b[unfolded s1] ca]]]
        obtain x where x: "ustores fd (word_bytes fd0) b = Ok x" "ustores (fd + 4) (word_bytes fd1) x = Ok t"
          using e a b \<open>o0 = Some fd0\<close> s1 by (auto simp: rbind_eq_Ok)
        have "keep b t" using keep_ustores[OF x(1)] keep_ustores[OF x(2)] keep_trans by blast
        then show ?thesis by (intro file_inv_shift[OF shift_trans[OF mb keep_shift] _ assms(2)]) auto
      qed
    qed
  qed
qed

lemma keep_fail_op: "fail_op ip s = Ok (r, t) \<Longrightarrow> keep s t"
  by (auto simp: fail_op_def rbind_eq_Ok dest!: keep_machine(1) intro: keep_trans)

lemma open_refs:
  assumes "sys_open devsw s = Ok (r, t)" and "file_inv s" and "cur_ok s"
  shows "file_inv t"
proof (cases "\<exists>path omode. argstr 0 s = Ok (Some path) \<and> argint 1 s = Ok (Some omode)")
  case False
  then have "t = s" using with_argD[OF assms(1)[unfolded sys_open_def]] by (auto dest!: with_argD)
  then show ?thesis using assms(2) by simp
next
  case True
  then obtain path omode where args: "argstr 0 s = Ok (Some path)" "argint 1 s = Ok (Some omode)" by blast
  obtain cwd where cwd: "p_cwd (cur_proc s) = Some cwd"
    using assms(1) args by (auto simp: sys_open_def with_arg_def with_cwd_def split: option.splits)
  obtain a where a: "do_fs begin_op s = Ok a" using assms(1) args cwd by (auto simp: sys_open_def with_arg_def with_cwd_def rbind_eq_Ok)
  obtain q b where b: "on_fs (open_inode devsw cwd path omode) a = Ok (q, b)"
    using assms(1) args cwd a by (auto simp: sys_open_def with_arg_def with_cwd_def rbind_eq_Ok)
  have kb: "keep s b" using keep_machine(1)[OF a] keep_machine(3)[OF b] keep_trans by blast
  show ?thesis
  proof (cases q)
    case None
    then have "do_fs end_op b = Ok t" using assms(1) args cwd a b by (auto simp: sys_open_def with_arg_def with_cwd_def rbind_eq_Ok)
    then show ?thesis using kb keep_machine(1) keep_trans file_inv_keep assms(2) by blast
  next
    case (Some ip)
    have e: "(case filealloc b of
           (None, s) \<Rightarrow> fail_op ip s
         | (Some f, s) \<Rightarrow>
             case fdalloc f s of
               (None, s) \<Rightarrow> rbind (fileclose f s) (fail_op ip)
             | (Some fd, s) \<Rightarrow>
                 rbind (do_fs (iunlock ip) s) (\<lambda>s.
                 rbind (do_fs end_op s) (\<lambda>s.
                 Ok (Ret (int fd), upd_file f (\<lambda>x. x\<lparr>f_type := FD_INODE, f_ip := ip, f_off := 0,
                   f_readable := (omode AND O_WRONLY = 0),
                   f_writable := (omode AND O_WRONLY \<noteq> 0 \<or> omode AND O_RDWR \<noteq> 0)\<rparr>) s)))) = Ok (r, t)"
      using assms(1) unfolding sys_open_def with_arg_def with_cwd_def by (simp add: args cwd a b Some del: One_nat_def)
    obtain o1 c where c: "filealloc b = (o1, c)" by (cases "filealloc b")
    show ?thesis
    proof (cases o1)
      case None
      then have "fail_op ip b = Ok (r, t)" using e c filealloc_None[of b c] by simp
      then show ?thesis using kb keep_fail_op keep_trans file_inv_keep assms(2) by blast
    next
      case f: (Some f)
      note mc = shift_trans[OF keep_shift[OF kb] moves_shift[OF filealloc_moves[OF c[unfolded f]]]]
      have cc: "cur c < NPROC" "\<not> dead (p_state (cur_proc c))" using shift_cur[OF mc cur_ok_dead[OF assms(3)]] by auto
      obtain o2 d where d: "fdalloc f c = (o2, d)" by (cases "fdalloc f c")
      show ?thesis
      proof (cases o2)
        case None
        then obtain x where x: "fileclose f c = Ok x" "fail_op ip x = Ok (r, t)"
          using e c f d fdalloc_None[of f c d] by (auto simp: rbind_eq_Ok)
        show ?thesis
          by (rule file_inv_shift[OF shift_trans[OF shift_trans[OF mc moves_shift[OF fileclose_moves[OF x(1)]]]
                keep_shift[OF keep_fail_op[OF x(2)]]] _ assms(2)]) auto
      next
        case fd: (Some fd)
        note md = shift_trans[OF mc moves_shift[OF moves_open(1)[OF d[unfolded fd] cc]]]
        obtain x y where x: "do_fs (iunlock ip) d = Ok x" "do_fs end_op x = Ok y"
          and t: "t = upd_file f (\<lambda>x. x\<lparr>f_type := FD_INODE, f_ip := ip, f_off := 0, f_readable := (omode AND O_WRONLY = 0),
                   f_writable := (omode AND O_WRONLY \<noteq> 0 \<or> omode AND O_RDWR \<noteq> 0)\<rparr>) y"
          using e c f d fd by (auto simp: rbind_eq_Ok)
        have "keep y t" unfolding t by (rule keep_upd_file) simp
        then have "keep d t" using keep_machine(1)[OF x(1)] keep_machine(1)[OF x(2)] keep_trans by blast
        then show ?thesis by (intro file_inv_shift[OF shift_trans[OF md keep_shift] _ assms(2)]) auto
      qed
    qed
  qed
qed

text \<open>\<open>exit\<close> closes every descriptor, so that a zombie has none.\<close>

lemma close_files_shift:
  assumes "rfold (close_files (cur s)) fds s = Ok t" and "cur s < NPROC" and "\<not> dead (p_state (cur_proc s))" and "set fds \<subseteq> {..<NOFILE}"
  shows "shift (\<lambda>_. 0) s t \<and> (\<forall>fd. (fd \<in> set fds \<longrightarrow> p_ofile (cur_proc t) fd = None) \<and> (p_ofile (cur_proc s) fd = None \<longrightarrow> p_ofile (cur_proc t) fd = None))"
  using assms
proof (induction fds arbitrary: s)
  case Nil
  then show ?case using keep_shift[OF keep_refl] by simp
next
  case (Cons fd fds)
  obtain u where u: "close_files (cur s) fd s = Ok u" "rfold (close_files (cur s)) fds u = Ok t" using Cons.prems(1) by (auto simp: rbind_eq_Ok)
  have su: "shift (\<lambda>_. 0) s u \<and> p_ofile (cur_proc u) fd = None \<and> (\<forall>x. p_ofile (cur_proc s) x = None \<longrightarrow> p_ofile (cur_proc u) x = None)"
  proof (cases "p_ofile (cur_proc s) fd")
    case None
    then show ?thesis using u(1) keep_shift[OF keep_refl] by (simp add: close_files_def)
  next
    case (Some f)
    then obtain v where v: "fileclose f s = Ok v" "u = upd_proc (cur s) (\<lambda>x. x\<lparr>p_ofile := (p_ofile x)(fd := None)\<rparr>) v"
      using u(1) by (auto simp: close_files_def rbind_eq_Ok)
    note mv = fileclose_moves[OF v(1)]
    have of': "p_ofile (procs v p) = p_ofile (procs s p)" for p using fileclose_ofile[OF v(1)] by simp
    have cv: "cur v = cur s" "cur v < NPROC" "\<not> dead (p_state (cur_proc v))" using mv Cons.prems(2,3) by (auto simp: moves_def)
    have "moves 1 f v u" using moves_close[of v fd f] Some Cons.prems(4) cv of' by (simp add: v(2))
    from shift_trans[OF moves_shift[OF mv] moves_shift[OF this]] have "shift (\<lambda>_. 0) s u" by (rule shift_cong) simp
    then show ?thesis using of' cv(1) by (auto simp: v(2))
  qed
  have cu: "cur u = cur s" using su by (simp add: shift_def)
  have "shift (\<lambda>_. 0) u t \<and> (\<forall>fd. (fd \<in> set fds \<longrightarrow> p_ofile (cur_proc t) fd = None) \<and> (p_ofile (cur_proc u) fd = None \<longrightarrow> p_ofile (cur_proc t) fd = None))"
    using u(2) shift_cur[of "\<lambda>_. 0" s u] su Cons.prems(2-4) by (intro Cons.IH) (auto simp: cu)
  then show ?case using su shift_trans[of "\<lambda>_. 0" s u "\<lambda>_. 0" t] by auto
qed

lemma keep_wake_proc: "keep s (wake_proc p s)"
  by (simp add: keep_def wake_proc_def wakeup1_def split: option.split)

lemma keep_reparent: "keep s (fold (reparent c) ps s)"
proof (induction ps arbitrary: s)
  case (Cons p ps)
  have "keep s (reparent c p s)"
  proof (cases "p_parent (procs s p) = Some c")
    case True
    let ?s = "upd_proc p (\<lambda>x. x\<lparr>p_parent := initproc s\<rparr>) s"
    have "keep s ?s" by (rule keep_upd_proc) simp_all
    then show ?thesis using True keep_trans[OF _ keep_wake_proc] by (simp add: reparent_def Let_def)
  qed (simp add: reparent_def keep_refl)
  from keep_trans[OF this Cons.IH] show ?case by simp
qed (simp add: keep_refl)

lemma exit_refs:
  assumes "exit s = Ok t" and "file_inv s" and "cur_ok s"
  shows "file_inv t"
proof -
  let ?c = "cur s"
  have ni: "Some ?c \<noteq> initproc s" using assms(1) by (auto simp: exit_def Let_def)
  obtain u where u: "rfold (close_files ?c) [0..<NOFILE] s = Ok u"
    using assms(1) ni by (auto simp: exit_def Let_def rbind_eq_Ok)
  obtain v ip where v: "do_fs begin_op u = Ok v" "p_cwd (procs v ?c) = Some ip"
    using assms(1) ni u by (auto simp: exit_def Let_def rbind_eq_Ok split: option.splits)
  obtain w x where w: "do_fs (iput ip) v = Ok w" "do_fs end_op w = Ok x"
    using assms(1) ni u v by (auto simp: exit_def Let_def rbind_eq_Ok)
  define y where "y = upd_proc ?c (\<lambda>x. x\<lparr>p_cwd := None\<rparr>) x"
  define z where "z = fold (reparent ?c) [0..<NPROC] (wake_proc (p_parent (procs y ?c)) y)"
  have t: "sched True 1 False (upd_proc ?c (\<lambda>x. x\<lparr>p_state := ZOMBIE\<rparr>) z) = Ok t"
    using assms(1) ni u v w by (auto simp: exit_def Let_def y_def z_def)
  have cs: "?c < NPROC" "\<not> dead (p_state (cur_proc s))" using cur_ok_dead[OF assms(3)] by auto
  have "set [0..<NOFILE] \<subseteq> {..<NOFILE}" by auto
  note cf = close_files_shift[OF u cs this]
  have "keep x y" unfolding y_def by (rule keep_upd_proc) simp_all
  moreover have "keep y z" unfolding z_def using keep_wake_proc keep_reparent keep_trans by blast
  ultimately have kz: "keep u z" using keep_machine(1)[OF v(1)] keep_machine(1)[OF w(1)] keep_machine(1)[OF w(2)] keep_trans by blast
  have iu: "file_inv u" using cf file_inv_shift assms(2) by blast
  then have iz: "file_inv z" using kz file_inv_keep by blast
  have cz: "cur z = ?c" using cf kz by (simp add: shift_def keep_def)
  have no: "p_ofile (procs z ?c) fd = None" if "fd < NOFILE" for fd
    using cf kz that by (auto simp: keep_def shift_def)
  let ?a = "upd_proc ?c (\<lambda>x. x\<lparr>p_state := ZOMBIE\<rparr>) z"
  have "slack ?a f = slack z f" for f using refs_cong[of ?a z f] by (simp add: slack_def)
  moreover have "closed ?a" using iz no by (auto simp: file_inv_def closed_def)
  ultimately have "file_inv ?a" using iz by (simp add: file_inv_def)
  then show ?thesis using keep_sched[OF t] file_inv_keep by blast
qed

lemma sum_list_fds: "(\<Sum>fd\<leftarrow>[0..<NOFILE]. of_bool (of' fd = Some f)) = fds_of of' f"
  unfolding fds_of_def by (simp add: interv_sum_list_conv_sum_set_nat lessThan_atLeast0)

lemma fork_refs:
  assumes "fork s = Ok (r, t)" and "file_inv s" and "cur_ok s"
  shows "file_inv t"
proof -
  have un: "p_state (procs s (cur s)) \<noteq> UNUSED" using assms(3) by (simp add: cur_ok_def)
  note F = fork_procs[OF assms(1) un]
  from F consider "procs t = procs s" "ftable t = ftable s"
    | np x where "procs t = (procs s)(np := x)" "p_state (procs s np) = UNUSED" "p_state x = UNUSED" "p_ofile x = p_ofile (procs s np)" "ftable t = ftable s"
    | np x where "np < NPROC" "p_state (procs s np) = UNUSED" "procs t = (procs s)(np := x)" "forked s np x"
        "\<forall>f. f_ref (ftable t f) = f_ref (ftable s f) + (\<Sum>fd\<leftarrow>[0..<NOFILE]. of_bool (p_ofile (procs s (cur s)) fd = Some f))"
    by (elim conjE disjE exE) auto
  then show ?thesis
  proof cases
    case 1
    then have "keep s t" using F by (simp add: keep_def)
    then show ?thesis using file_inv_keep assms(2) by blast
  next
    case (2 np x)
    then have "keep s t" using F by (simp add: keep_def)
    then show ?thesis using file_inv_keep assms(2) by blast
  next
    case (3 np x)
    have cl: "closed s" using assms(2) by (simp add: file_inv_def)
    then have no: "p_ofile (procs s np) fd = None" if "fd < NOFILE" for fd using 3(1,2) that by (auto simp: closed_def)
    have x: "p_ofile x = copy_fds {0..<NOFILE} (p_ofile (cur_proc s)) (p_ofile (procs s np))" "p_state x = RUNNABLE"
      using 3(4) by (simp_all add: forked_def Let_def)
    have "fds_of (p_ofile (procs s np)) f = 0" "fds_of (p_ofile x) f = fds_of (p_ofile (cur_proc s)) f" for f
      unfolding fds_of_def x(1) using no
      by (auto simp: copy_fds_def simp del: sum_of_bool_eq split: option.split intro!: sum.cong)
    then have "slack t f = slack s f" for f
      using refs_upd[OF 3(1,3)] 3(5) by (simp add: slack_def sum_list_fds)
    moreover have "closed t" using cl x(2) by (auto simp: closed_def 3(3))
    ultimately show ?thesis using assms(2) by (simp add: file_inv_def)
  qed
qed

lemma wait_refs:
  assumes "wait s = Ok (r, t)" and "file_inv s" and "cur_ok s"
  shows "file_inv t"
proof (cases "find (\<lambda>p. p_parent (procs s p) = Some (cur s) \<and> p_state (procs s p) = ZOMBIE) [0..<NPROC]")
  case None
  then have "t = s \<or> sleep (ChanProc (cur s)) True s = Ok t"
    using assms(1) by (auto simp: wait_def rbind_eq_Ok split: if_splits)
  then have "keep s t" using keep_sleep assms(3) keep_refl by (auto simp: cur_ok_def)
  then show ?thesis using file_inv_keep assms(2) by blast
next
  case (Some p)
  then have z: "p_state (procs s p) = ZOMBIE" using find_Some_in_set[OF Some] by auto
  obtain pd where rp: "reap p s = Ok (pd, t)" using assms(1) Some by (auto simp: wait_def rbind_eq_Ok)
  have "keep s t" using rp z by (auto simp: reap_def Let_def rbind_eq_Ok do_vm_Ok keep_def split: if_splits)
  then show ?thesis using file_inv_keep assms(2) by blast
qed

section \<open>The calls that move no reference\<close>

text \<open>\<open>keeps s m\<close>: whatever \<open>m\<close> returns, its state keeps the references of \<open>s\<close>.\<close>

definition keeps :: "kernel \<Rightarrow> ('a \<times> kernel) res \<Rightarrow> bool" where
  "keeps s m \<longleftrightarrow> (\<forall>r t. m = Ok (r, t) \<longrightarrow> keep s t)"

definition keeps1 :: "kernel \<Rightarrow> kernel res \<Rightarrow> bool" where
  "keeps1 s m \<longleftrightarrow> (\<forall>t. m = Ok t \<longrightarrow> keep s t)"

lemma keeps_simps [simp]:
  "keeps s (Ok rt) \<longleftrightarrow> keep s (snd rt)" "keeps s (Panic e)" "keeps s (Fault e)"
  "keeps1 s (Ok t) \<longleftrightarrow> keep s t" "keeps1 s (Panic e)" "keeps1 s (Fault e)"
  by (cases rt; auto simp: keeps_def keeps1_def)+

lemma keeps_bind:
  "keeps1 s m \<Longrightarrow> (\<And>u. keep s u \<Longrightarrow> keeps s (f u)) \<Longrightarrow> keeps s (rbind m f)"
  "keeps s m' \<Longrightarrow> (\<And>r u. keep s u \<Longrightarrow> keeps s (g (r, u))) \<Longrightarrow> keeps s (rbind m' g)"
  "keeps1 s m \<Longrightarrow> (\<And>u. keep s u \<Longrightarrow> keeps1 s (h u)) \<Longrightarrow> keeps1 s (rbind m h)"
  "(\<And>v. n = Ok v \<Longrightarrow> keeps s (k v)) \<Longrightarrow> keeps s (rbind n k)"
  by (auto simp: keeps_def keeps1_def rbind_eq_Ok)

lemma keeps_machine:
  "keep s u \<Longrightarrow> keeps1 s (do_fs g u)" "keep s u \<Longrightarrow> keeps1 s (do_vm h u)"
  "keep s u \<Longrightarrow> keeps s (on_fs g' u)" "keep s u \<Longrightarrow> keeps s (on_vm h' u)" "keep s u \<Longrightarrow> keeps1 s (ustores a bs u)"
  unfolding keeps_def keeps1_def by (blast intro: keep_machine keep_ustores keep_trans)+

lemma keeps_with:
  "keep s u \<Longrightarrow> (\<And>a. m = Ok (Some a) \<Longrightarrow> keeps s (k a)) \<Longrightarrow> keeps s (with_arg m u k)"
  "(\<And>a. keeps s (k' a)) \<Longrightarrow> keeps s (with_cwd u k')"
  by (auto simp: keeps_def with_arg_def with_cwd_def rbind_eq_Ok split: option.splits)

lemma keeps_fetch:
  "(\<And>v. keeps s (k v)) \<Longrightarrow> keeps s (rbind (argstr i u) k)"
  "(\<And>w. keeps s (k' w)) \<Longrightarrow> keeps s (rbind (argint i u) k')"
  "(\<And>bs. keeps s (k'' bs)) \<Longrightarrow> keeps s (rbind (uloads u a n) k'')"
  by (auto intro: keeps_bind(4))

lemma keep_from_file: "keep s u \<Longrightarrow> (\<And>x. f_ref (g x) = f_ref x) \<Longrightarrow> keep s (upd_file f g u)"
  using keep_upd_file keep_trans by blast

lemmas keeps_rules = keeps_bind(1-3) keeps_fetch keeps_machine keeps_with keep_refl keep_from_file

lemma fileread_keeps:
  assumes "p_state (cur_proc s) = RUNNING"
  shows "keeps s (fileread devsw f n s)"
proof -
  have "keeps s (piperead_k p n s)" for p
  proof -
    obtain r q where rq: "piperead (p_killed (cur_proc s)) n (pipes s p) = (r, q)" by fastforce
    have sl: "keeps1 s (sleep c lk (s\<lparr>pipes := P\<rparr>))" for c lk P
      using keep_sleep[of c lk "s\<lparr>pipes := P\<rparr>"] keep_pipes[of s P] keep_trans assms by (auto simp: keeps1_def)
    show ?thesis using keep_pipes keep_wakeup keep_trans unfolding piperead_k_def rq Let_def
      by (auto intro!: keeps_bind(1)[OF sl] split: rd.split) blast
  qed
  then show ?thesis unfolding fileread_def Let_def
    by (auto intro!: keeps_rules split del: if_split split: if_splits)
qed

lemma filewrite_loop_keeps: "keep s u \<Longrightarrow> keeps s (filewrite_loop devsw f bs u)"
proof (induction "length bs" arbitrary: bs u rule: less_induct)
  case less
  have "length (drop (min (length bs) FILE_MAX) bs) < length bs" if "bs \<noteq> []"
    using that by (simp add: FILE_MAX_def MAXOPBLOCKS_def)
  then show ?case using less.prems
    by (subst filewrite_loop.simps) (auto simp: Let_def intro!: keeps_rules less.hyps)
qed

lemma filewrite_keeps:
  assumes "p_state (cur_proc s) = RUNNING"
  shows "keeps s (filewrite devsw f bs s)"
proof -
  have "keeps s (pipewrite_k p bs s)" for p
  proof -
    obtain r q where rq: "pipewrite (p_killed (cur_proc s)) bs (pipes s p) = (r, q)" by fastforce
    have kw: "keep s (wakeup c (s\<lparr>pipes := P\<rparr>))" for c P using keep_pipes keep_wakeup keep_trans by blast
    have sl: "keeps1 s (sleep c lk (wakeup d (s\<lparr>pipes := P\<rparr>)))" for c lk d P
      using keep_sleep[of c lk "wakeup d (s\<lparr>pipes := P\<rparr>)"] kw[of d P] keep_trans assms
      by (auto simp: keeps1_def wakeup_def wakeup1_def)
    show ?thesis using keep_pipes kw unfolding pipewrite_k_def rq Let_def
      by (auto intro!: keeps_bind(1)[OF sl] split: wr.split)
  qed
  then show ?thesis unfolding filewrite_def Let_def
    by (auto intro!: keeps_rules filewrite_loop_keeps)
qed

lemma file_inv_keeps: "keeps s m \<Longrightarrow> m = Ok (r, t) \<Longrightarrow> file_inv s \<Longrightarrow> file_inv t"
  using file_inv_keep by (auto simp: keeps_def)

lemma fs_calls_keep:
  "keeps s (sys_link devsw s)" "keeps s (sys_unlink devsw s)" "keeps s (sys_mkdir devsw s)"
  "keeps s (sys_mknod devsw s)" "keeps s (sys_chdir devsw s)" "keeps s (sys_fstat s)"
proof -
  have op: "keep s u \<Longrightarrow> keeps s (in_op f u)" for f u
    unfolding in_op_def by (intro keeps_rules) (auto intro: keeps_rules)
  show "keeps s (sys_link devsw s)" "keeps s (sys_unlink devsw s)"
    unfolding sys_link_def sys_unlink_def by (intro keeps_rules op)+
  show "keeps s (sys_mkdir devsw s)"
    unfolding sys_mkdir_def by (auto intro!: keeps_rules split: option.split)
  show "keeps s (sys_mknod devsw s)"
    unfolding sys_mknod_def Let_def by (auto intro!: keeps_rules split: option.split)
  have fail: "keep s u \<Longrightarrow> keeps s (fail_op ip u)" for ip u
    unfolding fail_op_def by (auto intro!: keeps_rules)
  have cwd: "keep s u \<Longrightarrow> keep s (upd_proc p (\<lambda>p. p\<lparr>p_cwd := c\<rparr>) u)" for u p c
    using keep_upd_proc[of "\<lambda>p. p\<lparr>p_cwd := c\<rparr>" u p] keep_trans by simp
  show "keeps s (sys_chdir devsw s)"
    unfolding sys_chdir_def by (auto intro!: keeps_rules fail cwd split: option.split)
  show "keeps s (sys_fstat s)"
    unfolding sys_fstat_def filestat_def ustore_stat_def Let_def
    by (auto intro!: keeps_rules split: option.split)
qed

lemma read_write_keep:
  assumes "p_state (cur_proc s) = RUNNING"
  shows "keeps s (sys_read devsw s)" "keeps s (sys_write devsw s)"
  unfolding sys_read_def sys_write_def using assms
  by (auto intro!: keeps_rules fileread_keeps filewrite_keeps)

lemma proc_calls_keep:
  assumes "p_state (cur_proc s) = RUNNING"
  shows "keeps s (sys_kill s)" "keeps s (sys_getpid s)" "keeps s (sys_sbrk s)" "keeps s (sys_sleep s)" "keeps s (sys_uptime s)"
proof -
  show "keeps s (sys_kill s)"
    unfolding sys_kill_def ret_def kill_def by (auto intro!: keeps_with keep_upd_proc keep_refl simp: Let_def split: option.split if_splits)
  have "keeps s (growproc n s)" for n
    unfolding keeps_def
  proof (intro allI impI)
    fix r t
    assume "growproc n s = Ok (r, t)"
    from growproc_procs[OF this] show "keep s t" by (auto simp: keep_def split: if_splits)
  qed
  then show "keeps s (sys_sbrk s)"
    unfolding sys_sbrk_def Let_def by (auto intro!: keeps_rules)
  have "keeps1 s (sleep c lk s)" for c lk using keep_sleep assms by (auto simp: keeps1_def)
  then show "keeps s (sys_sleep s)"
    unfolding sys_sleep_def sys_sleep_loop_def by (auto intro!: keeps_rules)
qed (simp_all add: sys_getpid_def sys_uptime_def keep_refl)

lemma exec_refs:
  assumes "sys_exec devsw s = Ok (r, t)" and "file_inv s"
  shows "file_inv t"
proof -
  consider "t = s" | path argv v where "exec devsw path argv s = Ok (v, t)"
    using assms(1) by (auto simp: sys_exec_def ret_def rbind_eq_Ok dest!: with_argD)
  then show ?thesis
  proof cases
    case 2
    have "(\<forall>p. p_ofile (procs t p) = p_ofile (procs s p) \<and> p_state (procs t p) = p_state (procs s p)) \<and> ftable t = ftable s"
      using exec_outcome[OF 2] by (auto simp: tab_same_def execd_def)
    then have "slack t = slack s" "closed t = closed s" using refs_cong[of t s] by (auto simp: slack_def closed_def fun_eq_iff)
    then show ?thesis using assms(2) by (simp add: file_inv_def)
  qed (use assms in simp)
qed

lemma syscall_refs:
  assumes "syscall devsw s = Ok (r, t)" and inv: "file_inv s" and ok: "cur_ok s"
  shows "file_inv t"
proof -
  have run: "p_state (cur_proc s) = RUNNING" using ok by (simp add: cur_ok_def)
  have eax: "keep u (set_eax v u)" for u v unfolding set_eax_def by (rule keep_upd_proc) simp_all
  consider "t = set_eax (-1) s"
    | num f u where "syscalls devsw num = Some f" "f s = Ok (r, u)" "t = u \<or> (\<exists>v. t = set_eax v u)"
    using assms(1) unfolding syscall_def Let_def
    by (auto simp: rbind_eq_Ok split: option.splits if_splits io.splits)
  then show ?thesis
  proof cases
    case 1
    then show ?thesis using file_inv_keep[OF eax] inv by simp
  next
    case (2 num f u)
    note syscalls_range[OF 2(1)]
    moreover have "file_inv u" if "keeps s (f s)" using file_inv_keeps[OF that 2(2)] inv by simp
    moreover have "file_inv u" if "f = sys_fork \<or> f = sys_exit \<or> f = sys_wait"
      using that 2(2) fork_refs exit_refs wait_refs inv ok
      by (auto simp: sys_fork_def sys_exit_def sys_wait_def ret_def rbind_eq_Ok)
    moreover have "file_inv u" if "f = sys_pipe \<or> f = sys_exec devsw \<or> f = sys_dup \<or> f = sys_open devsw \<or> f = sys_close"
      using that 2(2) pipe_refs exec_refs dup_refs open_refs close_refs inv ok by blast
    ultimately have "file_inv u"
      using fs_calls_keep read_write_keep[OF run] proc_calls_keep[OF run] by blast
    then show ?thesis using 2(3) file_inv_keep[OF eax] by blast
  qed
qed

text \<open>C3. The reference counts of the open-file table are exact.  If the count of every entry of the table is
  the number of descriptors that name it, over all processes, and a process slot that is free or a zombie has
  no descriptor open, then both hold after every system call that returns or goes to sleep: \<open>dup\<close>, \<open>open\<close>,
  \<open>pipe\<close>, \<open>close\<close>, \<open>fork\<close>, \<open>exit\<close> and \<open>wait\<close> move the counts with the descriptors on every path, the ones that
  give up included, and no other call touches either.  So an entry a descriptor names is never free for \<open>filealloc\<close>.\<close>

theorem file_refs_exact:
  assumes "file_inv s" and "cur s < NPROC" and "p_state (cur_proc s) = RUNNING" and "syscall devsw s = Ok (r, t)"
  shows "(\<forall>f. f_ref (ftable t f) = refs t f) \<and> closed t \<and>
    (\<forall>p fd f. p < NPROC \<and> fd < NOFILE \<and> p_ofile (procs t p) fd = Some f \<longrightarrow> 1 \<le> f_ref (ftable t f))"
proof -
  have t: "file_inv t" using syscall_refs[OF assms(4,1)] assms(2,3) by (simp add: cur_ok_def)
  then have r: "f_ref (ftable t f) = refs t f" for f by (simp add: file_inv_def slack_def)
  then show ?thesis using refs_pos t by (auto simp: file_inv_def)
qed

definition sample_dup :: kernel where
  "sample_dup = sample_user\<lparr>ftable := (ftable sample_user)(0 := (ftable sample_user 0)\<lparr>f_ref := 1\<rparr>),
     procs := (procs sample_user)(1 := (procs sample_user 1)\<lparr>p_ofile := (\<lambda>_. None)(0 := Some 0),
       p_tf := zero_tf\<lparr>tf_eax := 10, tf_esp := 0\<rparr>\<rparr>)\<rparr>"

lemma sample_dup_inv: "file_inv sample_dup"
proof -
  have none: "fds_of (\<lambda>_. None) f = 0" for f by (simp add: fds_of_def)
  have "fds_of ((\<lambda>_. None)(0 := Some 0)) f = of_bool (f = 0)" for f by (subst fds_of_upd) (auto simp: none NOFILE_def)
  then have "(\<Sum>p<NPROC. fds_of (p_ofile (procs sample_dup p)) f) = (\<Sum>p<NPROC. of_bool (p = 1 \<and> f = 0))" for f
    by (intro sum.cong) (auto simp: sample_dup_def sample_user_def none)
  also have "(\<Sum>p<NPROC. of_bool (p = 1 \<and> f = 0)) = (of_bool (f = 0) :: int)" for f :: nat
    by (cases "f = 0") (simp_all add: NPROC_def)
  finally have "refs sample_dup f = of_bool (f = 0)" for f by (simp add: refs_def)
  moreover have "f_ref (ftable sample_dup f) = of_bool (f = 0)" for f
    by (simp add: sample_dup_def sample_user_def sample_kernel_def)
  moreover have "closed sample_dup"
    by (auto simp: closed_def sample_dup_def sample_user_def)
  ultimately show ?thesis by (simp add: file_inv_def slack_def)
qed

lemma sample_dup_call: "\<exists>t. syscall no_dev sample_dup = Ok (Ret 1, t) \<and> f_ref (ftable t 0) = 2"
proof -
  let ?m = "mem demo_user"
  have m: "mem (kvm sample_dup) = ?m" "p_pgdir (cur_proc sample_dup) = 0x80110000" "p_sz (cur_proc sample_dup) = 4096"
    by (simp_all add: sample_dup_def sample_user_def)
  have e: "get32 ?m 0x80110000 = 0x111007" using demo_user_pde[of 0] by (simp add: pde_def)
  have e2: "get32 ?m 0x80111000 = 0x112007" by (simp add: demo_user_def)
  have u: "uload sample_dup va = Ok 0" if "va \<in> {4, 5, 6, 7}" for va
  proof -
    have x: "PDX va = 0" "PTX va = 0" "va mod PGSIZE = va" using that by (auto simp: PDX_def PTX_def PGSIZE_def)
    have w: "fst (walkpgdir 0x80110000 va False (kvm sample_dup)) = 0x80111000"
      unfolding walkpgdir_def Let_def x m by (simp add: e PTE_P_def PTE_ADDR_def P2V_def KERNBASE_def)
    have "user_addr sample_dup va = Some (0x80112000 + va)"
      by (simp add: user_addr_def w m Let_def e2 PTE_P_def PTE_ADDR_def P2V_def KERNBASE_def x)
    moreover have "?m (0x80112000 + va) = 0" using that by (auto simp: demo_user_def put32_def)
    ultimately show ?thesis by (simp add: uload_def m)
  qed
  have "uloads sample_dup 4 4 = Ok [0, 0, 0, 0]"
    by (simp add: numeral_eq_Suc u[simplified numeral_eq_Suc] res_simps)
  moreover have tf: "tf_esp (p_tf (cur_proc sample_dup)) = 0" "tf_eax (p_tf (cur_proc sample_dup)) = 10"
    by (simp_all add: sample_dup_def sample_user_def zero_tf_def)
  ultimately have a: "argint 0 sample_dup = Ok (Some 0)"
    by (simp add: argint_def fetchint_def m bytes32_def int32_def get32_def)
  have o: "p_ofile (cur_proc sample_dup) = (\<lambda>_. None)(0 := Some 0)" "f_ref (ftable sample_dup 0) = 1"
    by (simp_all add: sample_dup_def sample_user_def)
  have d: "fdalloc 0 sample_dup = (Some 1, upd_proc (cur sample_dup) (\<lambda>p. p\<lparr>p_ofile := (p_ofile p)(1 := Some 0)\<rparr>) sample_dup)"
    by (simp add: fdalloc_def o NOFILE_def upt_rec)
  have "\<exists>t. sys_dup sample_dup = Ok (Ret 1, t) \<and> f_ref (ftable t 0) = 2"
    by (simp add: sys_dup_def with_arg_def argfd_def a o d filedup_def NOFILE_def)
  moreover have "(if 0 < int32 10 then syscalls no_dev (nat (int32 10)) else None) = Some sys_dup"
    by (simp add: int32_def syscalls_def consts_defs)
  ultimately show ?thesis by (auto simp: syscall_def tf set_eax_def)
qed

theorem file_refs_exact_witness:
  "\<exists>t. syscall no_dev sample_dup = Ok (Ret 1, t) \<and> f_ref (ftable t 0) = 2 \<and> refs t 0 = 2"
proof -
  obtain t where t: "syscall no_dev sample_dup = Ok (Ret 1, t)" "f_ref (ftable t 0) = 2" using sample_dup_call by blast
  have "cur sample_dup < NPROC" "p_state (cur_proc sample_dup) = RUNNING" by (simp_all add: sample_dup_def sample_user_def NPROC_def)
  from file_refs_exact[OF sample_dup_inv this t(1)] show ?thesis using t by metis
qed

end
