(* ===== verification/Grep.thy ===== *)
theory Grep
  imports Prelude
begin

text \<open>
  The program \<open>grep\<close> (grep.c): the matcher of regular expressions, equal to the language an expression
  denotes, and the loop that cuts its input into lines through a buffer of 1024 bytes.  A C string is
  the list of its characters without the zero byte at its end.
\<close>

section \<open>The matcher\<close>

text \<open>42 is \<open>*\<close>, 46 is \<open>.\<close>, 36 is \<open>$\<close>, 94 is \<open>^\<close>, 10 is the newline.\<close>

function matchhere :: "byte list \<Rightarrow> byte list \<Rightarrow> bool" and matchstar :: "byte \<Rightarrow> byte list \<Rightarrow> byte list \<Rightarrow> bool" where
  "matchhere re tx =
     (if re = [] then True
      else if 2 \<le> length re \<and> re ! 1 = 42 then matchstar (re ! 0) (drop 2 re) tx
      else if re ! 0 = 36 \<and> length re = 1 then tx = []
      else if tx \<noteq> [] \<and> (re ! 0 = 46 \<or> re ! 0 = tx ! 0) then matchhere (drop 1 re) (drop 1 tx)
      else False)"
| "matchstar c re tx =
     (if matchhere re tx then True
      else if tx \<noteq> [] \<and> (tx ! 0 = c \<or> c = 46) then matchstar c re (drop 1 tx)
      else False)"
  by pat_completeness auto
termination
  by (relation "measures [\<lambda>x. case x of Inl (re, tx) \<Rightarrow> length re + length tx | Inr (c, re, tx) \<Rightarrow> length re + length tx,
        \<lambda>x. case x of Inl _ \<Rightarrow> 0 | Inr _ \<Rightarrow> 1]") (auto simp: neq_Nil_conv)

declare matchhere.simps [simp del] matchstar.simps [simp del]

text \<open>The loop of \<open>match\<close> over the positions of the text, its end included.\<close>

fun match_from :: "byte list \<Rightarrow> byte list \<Rightarrow> bool" where
  "match_from re tx = (if matchhere re tx then True else case tx of [] \<Rightarrow> False | c # tx \<Rightarrow> match_from re tx)"

declare match_from.simps [simp del]

definition match :: "byte list \<Rightarrow> byte list \<Rightarrow> bool" where
  "match re tx = (if re \<noteq> [] \<and> re ! 0 = 94 then matchhere (drop 1 re) tx else match_from re tx)"

section \<open>The language of an expression\<close>

text \<open>An item matches one character, or any number of characters; \<open>dot\<close> characters match everything.\<close>

datatype item = One byte | Star byte

definition ch :: "byte \<Rightarrow> byte \<Rightarrow> bool" where
  "ch c x \<longleftrightarrow> c = 46 \<or> c = x"

text \<open>The items of an expression, and whether it is anchored at the end.\<close>

fun items :: "byte list \<Rightarrow> item list \<times> bool" where
  "items [] = ([], False)"
| "items [c] = (if c = 36 then ([], True) else ([One c], False))"
| "items (c # d # re) =
     (if d = 42 then let (is, e) = items re in (Star c # is, e) else let (is, e) = items (d # re) in (One c # is, e))"

fun item_lang :: "item \<Rightarrow> byte list set" where
  "item_lang (One c) = {[x] | x. ch c x}"
| "item_lang (Star c) = {u. \<forall>x\<in>set u. ch c x}"

primrec lang :: "item list \<Rightarrow> byte list set" where
  "lang [] = {[]}"
| "lang (i # is) = {u @ v | u v. u \<in> item_lang i \<and> v \<in> lang is}"

text \<open>Some part of the text is in the language; an anchor ties it to the start or to the end.\<close>

definition matches :: "byte list \<Rightarrow> byte list \<Rightarrow> bool" where
  "matches re tx \<longleftrightarrow>
     (let bol = (re \<noteq> [] \<and> hd re = 94); (is, eol) = items (if bol then tl re else re) in
      \<exists>pre mid post. tx = pre @ mid @ post \<and> mid \<in> lang is \<and> (bol \<longrightarrow> pre = []) \<and> (eol \<longrightarrow> post = []))"

definition here :: "item list \<times> bool \<Rightarrow> byte list \<Rightarrow> bool" where
  "here ie tx \<longleftrightarrow> (\<exists>mid post. tx = mid @ post \<and> mid \<in> lang (fst ie) \<and> (snd ie \<longrightarrow> post = []))"

lemma here_Cons: "here (i # is, e) tx \<longleftrightarrow> (\<exists>u v. tx = u @ v \<and> u \<in> item_lang i \<and> here (is, e) v)" (is "?l \<longleftrightarrow> ?r")
proof
  assume ?l
  then obtain mid post where m: "tx = mid @ post" "mid \<in> lang (i # is)" "e \<longrightarrow> post = []"
    unfolding here_def fst_conv snd_conv by blast
  then obtain u v where "mid = u @ v" "u \<in> item_lang i" "v \<in> lang is" by auto
  moreover from this m(3) have "here (is, e) (v @ post)" unfolding here_def fst_conv snd_conv by blast
  ultimately show ?r using m(1) by (metis append.assoc)
next
  assume ?r
  then obtain u v mid post where m: "tx = u @ v" "u \<in> item_lang i" "v = mid @ post" "mid \<in> lang is" "e \<longrightarrow> post = []"
    unfolding here_def fst_conv snd_conv by blast
  then have "u @ mid \<in> lang (i # is)" by auto
  then show ?l using m(1,3,5) unfolding here_def fst_conv snd_conv by (metis append.assoc)
qed

lemma here_simps:
  "here ([], e) tx \<longleftrightarrow> (e \<longrightarrow> tx = [])"
  "here (One c # is, e) tx \<longleftrightarrow> (\<exists>x t. tx = x # t \<and> ch c x \<and> here (is, e) t)"
proof -
  show "here ([], e) tx \<longleftrightarrow> (e \<longrightarrow> tx = [])" by (simp add: here_def)
  have "tx = x # t \<longleftrightarrow> tx = [x] @ t" for x t by simp
  then show "here (One c # is, e) tx \<longleftrightarrow> (\<exists>x t. tx = x # t \<and> ch c x \<and> here (is, e) t)"
    unfolding here_Cons item_lang.simps by blast
qed

lemma here_Star:
  "here (Star c # is, e) tx \<longleftrightarrow> here (is, e) tx \<or> (\<exists>x t. tx = x # t \<and> ch c x \<and> here (Star c # is, e) t)" (is "?l \<longleftrightarrow> ?r")
proof
  assume ?l
  then obtain u v where u: "tx = u @ v" "\<forall>x\<in>set u. ch c x" "here (is, e) v" by (auto simp: here_Cons)
  show ?r
  proof (cases u)
    case (Cons x u')
    then have "here (Star c # is, e) (u' @ v)" using u unfolding here_Cons by auto
    then show ?thesis using u Cons by simp
  qed (use u in simp)
next
  assume ?r
  then show ?l
  proof
    assume "here (is, e) tx"
    then show ?l unfolding here_Cons by (intro exI[of _ "[]"] exI[of _ tx]) simp
  next
    assume "\<exists>x t. tx = x # t \<and> ch c x \<and> here (Star c # is, e) t"
    then obtain x u v where "tx = (x # u) @ v" "ch c x" "\<forall>x\<in>set u. ch c x" "here (is, e) v" by (auto simp: here_Cons)
    then show ?l unfolding here_Cons by (intro exI[of _ "x # u"] exI[of _ v]) simp
  qed
qed

lemma matchhere_code:
  "matchhere [] tx = True"
  "matchhere [c] tx = (if c = 36 then tx = [] else tx \<noteq> [] \<and> ch c (hd tx))"
  "matchhere (c # d # re) tx = (if d = 42 then matchstar c re tx else tx \<noteq> [] \<and> ch c (hd tx) \<and> matchhere (d # re) (tl tx))"
proof -
  show nil: "matchhere [] tx = True" for tx by (simp add: matchhere.simps)
  show "matchhere [c] tx = (if c = 36 then tx = [] else tx \<noteq> [] \<and> ch c (hd tx))"
    by (subst matchhere.simps) (auto simp: nil ch_def hd_conv_nth)
  show "matchhere (c # d # re) tx = (if d = 42 then matchstar c re tx else tx \<noteq> [] \<and> ch c (hd tx) \<and> matchhere (d # re) (tl tx))"
    by (subst matchhere.simps) (auto simp: ch_def hd_conv_nth drop_Suc)
qed

lemma matchstar_code: "matchstar c re tx \<longleftrightarrow> matchhere re tx \<or> tx \<noteq> [] \<and> ch c (hd tx) \<and> matchstar c re (tl tx)"
  by (subst matchstar.simps) (auto simp: ch_def hd_conv_nth drop_Suc)

lemma matchhere_here:
  "matchhere re tx = here (items re) tx \<and> (\<forall>c. matchstar c re tx = here (Star c # fst (items re), snd (items re)) tx)"
proof (induction "length re + length tx" arbitrary: re tx rule: less_induct)
  case less
  have "matchhere re tx = here (items re) tx"
  proof (cases re rule: items.cases)
    case 1
    then show ?thesis by (simp add: matchhere_code here_simps(1))
  next
    case (2 c)
    then show ?thesis by (cases tx) (auto simp: matchhere_code here_simps(1,2))
  next
    case (3 c d re')
    have star: "matchstar c re' tx = here (Star c # fst (items re'), snd (items re')) tx"
      using less[of re' tx] 3 by simp
    have one: "matchhere (d # re') (tl tx) = here (items (d # re')) (tl tx)"
      using less[of "d # re'" "tl tx"] 3 by simp
    show ?thesis using star one unfolding 3 matchhere_code(3)
      by (cases tx; cases "items re'"; cases "items (d # re')") (simp_all add: here_simps(2))
  qed
  moreover have "matchstar c re tx = here (Star c # fst (items re), snd (items re)) tx" for c
  proof (cases tx)
    case Nil
    then show ?thesis using calculation by (subst matchstar_code, subst here_Star) simp
  next
    case (Cons x t)
    then have "matchstar c re t = here (Star c # fst (items re), snd (items re)) t" using less[of re t] by simp
    then show ?thesis using calculation Cons by (subst matchstar_code, subst here_Star) simp
  qed
  ultimately show ?case by blast
qed

lemma match_from_here: "match_from re tx \<longleftrightarrow> (\<exists>pre t. tx = pre @ t \<and> here (items re) t)"
proof (induction tx)
  case Nil
  then show ?case by (simp add: matchhere_here match_from.simps)
next
  case (Cons a tx)
  show ?case
    unfolding match_from.simps[of re "a # tx"] using Cons
    by (auto simp: matchhere_here Cons_eq_append_conv)
qed

lemma match_language: "match re tx = matches re tx"
proof (cases "re \<noteq> [] \<and> hd re = 94")
  case True
  then show ?thesis
    by (cases re) (auto simp: match_def matches_def matchhere_here here_def Let_def split: prod.splits)
next
  case False
  then have "match re tx = match_from re tx" by (cases re) (auto simp: match_def)
  then show ?thesis using False
    by (cases "items re") (auto simp: matches_def match_from_here here_def)
qed

section \<open>Cutting the input into lines\<close>

text \<open>
  What \<open>read\<close> returns: the next bytes of the input, at most as many as asked for.  A pipe or a terminal may
  return fewer; the list gives how many each call has.
\<close>

definition u_read :: "nat \<Rightarrow> byte list \<Rightarrow> nat list \<Rightarrow> byte list \<times> byte list \<times> nat list" where
  "u_read n input sizes =
     (let k = (case sizes of [] \<Rightarrow> n | z # _ \<Rightarrow> min n z) in (take k input, drop k input, drop 1 sizes))"

text \<open>\<open>strchr(p, '\n')\<close> stops at a newline, or at a zero byte.  The output of the inner loop, and what is left at \<open>p\<close>.\<close>

function grep_lines :: "byte list \<Rightarrow> byte list \<Rightarrow> byte list \<times> byte list" where
  "grep_lines pattern p =
     (let line = takeWhile (\<lambda>c. c \<noteq> 10 \<and> c \<noteq> 0) p; q = drop (length line) p in
      if q = [] \<or> hd q = 0 then ([], p)
      else
        let (out, p') = grep_lines pattern (tl q) in
        ((if match pattern line then line @ [10] else []) @ out, p'))"
  by pat_completeness auto
termination
proof (relation "measure (\<lambda>(pattern, p). length p)", simp, clarsimp)
  fix p :: "byte list"
  assume "\<not> length p \<le> length (takeWhile (\<lambda>c. c \<noteq> 10 \<and> c \<noteq> 0) p)"
  then show "length p - Suc (length (takeWhile (\<lambda>c. c \<noteq> 10 \<and> c \<noteq> 0) p)) < length p" by simp
qed

declare grep_lines.simps [simp del]

text \<open>The loop over the reads: \<open>buf\<close> holds the \<open>m\<close> bytes kept from the reads before.\<close>

function grep :: "byte list \<Rightarrow> byte list \<Rightarrow> byte list \<Rightarrow> nat list \<Rightarrow> byte list" where
  "grep pattern buf input sizes =
     (let (new, input', sizes') = u_read (1024 - length buf - 1) input sizes in
      if new = [] then []
      else
        let buf = buf @ new; (out, p) = grep_lines pattern buf in
        out @ grep pattern (if length p = length buf then [] else p) input' sizes')"
  by pat_completeness auto
termination
  by (relation "measure (\<lambda>(pattern, buf, input, sizes). length input)") (auto simp: u_read_def Let_def)

declare grep.simps [simp del]

section \<open>Correctness\<close>

definition unlines :: "byte list list \<Rightarrow> byte list" where
  "unlines ls = concat (map (\<lambda>l. l @ [10]) ls)"

definition is_line :: "byte list \<Rightarrow> bool" where
  "is_line l \<longleftrightarrow> 10 \<notin> set l \<and> 0 \<notin> set l"

lemma unlines_simps [simp]: "unlines [] = []" "unlines (l # ls) = l @ 10 # unlines ls"
  by (simp_all add: unlines_def)

lemma line_prefix: "is_line l \<Longrightarrow> takeWhile (\<lambda>c. c \<noteq> 10 \<and> c \<noteq> 0) (l @ 10 # r) = l"
  by (induction l) (auto simp: is_line_def)

lemma grep_lines_unlines:
  assumes "\<forall>l\<in>set ls. is_line l" and "10 \<notin> set r" and "0 \<notin> set r"
  shows "grep_lines pattern (unlines ls @ r) = (unlines (filter (match pattern) ls), r)"
  using assms(1)
proof (induction ls)
  case Nil
  have "takeWhile (\<lambda>c. c \<noteq> 10 \<and> c \<noteq> 0) r = r" using assms(2,3) by (induction r) auto
  then show ?case by (subst grep_lines.simps) (simp only: Let_def unlines_simps append_Nil, simp)
next
  case (Cons l ls)
  then show ?case using line_prefix[of l "unlines ls @ r"]
    by (subst grep_lines.simps) (simp add: Let_def)
qed

text \<open>A piece from the front of the input holds some lines and the start of the next.\<close>

lemma take_unlines:
  assumes "\<forall>l\<in>set ls. is_line l"
  obtains ls1 ls2 r where "ls = ls1 @ ls2" and "take n (unlines ls) = unlines ls1 @ r" and "10 \<notin> set r" and "0 \<notin> set r"
    and "r @ drop n (unlines ls) = unlines ls2" and "ls \<noteq> [] \<Longrightarrow> length (hd ls) < n \<Longrightarrow> ls1 \<noteq> []" and "length r \<le> n"
proof -
  have "\<exists>ls1 ls2 r. ls = ls1 @ ls2 \<and> take n (unlines ls) = unlines ls1 @ r \<and> 10 \<notin> set r \<and> 0 \<notin> set r \<and>
      r @ drop n (unlines ls) = unlines ls2 \<and> (ls \<noteq> [] \<and> length (hd ls) < n \<longrightarrow> ls1 \<noteq> [])"
    using assms
  proof (induction ls arbitrary: n)
    case (Cons l ls)
    show ?case
    proof (cases "length l < n")
      case True
      then obtain k where k: "n = length l + Suc k" by (metis add_Suc_right less_imp_Suc_add)
      obtain ls1 ls2 r where ih: "ls = ls1 @ ls2" "take k (unlines ls) = unlines ls1 @ r" "10 \<notin> set r" "0 \<notin> set r"
        "r @ drop k (unlines ls) = unlines ls2"
        using Cons.IH[of k] Cons.prems by auto
      then show ?thesis using k by (intro exI[of _ "l # ls1"] exI[of _ ls2] exI[of _ r]) auto
    next
      case False
      then show ?thesis using Cons.prems
        by (intro exI[of _ "[]"] exI[of _ "l # ls"] exI[of _ "take n l"]) (auto simp: is_line_def dest: in_set_takeD)
    qed
  qed simp
  then obtain ls1 ls2 r where "ls = ls1 @ ls2" "take n (unlines ls) = unlines ls1 @ r" "10 \<notin> set r" "0 \<notin> set r"
      "r @ drop n (unlines ls) = unlines ls2" "ls \<noteq> [] \<and> length (hd ls) < n \<longrightarrow> ls1 \<noteq> []" by blast
  moreover from this(2) have "length r \<le> n" by (metis le_add2 length_append length_take min.bounded_iff order_refl)
  ultimately show thesis using that by blast
qed

lemma grep_unlines:
  assumes "\<forall>l\<in>set ls. is_line l \<and> length l \<le> 1022" and "buf @ input = unlines ls" and "length buf \<le> 1022" and "10 \<notin> set buf"
  shows "grep pattern buf input [] = unlines (filter (match pattern) ls)"
  using assms
proof (induction "length input" arbitrary: buf input ls rule: less_induct)
  case less
  let ?new = "take (1023 - length buf) input" and ?rest = "drop (1023 - length buf) input"
  show ?case
  proof (cases "ls = []")
    case True
    then show ?thesis using less.prems by (simp add: grep.simps u_read_def)
  next
    case False
    then have inp: "input \<noteq> []" using less.prems(2,4) by (cases ls) auto
    have len: "length (unlines ls) = length buf + length input" using less.prems(2) by (metis length_append)
    have bn: "buf @ ?new = take 1023 (unlines ls)" "?rest = drop 1023 (unlines ls)"
      using less.prems(3) by (simp_all flip: less.prems(2))
    have "length (hd ls) < 1023" using less.prems(1) False by (cases ls) auto
    then obtain ls1 ls2 r where s: "ls = ls1 @ ls2" "take 1023 (unlines ls) = unlines ls1 @ r" "10 \<notin> set r" "0 \<notin> set r"
      "r @ drop 1023 (unlines ls) = unlines ls2" "ls1 \<noteq> []"
      using take_unlines[of ls 1023] less.prems(1) False by metis
    have g: "grep_lines pattern (buf @ ?new) = (unlines (filter (match pattern) ls1), r)"
      unfolding bn(1) s(2) using less.prems(1) s(1,3,4) by (intro grep_lines_unlines) auto
    obtain l ls' where l: "ls1 = l # ls'" using s(6) by (cases ls1) auto
    have lr: "length (buf @ ?new) \<noteq> length r" "length r \<le> 1022"
    proof -
      have "length (buf @ ?new) = length (unlines ls1) + length r" unfolding bn(1) s(2) by simp
      moreover have "length (buf @ ?new) \<le> 1023" using less.prems(3) by simp
      ultimately show "length (buf @ ?new) \<noteq> length r" "length r \<le> 1022" unfolding l by simp_all
    qed
    have "length ?rest < length input" using inp less.prems(3) by (cases input) auto
    then have "grep pattern r ?rest [] = unlines (filter (match pattern) ls2)"
      using less.hyps[of ?rest ls2 r] less.prems(1) s(1,3,5) bn(2) lr(2) by auto
    moreover have "grep pattern buf input [] = unlines (filter (match pattern) ls1) @ grep pattern r ?rest []"
      using inp less.prems(3) lr(1) by (subst grep.simps) (simp add: u_read_def g Let_def)
    ultimately show ?thesis unfolding s(1) by (simp add: unlines_def)
  qed
qed



text \<open>A read that ends in the middle of the first line of the buffer loses the start of that line: the test
  \<open>p == buf\<close> cannot tell it from a line longer than the buffer.\<close>

lemma grep_drops_partial_line:
  "grep [97, 98] [] [97, 98, 10] [1] = []" "grep [97, 98] [] [97, 98, 10] [] = [97, 98, 10]"
proof -
  show "grep [97, 98] [] [97, 98, 10] [1] = []" "grep [97, 98] [] [97, 98, 10] [] = [97, 98, 10]"
    by code_simp+
qed

end
