(* ===== verification/Shell.thy ===== *)
theory Shell
  imports Prelude
begin

text \<open>
  The parser of the shell (sh.c).  The buffer with the command is a list of bytes and a \<open>char*\<close> into it
  a position; the byte behind the last is the zero byte of the string.  Parsing returns the tree of
  pointers into the buffer that \<open>nulterminate\<close> turns into strings by writing zero bytes over it.
\<close>

section \<open>Tokens\<close>

definition MAXARGS :: nat where "MAXARGS = 10"

text \<open>Space, tab, carriage return, newline and vertical tab; and \<open>< | > & ; ( )\<close>.\<close>

definition whitespace :: "byte list" where "whitespace = [32, 9, 13, 10, 11]"
definition symbols :: "byte list" where "symbols = [60, 124, 62, 38, 59, 40, 41]"

text \<open>\<open>*s\<close>.\<close>

definition at :: "byte list \<Rightarrow> nat \<Rightarrow> byte" where
  "at b s = (if s < length b then b ! s else 0)"

definition skip_ws :: "byte list \<Rightarrow> nat \<Rightarrow> nat" where
  "skip_ws b s = s + length (takeWhile (\<lambda>c. c \<in> set whitespace) (drop s b))"

definition skip_word :: "byte list \<Rightarrow> nat \<Rightarrow> nat" where
  "skip_word b s = s + length (takeWhile (\<lambda>c. c \<notin> set whitespace \<and> c \<notin> set symbols) (drop s b))"

text \<open>The token (97 is \<open>a\<close>, a word; 43 is \<open>+\<close>, for \<open>>>\<close>), where it starts and ends, and the position behind it.\<close>

definition gettoken :: "byte list \<Rightarrow> nat \<Rightarrow> byte \<times> nat \<times> nat \<times> nat" where
  "gettoken b ps =
     (let q = skip_ws b ps; c = at b q;
          (ret, eq) =
            (if c = 0 then (c, q)
             else if c \<in> set [124, 40, 41, 59, 38, 60] then (c, q + 1)
             else if c = 62 then (if at b (q + 1) = 62 then (43, q + 2) else (c, q + 1))
             else (97, skip_word b q))
      in (ret, q, eq, skip_ws b eq))"

definition peek :: "byte list \<Rightarrow> nat \<Rightarrow> byte list \<Rightarrow> bool \<times> nat" where
  "peek b ps toks = (let s = skip_ws b ps in (at b s \<noteq> 0 \<and> at b s \<in> set toks, s))"

section \<open>Commands\<close>

text \<open>
  A word is the pair of pointers to its start and its end.  \<open>REDIR c file mode fd\<close>.
\<close>

datatype 'w cmd =
    EXEC "'w list"
  | REDIR "'w cmd" 'w nat nat
  | PIPE "'w cmd" "'w cmd"
  | LIST "'w cmd" "'w cmd"
  | BACK "'w cmd"

type_synonym span = "nat \<times> nat"

text \<open>The constructors; \<open>malloc\<close> is taken to succeed, as the code does.\<close>

definition execcmd :: "'w cmd" where [simp]: "execcmd = EXEC []"
definition redircmd :: "'w cmd \<Rightarrow> 'w \<Rightarrow> nat \<Rightarrow> nat \<Rightarrow> 'w cmd" where [simp]: "redircmd subcmd file mode fd = REDIR subcmd file mode fd"
definition pipecmd :: "'w cmd \<Rightarrow> 'w cmd \<Rightarrow> 'w cmd" where [simp]: "pipecmd left right = PIPE left right"
definition listcmd :: "'w cmd \<Rightarrow> 'w cmd \<Rightarrow> 'w cmd" where [simp]: "listcmd left right = LIST left right"
definition backcmd :: "'w cmd \<Rightarrow> 'w cmd" where [simp]: "backcmd subcmd = BACK subcmd"

text \<open>The modes \<open>O_RDONLY\<close> and \<open>O_WRONLY|O_CREATE\<close>.\<close>

definition RD :: nat where "RD = 0"
definition WR :: nat where "WR = 0x201"

text \<open>\<open>parseexec\<close> fills the arrays of the \<open>execcmd\<close> while \<open>ret\<close> may already wrap it in redirections.\<close>

fun add_arg :: "'w \<Rightarrow> 'w cmd \<Rightarrow> 'w cmd" where
  "add_arg w (EXEC ws) = EXEC (ws @ [w])"
| "add_arg w (REDIR c file mode fd) = REDIR (add_arg w c) file mode fd"
| "add_arg w c = c"

section \<open>The parser\<close>

lemma skip_ws_le: "s \<le> skip_ws b s"
  by (simp add: skip_ws_def)

lemma skip_word_gt: "s < length b \<Longrightarrow> b ! s \<notin> set whitespace \<Longrightarrow> b ! s \<notin> set symbols \<Longrightarrow> s < skip_word b s"
  by (simp add: skip_word_def flip: Cons_nth_drop_Suc)

lemma at_skip_ws: "at b (skip_ws b s) \<notin> set whitespace"
proof (cases "skip_ws b s < length b")
  case True
  let ?r = "drop s b"
  have "length (takeWhile (\<lambda>c. c \<in> set whitespace) ?r) < length ?r" using True by (simp add: skip_ws_def)
  from nth_length_takeWhile[OF this] show ?thesis using True by (simp add: at_def skip_ws_def)
qed (simp add: at_def whitespace_def)

lemma skip_ws_id: "at b s \<notin> set whitespace \<Longrightarrow> skip_ws b s = s"
  by (cases "s < length b") (auto simp: at_def skip_ws_def simp flip: Cons_nth_drop_Suc)

lemma gettoken_ret0: "gettoken b s = (ret, q, eq, s') \<Longrightarrow> ret = 0 \<longleftrightarrow> at b (skip_ws b s) = 0"
  by (auto simp: gettoken_def Let_def split: if_splits)

lemma gettoken_le: "gettoken b s = (ret, q, eq, s') \<Longrightarrow> s \<le> q \<and> q \<le> eq \<and> eq \<le> s'"
  using skip_ws_le[of s b] skip_ws_le[of eq b]
  by (auto simp: gettoken_def Let_def skip_word_def split: if_splits)

lemma gettoken_gt:
  assumes "gettoken b s = (ret, q, eq, s')" and "ret \<noteq> 0"
  shows "q < eq \<and> q < length b"
proof -
  have c: "at b q \<noteq> 0" "q = skip_ws b s" using assms by (auto simp: gettoken_def Let_def split: if_splits)
  then have q: "q < length b" "at b q = b ! q" by (auto simp: at_def split: if_splits)
  have w: "b ! q \<notin> set whitespace" using at_skip_ws[of b s] c q by simp
  show ?thesis
  proof (cases "b ! q \<in> set symbols")
    case True
    then show ?thesis using assms q c by (auto simp: gettoken_def Let_def symbols_def split: if_splits)
  next
    case False
    then show ?thesis using assms q c skip_word_gt[OF q(1) w False] by (auto simp: gettoken_def Let_def symbols_def split: if_splits)
  qed
qed

lemma peek_le: "peek b s toks = (p, s') \<Longrightarrow> s \<le> s'"
  by (auto simp: peek_def Let_def skip_ws_le)

lemma peek_tok:
  assumes "peek b s toks = (p, s')" and p and "gettoken b s' = (ret, q, eq, s'')"
  shows "ret \<noteq> 0" "q = s'" "s < s''" "s' < length b"
proof -
  have s': "s' = skip_ws b s" "at b s' \<noteq> 0" using assms(1,2) by (auto simp: peek_def Let_def)
  then have id: "skip_ws b s' = s'" using at_skip_ws[of b s] skip_ws_id by simp
  then show r: "ret \<noteq> 0" using gettoken_ret0[OF assms(3)] s' by simp
  show "q = s'" using assms(3) id by (simp add: gettoken_def Let_def split: prod.splits)
  show "s < s''" "s' < length b"
    using gettoken_le[OF assms(3)] gettoken_gt[OF assms(3) r] peek_le[OF assms(1)] by simp_all
qed

definition redir :: "byte \<Rightarrow> 'w \<Rightarrow> 'w cmd \<Rightarrow> 'w cmd" where
  "redir tok w c =
     (if tok = 60 then redircmd c w RD 0
      else if tok = 62 then redircmd c w WR 1
      else if tok = 43 then redircmd c w WR 1
      else c)"

function parseredirs :: "span cmd \<Rightarrow> byte list \<Rightarrow> nat \<Rightarrow> (span cmd \<times> nat) res" where
  "parseredirs c b ps =
     (let (p, ps) = peek b ps [60, 62] in
      if \<not> p then Ok (c, ps)
      else
        let (tok, _, _, ps) = gettoken b ps; (tok2, q, eq, ps) = gettoken b ps in
        if tok2 \<noteq> 97 then Panic ''missing file for redirection''
        else parseredirs (redir tok (q, eq) c) b ps)"
  by pat_completeness auto
termination
proof (relation "measure (\<lambda>(c, b, ps). length b - ps)", simp, clarsimp)
  fix b ps p tok q0 eq0 ps2 q eq ps3
  assume "(True, p) = peek b ps [60, 62]" and g1: "(tok, q0, eq0, ps2) = gettoken b p" and g2: "(97, q, eq, ps3) = gettoken b ps2"
  then have "ps \<le> p" using peek_le by metis
  then show "length b - ps3 < length b - ps"
    using gettoken_le[OF g1[symmetric]] gettoken_le[OF g2[symmetric]] gettoken_gt[OF g2[symmetric]] by auto
qed

declare parseredirs.simps [simp del]

function parse_args :: "span cmd \<Rightarrow> nat \<Rightarrow> byte list \<Rightarrow> nat \<Rightarrow> (span cmd \<times> nat) res" where
  "parse_args ret argc b ps =
     (let (p, ps) = peek b ps [124, 41, 38, 59] in
      if p then Ok (ret, ps)
      else
        let (tok, q, eq, ps) = gettoken b ps in
        if tok = 0 then Ok (ret, ps)
        else if tok \<noteq> 97 then Panic ''syntax''
        else
          let ret = add_arg (q, eq) ret in
          if MAXARGS \<le> argc + 1 then Panic ''too many args''
          else rbind (parseredirs ret b ps) (\<lambda>(ret, ps). parse_args ret (argc + 1) b ps))"
  by pat_completeness auto
termination by (relation "measure (\<lambda>(ret, argc, b, ps). MAXARGS - argc)") auto

declare parse_args.simps [simp del]

text \<open>The loop of \<open>parseline\<close> over \<open>&\<close>.\<close>

function parse_backs :: "span cmd \<Rightarrow> byte list \<Rightarrow> nat \<Rightarrow> span cmd \<times> nat" where
  "parse_backs c b ps =
     (let (p, ps) = peek b ps [38] in
      if p then let (_, _, _, ps) = gettoken b ps in parse_backs (backcmd c) b ps else (c, ps))"
  by pat_completeness auto
termination
proof (relation "measure (\<lambda>(c, b, ps). length b - ps)", simp, clarsimp)
  fix b ps p tok q eq ps'
  assume p: "(True, p) = peek b ps [38]" and g: "(tok, q, eq, ps') = gettoken b p"
  have "ps < ps'" "ps < length b" using peek_tok[OF p[symmetric] TrueI g[symmetric]] peek_le[OF p[symmetric]] by simp_all
  then show "length b - ps' < length b - ps" by simp
qed

declare parse_backs.simps [simp del]

text \<open>
  \<open>parseline\<close>, \<open>parsepipe\<close>, \<open>parseexec\<close> and \<open>parseblock\<close> call each other; the first argument bounds the
  depth of the calls, and \<open>parsecmd\<close> starts them with enough (\<open>parse_total\<close>).
\<close>

fun parseline :: "nat \<Rightarrow> byte list \<Rightarrow> nat \<Rightarrow> (span cmd \<times> nat) res"
  and parsepipe :: "nat \<Rightarrow> byte list \<Rightarrow> nat \<Rightarrow> (span cmd \<times> nat) res"
  and parseexec :: "nat \<Rightarrow> byte list \<Rightarrow> nat \<Rightarrow> (span cmd \<times> nat) res"
  and parseblock :: "nat \<Rightarrow> byte list \<Rightarrow> nat \<Rightarrow> (span cmd \<times> nat) res" where
  "parseline 0 b ps = Fault ''depth''"
| "parseline (Suc n) b ps =
     rbind (parsepipe n b ps) (\<lambda>(c, ps).
     let (c, ps) = parse_backs c b ps; (p, ps) = peek b ps [59] in
     if p then
       let (_, _, _, ps) = gettoken b ps in
       rbind (parseline n b ps) (\<lambda>(d, ps). Ok (listcmd c d, ps))
     else Ok (c, ps))"
| "parsepipe 0 b ps = Fault ''depth''"
| "parsepipe (Suc n) b ps =
     rbind (parseexec n b ps) (\<lambda>(c, ps).
     let (p, ps) = peek b ps [124] in
     if p then
       let (_, _, _, ps) = gettoken b ps in
       rbind (parsepipe n b ps) (\<lambda>(d, ps). Ok (pipecmd c d, ps))
     else Ok (c, ps))"
| "parseexec 0 b ps = Fault ''depth''"
| "parseexec (Suc n) b ps =
     (let (p, ps) = peek b ps [40] in
      if p then parseblock n b ps
      else rbind (parseredirs execcmd b ps) (\<lambda>(ret, ps). parse_args ret 0 b ps))"
| "parseblock 0 b ps = Fault ''depth''"
| "parseblock (Suc n) b ps =
     (let (p, ps) = peek b ps [40] in
      if \<not> p then Panic ''parseblock''
      else
        let (_, _, _, ps) = gettoken b ps in
        rbind (parseline n b ps) (\<lambda>(c, ps).
        let (p, ps) = peek b ps [41] in
        if \<not> p then Panic ''syntax - missing )''
        else let (_, _, _, ps) = gettoken b ps in parseredirs c b ps))"

text \<open>The memory of the buffer, with the zero byte behind it.\<close>

definition mem_of :: "byte list \<Rightarrow> byte list" where
  "mem_of b = b @ [0]"

primrec nulterminate :: "span cmd \<Rightarrow> byte list \<Rightarrow> byte list" where
  "nulterminate (EXEC ws) m = fold (\<lambda>w m. m[snd w := 0]) ws m"
| "nulterminate (REDIR c w mode fd) m = (nulterminate c m)[snd w := 0]"
| "nulterminate (PIPE c d) m = nulterminate d (nulterminate c m)"
| "nulterminate (LIST c d) m = nulterminate d (nulterminate c m)"
| "nulterminate (BACK c) m = nulterminate c m"

definition parsecmd :: "byte list \<Rightarrow> (span cmd \<times> byte list) res" where
  "parsecmd b =
     rbind (parseline (4 * length b + 4) b 0) (\<lambda>(c, s).
     let (_, s) = peek b s [] in
     if s \<noteq> length b then Panic ''syntax''
     else Ok (c, nulterminate c (mem_of b)))"

text \<open>The C string a pointer names.\<close>

definition cstr :: "byte list \<Rightarrow> nat \<Rightarrow> byte list" where
  "cstr m q = takeWhile (\<lambda>c. c \<noteq> 0) (drop q m)"

end
