(* ===== verification/Shell_Props.thy ===== *)
theory Shell_Props
  imports Shell
begin

text \<open>
  What the parser of the shell returns for every input, and that it undoes printing a command.
\<close>

section \<open>What the parser returns\<close>

definition wordch :: "byte \<Rightarrow> bool" where
  "wordch c \<longleftrightarrow> c \<notin> set whitespace \<and> c \<notin> set symbols \<and> c \<noteq> 0"

text \<open>A maximal run of characters of words.\<close>

definition is_word :: "byte list \<Rightarrow> span \<Rightarrow> bool" where
  "is_word b w \<longleftrightarrow> (case w of (q, e) \<Rightarrow>
     q < e \<and> e \<le> length b \<and> (\<forall>i. q \<le> i \<and> i < e \<longrightarrow> wordch (b ! i)) \<and> (e < length b \<longrightarrow> \<not> wordch (b ! e)))"

fun execs_ok :: "'w cmd \<Rightarrow> bool" where
  "execs_ok (EXEC ws) = (length ws < MAXARGS)"
| "execs_ok (REDIR c w mode fd) = execs_ok c"
| "execs_ok (PIPE c d) = (execs_ok c \<and> execs_ok d)"
| "execs_ok (LIST c d) = (execs_ok c \<and> execs_ok d)"
| "execs_ok (BACK c) = execs_ok c"

abbreviation words_ok :: "byte list \<Rightarrow> span cmd \<Rightarrow> bool" where
  "words_ok b c \<equiv> \<forall>w\<in>set_cmd c. is_word b w"

lemma takeWhile_span:
  fixes b :: "'a list" and q :: nat and P
  defines "e \<equiv> q + length (takeWhile P (drop q b))"
  assumes "q < length b"
  shows "e \<le> length b \<and> (\<forall>i. q \<le> i \<and> i < e \<longrightarrow> P (b ! i)) \<and> (e < length b \<longrightarrow> \<not> P (b ! e))"
proof (intro conjI allI impI)
  show "e \<le> length b" using assms length_takeWhile_le[of P "drop q b"] by simp
  show "P (b ! i)" if "q \<le> i \<and> i < e" for i
  proof -
    have i: "i - q < length (takeWhile P (drop q b))" using that by (simp add: e_def less_diff_conv2)
    then have "takeWhile P (drop q b) ! (i - q) = drop q b ! (i - q)" by (rule takeWhile_nth)
    moreover have "P (takeWhile P (drop q b) ! (i - q))" using nth_mem[OF i] set_takeWhileD by fastforce
    ultimately show ?thesis using that assms(2) by simp
  qed
  show "\<not> P (b ! e)" if "e < length b"
    using that nth_length_takeWhile[of P "drop q b"] assms by (simp add: e_def)
qed

lemma gettoken_word:
  assumes "gettoken b s = (97, q, e, s')" and "0 \<notin> set b"
  shows "is_word b (q, e)"
proof -
  have g: "q < e" "q < length b" using gettoken_gt[OF assms(1)] by auto
  have e: "e = skip_word b q" using assms(1) by (auto simp: gettoken_def Let_def split: if_splits)
  have nz: "b ! i \<noteq> 0" if "i < length b" for i using assms(2) that nth_mem by metis
  show ?thesis
    using takeWhile_span[OF g(2), of "\<lambda>c. c \<notin> set whitespace \<and> c \<notin> set symbols"] g e nz
    unfolding is_word_def skip_word_def wordch_def by auto
qed

text \<open>What a part of the parser keeps: it panics or returns a command of words, further on in the buffer.\<close>

definition parses :: "byte list \<Rightarrow> nat \<Rightarrow> (span cmd \<Rightarrow> bool) \<Rightarrow> (span cmd \<times> nat) res \<Rightarrow> bool" where
  "parses b ps P m \<longleftrightarrow>
     (case m of Ok (c, ps') \<Rightarrow> words_ok b c \<and> P c \<and> ps \<le> ps' | Panic _ \<Rightarrow> True | _ \<Rightarrow> False)"

lemma parses_simps [simp]:
  "parses b ps P (Ok (c, ps')) \<longleftrightarrow> words_ok b c \<and> P c \<and> ps \<le> ps'" "parses b ps P (Panic e)"
  by (simp_all add: parses_def)

lemma parses_bind:
  assumes "parses b ps P m" and "\<And>c ps'. m = Ok (c, ps') \<Longrightarrow> words_ok b c \<Longrightarrow> P c \<Longrightarrow> ps \<le> ps' \<Longrightarrow> parses b ps Q (f (c, ps'))"
  shows "parses b ps Q (rbind m f)"
  using assms by (cases m) (auto simp: parses_def)

lemma parses_mono: "parses b ps' P m \<Longrightarrow> ps \<le> ps' \<Longrightarrow> parses b ps P m"
  by (auto simp: parses_def split: res.splits)

lemma set_cmd_redir: "set_cmd (redir tok w c) \<subseteq> insert w (set_cmd c)"
  by (auto simp: redir_def)

lemma redirs_parse:
  assumes "0 \<notin> set b" and "words_ok b c" and "P c" and "\<And>c w mode fd. P c \<Longrightarrow> P (REDIR c w mode fd)"
  shows "parses b ps P (parseredirs c b ps)"
  using assms(1-3)
proof (induction c b ps rule: parseredirs.induct)
  case (1 c b ps)
  obtain p s where p: "peek b ps [60, 62] = (p, s)" by fastforce
  obtain tok q0 e0 s1 where g1: "gettoken b s = (tok, q0, e0, s1)" by (metis prod_cases4)
  obtain tok2 q e s2 where g2: "gettoken b s1 = (tok2, q, e, s2)" by (metis prod_cases4)
  have unf: "parseredirs c b ps = (if \<not> p then Ok (c, s) else if tok2 \<noteq> 97 then Panic ''missing file for redirection''
      else parseredirs (redir tok (q, e) c) b s2)"
    by (subst parseredirs.simps) (simp add: p g1 g2)
  have le: "ps \<le> s2" using gettoken_le[OF g1] gettoken_le[OF g2] peek_le[OF p] by simp
  show ?case
  proof (cases "p \<and> tok2 = 97")
    case True
    have "is_word b (q, e)" using gettoken_word g2 True 1(2) by blast
    then have "words_ok b (redir tok (q, e) c)" using set_cmd_redir[of tok "(q, e)" c] 1(3) by auto
    moreover have "P (redir tok (q, e) c)" using 1(4) assms(4) by (simp add: redir_def)
    ultimately have "parses b s2 P (parseredirs (redir tok (q, e) c) b s2)"
      using 1(1)[OF p[symmetric] refl _ g1[symmetric] refl refl refl g2[symmetric] refl refl refl] True 1(2) by simp
    then show ?thesis using True le parses_mono by (simp add: unf)
  qed (use 1 peek_le[OF p] in \<open>auto simp: unf\<close>)
qed

text \<open>An \<open>execcmd\<close> inside redirections, and the number of its arguments.\<close>

fun nargs :: "'w cmd \<Rightarrow> nat option" where
  "nargs (EXEC ws) = Some (length ws)"
| "nargs (REDIR c w mode fd) = nargs c"
| "nargs c = None"

lemma add_arg: "nargs (add_arg w c) = map_option Suc (nargs c)" "set_cmd (add_arg w c) \<subseteq> insert w (set_cmd c)"
  by (induction c) auto

lemma nargs_execs: "nargs c = Some n \<Longrightarrow> n < MAXARGS \<Longrightarrow> execs_ok c"
  by (induction c) auto

lemma args_parse:
  assumes "0 \<notin> set b" and "words_ok b ret" and "nargs ret = Some argc" and "argc < MAXARGS"
  shows "parses b ps execs_ok (parse_args ret argc b ps)"
  using assms
proof (induction ret argc b ps rule: parse_args.induct)
  case (1 ret argc b ps)
  obtain p s where p: "peek b ps [124, 41, 38, 59] = (p, s)" by fastforce
  obtain tok q e s1 where g: "gettoken b s = (tok, q, e, s1)" by (metis prod_cases4)
  have unf: "parse_args ret argc b ps = (if p then Ok (ret, s) else if tok = 0 then Ok (ret, s1) else if tok \<noteq> 97 then Panic ''syntax''
      else if MAXARGS \<le> argc + 1 then Panic ''too many args''
      else rbind (parseredirs (add_arg (q, e) ret) b s1) (\<lambda>(ret, ps). parse_args ret (argc + 1) b ps))"
    by (subst parse_args.simps) (simp add: p g)
  have le: "ps \<le> s" "s \<le> s1" using gettoken_le[OF g] peek_le[OF p] by simp_all
  have ok: "execs_ok ret" using nargs_execs 1 by blast
  show ?case
  proof (cases "\<not> p \<and> tok = 97 \<and> argc + 1 < MAXARGS")
    case True
    have "is_word b (q, e)" using gettoken_word g True 1(2) by blast
    then have w: "words_ok b (add_arg (q, e) ret)" using add_arg(2)[of "(q, e)" ret] 1(3) by auto
    have "parses b s1 (\<lambda>c. nargs c = Some (argc + 1)) (parseredirs (add_arg (q, e) ret) b s1)"
      using redirs_parse[OF 1(2) w] 1(4) by (simp add: add_arg(1))
    then have "parses b ps execs_ok (rbind (parseredirs (add_arg (q, e) ret) b s1) (\<lambda>(ret, ps). parse_args ret (argc + 1) b ps))"
    proof (rule parses_bind[OF parses_mono])
      show "ps \<le> s1" using le by simp
      fix c ps'
      assume "parseredirs (add_arg (q, e) ret) b s1 = Ok (c, ps')" "words_ok b c" "nargs c = Some (argc + 1)" "ps \<le> ps'"
      then have "parses b ps' execs_ok (parse_args c (argc + 1) b ps')"
        using 1(1)[OF p[symmetric] refl _ g[symmetric] refl refl refl] True 1(2) by auto
      then show "parses b ps execs_ok (case (c, ps') of (ret, x) \<Rightarrow> parse_args ret (argc + 1) b x)"
        using \<open>ps \<le> ps'\<close> parses_mono by simp
    qed
    then show ?thesis using True by (simp add: unf)
  qed (use 1 ok le in \<open>auto simp: unf\<close>)
qed

lemma backs_parse:
  assumes "words_ok b c" and "execs_ok c"
  shows "case parse_backs c b ps of (c', ps') \<Rightarrow> words_ok b c' \<and> execs_ok c' \<and> ps \<le> ps'"
  using assms
proof (induction c b ps rule: parse_backs.induct)
  case (1 c b ps)
  obtain p s where p: "peek b ps [38] = (p, s)" by fastforce
  obtain tok q e s1 where g: "gettoken b s = (tok, q, e, s1)" by (metis prod_cases4)
  have unf: "parse_backs c b ps = (if p then parse_backs (BACK c) b s1 else (c, s))"
    by (subst parse_backs.simps) (simp add: p g)
  have "ps \<le> s" "s \<le> s1" using gettoken_le[OF g] peek_le[OF p] by simp_all
  then show ?case
    using 1(1)[OF p[symmetric] refl _ g[symmetric] refl refl refl] 1(2,3) by (auto simp: unf split: prod.splits)
qed

text \<open>Every part of the parser returns: the depth it is started with is enough.\<close>

lemma parse_total:
  assumes "0 \<notin> set b"
  shows "4 * (length b - ps) + 4 \<le> n \<Longrightarrow> parses b ps execs_ok (parseline n b ps)"
    and "4 * (length b - ps) + 3 \<le> n \<Longrightarrow> parses b ps execs_ok (parsepipe n b ps)"
    and "4 * (length b - ps) + 2 \<le> n \<Longrightarrow> parses b ps execs_ok (parseexec n b ps)"
    and "4 * (length b - ps) + 1 \<le> n \<Longrightarrow> parses b ps execs_ok (parseblock n b ps)"
proof (induction n arbitrary: ps)
  case (Suc n)
  {
    case 1
    have "parses b ps execs_ok (parsepipe n b ps)" using Suc(2) 1 by simp
    then show ?case unfolding parseline.simps listcmd_def
    proof (rule parses_bind)
      fix c s
      assume c: "words_ok b c" "execs_ok c" "ps \<le> s"
      obtain c' s1 where pb: "parse_backs c b s = (c', s1)" by fastforce
      obtain p s2 where p: "peek b s1 [59] = (p, s2)" by fastforce
      obtain tok q e s3 where g: "gettoken b s2 = (tok, q, e, s3)" by (metis prod_cases4)
      have c': "words_ok b c'" "execs_ok c'" "s \<le> s1" "s1 \<le> s2" using backs_parse[OF c(1,2), of s] pb peek_le[OF p] by auto
      show "parses b ps execs_ok (case (c, s) of (c, ps) \<Rightarrow> let (c, ps) = parse_backs c b ps; (p, ps) = peek b ps [59] in
          if p then let (_, _, _, ps) = gettoken b ps in rbind (parseline n b ps) (\<lambda>(d, ps). Ok (LIST c d, ps)) else Ok (c, ps))"
      proof (cases p)
        case True
        have l: "s1 < s3" "s2 < length b" using peek_tok[OF p True g] by simp_all
        then have "parses b s3 execs_ok (parseline n b s3)" using Suc(1)[of s3] 1 c(3) c'(3,4) by simp
        then have "parses b ps execs_ok (parseline n b s3)" using parses_mono l c(3) c'(3) by simp
        then have "parses b ps execs_ok (rbind (parseline n b s3) (\<lambda>(d, ps). Ok (LIST c' d, ps)))"
          by (rule parses_bind) (use c' in auto)
        then show ?thesis using True by (simp add: pb p g)
      qed (use c c' in \<open>auto simp: pb p g\<close>)
    qed
  next
    case 2
    have "parses b ps execs_ok (parseexec n b ps)" using Suc(3) 2 by simp
    then show ?case unfolding parsepipe.simps pipecmd_def
    proof (rule parses_bind)
      fix c s
      assume c: "words_ok b c" "execs_ok c" "ps \<le> s"
      obtain p s2 where p: "peek b s [124] = (p, s2)" by fastforce
      obtain tok q e s3 where g: "gettoken b s2 = (tok, q, e, s3)" by (metis prod_cases4)
      show "parses b ps execs_ok (case (c, s) of (c, ps) \<Rightarrow> let (p, ps) = peek b ps [124] in
          if p then let (_, _, _, ps) = gettoken b ps in rbind (parsepipe n b ps) (\<lambda>(d, ps). Ok (PIPE c d, ps)) else Ok (c, ps))"
      proof (cases p)
        case True
        have l: "s < s3" "s2 < length b" using peek_tok[OF p True g] by simp_all
        then have "parses b s3 execs_ok (parsepipe n b s3)" using Suc(2)[of s3] 2 c(3) peek_le[OF p] by simp
        then have "parses b ps execs_ok (parsepipe n b s3)" using parses_mono l c(3) by simp
        then have "parses b ps execs_ok (rbind (parsepipe n b s3) (\<lambda>(d, ps). Ok (PIPE c d, ps)))"
          by (rule parses_bind) (use c in auto)
        then show ?thesis using True by (simp add: p g)
      qed (use c peek_le[OF p] in \<open>auto simp: p g\<close>)
    qed
  next
    case 3
    obtain p s where p: "peek b ps [40] = (p, s)" by fastforce
    note le = peek_le[OF p]
    show ?case
    proof (cases p)
      case True
      have "parses b s execs_ok (parseblock n b s)" using Suc(4)[of s] 3 le by simp
      then show ?thesis using True le parses_mono by (simp add: p)
    next
      case False
      have "parses b s (\<lambda>c. nargs c = Some 0) (parseredirs (EXEC []) b s)" by (rule redirs_parse[OF assms]) auto
      then have "parses b ps (\<lambda>c. nargs c = Some 0) (parseredirs (EXEC []) b s)" using le parses_mono by blast
      then have "parses b ps execs_ok (rbind (parseredirs (EXEC []) b s) (\<lambda>(ret, ps). parse_args ret 0 b ps))"
        by (rule parses_bind) (auto intro!: parses_mono[OF args_parse[OF assms]] simp: MAXARGS_def)
      then show ?thesis using False by (simp add: p)
    qed
  next
    case 4
    obtain p s where p: "peek b ps [40] = (p, s)" by fastforce
    obtain tok q e s1 where g: "gettoken b s = (tok, q, e, s1)" by (metis prod_cases4)
    show ?case
    proof (cases p)
      case True
      have l: "ps < s1" "s < length b" using peek_tok[OF p True g] by simp_all
      then have "parses b s1 execs_ok (parseline n b s1)" using Suc(1)[of s1] 4 peek_le[OF p] by simp
      then have "parses b ps execs_ok (parseline n b s1)" using parses_mono l by simp
      then have "parses b ps execs_ok (rbind (parseline n b s1) (\<lambda>(c, ps). let (p, ps) = peek b ps [41] in
          if \<not> p then Panic ''syntax - missing )'' else let (_, _, _, ps) = gettoken b ps in parseredirs c b ps))"
      proof (rule parses_bind)
        fix c s2
        assume c: "words_ok b c" "execs_ok c" "ps \<le> s2"
        obtain p' s3 where p': "peek b s2 [41] = (p', s3)" by fastforce
        obtain tok' q' e' s4 where g': "gettoken b s3 = (tok', q', e', s4)" by (metis prod_cases4)
        have "ps \<le> s4" using c(3) peek_le[OF p'] gettoken_le[OF g'] by simp
        moreover have "parses b s4 execs_ok (parseredirs c b s4)" by (rule redirs_parse[where P = execs_ok, OF assms c(1,2)]) simp
        ultimately show "parses b ps execs_ok (case (c, s2) of (c, ps) \<Rightarrow> let (p, ps) = peek b ps [41] in
          if \<not> p then Panic ''syntax - missing )'' else let (_, _, _, ps) = gettoken b ps in parseredirs c b ps)"
          using parses_mono by (simp add: p' g')
      qed
      then show ?thesis using True by (simp add: p g)
    qed (simp add: p)
  }
qed simp_all

text \<open>No end of a word lies inside another word, so the zero bytes damage none.\<close>

lemma nulterminate_nth:
  "length (nulterminate c m) = length m"
  "i < length m \<Longrightarrow> nulterminate c m ! i = (if i \<in> snd ` set_cmd c then 0 else m ! i)"
proof -
  have len: "length (fold (\<lambda>w m. m[snd w := 0]) ws m) = length m" for ws :: "span list" and m by (induction ws arbitrary: m) auto
  have fold: "i < length m \<Longrightarrow> fold (\<lambda>w m. m[snd w := 0]) ws m ! i = (if i \<in> snd ` set ws then 0 else m ! i)"
    for ws :: "span list" and m i by (induction ws arbitrary: m) (auto simp: nth_list_update)
  show l: "length (nulterminate c m) = length m" for c m by (induction c arbitrary: m) (auto simp: len)
  show "i < length m \<Longrightarrow> nulterminate c m ! i = (if i \<in> snd ` set_cmd c then 0 else m ! i)"
  proof (induction c arbitrary: m)
    case (EXEC ws)
    then show ?case using fold[of i m ws] by simp
  next
    case (REDIR c w mode fd)
    then show ?case using REDIR.IH[of m] by (cases "i = snd w") (simp_all add: nth_list_update l)
  qed (auto simp: l)
qed

lemma cstr_slice:
  assumes "q < e" and "e < length m" and "\<And>i. q \<le> i \<Longrightarrow> i < e \<Longrightarrow> m ! i = b ! i \<and> b ! i \<noteq> 0" and "e \<le> length b" and "m ! e = 0"
  shows "cstr m q = drop q (take e b)"
proof -
  have eq: "drop q (take e m) = drop q (take e b)"
    using assms by (intro nth_equalityI) auto
  have "drop q m = drop q (take e m) @ drop e m"
    using drop_append[of q "take e m" "drop e m"] assms(1,2) by simp
  also have "drop e m = 0 # drop (Suc e) m" using assms(2,5) by (metis Cons_nth_drop_Suc)
  finally have "drop q m = drop q (take e b) @ 0 # drop (Suc e) m" using eq by simp
  moreover have "x \<noteq> 0" if "x \<in> set (drop q (take e b))" for x
    using that assms(3,4) by (auto simp: in_set_conv_nth)
  ultimately show ?thesis by (simp add: cstr_def takeWhile_append2)
qed

lemma cstr_word:
  assumes "words_ok b c" and "(q, e) \<in> set_cmd c"
  shows "cstr (nulterminate c (mem_of b)) q = drop q (take e b)"
proof -
  let ?m = "nulterminate c (mem_of b)"
  have "is_word b (q, e)" using assms by blast
  then have w: "q < e" "e \<le> length b" "\<And>i. q \<le> i \<Longrightarrow> i < e \<Longrightarrow> wordch (b ! i)" by (auto simp: is_word_def)
  have inside: "i \<notin> snd ` set_cmd c" if "q \<le> i" "i < e" for i
  proof
    assume "i \<in> snd ` set_cmd c"
    then obtain q' where "(q', i) \<in> set_cmd c" by auto
    then have "is_word b (q', i)" using assms(1) by blast
    then show False using w that by (auto simp: is_word_def)
  qed
  show ?thesis
  proof (rule cstr_slice)
    show "?m ! e = 0" using w(2) assms(2) by (force simp: nulterminate_nth(2) mem_of_def)
    show "?m ! i = b ! i \<and> b ! i \<noteq> 0" if "q \<le> i" "i < e" for i
      using that inside[OF that] w by (auto simp: nulterminate_nth(2) mem_of_def nth_append wordch_def)
  qed (use w in \<open>simp_all add: nulterminate_nth(1) mem_of_def\<close>)
qed

text \<open>C36. The shell's parser is total and its result is well formed, for every command line.  Parsing ends, with
  a command or with one of its messages; no command has more arguments than the array of an \<open>execcmd\<close>
  holds, its closing null pointer included; and after \<open>nulterminate\<close> every pointer of the command names
  exactly the word of the line it was made from, a longest run of characters that are neither white space nor
  symbols, although the strings are cut out of the line in place.\<close>

theorem shell_parse_safe:
  assumes "0 \<notin> set line"
  shows "case parsecmd line of
      Ok (c, m) \<Rightarrow> execs_ok c \<and> (\<forall>(q, e)\<in>set_cmd c. is_word line (q, e) \<and> cstr m q = drop q (take e line))
    | Panic _ \<Rightarrow> True
    | _ \<Rightarrow> False"
proof -
  have "parses line 0 execs_ok (parseline (4 * length line + 4) line 0)" using parse_total(1)[OF assms] by simp
  then show ?thesis
    using cstr_word by (auto simp: parsecmd_def parses_def Let_def split: res.splits prod.splits)
qed

theorem shell_parse_safe_witness:
  "\<exists>c m. parsecmd [97, 59, 98] = Ok (c, m) \<and> execs_ok c \<and> cstr m 2 = [98]"
proof -
  have "parsecmd [97, 59, 98] = Ok (LIST (EXEC [(0, 1)]) (EXEC [(2, 3)]), [97, 0, 98, 0])"
    by code_simp
  then show ?thesis using shell_parse_safe[of "[97, 59, 98]"] by auto
qed

end
