(* ===== verification/Shell_Print.thy ===== *)
theory Shell_Print
  imports Shell_Props
begin

text \<open>
  Printing commands, with brackets where the grammar of the shell needs them, and that \<open>parsecmd\<close> reads
  every printed command back.
\<close>

section \<open>Printing\<close>

definition redir_text :: "byte list \<times> nat \<times> nat \<Rightarrow> byte list" where
  "redir_text r = (case r of (w, mode, fd) \<Rightarrow> (if mode = RD then 60 else 62) # w @ [32])"

lemma redir_text: "redir_text (w, mode, fd) = (if mode = RD then 60 else 62) # w @ [32]"
  by (simp add: redir_text_def)

definition words_text :: "byte list list \<Rightarrow> byte list" where
  "words_text ws = concat (map (\<lambda>w. w @ [32]) ws)"

text \<open>How tightly a command binds: a list, a command before \<open>&\<close>, a pipeline, a simple command.\<close>

primrec lev :: "'w cmd \<Rightarrow> nat" where
  "lev (LIST c d) = 0"
| "lev (BACK c) = 1"
| "lev (PIPE c d) = 2"
| "lev (EXEC ws) = 3"
| "lev (REDIR c w mode fd) = 3"

definition brackets :: "nat \<Rightarrow> 'w cmd \<Rightarrow> byte list \<Rightarrow> byte list" where
  "brackets l c x = (if lev c < l then 40 # x @ [41] else x)"

primrec cmd_text :: "byte list cmd \<Rightarrow> byte list" where
  "cmd_text (EXEC ws) = words_text ws"
| "cmd_text (REDIR c w mode fd) = brackets 3 c (cmd_text c) @ redir_text (w, mode, fd)"
| "cmd_text (PIPE c d) = brackets 3 c (cmd_text c) @ 124 # brackets 2 d (cmd_text d)"
| "cmd_text (LIST c d) = brackets 1 c (cmd_text c) @ 59 # cmd_text d"
| "cmd_text (BACK c) = brackets 1 c (cmd_text c) @ [38]"

lemma brackets_simps: "l \<le> lev c \<Longrightarrow> brackets l c x = x" "lev c < l \<Longrightarrow> brackets l c x = 40 # x @ [41]"
  by (simp_all add: brackets_def)

abbreviation text_at :: "nat \<Rightarrow> byte list cmd \<Rightarrow> byte list" where
  "text_at l c \<equiv> brackets l c (cmd_text c)"

text \<open>The commands the shell can express.\<close>

definition good_word :: "byte list \<Rightarrow> bool" where
  "good_word w \<longleftrightarrow> w \<noteq> [] \<and> (\<forall>c\<in>set w. wordch c)"

primrec good_cmd :: "byte list cmd \<Rightarrow> bool" where
  "good_cmd (EXEC ws) \<longleftrightarrow> length ws < MAXARGS \<and> (\<forall>w\<in>set ws. good_word w)"
| "good_cmd (REDIR c w mode fd) \<longleftrightarrow> good_cmd c \<and> good_word w \<and> (mode = RD \<and> fd = 0 \<or> mode = WR \<and> fd = 1)"
| "good_cmd (PIPE c d) \<longleftrightarrow> good_cmd c \<and> good_cmd d"
| "good_cmd (LIST c d) \<longleftrightarrow> good_cmd c \<and> good_cmd d"
| "good_cmd (BACK c) \<longleftrightarrow> good_cmd c"

section \<open>Reading tokens\<close>

definition nows :: "byte list \<Rightarrow> bool" where
  "nows y \<longleftrightarrow> y = [] \<or> hd y \<notin> set whitespace"

lemma at_drop: "drop s b = c # y \<Longrightarrow> at b s = c" "drop s b = [] \<Longrightarrow> at b s = 0"
  by (auto simp: at_def nth_via_drop not_less)

lemma skip_ws_nows: "drop s b = y \<Longrightarrow> nows y \<Longrightarrow> skip_ws b s = s"
  by (cases y) (auto simp: skip_ws_def nows_def)

lemma skip_space: "drop s b = 32 # y \<Longrightarrow> nows y \<Longrightarrow> skip_ws b s = s + 1"
  by (cases y) (auto simp: skip_ws_def nows_def whitespace_def)

lemma peek_eval: "drop s b = y \<Longrightarrow> nows y \<Longrightarrow> peek b s toks = (y \<noteq> [] \<and> hd y \<noteq> 0 \<and> hd y \<in> set toks, s)"
  by (cases y) (auto simp: peek_def Let_def skip_ws_nows at_drop)

lemma drop_step: "drop s b = x @ y \<Longrightarrow> drop (s + length x) b = y"
  by (metis append_eq_conv_conj drop_drop add.commute)

lemma gettoken_symbol:
  assumes "drop s b = c # y" and "c \<in> {124, 40, 41, 59, 38, 60, 62}" and "nows y" and "c = 62 \<Longrightarrow> y \<noteq> [] \<and> hd y \<noteq> 62"
  shows "gettoken b s = (c, s, s + 1, s + 1)"
proof -
  have "nows (c # y)" using assms(2) by (auto simp: nows_def whitespace_def)
  then have q: "skip_ws b s = s" "at b s = c" using assms(1) skip_ws_nows at_drop by blast+
  have d: "drop (s + 1) b = y" using drop_step[of s b "[c]" y] assms(1) by simp
  then have "skip_ws b (s + 1) = s + 1" using skip_ws_nows assms(3) by blast
  moreover have "at b (s + 1) \<noteq> 62" if "c = 62"
    using assms(4)[OF that] d by (cases y) (auto simp: at_drop)
  ultimately show ?thesis using assms(2) q by (auto simp: gettoken_def Let_def)
qed

lemma gettoken_good_word:
  assumes "drop s b = w @ 32 # y" and "good_word w" and "nows y"
  shows "gettoken b s = (97, s, s + length w, s + length w + 1)"
proof -
  obtain c w' where w: "w = c # w'" "wordch c" using assms(2) by (cases w) (auto simp: good_word_def)
  have "drop s b = c # w' @ 32 # y" using assms(1) w by simp
  then have q: "skip_ws b s = s" "at b s = c" using w skip_ws_nows at_drop by (auto simp: nows_def wordch_def)
  have "takeWhile (\<lambda>c. c \<notin> set whitespace \<and> c \<notin> set symbols) (w @ 32 # y) = w"
    using assms(2) by (subst takeWhile_append2) (auto simp: good_word_def wordch_def whitespace_def)
  then have e: "skip_word b s = s + length w" by (simp add: skip_word_def assms(1))
  have "drop (s + length w) b = 32 # y" using drop_step assms(1) by blast
  then have "skip_ws b (s + length w) = s + length w + 1" using skip_space assms(3) by simp
  then show ?thesis using q e w(2) by (auto simp: gettoken_def Let_def wordch_def symbols_def)
qed

lemma gettoken_end: "drop s b = [] \<Longrightarrow> gettoken b s = (0, s, s, s)"
  using skip_ws_nows[of s b "[]"] by (simp add: gettoken_def nows_def at_drop Let_def)

section \<open>Redirections and arguments\<close>

definition slice :: "byte list \<Rightarrow> span \<Rightarrow> byte list" where
  "slice b w = (case w of (q, e) \<Rightarrow> drop q (take e b))"

abbreviation read_cmd :: "byte list \<Rightarrow> span cmd \<Rightarrow> byte list cmd" where
  "read_cmd b c \<equiv> map_cmd (slice b) c"

lemma slice_word: "drop s b = w @ y \<Longrightarrow> slice b (s, s + length w) = w"
  by (simp add: slice_def drop_take)

lemma read_add_arg: "read_cmd b (add_arg w c) = add_arg (slice b w) (read_cmd b c)"
  by (induction c) auto

definition wrap :: "byte list cmd \<Rightarrow> byte list \<times> nat \<times> nat \<Rightarrow> byte list cmd" where
  "wrap c r = (case r of (w, mode, fd) \<Rightarrow> REDIR c w mode fd)"

definition good_redir :: "byte list \<times> nat \<times> nat \<Rightarrow> bool" where
  "good_redir r \<longleftrightarrow> (case r of (w, mode, fd) \<Rightarrow> good_word w \<and> (mode = RD \<and> fd = 0 \<or> mode = WR \<and> fd = 1))"

lemma pair_simps: "wrap c (w, mode, fd) = REDIR c w mode fd"
  "good_redir (w, mode, fd) \<longleftrightarrow> good_word w \<and> (mode = RD \<and> fd = 0 \<or> mode = WR \<and> fd = 1)"
  by (simp_all add: wrap_def good_redir_def)

lemma good_word_nows: "good_word w \<Longrightarrow> nows (w @ y)" "good_word w \<Longrightarrow> w @ y \<noteq> [] \<and> wordch (hd (w @ y))"
  by (cases w; auto simp: good_word_def nows_def wordch_def)+

lemma read_redirs:
  assumes "drop s b = concat (map redir_text rs) @ r" and "\<forall>x\<in>set rs. good_redir x" and "nows r" and "r \<noteq> [] \<Longrightarrow> hd r \<notin> {60, 62}"
  shows "\<exists>t. parseredirs c b s = Ok (t, s + length (concat (map redir_text rs))) \<and> read_cmd b t = foldl wrap (read_cmd b c) rs"
  using assms(1,2)
proof (induction rs arbitrary: c s)
  case Nil
  then have "peek b s [60, 62] = (False, s)" using peek_eval[of s b r] assms(3,4) by auto
  then show ?case by (subst parseredirs.simps) simp
next
  case (Cons x rs)
  obtain w mode fd where x: "x = (w, mode, fd)" by (metis prod_cases3)
  let ?t = "if mode = RD then 60 else 62 :: byte" and ?y = "concat (map redir_text rs) @ r"
  have g: "good_word w" "mode = RD \<and> fd = 0 \<or> mode = WR \<and> fd = 1" using Cons.prems(2) by (simp_all add: x good_redir_def)
  have d: "drop s b = ?t # w @ 32 # ?y" using Cons.prems(1) by (simp add: x redir_text)
  have ny: "nows ?y"
    using assms(3) by (cases rs) (auto simp: redir_text_def nows_def whitespace_def split: prod.split)
  have d1: "drop (s + 1) b = w @ 32 # ?y" using drop_step[of s b "[?t]"] d by simp
  have p: "peek b s [60, 62] = (True, s)" using peek_eval[OF d] by (auto simp: nows_def whitespace_def)
  have nw: "nows (w @ 32 # ?y)" "w @ 32 # ?y \<noteq> []" "hd (w @ 32 # ?y) \<noteq> 62"
    using good_word_nows[OF g(1), of "32 # ?y"] by (auto simp: wordch_def symbols_def)
  have g1: "gettoken b s = (?t, s, s + 1, s + 1)"
    by (rule gettoken_symbol[OF d]) (use nw in auto)
  have g2: "gettoken b (s + 1) = (97, s + 1, s + 1 + length w, s + 1 + length w + 1)"
    by (rule gettoken_good_word[OF d1 g(1) ny])
  let ?c = "redir ?t (s + 1, s + 1 + length w) c" and ?s = "s + 1 + length w + 1"
  have "parseredirs c b s = parseredirs ?c b ?s" by (subst parseredirs.simps) (simp add: p g1 g2 del: One_nat_def)
  moreover have "drop ?s b = ?y" using drop_step[of "s + 1" b "w @ [32]" ?y] d1 by (simp add: add.assoc)
  moreover have "read_cmd b ?c = wrap (read_cmd b c) x"
    using g(2) slice_word[OF d1] by (auto simp: redir_def wrap_def x RD_def WR_def)
  ultimately show ?case using Cons.IH[of ?s ?c] Cons.prems(2) by (auto simp: x redir_text)
qed

text \<open>What may follow a simple command.\<close>

definition follow :: "byte list \<Rightarrow> byte list \<Rightarrow> bool" where
  "follow toks r \<longleftrightarrow> r = [] \<or> hd r \<in> set toks"

lemma follow_nows: "follow toks r \<Longrightarrow> set toks \<subseteq> set symbols \<Longrightarrow> nows r"
  by (auto simp: follow_def nows_def symbols_def whitespace_def)

lemma read_args:
  assumes "drop s b = words_text ws @ (if ws = [] then [] else concat (map redir_text rs)) @ r"
    and "\<forall>w\<in>set ws. good_word w" and "\<forall>x\<in>set rs. good_redir x" and "follow [124, 41, 38, 59] r" and "argc + length ws < MAXARGS"
  shows "\<exists>t. parse_args ret argc b s = Ok (t, s + length (words_text ws) + (if ws = [] then 0 else length (concat (map redir_text rs)))) \<and>
    read_cmd b t = (if ws = [] then read_cmd b ret else foldl wrap (fold add_arg ws (read_cmd b ret)) rs)"
  using assms(1,2,5)
proof (induction ws arbitrary: ret argc s)
  case Nil
  have nr: "nows r" using follow_nows[OF assms(4)] by (simp add: symbols_def)
  have d: "drop s b = r" using Nil by (simp add: words_text_def)
  show ?case
  proof (cases r)
    case Nil
    then have "peek b s [124, 41, 38, 59] = (False, s)" "gettoken b s = (0, s, s, s)"
      using peek_eval[OF d nr] gettoken_end d by simp_all
    then show ?thesis by (subst parse_args.simps) (simp add: words_text_def)
  next
    case (Cons c y)
    then have "peek b s [124, 41, 38, 59] = (True, s)" using peek_eval[OF d nr] assms(4) by (auto simp: follow_def)
    then show ?thesis by (subst parse_args.simps) (simp add: words_text_def)
  qed
next
  case (Cons w ws)
  let ?rs = "concat (map redir_text rs)"
  define y where "y = words_text ws @ ?rs @ r"
  have gw: "good_word w" and gws: "\<forall>w\<in>set ws. good_word w" using Cons.prems(2) by auto
  have d: "drop s b = w @ 32 # y" using Cons.prems(1) by (simp add: y_def words_text_def)
  have nr: "nows r" using follow_nows[OF assms(4)] by (simp add: symbols_def)
  have r': "hd r \<notin> {60, 62}" if "r \<noteq> []" using assms(4) that by (auto simp: follow_def)
  have ny: "nows y"
  proof (cases ws)
    case Nil
    then show ?thesis using nr by (cases rs) (auto simp: y_def words_text_def redir_text_def nows_def whitespace_def split: prod.split)
  next
    case (Cons v vs)
    then show ?thesis using gws good_word_nows(1)[of v] by (simp add: y_def words_text_def)
  qed
  have p: "peek b s [124, 41, 38, 59] = (False, s)"
    using peek_eval[OF d] good_word_nows[OF gw, of "32 # y"] by (auto simp: wordch_def symbols_def)
  have g: "gettoken b s = (97, s, s + length w, s + length w + 1)" by (rule gettoken_good_word[OF d gw ny])
  let ?s = "s + length w + 1" and ?ret = "add_arg (s, s + length w) ret"
  have dy: "drop ?s b = y" using drop_step[of s b "w @ [32]" y] d by (simp add: add.assoc)
  have rr: "read_cmd b ?ret = add_arg w (read_cmd b ret)" using slice_word[OF d] by (simp add: read_add_arg)
  have unf: "parse_args ret argc b s = rbind (parseredirs ?ret b ?s) (\<lambda>(ret, ps). parse_args ret (argc + 1) b ps)"
    using Cons.prems(3) by (subst parse_args.simps) (simp add: p g)
  show ?case
  proof (cases "ws = []")
    case True
    then have dr: "drop ?s b = ?rs @ r" using dy by (simp add: y_def words_text_def)
    from read_redirs[OF dr assms(3) nr r', of ?ret] obtain t where
      t: "parseredirs ?ret b ?s = Ok (t, ?s + length ?rs)" "read_cmd b t = foldl wrap (read_cmd b ?ret) rs" by blast
    note drop_step[OF dr]
    then show ?thesis
      using Cons.IH[of "?s + length ?rs" "argc + 1" t] Cons.prems(3) True t rr by (simp add: unf words_text_def)
  next
    case False
    then obtain v vs where v: "ws = v # vs" by (cases ws) auto
    have "wordch (hd y)" "y \<noteq> []" using good_word_nows(2)[of v] gws by (auto simp: y_def v words_text_def)
    then have "hd y \<notin> {60, 62}" by (auto simp: wordch_def symbols_def)
    then have "parseredirs ?ret b ?s = Ok (?ret, ?s)"
      using peek_eval[OF dy ny] by (subst parseredirs.simps) simp
    then have "parse_args ret argc b s = parse_args ?ret (argc + 1) b ?s" by (simp add: unf)
    then show ?thesis
      using Cons.IH[of ?s "argc + 1" ?ret] Cons.prems(3) gws dy rr False by (auto simp: y_def words_text_def add.assoc)
  qed
qed

section \<open>Reading commands\<close>

definition reads :: "byte list \<Rightarrow> (nat \<Rightarrow> byte list \<Rightarrow> nat \<Rightarrow> (span cmd \<times> nat) res) \<Rightarrow> nat \<Rightarrow> byte list \<Rightarrow> byte list \<Rightarrow> byte list cmd \<Rightarrow> bool" where
  "reads b f d toks x c \<longleftrightarrow>
     (\<forall>s r n. drop s b = x @ r \<and> follow toks r \<and> 4 * (length b - s) + d \<le> n \<longrightarrow>
        (\<exists>t. f n b s = Ok (t, s + length x) \<and> read_cmd b t = c))"

lemma readsE:
  assumes "reads b f d toks x c" and "drop s b = x @ r" and "follow toks r" and "4 * (length b - s) + d \<le> n"
  obtains t where "f n b s = Ok (t, s + length x)" and "read_cmd b t = c"
  using assms unfolding reads_def by blast

abbreviation reads_line :: "byte list \<Rightarrow> byte list cmd \<Rightarrow> bool" where
  "reads_line b c \<equiv> reads b parseline 4 [41] (cmd_text c) c"

abbreviation reads_pipe :: "byte list \<Rightarrow> byte list cmd \<Rightarrow> bool" where
  "reads_pipe b c \<equiv> reads b parsepipe 3 [41, 38, 59] (text_at 2 c) c"

abbreviation reads_exec :: "byte list \<Rightarrow> byte list cmd \<Rightarrow> bool" where
  "reads_exec b c \<equiv> reads b parseexec 2 [124, 41, 38, 59] (text_at 3 c) c"

lemma nows_text: "good_cmd c \<Longrightarrow> nows r \<Longrightarrow> nows (cmd_text c @ r)" "good_cmd c \<Longrightarrow> nows r \<Longrightarrow> nows (text_at l c @ r)"
proof -
  have br: "nows (brackets l c x @ r)" if "nows (x @ r)" for l x r and c :: "byte list cmd"
    using that by (auto simp: brackets_def nows_def whitespace_def)
  have sym: "nows (60 # r)" "nows (62 # r)" "nows (124 # r)" "nows (59 # r)" "nows (38 # r)" for r
    by (simp_all add: nows_def whitespace_def)
  have "good_cmd c \<Longrightarrow> nows r \<Longrightarrow> nows (cmd_text c @ r)" for r
  proof (induction c arbitrary: r)
    case (EXEC ws)
    then show ?case using good_word_nows(1) by (cases ws) (auto simp: words_text_def)
  next
    case (REDIR c w mode fd)
    then have "nows (cmd_text c @ redir_text (w, mode, fd) @ r)" by (auto simp: redir_text sym)
    then show ?case using br by simp
  qed (simp_all add: br sym)
  then show "good_cmd c \<Longrightarrow> nows r \<Longrightarrow> nows (cmd_text c @ r)" "good_cmd c \<Longrightarrow> nows r \<Longrightarrow> nows (text_at l c @ r)"
    using br by blast+
qed

text \<open>A command is a simple command or a bracketed one inside redirections, and a command inside \<open>&\<close>.\<close>

lemma redirs_decomp:
  assumes "good_cmd c"
  shows "\<exists>k rs. c = foldl wrap k rs \<and> text_at 3 c = text_at 3 k @ concat (map redir_text rs) \<and> (\<forall>x\<in>set rs. good_redir x) \<and>
    good_cmd k \<and> (rs = [] \<or> size k < size c) \<and> (lev k < 3 \<or> (\<exists>ws. k = EXEC ws))"
  using assms
proof (induction c)
  case (REDIR c w mode fd)
  then obtain k rs where k: "c = foldl wrap k rs" "text_at 3 c = text_at 3 k @ concat (map redir_text rs)" "\<forall>x\<in>set rs. good_redir x"
    "good_cmd k" "rs = [] \<or> size k < size c" "lev k < 3 \<or> (\<exists>ws. k = EXEC ws)" by auto
  then have "size k < size (REDIR c w mode fd)" by auto
  then show ?case using k REDIR.prems
    by (intro exI[of _ k] exI[of _ "rs @ [(w, mode, fd)]"]) (auto simp: pair_simps brackets_simps)
next
  case (EXEC ws)
  then show ?case by (intro exI[of _ "EXEC ws"] exI[of _ "[]"]) simp
next
  case (PIPE c d)
  then show ?case by (intro exI[of _ "PIPE c d"] exI[of _ "[]"]) simp
next
  case (LIST c d)
  then show ?case by (intro exI[of _ "LIST c d"] exI[of _ "[]"]) simp
next
  case (BACK c)
  then show ?case by (intro exI[of _ "BACK c"] exI[of _ "[]"]) simp
qed

lemma backs_decomp:
  assumes "good_cmd c"
  shows "\<exists>k n. c = (BACK ^^ n) k \<and> text_at 1 c = text_at 2 k @ replicate n 38 \<and> good_cmd k \<and> (n = 0 \<or> size k < size c) \<and> lev k \<noteq> 1"
  using assms
proof (induction c)
  case (BACK c)
  then obtain k n where k: "c = (BACK ^^ n) k" "text_at 1 c = text_at 2 k @ replicate n 38" "good_cmd k"
    "n = 0 \<or> size k < size c" "lev k \<noteq> 1" by auto
  then have "size k < size (BACK c)" by auto
  then show ?case using k
    by (intro exI[of _ k] exI[of _ "Suc n"]) (auto simp: brackets_def replicate_append_same)
next
  case (EXEC ws)
  then show ?case by (intro exI[of _ "EXEC ws"] exI[of _ 0]) (simp add: brackets_def)
next
  case (PIPE c d)
  then show ?case by (intro exI[of _ "PIPE c d"] exI[of _ 0]) (simp add: brackets_def)
next
  case (LIST c d)
  then show ?case by (intro exI[of _ "LIST c d"] exI[of _ 0]) (simp add: brackets_def)
next
  case (REDIR c w mode fd)
  then show ?case by (intro exI[of _ "REDIR c w mode fd"] exI[of _ 0]) (simp add: brackets_def)
qed

lemma read_backs:
  assumes "drop s b = replicate k 38 @ r" and "follow [41, 59] r"
  shows "parse_backs c b s = ((BACK ^^ k) c, s + k)"
  using assms(1)
proof (induction k arbitrary: s c)
  case 0
  have "nows r" using follow_nows[OF assms(2)] by (simp add: symbols_def)
  then have "peek b s [38] = (False, s)" using peek_eval[of s b r] 0 assms(2) by (auto simp: follow_def)
  then show ?case by (subst parse_backs.simps) simp
next
  case (Suc k)
  let ?y = "replicate k 38 @ r"
  have d: "drop s b = 38 # ?y" using Suc.prems by simp
  have ny: "nows ?y" using follow_nows[OF assms(2)] by (cases k) (auto simp: nows_def whitespace_def symbols_def)
  have p: "peek b s [38] = (True, s)" using peek_eval[OF d] by (auto simp: nows_def whitespace_def)
  have g: "gettoken b s = (38, s, s + 1, s + 1)" by (rule gettoken_symbol[OF d _ ny]) auto
  have "drop (s + 1) b = ?y" using drop_step[of s b "[38]" ?y] d by simp
  then have "parse_backs (BACK c) b (s + 1) = ((BACK ^^ k) (BACK c), s + 1 + k)" by (rule Suc.IH)
  moreover have "parse_backs c b s = parse_backs (BACK c) b (s + 1)" by (subst parse_backs.simps) (simp add: p g)
  ultimately show ?case by (simp add: funpow_swap1)
qed

lemma read_funpow: "read_cmd b ((BACK ^^ k) t) = (BACK ^^ k) (read_cmd b t)"
  by (induction k) auto

lemma follow_mono: "follow toks r \<Longrightarrow> set toks \<subseteq> set toks' \<Longrightarrow> follow toks' r"
  by (auto simp: follow_def)

text \<open>A pipeline, some \<open>&\<close>, and the end of the line or \<open>;\<close> and another line.\<close>

lemma line_end:
  assumes "reads_pipe b k" and "drop s b = text_at 2 k @ replicate j 38 @ r" and "follow [41] r" and "4 * (length b - s) + 4 \<le> n"
  shows "\<exists>t. parseline n b s = Ok (t, s + length (text_at 2 k) + j) \<and> read_cmd b t = (BACK ^^ j) k"
proof -
  obtain n' where n: "n = Suc n'" using assms(4) by (cases n) auto
  have fuel: "4 * (length b - s) + 3 \<le> n'" using assms(4) n by simp
  have "follow [41, 38, 59] (replicate j 38 @ r)" using assms(3) by (cases j) (auto simp: follow_def)
  then obtain t where t: "parsepipe n' b s = Ok (t, s + length (text_at 2 k))" "read_cmd b t = k"
    using readsE[OF assms(1,2)] fuel by blast
  note d = drop_step[OF assms(2)]
  have b: "parse_backs t b (s + length (text_at 2 k)) = ((BACK ^^ j) t, s + length (text_at 2 k) + j)"
    using read_backs[OF d] follow_mono[OF assms(3)] by simp
  have "nows r" using follow_nows[OF assms(3)] by (simp add: symbols_def)
  moreover have dr: "drop (s + length (text_at 2 k) + j) b = r" using drop_step[OF d] by simp
  ultimately have "peek b (s + length (text_at 2 k) + j) [59] = (False, s + length (text_at 2 k) + j)"
    using peek_eval[OF dr] assms(3) by (auto simp: follow_def)
  then show ?thesis using t by (simp add: n b read_funpow)
qed

lemma line_more:
  assumes "reads_pipe b k" and "drop s b = text_at 2 k @ replicate j 38 @ 59 # cmd_text d @ r" and "follow [41] r"
    and "4 * (length b - s) + 4 \<le> n" and "reads_line b d" and "good_cmd d"
  shows "\<exists>t. parseline n b s = Ok (t, s + length (text_at 2 k) + j + 1 + length (cmd_text d)) \<and> read_cmd b t = LIST ((BACK ^^ j) k) d"
proof -
  obtain n' where n: "n = Suc n'" using assms(4) by (cases n) auto
  let ?r = "59 # cmd_text d @ r"
  have fuel: "4 * (length b - s) + 3 \<le> n'" using assms(4) n by simp
  have "follow [41, 38, 59] (replicate j 38 @ ?r)" by (cases j) (auto simp: follow_def)
  then obtain t where t: "parsepipe n' b s = Ok (t, s + length (text_at 2 k))" "read_cmd b t = k"
    using readsE[OF assms(1,2)] fuel by blast
  note dd = drop_step[OF assms(2)]
  let ?s = "s + length (text_at 2 k) + j"
  have b: "parse_backs t b (s + length (text_at 2 k)) = ((BACK ^^ j) t, ?s)"
    using read_backs[OF dd] by (simp add: follow_def)
  have dr: "drop ?s b = ?r" using drop_step[OF dd] by simp
  have nr: "nows (cmd_text d @ r)" using nows_text(1)[OF assms(6)] follow_nows[OF assms(3)] by (simp add: symbols_def)
  have p: "peek b ?s [59] = (True, ?s)" using peek_eval[OF dr] by (auto simp: nows_def whitespace_def)
  have g: "gettoken b ?s = (59, ?s, ?s + 1, ?s + 1)" by (rule gettoken_symbol[OF dr _ nr]) auto
  have d1: "drop (?s + 1) b = cmd_text d @ r" using drop_step[of ?s b "[59]"] dr by simp
  have "?s < length b" using dr by (metis drop_eq_Nil linorder_not_less list.discI)
  then have "4 * (length b - (?s + 1)) + 4 \<le> n'" using assms(4) n by linarith
  then obtain t' where t': "parseline n' b (?s + 1) = Ok (t', ?s + 1 + length (cmd_text d))" "read_cmd b t' = d"
    using readsE[OF assms(5) d1 assms(3)] by blast
  show ?thesis using t t' by (simp add: n b read_funpow p g del: One_nat_def)
qed

lemma pipe_more:
  assumes "reads_exec b c" and "reads_pipe b d" and "good_cmd d"
  shows "reads_pipe b (PIPE c d)"
  unfolding reads_def
proof (intro allI impI, elim conjE)
  fix s r n
  assume d0: "drop s b = text_at 2 (PIPE c d) @ r" and f: "follow [41, 38, 59] r" and n0: "4 * (length b - s) + 3 \<le> n"
  obtain n' where n: "n = Suc n'" using n0 by (cases n) auto
  let ?r = "124 # text_at 2 d @ r"
  have dr: "drop s b = text_at 3 c @ ?r" using d0 by (simp add: brackets_simps)
  have "follow [124, 41, 38, 59] ?r" by (simp add: follow_def)
  then obtain t where t: "parseexec n' b s = Ok (t, s + length (text_at 3 c))" "read_cmd b t = c"
    using readsE[OF assms(1) dr, of n'] n0 n by auto
  let ?s = "s + length (text_at 3 c)"
  note d1 = drop_step[OF dr]
  have nr: "nows (text_at 2 d @ r)" using nows_text(2)[OF assms(3)] follow_nows[OF f] by (simp add: symbols_def)
  have p: "peek b ?s [124] = (True, ?s)" using peek_eval[OF d1] by (auto simp: nows_def whitespace_def)
  have g: "gettoken b ?s = (124, ?s, ?s + 1, ?s + 1)" by (rule gettoken_symbol[OF d1 _ nr]) auto
  have d2: "drop (?s + 1) b = text_at 2 d @ r" using drop_step[of ?s b "[124]"] d1 by simp
  have "?s < length b" using d1 by (metis drop_eq_Nil linorder_not_less list.discI)
  then have "4 * (length b - (?s + 1)) + 3 \<le> n'" using n0 n by linarith
  then obtain t' where "parsepipe n' b (?s + 1) = Ok (t', ?s + 1 + length (text_at 2 d))" "read_cmd b t' = d"
    using readsE[OF assms(2) d2 f] by blast
  then show "\<exists>t. parsepipe n b s = Ok (t, s + length (text_at 2 (PIPE c d))) \<and> read_cmd b t = PIPE c d"
    using t by (simp add: n p g add.assoc brackets_simps del: One_nat_def)
qed

lemma pipe_one:
  assumes "reads_exec b c" and "lev c \<noteq> 2"
  shows "reads_pipe b c"
  unfolding reads_def
proof (intro allI impI, elim conjE)
  fix s r n
  assume d0: "drop s b = text_at 2 c @ r" and f: "follow [41, 38, 59] r" and n0: "4 * (length b - s) + 3 \<le> n"
  obtain n' where n: "n = Suc n'" using n0 by (cases n) auto
  have eq: "text_at 2 c = text_at 3 c" using assms(2) by (simp add: brackets_def)
  then have d1: "drop s b = text_at 3 c @ r" using d0 by simp
  then obtain t where t: "parseexec n' b s = Ok (t, s + length (text_at 3 c))" "read_cmd b t = c"
    using readsE[OF assms(1) d1 follow_mono[OF f], of n'] n0 n by auto
  have "nows r" using follow_nows[OF f] by (simp add: symbols_def)
  then have "peek b (s + length (text_at 3 c)) [124] = (False, s + length (text_at 3 c))"
    using peek_eval[OF drop_step[OF d1]] f by (auto simp: follow_def)
  then show "\<exists>t. parsepipe n b s = Ok (t, s + length (text_at 2 c)) \<and> read_cmd b t = c"
    using t by (simp add: n eq)
qed

lemma exec_block:
  assumes "reads_line b k" and "good_cmd k" and "lev k < 3" and "\<forall>x\<in>set rs. good_redir x"
    and "drop s b = text_at 3 k @ concat (map redir_text rs) @ r" and "follow [124, 41, 38, 59] r" and "4 * (length b - s) + 2 \<le> n"
  shows "\<exists>t. parseexec n b s = Ok (t, s + length (text_at 3 k) + length (concat (map redir_text rs))) \<and> read_cmd b t = foldl wrap k rs"
proof -
  obtain n' where n: "n = Suc (Suc n')" using assms(7) by (cases n; cases "n - 1") auto
  let ?rs = "concat (map redir_text rs)"
  have d0: "drop s b = 40 # cmd_text k @ 41 # ?rs @ r" using assms(3,5) by (simp add: brackets_simps)
  have nr: "nows r" using follow_nows[OF assms(6)] by (simp add: symbols_def)
  then have nrs: "nows (?rs @ r)" by (cases rs) (auto simp: redir_text_def nows_def whitespace_def split: prod.split)
  have nk: "nows (cmd_text k @ 41 # ?rs @ r)" by (rule nows_text(1)[OF assms(2)]) (simp add: nows_def whitespace_def)
  have p: "peek b s [40] = (True, s)" using peek_eval[OF d0] by (auto simp: nows_def whitespace_def)
  have g: "gettoken b s = (40, s, s + 1, s + 1)" by (rule gettoken_symbol[OF d0 _ nk]) auto
  have d1: "drop (s + 1) b = cmd_text k @ 41 # ?rs @ r" using drop_step[of s b "[40]"] d0 by simp
  have "s < length b" using d0 by (metis drop_eq_Nil linorder_not_less list.discI)
  then have "4 * (length b - (s + 1)) + 4 \<le> n'" using assms(7) n by linarith
  moreover have "follow [41] (41 # ?rs @ r)" by (simp add: follow_def)
  ultimately obtain t where t: "parseline n' b (s + 1) = Ok (t, s + 1 + length (cmd_text k))" "read_cmd b t = k"
    using readsE[OF assms(1) d1] by blast
  let ?s = "s + 1 + length (cmd_text k)"
  note d2 = drop_step[OF d1]
  have p2: "peek b ?s [41] = (True, ?s)" using peek_eval[OF d2] by (auto simp: nows_def whitespace_def)
  have g2: "gettoken b ?s = (41, ?s, ?s + 1, ?s + 1)" by (rule gettoken_symbol[OF d2 _ nrs]) auto
  have d3: "drop (?s + 1) b = ?rs @ r" using drop_step[of ?s b "[41]"] d2 by simp
  have "r \<noteq> [] \<Longrightarrow> hd r \<notin> {60, 62}" using assms(6) by (auto simp: follow_def)
  from read_redirs[OF d3 assms(4) nr this, of t] obtain t' where
    "parseredirs t b (?s + 1) = Ok (t', ?s + 1 + length ?rs)" "read_cmd b t' = foldl wrap (read_cmd b t) rs" by blast
  moreover have pos: "s + length (text_at 3 k) + length ?rs = ?s + 1 + length ?rs" using assms(3) by (simp add: brackets_simps)
  ultimately show ?thesis using t unfolding pos by (simp add: n p g p2 g2 del: One_nat_def)
qed

lemma add_args: "fold add_arg ws (EXEC vs) = EXEC (vs @ ws)"
  by (induction ws arbitrary: vs) auto

lemma exec_args:
  assumes "good_cmd (EXEC ws)" and "\<forall>x\<in>set rs. good_redir x"
    and "drop s b = words_text ws @ concat (map redir_text rs) @ r" and "follow [124, 41, 38, 59] r" and "4 * (length b - s) + 2 \<le> n"
  shows "\<exists>t. parseexec n b s = Ok (t, s + length (words_text ws) + length (concat (map redir_text rs))) \<and> read_cmd b t = foldl wrap (EXEC ws) rs"
proof -
  obtain n' where n: "n = Suc n'" using assms(5) by (cases n) auto
  let ?rs = "concat (map redir_text rs)" and ?ws = "words_text ws"
  have ws: "length ws < MAXARGS" "\<forall>w\<in>set ws. good_word w" using assms(1) by auto
  have nr: "nows r" using follow_nows[OF assms(4)] by (simp add: symbols_def)
  then have nrs: "nows (?rs @ r)" by (cases rs) (auto simp: redir_text_def nows_def whitespace_def split: prod.split)
  have ny: "nows (?ws @ ?rs @ r)" using nows_text(1)[OF assms(1) nrs] by simp
  have r': "r \<noteq> [] \<Longrightarrow> hd r \<notin> {60, 62}" using assms(4) by (auto simp: follow_def)
  have hd: "hd (?ws @ ?rs @ r) \<noteq> 40" if "?ws @ ?rs @ r \<noteq> []"
  proof (cases ws)
    case Nil
    then show ?thesis using assms(4) that by (cases rs) (auto simp: words_text_def redir_text_def follow_def split: prod.split)
  next
    case (Cons w vs)
    then show ?thesis using ws(2) good_word_nows(2)[of w] by (auto simp: words_text_def wordch_def symbols_def)
  qed
  have p: "peek b s [40] = (False, s)" using peek_eval[OF assms(3) ny] hd by auto
  have unf: "parseexec n b s = rbind (parseredirs (EXEC []) b s) (\<lambda>(ret, ps). parse_args ret 0 b ps)" by (simp add: n p)
  show ?thesis
  proof (cases "ws = []")
    case True
    then have d: "drop s b = ?rs @ r" using assms(3) by (simp add: words_text_def)
    obtain t where t: "parseredirs (EXEC []) b s = Ok (t, s + length ?rs)" "read_cmd b t = foldl wrap (EXEC []) rs"
      using read_redirs[OF d assms(2) nr r', of "EXEC []"] by auto
    then show ?thesis
      using read_args[of "s + length ?rs" b "[]" rs r 0 t] drop_step[OF d] assms(2,4) True by (simp add: unf words_text_def MAXARGS_def)
  next
    case False
    then have "hd (?ws @ ?rs @ r) \<notin> {60, 62}"
      using ws(2) good_word_nows(2)[of "hd ws"] by (cases ws) (auto simp: words_text_def wordch_def symbols_def)
    then have "parseredirs (EXEC []) b s = Ok (EXEC [], s)" using peek_eval[OF assms(3) ny] by (subst parseredirs.simps) simp
    then show ?thesis
      using read_args[of s b ws rs r 0 "EXEC []"] assms(2,3,4) ws False by (simp add: unf add_args)
  qed
qed

lemma line_one:
  assumes "reads_pipe b c" and "lev c \<ge> 2"
  shows "reads_line b c"
  unfolding reads_def
proof (intro allI impI, elim conjE)
  fix s r n
  assume "drop s b = cmd_text c @ r" "follow [41] r" "4 * (length b - s) + 4 \<le> n"
  then show "\<exists>t. parseline n b s = Ok (t, s + length (cmd_text c)) \<and> read_cmd b t = c"
    using line_end[OF assms(1), of s 0 r n] assms(2) by (simp add: brackets_simps)
qed

lemma line_list:
  assumes "\<And>k. size k < size (LIST c d) \<Longrightarrow> good_cmd k \<Longrightarrow> reads_pipe b k" and "reads_line b d" and "good_cmd (LIST c d)"
  shows "reads_line b (LIST c d)"
  unfolding reads_def
proof (intro allI impI, elim conjE)
  fix s r n
  assume d0: "drop s b = cmd_text (LIST c d) @ r" and f: "follow [41] r" and n0: "4 * (length b - s) + 4 \<le> n"
  obtain k j where k: "c = (BACK ^^ j) k" "text_at 1 c = text_at 2 k @ replicate j 38" "good_cmd k" "j = 0 \<or> size k < size c"
    using backs_decomp assms(3) by (metis good_cmd.simps(4))
  have "size k < size (LIST c d)" using k(1,4) by auto
  then have "reads_pipe b k" using assms(1) k(3) by blast
  moreover have "drop s b = text_at 2 k @ replicate j 38 @ 59 # cmd_text d @ r" using d0 k(2) by simp
  moreover have "length (cmd_text (LIST c d)) = length (text_at 2 k) + j + 1 + length (cmd_text d)" using k(2) by simp
  ultimately show "\<exists>t. parseline n b s = Ok (t, s + length (cmd_text (LIST c d))) \<and> read_cmd b t = LIST c d"
    using line_more[OF _ _ f n0 assms(2)] assms(3) k(1) by (simp add: add.assoc)
qed

lemma line_back:
  assumes "\<And>k. size k < size (BACK c) \<Longrightarrow> good_cmd k \<Longrightarrow> reads_pipe b k" and "good_cmd (BACK c)"
  shows "reads_line b (BACK c)"
  unfolding reads_def
proof (intro allI impI, elim conjE)
  fix s r n
  assume d0: "drop s b = cmd_text (BACK c) @ r" and f: "follow [41] r" and n0: "4 * (length b - s) + 4 \<le> n"
  obtain k j where k: "BACK c = (BACK ^^ j) k" "text_at 1 (BACK c) = text_at 2 k @ replicate j 38" "good_cmd k"
      "j = 0 \<or> size k < size (BACK c)" "lev k \<noteq> 1"
    using backs_decomp[OF assms(2)] by blast
  have "j \<noteq> 0" using k(1,5) by (cases j) auto
  then have "reads_pipe b k" using assms(1) k(3,4) by blast
  moreover have t: "cmd_text (BACK c) = text_at 2 k @ replicate j 38" using k(2) by (simp add: brackets_simps)
  ultimately show "\<exists>t. parseline n b s = Ok (t, s + length (cmd_text (BACK c))) \<and> read_cmd b t = BACK c"
    using line_end[OF _ _ f n0, of k j] d0 k(1) unfolding t by (simp add: add.assoc)
qed

lemma exec_any:
  assumes "good_cmd c" and "\<And>k. size k < size c \<or> k = c \<and> lev c < 3 \<Longrightarrow> good_cmd k \<Longrightarrow> reads_line b k"
  shows "reads_exec b c"
  unfolding reads_def
proof (intro allI impI, elim conjE)
  fix s r n
  assume d0: "drop s b = text_at 3 c @ r" and f: "follow [124, 41, 38, 59] r" and n0: "4 * (length b - s) + 2 \<le> n"
  obtain k rs where k: "c = foldl wrap k rs" "text_at 3 c = text_at 3 k @ concat (map redir_text rs)" "\<forall>x\<in>set rs. good_redir x"
    "good_cmd k" "rs = [] \<or> size k < size c" "lev k < 3 \<or> (\<exists>ws. k = EXEC ws)" using redirs_decomp[OF assms(1)] by blast
  have d1: "drop s b = text_at 3 k @ concat (map redir_text rs) @ r" using d0 k(2) by simp
  show "\<exists>t. parseexec n b s = Ok (t, s + length (text_at 3 c)) \<and> read_cmd b t = c"
  proof (cases "lev k < 3")
    case True
    then have "reads_line b k" using assms(2) k(1,4,5) by auto
    then show ?thesis using exec_block[OF _ k(4) True k(3) d1 f n0] k(1,2) by (simp add: add.assoc)
  next
    case False
    then obtain ws where ws: "k = EXEC ws" using k(6) by blast
    then show ?thesis using exec_args[of ws rs s b r n] k(1-4) d1 f n0 by (simp add: brackets_simps add.assoc)
  qed
qed

lemma read_back: "good_cmd c \<Longrightarrow> reads_line b c \<and> reads_pipe b c \<and> reads_exec b c"
proof (induction "size c" arbitrary: c rule: less_induct)
  case less
  note ih = less.hyps
  have ihp: "size k < size c \<Longrightarrow> good_cmd k \<Longrightarrow> reads_pipe b k" and ihl: "size k < size c \<Longrightarrow> good_cmd k \<Longrightarrow> reads_line b k" for k
    using ih by blast+
  have L: "reads_line b c" if "lev c < 3"
  proof (cases c)
    case (LIST x y)
    then show ?thesis using line_list[of x y b] ihp ihl less.prems by auto
  next
    case (BACK x)
    then show ?thesis using line_back[of x b] ihp less.prems by auto
  next
    case (PIPE x y)
    then have "reads_pipe b c" using pipe_more[of b x y] ih[of x] ih[of y] less.prems by auto
    moreover have "2 \<le> lev c" using PIPE by simp
    ultimately show ?thesis by (rule line_one)
  qed (use that in auto)
  have E: "reads_exec b c" by (rule exec_any[OF less.prems]) (use L ihl in auto)
  have P: "reads_pipe b c"
  proof (cases "lev c = 2")
    case True
    then obtain x y where c: "c = PIPE x y" by (cases c) auto
    then show ?thesis using pipe_more[of b x y] ih[of x] ih[of y] less.prems by auto
  qed (rule pipe_one[OF E])
  have "reads_line b c" using L line_one[OF P] by (cases "lev c < 3") auto
  then show ?case using P E by blast
qed

lemma text_no_zero: "good_cmd c \<Longrightarrow> 0 \<notin> set (cmd_text c)"
proof (induction c)
  case (EXEC ws)
  then show ?case by (auto simp: words_text_def good_word_def wordch_def)
next
  case (REDIR c w mode fd)
  then show ?case by (auto simp: brackets_def redir_text good_word_def wordch_def)
qed (auto simp: brackets_def)

text \<open>C17. The shell reads back what is printed.  A command made of words without white space and symbols, with
  fewer arguments than the array of an \<open>execcmd\<close> holds, printed with brackets where it needs them, is parsed to
  itself: the tree is the same, and the strings its pointers name after \<open>nulterminate\<close> are its words.\<close>

theorem shell_roundtrip:
  assumes "good_cmd c"
  shows "\<exists>t m. parsecmd (cmd_text c) = Ok (t, m) \<and> map_cmd (\<lambda>(q, e). cstr m q) t = c"
proof -
  let ?b = "cmd_text c"
  have "reads_line ?b c" using read_back assms by blast
  moreover have "drop 0 ?b = cmd_text c @ []" "follow [41] []" "4 * (length ?b - 0) + 4 \<le> 4 * length ?b + 4"
    by (simp_all add: follow_def)
  ultimately obtain t where t: "parseline (4 * length ?b + 4) ?b 0 = Ok (t, 0 + length (cmd_text c))" "read_cmd ?b t = c"
    by (rule readsE)
  have p: "peek ?b (length ?b) [] = (False, length ?b)" using peek_eval[of "length ?b" ?b "[]" "[]"] by (simp add: nows_def)
  let ?m = "nulterminate t (mem_of ?b)"
  have eq: "parsecmd ?b = Ok (t, ?m)" using t(1) p by (simp add: parsecmd_def)
  have "words_ok ?b t"
    using parse_total(1)[OF text_no_zero[OF assms], of 0 "4 * length ?b + 4"] t(1) by (simp add: parses_def)
  then have "map_cmd (\<lambda>(q, e). cstr ?m q) t = read_cmd ?b t"
    by (intro cmd.map_cong refl) (auto simp: slice_def intro: cstr_word)
  then show ?thesis using eq t(2) by auto
qed

theorem shell_roundtrip_witness:
  "\<exists>t m. parsecmd (cmd_text (PIPE (REDIR (EXEC [[97]]) [98] RD 0) (BACK (EXEC [[99]])))) = Ok (t, m) \<and>
    map_cmd (\<lambda>(q, e). cstr m q) t = PIPE (REDIR (EXEC [[97]]) [98] RD 0) (BACK (EXEC [[99]]))"
  by (rule shell_roundtrip) (simp add: MAXARGS_def good_word_def wordch_def whitespace_def symbols_def)

end
