(* ===== verification/Shell_Run.thy ===== *)
theory Shell_Run
  imports Shell_Print
begin

text \<open>
  How the shell runs a command (\<open>runcmd\<close>, sh.c): the descriptors every program is started with.  A process
  is its table of descriptors; \<open>open\<close>, \<open>dup\<close> and \<open>pipe\<close> take the lowest free one, as \<open>fdalloc\<close> does.
\<close>

section \<open>Descriptors\<close>

datatype handle = Inherited nat | Opened "byte list" nat | PipeRead nat | PipeWrite nat

type_synonym fds = "nat \<Rightarrow> handle option"

definition low_fd :: "fds \<Rightarrow> nat option" where
  "low_fd f = find (\<lambda>d. f d = None) [0..<16]"

definition give_fd :: "handle \<Rightarrow> fds \<Rightarrow> (nat \<times> fds) option" where
  "give_fd h f = (case low_fd f of None \<Rightarrow> None | Some d \<Rightarrow> Some (d, f(d := Some h)))"

definition close_fd :: "nat \<Rightarrow> fds \<Rightarrow> fds" where
  "close_fd d f = f(d := None)"

definition dup_fd :: "nat \<Rightarrow> fds \<Rightarrow> fds" where
  "dup_fd d f = (case f d of None \<Rightarrow> f | Some h \<Rightarrow> case give_fd h f of None \<Rightarrow> f | Some (_, f) \<Rightarrow> f)"

section \<open>Running\<close>

text \<open>A program started with its arguments and descriptors.\<close>

datatype started = Started "byte list list" fds

text \<open>
  \<open>can_open\<close> says which files can be opened, and \<open>k\<close> numbers the pipes.  The programs started, those of a
  child before those its parent starts afterwards, and the next number.  \<open>fork1\<close> succeeds; where it does not,
  the shell prints a message and stops.
\<close>

primrec runcmd :: "(byte list \<Rightarrow> nat \<Rightarrow> bool) \<Rightarrow> byte list cmd \<Rightarrow> nat \<Rightarrow> fds \<Rightarrow> started list \<times> nat" where
  "runcmd can_open (EXEC argv) k f = (if argv = [] then [] else [Started argv f], k)"
| "runcmd can_open (REDIR c file mode fd) k f =
     (let f = close_fd fd f in
      if \<not> can_open file mode then ([], k)
      else case give_fd (Opened file mode) f of None \<Rightarrow> ([], k) | Some (_, f) \<Rightarrow> runcmd can_open c k f)"
| "runcmd can_open (LIST c d) k f =
     (let (xs, k) = runcmd can_open c k f; (ys, k) = runcmd can_open d k f in (xs @ ys, k))"
| "runcmd can_open (PIPE c d) k f =
     (case give_fd (PipeRead k) f of
        None \<Rightarrow> ([], k)
      | Some (p0, f) \<Rightarrow>
          case give_fd (PipeWrite k) f of
            None \<Rightarrow> ([], k)
          | Some (p1, f) \<Rightarrow>
              let (xs, k) = runcmd can_open c (Suc k) (close_fd p1 (close_fd p0 (dup_fd p1 (close_fd 1 f))));
                  (ys, k) = runcmd can_open d k (close_fd p1 (close_fd p0 (dup_fd p0 (close_fd 0 f))))
              in (xs @ ys, k))"
| "runcmd can_open (BACK c) k f = runcmd can_open c k f"

text \<open>A line of input: \<open>cd\<close> is run by the shell itself, with the last character cut off; anything else by a child.\<close>

datatype line_action = Chdir "byte list" | Run "(span cmd \<times> byte list) res"

definition sh_line :: "byte list \<Rightarrow> line_action" where
  "sh_line buf =
     (if at buf 0 = 99 \<and> at buf 1 = 100 \<and> at buf 2 = 32 then Chdir (drop 3 (take (length buf - 1) buf))
      else Run (parsecmd buf))"

section \<open>What the redirections mean\<close>

text \<open>Every program with its standard input and output.\<close>

primrec meaning :: "(byte list \<Rightarrow> nat \<Rightarrow> bool) \<Rightarrow> byte list cmd \<Rightarrow> nat \<Rightarrow> handle \<Rightarrow> handle \<Rightarrow> (byte list list \<times> handle \<times> handle) list \<times> nat" where
  "meaning can_open (EXEC argv) k i u = (if argv = [] then [] else [(argv, i, u)], k)"
| "meaning can_open (REDIR c file mode fd) k i u =
     (if \<not> can_open file mode then ([], k)
      else if fd = 0 then meaning can_open c k (Opened file mode) u
      else meaning can_open c k i (Opened file mode))"
| "meaning can_open (LIST c d) k i u =
     (let (xs, k) = meaning can_open c k i u; (ys, k) = meaning can_open d k i u in (xs @ ys, k))"
| "meaning can_open (PIPE c d) k i u =
     (let (xs, k') = meaning can_open c (Suc k) i (PipeWrite k); (ys, k') = meaning can_open d k' (PipeRead k) u in (xs @ ys, k'))"
| "meaning can_open (BACK c) k i u = meaning can_open c k i u"

definition std :: "handle \<Rightarrow> handle \<Rightarrow> handle \<Rightarrow> fds" where
  "std i u e = (\<lambda>_. None)(0 := Some i, 1 := Some u, 2 := Some e)"

lemma low_fd_upt: "low_fd f = Some d \<longleftrightarrow> d < 16 \<and> f d = None \<and> (\<forall>j<d. f j \<noteq> None)"
  unfolding low_fd_def find_Some_iff by auto

lemma redir_std: "give_fd h (close_fd 0 (std i u e)) = Some (0, std h u e)" "give_fd h (close_fd 1 (std i u e)) = Some (1, std i h e)"
proof -
  have "low_fd (close_fd 0 (std i u e)) = Some 0" "low_fd (close_fd 1 (std i u e)) = Some 1"
    by (auto simp: low_fd_upt close_fd_def std_def)
  then show "give_fd h (close_fd 0 (std i u e)) = Some (0, std h u e)" "give_fd h (close_fd 1 (std i u e)) = Some (1, std i h e)"
    by (auto simp: give_fd_def close_fd_def std_def fun_eq_iff)
qed

lemma pipe_std:
  "give_fd h (std i u e) = Some (3, (std i u e)(3 := Some h))"
  "give_fd h' ((std i u e)(3 := Some h)) = Some (4, (std i u e)(3 := Some h, 4 := Some h'))"
proof -
  have "low_fd (std i u e) = Some 3" "low_fd ((std i u e)(3 := Some h)) = Some 4"
    by (auto simp: low_fd_upt std_def less_Suc_eq numeral_eq_Suc)
  then show "give_fd h (std i u e) = Some (3, (std i u e)(3 := Some h))"
    "give_fd h' ((std i u e)(3 := Some h)) = Some (4, (std i u e)(3 := Some h, 4 := Some h'))"
    by (simp_all add: give_fd_def)
qed

lemma pipe_children:
  "close_fd 4 (close_fd 3 (dup_fd 4 (close_fd 1 ((std i u e)(3 := Some h, 4 := Some h'))))) = std i h' e"
  "close_fd 4 (close_fd 3 (dup_fd 3 (close_fd 0 ((std i u e)(3 := Some h, 4 := Some h'))))) = std h u e"
proof -
  let ?f = "(std i u e)(3 := Some h, 4 := Some h')"
  have "low_fd (close_fd 1 ?f) = Some 1" "low_fd (close_fd 0 ?f) = Some 0"
    by (auto simp: low_fd_upt close_fd_def std_def)
  then show "close_fd 4 (close_fd 3 (dup_fd 4 (close_fd 1 ?f))) = std i h' e" "close_fd 4 (close_fd 3 (dup_fd 3 (close_fd 0 ?f))) = std h u e"
    by (auto simp: dup_fd_def give_fd_def close_fd_def std_def fun_eq_iff)
qed

text \<open>C24. Redirections and pipelines connect what they say.  Started with three descriptors, the shell starts the programs
  of a command, each with exactly three descriptors: its input and its output are those given by the nearest
  redirection or pipe around it, and no other end of a pipe is left open in any of them, so that a reader sees
  the end of its input when the writers are done.  This is although the code works with \<open>close\<close>, \<open>dup\<close> and
  the rule that a new descriptor is the lowest free one.\<close>

theorem runcmd_meaning:
  assumes "good_cmd c"
  shows "runcmd can_open c k (std i u e) =
    (map (\<lambda>(argv, i', u'). Started argv (std i' u' e)) (fst (meaning can_open c k i u)), snd (meaning can_open c k i u))"
  using assms
proof (induction c arbitrary: k i u)
  case (REDIR c w mode fd)
  then have "fd = 0 \<or> fd = 1" by auto
  then show ?case using REDIR by (auto simp: redir_std simp del: One_nat_def)
next
  case (PIPE c d)
  then show ?case
    by (simp add: pipe_std pipe_children Let_def split: prod.split del: One_nat_def)
qed (auto simp: Let_def split: prod.split)

theorem runcmd_meaning_witness:
  "runcmd (\<lambda>_ _. True) (PIPE (REDIR (EXEC [[97]]) [98] RD 0) (EXEC [[99]])) 7 (std (Inherited 0) (Inherited 1) (Inherited 2)) =
    ([Started [[97]] (std (Opened [98] RD) (PipeWrite 7) (Inherited 2)), Started [[99]] (std (PipeRead 7) (Inherited 1) (Inherited 2))], 8)"
proof -
  have "good_cmd (PIPE (REDIR (EXEC [[97]]) [98] RD 0) (EXEC [[99]]))"
    by (simp add: MAXARGS_def good_word_def wordch_def whitespace_def symbols_def)
  from runcmd_meaning[OF this] show ?thesis by simp
qed

text \<open>Of two redirections of the same descriptor the first one written takes effect: the tree has the last
  outside, and it is done first.\<close>

lemma first_redirection_wins:
  "\<exists>t m. parsecmd (cmd_text (REDIR (REDIR (EXEC [[97]]) [98] WR 1) [99] WR 1)) = Ok (t, m) \<and>
    fst (runcmd (\<lambda>_ _. True) (map_cmd (\<lambda>(q, e). cstr m q) t) 0 (std i u e)) = [Started [[97]] (std i (Opened [98] WR) e)]"
proof -
  let ?c = "REDIR (REDIR (EXEC [[97]]) [98] WR 1) [99] WR 1"
  have "parsecmd (cmd_text ?c) = Ok (REDIR (REDIR (EXEC [(0, 1)]) (3, 4) WR 1) (6, 7) WR 1, [97, 0, 62, 98, 0, 62, 99, 0, 0])"
    by code_simp
  then show ?thesis by (simp add: cstr_def redir_std(2) del: One_nat_def cmd_text.simps)
qed

end
