(* ===== verification/Printf.thy ===== *)
theory Printf
  imports CString
begin

text \<open>
  Formatted output: \<open>printf\<close> of user programs (printf.c) and \<open>cprintf\<close> of the kernel (console.c), as the
  bytes they put out, and that a number printed in decimal reads back with \<open>atoi\<close> (ulib.c).
\<close>

section \<open>Numbers\<close>

text \<open>\<open>0123456789ABCDEF\<close> in user programs and \<open>0123456789abcdef\<close> in the kernel.\<close>

definition digits :: "byte list" where
  "digits = [48, 49, 50, 51, 52, 53, 54, 55, 56, 57, 65, 66, 67, 68, 69, 70]"

definition kdigits :: "byte list" where
  "kdigits = [48, 49, 50, 51, 52, 53, 54, 55, 56, 57, 97, 98, 99, 100, 101, 102]"

text \<open>The \<open>do\<close> loop of \<open>printint\<close>: what it stores in \<open>buf\<close>.  The base is 10 or 16.\<close>

function digit_loop :: "byte list \<Rightarrow> nat \<Rightarrow> nat \<Rightarrow> byte list" where
  "digit_loop ds base x =
     ds ! (x mod base) # (if x div base = 0 \<or> base < 2 then [] else digit_loop ds base (x div base))"
  by pat_completeness auto
termination by (relation "measure (\<lambda>(ds, base, x). x)") (auto simp: div_eq_0_iff)

declare digit_loop.simps [simp del]

text \<open>\<open>buf\<close> as it is before the last loop puts it out from its end.\<close>

definition int_buf :: "byte list \<Rightarrow> uint \<Rightarrow> nat \<Rightarrow> bool \<Rightarrow> byte list" where
  "int_buf ds xx base sg =
     (let neg = (sg \<and> xx <s 0); x = (if neg then - xx else xx) in
      digit_loop ds base (unat x) @ (if neg then [45] else []))"

definition printint :: "uint \<Rightarrow> nat \<Rightarrow> bool \<Rightarrow> byte list" where
  "printint xx base sg = rev (int_buf digits xx base sg)"

definition cprintint :: "uint \<Rightarrow> nat \<Rightarrow> bool \<Rightarrow> byte list" where
  "cprintint xx base sg = rev (int_buf kdigits xx base sg)"

section \<open>Formats\<close>

text \<open>
  The words behind the format on the stack: a number, or a pointer to a string or to nothing.  Reading past
  the last one, or a number where the format asks for a string, is outside what C defines.
\<close>

datatype arg = Num uint | Str "byte list option"

text \<open>\<open>(null)\<close>.\<close>

definition null_str :: "byte list" where
  "null_str = [40, 110, 117, 108, 108, 41]"

fun fmt_num :: "(uint \<Rightarrow> byte list) \<Rightarrow> arg list \<Rightarrow> (byte list \<times> arg list) res" where
  "fmt_num f (Num v # ap) = Ok (f v, ap)"
| "fmt_num f _ = Fault ''argument''"

fun fmt_str :: "arg list \<Rightarrow> (byte list \<times> arg list) res" where
  "fmt_str (Str s # ap) = Ok (case s of None \<Rightarrow> null_str | Some cs \<Rightarrow> cs, ap)"
| "fmt_str _ = Fault ''argument''"

text \<open>The loop of \<open>printf\<close>, in the state after \<open>%\<close> or not (37 is \<open>%\<close>, 100 \<open>d\<close>, 120 \<open>x\<close>, 112 \<open>p\<close>, 115 \<open>s\<close>, 99 \<open>c\<close>).\<close>

fun printf_loop :: "bool \<Rightarrow> byte list \<Rightarrow> arg list \<Rightarrow> byte list res" where
  "printf_loop state [] ap = Ok []"
| "printf_loop False (c # fmt) ap =
     (if c = 37 then printf_loop True fmt ap
      else rbind (printf_loop False fmt ap) (\<lambda>out. Ok (c # out)))"
| "printf_loop True (c # fmt) ap =
     rbind
       (if c = 100 then fmt_num (\<lambda>v. printint v 10 True) ap
        else if c = 120 \<or> c = 112 then fmt_num (\<lambda>v. printint v 16 False) ap
        else if c = 115 then fmt_str ap
        else if c = 99 then fmt_num (\<lambda>v. [ucast v]) ap
        else if c = 37 then Ok ([c], ap)
        else Ok ([37, c], ap)) (\<lambda>(s, ap).
     rbind (printf_loop False fmt ap) (\<lambda>out. Ok (s @ out)))"

definition printf :: "byte list \<Rightarrow> arg list \<Rightarrow> byte list res" where
  "printf fmt ap = printf_loop False fmt ap"

text \<open>\<open>cprintf\<close> looks at the character behind \<open>%\<close> at once.\<close>

fun cprintf_loop :: "byte list \<Rightarrow> arg list \<Rightarrow> byte list res" where
  "cprintf_loop [] argp = Ok []"
| "cprintf_loop (c # fmt) argp =
     (if c \<noteq> 37 then rbind (cprintf_loop fmt argp) (\<lambda>out. Ok (c # out))
      else case fmt of
        [] \<Rightarrow> Ok []
      | c # fmt \<Rightarrow>
          rbind
            (if c = 100 then fmt_num (\<lambda>v. cprintint v 10 True) argp
             else if c = 120 \<or> c = 112 then fmt_num (\<lambda>v. cprintint v 16 False) argp
             else if c = 115 then fmt_str argp
             else if c = 37 then Ok ([37], argp)
             else Ok ([37, c], argp)) (\<lambda>(s, argp).
          rbind (cprintf_loop fmt argp) (\<lambda>out. Ok (s @ out))))"

definition cprintf :: "byte list option \<Rightarrow> arg list \<Rightarrow> byte list res" where
  "cprintf fmt argp = (case fmt of None \<Rightarrow> Panic ''null fmt'' | Some fmt \<Rightarrow> cprintf_loop fmt argp)"

section \<open>Printing and reading numbers\<close>

definition dec :: "byte list \<Rightarrow> nat" where
  "dec cs = foldl (\<lambda>n c. 10 * n + (unat c - 48)) 0 cs"

definition isdigit :: "byte \<Rightarrow> bool" where
  "isdigit c \<longleftrightarrow> 48 \<le> unat c \<and> unat c \<le> 57"

lemma digit_nth:
  assumes "k < 10"
  shows "isdigit (digits ! k)" "unat (digits ! k) - 48 = k"
proof -
  have "\<forall>k\<in>set [0..<10]. isdigit (digits ! k) \<and> unat (digits ! k) - 48 = k" by code_simp
  then show "isdigit (digits ! k)" "unat (digits ! k) - 48 = k" using assms by auto
qed

lemma digit_loop_dec:
  "dec (rev (digit_loop digits 10 x)) = x \<and> (\<forall>c\<in>set (digit_loop digits 10 x). isdigit c)"
proof (induction x rule: less_induct)
  case (less x)
  have unf: "digit_loop digits 10 x = digits ! (x mod 10) # (if x div 10 = 0 then [] else digit_loop digits 10 (x div 10))"
    by (subst digit_loop.simps) simp
  show ?case
  proof (cases "x div 10 = 0")
    case True
    then show ?thesis using digit_nth[of "x mod 10"] unfolding unf by (simp add: dec_def)
  next
    case False
    then have "x div 10 < x" by simp
    then show ?thesis using less[of "x div 10"] False digit_nth[of "x mod 10"] unfolding unf by (simp add: dec_def)
  qed
qed

lemma digit_loop_length: "x < base ^ Suc k \<Longrightarrow> 2 \<le> base \<Longrightarrow> length (digit_loop ds base x) \<le> Suc k"
proof (induction k arbitrary: x)
  case 0
  then show ?case by (subst digit_loop.simps) simp
next
  case (Suc k)
  then have "x div base < base ^ Suc k" by (simp add: less_mult_imp_div_less mult.commute)
  then show ?case using Suc by (subst digit_loop.simps) simp
qed

lemma atoi_digits:
  assumes "\<forall>c\<in>set cs. isdigit c"
  shows "atoi_from (chars cs) (of_nat m) = Some (of_nat (foldl (\<lambda>n c. 10 * n + (unat c - 48)) m cs))"
  using assms
proof (induction cs arbitrary: m)
  case Nil
  then show ?case by (subst atoi_from.simps) (simp add: chars_def)
next
  case (Cons c cs)
  have d: "48 \<le> unat c" "unat c \<le> 57" using Cons.prems by (auto simp: isdigit_def)
  have e: "of_nat m * 10 + ucast c - 48 = (of_nat (10 * m + (unat c - 48)) :: 32 word)"
    using d(1) by (simp add: of_nat_diff)
  have "atoi_from (chars (c # cs)) (of_nat m) = atoi_from (chars cs) (of_nat m * 10 + ucast c - 48)"
    using d by (subst atoi_from.simps) simp
  also have "\<dots> = Some (of_nat (foldl (\<lambda>n c. 10 * n + (unat c - 48)) (10 * m + (unat c - 48)) cs))"
    unfolding e by (rule Cons.IH) (use Cons.prems in simp)
  finally show ?case by simp
qed

lemma sint_split: "sint (x :: uint) = (if uint x < 2147483648 then uint x else uint x - 4294967296)"
proof -
  have "uint x < 4294967296" using unsigned_less[of x] by simp
  moreover have "(uint x + 2147483648) mod 4294967296 = uint x - 2147483648" if "\<not> uint x < 2147483648" "uint x < 4294967296"
    using mod_add_self2[of "uint x - 2147483648" 4294967296] that by (simp add: add.commute)
  ultimately show ?thesis
    using signed_take_bit_eq_take_bit_shift[of 31 "uint x"] by (simp add: sint_uint take_bit_eq_mod)
qed

lemma unat_abs: "int (unat (if x <s 0 then - x else x :: uint)) = \<bar>sint x\<bar>"
proof -
  have r: "uint x < 4294967296" "0 \<le> uint x" using unsigned_less[of x] by simp_all
  have m: "uint (- x) = (- uint x) mod 4294967296" by (simp add: uint_word_ariths)
  show ?thesis
  proof (cases "uint x < 2147483648")
    case True
    then show ?thesis using r by (simp add: word_sless_alt sint_split)
  next
    case False
    have "(- uint x) mod 4294967296 = 4294967296 - uint x"
      using False r by (subst zmod_zminus1_eq_if) auto
    then show ?thesis using False r m by (simp add: word_sless_alt sint_split)
  qed
qed


end
