(* ===== verification/Console.thy ===== *)
theory Console
  imports Fifo
begin

text \<open>
  The console (console.c): the text screen \<open>cgaputc\<close> writes to, and the line editor between the keyboard and
  \<open>read\<close>, a ring of 128 bytes with three free-running indices.
\<close>

section \<open>The screen\<close>

text \<open>The words of the screen memory, and the cursor position in the registers 14 and 15 of the controller.\<close>

record screen =
  crt :: "nat \<Rightarrow> 16 word"
  cursor :: nat

definition BACKSPACE :: int where "BACKSPACE = 0x100"

definition attr :: "int \<Rightarrow> 16 word" where
  "attr c = or (and (of_int c) 0xff) 0x0700"

text \<open>\<open>memmove(crt, crt + 80, ...)\<close> of 23 rows, and zeros from the position to the end of row 24.\<close>

definition scroll :: "nat \<Rightarrow> (nat \<Rightarrow> 16 word) \<Rightarrow> (nat \<Rightarrow> 16 word)" where
  "scroll pos m =
     (\<lambda>i. if pos \<le> i \<and> i < 24 * 80 then 0 else if i < 23 * 80 then m (i + 80) else m i)"

definition cgaputc :: "int \<Rightarrow> screen \<Rightarrow> screen res" where
  "cgaputc c s =
     (let pos = cursor s;
          (pos, m) =
            (if c = 10 then (pos + (80 - pos mod 80), crt s)
             else if c = BACKSPACE then (if 0 < pos then pos - 1 else pos, crt s)
             else (pos + 1, (crt s)(pos := attr c)))
      in if 25 * 80 < pos then Panic ''pos under/overflow''
      else
        let (pos, m) = (if 24 \<le> pos div 80 then (pos - 80, scroll (pos - 80) m) else (pos, m)) in
        Ok \<lparr>crt = m(pos := attr 32), cursor = pos\<rparr>)"

text \<open>What goes to the serial port.\<close>

definition uart_echo :: "int \<Rightarrow> int list" where
  "uart_echo c = (if c = BACKSPACE then [8, 32, 8] else [c])"

text \<open>After a panic every processor that prints stops for good.\<close>

definition consputc :: "bool \<Rightarrow> int \<Rightarrow> int list \<times> screen \<Rightarrow> (int list \<times> screen) res" where
  "consputc panicked c st =
     (case st of (out, s) \<Rightarrow>
      if panicked then Asleep ''panicked''
      else rbind (cgaputc c s) (\<lambda>s. Ok (out @ uart_echo c, s)))"

section \<open>Input\<close>

definition INPUT_BUF :: nat where "INPUT_BUF = 128"

record input =
  ibuf :: "nat \<Rightarrow> byte"
  ir :: uint
  iw :: uint
  ie :: uint

text \<open>The loop of kill-line, over at most as many bytes as there are behind \<open>w\<close>; how often it erases.\<close>

function kill_line :: "input \<Rightarrow> nat \<times> input" where
  "kill_line s =
     (if ie s \<noteq> iw s \<and> ibuf s (unat (ie s - 1) mod INPUT_BUF) \<noteq> 10 then
        let (n, s) = kill_line (s\<lparr>ie := ie s - 1\<rparr>) in (n + 1, s)
      else (0, s))"
  by pat_completeness auto
termination
proof (relation "measure (\<lambda>s. unat (ie s - iw s))", simp, clarsimp)
  fix s :: input
  assume "ie s \<noteq> iw s"
  then show "unat (ie s - 1 - iw s) < unat (ie s - iw s)"
    using unat_diff_Suc[of "iw s" "ie s"] by (simp add: algebra_simps)
qed

declare kill_line.simps [simp del]

definition in_put :: "byte \<Rightarrow> input \<Rightarrow> input" where
  "in_put c s = s\<lparr>ibuf := (ibuf s)(unat (ie s) mod INPUT_BUF := c), ie := ie s + 1\<rparr>"

definition in_get :: "input \<Rightarrow> byte \<times> input" where
  "in_get s = (ibuf s (unat (ir s) mod INPUT_BUF), s\<lparr>ir := ir s + 1\<rparr>)"

text \<open>What one character does: the buffer, the characters echoed, and whether the reader is woken up.\<close>

definition in_char :: "int \<Rightarrow> input \<Rightarrow> int list \<times> bool \<times> input" where
  "in_char c s =
     (if c = 16 then ([], False, s)
      else if c = 21 then let (n, s) = kill_line s in (replicate n BACKSPACE, False, s)
      else if c = 8 \<or> c = 127 then
        if ie s \<noteq> iw s then ([BACKSPACE], False, s\<lparr>ie := ie s - 1\<rparr>) else ([], False, s)
      else if c \<noteq> 0 \<and> unat (ie s - ir s) < INPUT_BUF then
        let c = (if c = 13 then 10 else c); s = in_put (of_int c) s in
        if c = 10 \<or> c = 4 \<or> ie s = ir s + of_nat INPUT_BUF
        then ([c], True, s\<lparr>iw := ie s\<rparr>) else ([c], False, s)
      else ([], False, s))"

text \<open>\<open>consoleintr\<close> on the characters \<open>getc\<close> returns before \<open>-1\<close>: the echo, whether the reader is woken, and
  whether the process table is printed in the end.\<close>

fun consoleintr :: "int list \<Rightarrow> input \<Rightarrow> int list \<times> bool \<times> bool \<times> input" where
  "consoleintr [] s = ([], False, False, s)"
| "consoleintr (c # cs) s =
     (let (echo, wake, s) = in_char c s; (echo', wake', dump, s) = consoleintr cs s in
      (echo @ echo', wake \<or> wake', c = 16 \<or> dump, s))"

text \<open>How \<open>consoleread\<close> ends, or pauses with the bytes copied so far.\<close>

datatype cread = CDone "byte list" | CErr | CSleep "byte list"

text \<open>The loop of \<open>consoleread\<close> with \<open>n\<close> bytes wanted and \<open>done\<close> copied before.\<close>

fun consoleread :: "bool \<Rightarrow> byte list \<Rightarrow> nat \<Rightarrow> input \<Rightarrow> cread \<times> input" where
  "consoleread killed cs 0 s = (CDone cs, s)"
| "consoleread killed cs (Suc n) s =
     (if ir s = iw s then if killed then (CErr, s) else (CSleep cs, s)
      else
        let (c, s) = in_get s in
        if c = 4 then (CDone cs, if cs \<noteq> [] then s\<lparr>ir := ir s - 1\<rparr> else s)
        else if c = 10 then (CDone (cs @ [c]), s)
        else consoleread killed (cs @ [c]) n s)"

text \<open>\<open>consolewrite\<close>.\<close>

definition consolewrite :: "byte list \<Rightarrow> int list \<times> screen \<Rightarrow> (int \<times> int list \<times> screen) res" where
  "consolewrite bs st = rbind (rfold (\<lambda>b. consputc False (int (unat b))) bs st) (\<lambda>st. Ok (int (length bs), st))"

section \<open>The cursor stays on the screen\<close>

definition on_screen :: "screen \<Rightarrow> bool" where
  "on_screen s \<longleftrightarrow> cursor s < 24 * 80"

lemma newline_pos: "pos < 1920 \<Longrightarrow> pos + (80 - pos mod 80) \<le> (1920 :: nat)"
proof -
  assume "pos < 1920"
  then have "pos div 80 < 24" by (simp add: less_mult_imp_div_less)
  moreover have "pos + (80 - pos mod 80) = 80 * (pos div 80) + 80"
    using mult_div_mod_eq[of 80 pos] mod_less_divisor[of 80 pos] by linarith
  ultimately show ?thesis by simp
qed

text \<open>The position and the memory before scrolling.\<close>

lemma cga_tail:
  assumes "pos \<le> 1920" and "\<And>i. 1920 \<le> i \<Longrightarrow> m i = m0 i"
  shows "\<exists>t. (if 25 * 80 < pos then Panic ''pos under/overflow''
      else let (pos, m) = (if 24 \<le> pos div 80 then (pos - 80, scroll (pos - 80) m) else (pos, m)) in
        Ok \<lparr>crt = m(pos := attr 32), cursor = pos\<rparr>) = Ok t \<and> on_screen t \<and> (\<forall>i\<ge>1920. crt t i = m0 i)"
proof (cases "pos = 1920")
  case True
  then show ?thesis using assms(2) by (simp add: on_screen_def scroll_def)
next
  case False
  then have "pos < 1920" "\<not> 24 \<le> pos div 80" using assms(1) by (auto simp: less_mult_imp_div_less not_le)
  then show ?thesis using assms(2) by (simp add: on_screen_def)
qed

lemma cgaputc_ok:
  assumes "on_screen s"
  shows "\<exists>t. cgaputc c s = Ok t \<and> on_screen t \<and> (\<forall>i\<ge>1920. crt t i = crt s i)"
proof -
  define pm where "pm = (if c = 10 then (cursor s + (80 - cursor s mod 80), crt s)
     else if c = BACKSPACE then (if 0 < cursor s then cursor s - 1 else cursor s, crt s)
     else (cursor s + 1, (crt s)(cursor s := attr c)))"
  obtain pos m where pm: "pm = (pos, m)" by fastforce
  have "pos \<le> 1920" "\<And>i. 1920 \<le> i \<Longrightarrow> m i = crt s i"
    using assms newline_pos[of "cursor s"] pm by (auto simp: pm_def on_screen_def split: if_splits)
  from cga_tail[OF this] show ?thesis
    unfolding cgaputc_def Let_def[of "cursor s"] pm_def[symmetric] pm by simp
qed

section \<open>The line editor\<close>

definition in_items :: "input \<Rightarrow> byte list" where
  "in_items s = ring_items INPUT_BUF (ibuf s) (ir s) (ie s)"

definition in_wf :: "input \<Rightarrow> bool" where
  "in_wf s \<longleftrightarrow> unat (ie s - ir s) \<le> INPUT_BUF"

lemma INPUT_BUF_ring: "ring_size INPUT_BUF"
  by (simp add: ring_size_def INPUT_BUF_def)

interpretation cq: fifo in_items in_wf INPUT_BUF in_put in_get
proof unfold_locales
  fix q :: input and x
  show "in_wf q \<Longrightarrow> length (in_items q) \<le> INPUT_BUF"
    by (simp add: in_wf_def in_items_def)
  show "in_wf q \<Longrightarrow> length (in_items q) < INPUT_BUF \<Longrightarrow> in_items (in_put x q) = in_items q @ [x]"
    by (simp add: in_items_def in_put_def ring_put[OF _ INPUT_BUF_ring])
  show "in_wf q \<Longrightarrow> length (in_items q) < INPUT_BUF \<Longrightarrow> in_wf (in_put x q)"
    by (simp add: in_items_def in_put_def in_wf_def unat_Suc_diff[OF _ INPUT_BUF_ring])
  show "in_wf q \<Longrightarrow> in_items q \<noteq> [] \<Longrightarrow> in_items q = fst (in_get q) # in_items (snd (in_get q))"
    by (simp add: in_items_def in_get_def ring_get)
  show "in_wf q \<Longrightarrow> in_items q \<noteq> [] \<Longrightarrow> in_wf (snd (in_get q))"
    using unat_diff_Suc[of "ir q" "ie q"] by (simp add: in_items_def in_get_def in_wf_def)
qed

text \<open>The bytes a reader may have, and the line that is still being edited.\<close>

definition n_committed :: "input \<Rightarrow> nat" where
  "n_committed s = unat (iw s - ir s)"

definition committed :: "input \<Rightarrow> byte list" where
  "committed s = take (n_committed s) (in_items s)"

definition editing :: "input \<Rightarrow> byte list" where
  "editing s = drop (n_committed s) (in_items s)"

definition console_inv :: "input \<Rightarrow> bool" where
  "console_inv s \<longleftrightarrow> in_wf s \<and> n_committed s \<le> length (in_items s) \<and> 10 \<notin> set (editing s)"

text \<open>The line editor on lists.\<close>

definition edit_char :: "int \<Rightarrow> byte list \<times> byte list \<Rightarrow> byte list \<times> byte list" where
  "edit_char c st = (case st of (com, ed) \<Rightarrow>
     if c = 16 then (com, ed)
     else if c = 21 then (com, [])
     else if c = 8 \<or> c = 127 then (com, butlast ed)
     else if c \<noteq> 0 \<and> length com + length ed < INPUT_BUF then
       let ed = ed @ [if c = 13 then 10 else of_int c] in
       if c = 13 \<or> c = 10 \<or> c = 4 \<or> length com + length ed = INPUT_BUF then (com @ ed, []) else (com, ed)
     else (com, ed))"

fun read_line :: "bool \<Rightarrow> byte list \<Rightarrow> nat \<Rightarrow> byte list \<Rightarrow> cread \<times> byte list" where
  "read_line killed cs 0 com = (CDone cs, com)"
| "read_line killed cs (Suc n) [] = (if killed then CErr else CSleep cs, [])"
| "read_line killed cs (Suc n) (c # com) =
     (if c = 4 then (CDone cs, if cs \<noteq> [] then c # com else com)
      else if c = 10 then (CDone (cs @ [c]), com)
      else read_line killed (cs @ [c]) n com)"

lemma ring_butlast:
  assumes "r \<noteq> e"
  shows "ring_items sz d r (e - 1) = butlast (ring_items sz d r e)"
proof -
  have "unat (e - r) = Suc (unat (e - 1 - r))" using unat_diff_Suc[OF assms] by (simp add: algebra_simps)
  then show ?thesis by (simp add: ring_items_def butlast_append)
qed

lemma editing_last:
  assumes "console_inv s" and "ie s \<noteq> iw s"
  shows "editing s \<noteq> []" "last (editing s) = ibuf s (unat (ie s - 1) mod INPUT_BUF)" "ie s \<noteq> ir s"
proof -
  have n: "n_committed s \<noteq> length (in_items s)"
  proof
    assume "n_committed s = length (in_items s)"
    then have "unat (iw s - ir s) = unat (ie s - ir s)" by (simp add: n_committed_def in_items_def)
    then have "iw s - ir s = ie s - ir s" by (rule unsigned_word_eqI)
    then show False using assms(2) by simp
  qed
  then have lt: "n_committed s < length (in_items s)" using assms(1) by (simp add: console_inv_def)
  then show "editing s \<noteq> []" by (simp add: editing_def)
  show ne: "ie s \<noteq> ir s" using lt by (auto simp: in_items_def)
  have k: "unat (ie s - ir s) = Suc (unat (ie s - 1 - ir s))" using unat_diff_Suc[of "ir s" "ie s"] ne by (simp add: algebra_simps)
  have "last (in_items s) = ibuf s (unat (ir s + of_nat (unat (ie s - 1 - ir s))) mod INPUT_BUF)"
    unfolding in_items_def ring_items_def k by simp
  then show "last (editing s) = ibuf s (unat (ie s - 1) mod INPUT_BUF)" using lt by (simp add: editing_def)
qed

text \<open>The state of the editor as a pair of lists.\<close>

definition ed_abs :: "input \<Rightarrow> byte list \<times> byte list" where
  "ed_abs s = (committed s, editing s)"

lemma abs_items: "committed s @ editing s = in_items s"
  by (simp add: committed_def editing_def)

lemma length_abs: "console_inv s \<Longrightarrow> length (committed s) + length (editing s) = unat (ie s - ir s)" "console_inv s \<Longrightarrow> length (committed s) = n_committed s"
  by (simp_all add: console_inv_def committed_def editing_def in_items_def)

lemma split_items: "in_items t = xs @ ys \<Longrightarrow> n_committed t = length xs \<Longrightarrow> committed t = xs \<and> editing t = ys"
  by (simp add: committed_def editing_def)

lemma abs_erase:
  assumes "console_inv s" and "ie s \<noteq> iw s"
  shows "console_inv (s\<lparr>ie := ie s - 1\<rparr>) \<and> ed_abs (s\<lparr>ie := ie s - 1\<rparr>) = (committed s, butlast (editing s))"
proof -
  let ?t = "s\<lparr>ie := ie s - 1\<rparr>"
  note e = editing_last[OF assms]
  have it: "in_items ?t = committed s @ butlast (editing s)"
  proof -
    have "in_items ?t = butlast (in_items s)" using ring_butlast[of "ir s" "ie s"] e(3) by (simp add: in_items_def)
    then show ?thesis unfolding abs_items[of s, symmetric] using e(1) by (simp add: butlast_append)
  qed
  have n: "n_committed ?t = length (committed s)" using length_abs(2)[OF assms(1)] by (simp add: n_committed_def)
  have "ed_abs ?t = (committed s, butlast (editing s))" using split_items[OF it n] by (simp add: ed_abs_def)
  moreover have "in_wf ?t"
    using assms(1) unat_diff_Suc[of "ir s" "ie s"] e(3) by (simp add: console_inv_def in_wf_def algebra_simps)
  ultimately show ?thesis
    using it n assms(1) by (auto simp: console_inv_def ed_abs_def dest: in_set_butlastD)
qed

lemma kill_line_abs: "console_inv s \<Longrightarrow> console_inv (snd (kill_line s)) \<and> ed_abs (snd (kill_line s)) = (committed s, [])"
proof (induction s rule: kill_line.induct)
  case (1 s)
  show ?case
  proof (cases "ie s = iw s")
    case True
    then have "n_committed s = length (in_items s)" by (simp add: n_committed_def in_items_def)
    then show ?thesis using True 1(2) by (subst kill_line.simps, subst kill_line.simps) (simp add: ed_abs_def editing_def)
  next
    case False
    note e = editing_last[OF 1(2) False]
    have "last (editing s) \<noteq> 10" using e(1) 1(2) last_in_set by (metis console_inv_def)
    then have c: "ie s \<noteq> iw s \<and> ibuf s (unat (ie s - 1) mod INPUT_BUF) \<noteq> 10" using False e(2) by simp
    note er = abs_erase[OF 1(2) False]
    have "snd (kill_line s) = snd (kill_line (s\<lparr>ie := ie s - 1\<rparr>))"
      using c by (subst kill_line.simps) (simp split: prod.split)
    then show ?thesis using 1(1)[OF c] er by (auto simp: ed_abs_def)
  qed
qed

lemma of_int_byte_eq:
  assumes "0 \<le> c" and "c < 256"
  shows "(of_int c :: byte) = 10 \<longleftrightarrow> c = 10" "(of_int c :: byte) = 4 \<longleftrightarrow> c = 4"
proof -
  have "uint (of_int c :: byte) = c" using assms by (simp add: take_bit_int_eq_self unsigned_of_int)
  then show "(of_int c :: byte) = 10 \<longleftrightarrow> c = 10" "(of_int c :: byte) = 4 \<longleftrightarrow> c = 4" by auto
qed

lemma abs_put:
  assumes "console_inv s" and "unat (ie s - ir s) < INPUT_BUF"
  shows "in_wf (in_put b s)" "in_items (in_put b s) = committed s @ editing s @ [b]" "n_committed (in_put b s) = length (committed s)"
proof -
  have l: "in_wf s" "length (in_items s) < INPUT_BUF" using assms by (simp_all add: console_inv_def in_items_def)
  show "in_wf (in_put b s)" using cq.put_wf[OF l] .
  show "in_items (in_put b s) = committed s @ editing s @ [b]"
    using cq.put_items[OF l, of b] unfolding abs_items[of s, symmetric] by simp
  show "n_committed (in_put b s) = length (committed s)" using length_abs(2)[OF assms(1)] by (simp add: n_committed_def in_put_def)
qed

lemma in_char_abs:
  assumes "console_inv s" and "0 \<le> c" and "c < 256"
  shows "console_inv (snd (snd (in_char c s))) \<and> ed_abs (snd (snd (in_char c s))) = edit_char c (ed_abs s)"
proof -
  consider "c = 16" | "c = 21" | "c = 8 \<or> c = 127" | "c \<notin> {16, 21, 8, 127}" "\<not> (c \<noteq> 0 \<and> unat (ie s - ir s) < INPUT_BUF)"
    | "c \<notin> {16, 21, 8, 127}" "c \<noteq> 0" "unat (ie s - ir s) < INPUT_BUF" by blast
  then show ?thesis
  proof cases
    case 1
    then show ?thesis using assms(1) by (simp add: in_char_def edit_char_def ed_abs_def)
  next
    case 2
    then show ?thesis using kill_line_abs[OF assms(1)] by (simp add: in_char_def edit_char_def ed_abs_def split: prod.splits) (metis snd_conv)
  next
    case 3
    have "editing s = []" if "ie s = iw s"
      using that by (simp add: editing_def n_committed_def in_items_def)
    then show ?thesis using 3 abs_erase[OF assms(1)] assms(1) by (auto simp: in_char_def edit_char_def ed_abs_def)
  next
    case 4
    then show ?thesis using assms(1) length_abs(1)[OF assms(1)] by (auto simp: in_char_def edit_char_def ed_abs_def)
  next
    case 5
    define b :: byte where "b = (if c = 13 then 10 else of_int c)"
    define t where "t = in_put b s"
    note p = abs_put[OF assms(1) 5(3), of b, folded t_def]
    have b10: "b = 10 \<longleftrightarrow> c = 10 \<or> c = 13" using of_int_byte_eq[OF assms(2,3)] by (auto simp: b_def)
    have len: "length (committed s) + length (editing s @ [b]) = unat (ie t - ir t)"
    proof -
      have "length (in_items t) = unat (ie t - ir t)" by (simp add: in_items_def)
      then show ?thesis unfolding p(2) by simp
    qed
    have full: "ie t = ir t + of_nat INPUT_BUF \<longleftrightarrow> unat (ie t - ir t) = INPUT_BUF"
    proof -
      have "ie t = ir t + of_nat INPUT_BUF \<longleftrightarrow> ie t - ir t = of_nat INPUT_BUF" by (auto simp: algebra_simps)
      also have "\<dots> \<longleftrightarrow> unat (ie t - ir t) = INPUT_BUF"
        using unsigned_word_eqI[of "ie t - ir t" "of_nat INPUT_BUF", where ?'a = nat] by (auto simp: INPUT_BUF_def)
      finally show ?thesis .
    qed
    let ?u = "t\<lparr>iw := ie t\<rparr>"
    have u: "in_items ?u = in_items t" "n_committed ?u = length (in_items t)" "in_wf ?u = in_wf t"
      by (simp_all add: in_items_def n_committed_def in_wf_def)
    have cu: "console_inv ?u" "ed_abs ?u = (committed s @ editing s @ [b], [])"
      using split_items[of ?u "committed s @ editing s @ [b]" "[]"] u p by (simp_all add: console_inv_def ed_abs_def)
    have ct: "console_inv t" "ed_abs t = (committed s, editing s @ [b])" if "c \<noteq> 10" "c \<noteq> 13"
      using split_items[OF p(2,3)] p that b10 assms(1) by (simp_all add: console_inv_def ed_abs_def)
    have eq: "in_char c s = (let c = (if c = 13 then 10 else c) in
        if c = 10 \<or> c = 4 \<or> unat (ie t - ir t) = INPUT_BUF then ([c], True, ?u) else ([c], False, t))"
      using 5 full by (simp add: in_char_def Let_def t_def b_def in_put_def)
    show ?thesis
    proof (cases "c = 13 \<or> c = 10 \<or> c = 4 \<or> unat (ie t - ir t) = INPUT_BUF")
      case True
      then have "snd (snd (in_char c s)) = ?u" by (auto simp: eq)
      moreover have "edit_char c (ed_abs s) = (committed s @ editing s @ [b], [])"
        using True 5 len length_abs(1)[OF assms(1)] by (auto simp: edit_char_def ed_abs_def b_def Let_def)
      ultimately show ?thesis using cu by simp
    next
      case False
      then have "snd (snd (in_char c s)) = t" by (auto simp: eq)
      moreover have "edit_char c (ed_abs s) = (committed s, editing s @ [b])"
        using False 5 len length_abs(1)[OF assms(1)] by (auto simp: edit_char_def ed_abs_def b_def Let_def)
      ultimately show ?thesis using ct False by simp
    qed
  qed
qed

lemma consoleintr_abs:
  assumes "console_inv s" and "\<forall>c\<in>set cs. 0 \<le> c \<and> c < 256"
  shows "case consoleintr cs s of (echo, wake, dump, t) \<Rightarrow> console_inv t \<and> ed_abs t = fold edit_char cs (ed_abs s)"
  using assms
proof (induction cs arbitrary: s)
  case (Cons c cs)
  obtain echo wake t where t: "in_char c s = (echo, wake, t)" by (metis prod_cases3)
  have "console_inv t" "ed_abs t = edit_char c (ed_abs s)" using in_char_abs[OF Cons.prems(1), of c] Cons.prems(2) t by auto
  then show ?case using Cons.IH[of t] Cons.prems(2) t by (auto split: prod.splits)
qed simp

lemma consoleread_abs:
  assumes "console_inv s"
  shows "case consoleread killed cs n s of (r, t) \<Rightarrow> console_inv t \<and> read_line killed cs n (committed s) = (r, committed t) \<and> editing t = editing s"
  using assms
proof (induction killed cs n s rule: consoleread.induct)
  case (2 killed cs n s)
  show ?case
  proof (cases "ir s = iw s")
    case True
    then have "committed s = []" by (simp add: committed_def n_committed_def)
    then show ?thesis using True 2(2) by simp
  next
    case False
    obtain c t where g: "in_get s = (c, t)" by fastforce
    have n: "n_committed s = Suc (n_committed t)"
      using unat_diff_Suc[OF False] g by (auto simp: n_committed_def in_get_def)
    then have "in_items s \<noteq> []" using 2(2) by (auto simp: console_inv_def)
    then have it: "in_items s = c # in_items t" "in_wf t"
      using cq.get_items[of s] cq.get_wf[of s] 2(2) g by (auto simp: console_inv_def)
    have com: "committed s = c # committed t" "editing s = editing t" by (simp_all add: committed_def editing_def n it)
    have inv: "console_inv t" using 2(2) it n by (simp add: console_inv_def com(2))
    have undo: "t\<lparr>ir := ir t - 1\<rparr> = s" using g by (auto simp: in_get_def)
    show ?thesis using 2(1)[OF False g[symmetric] refl] inv False undo 2(2) by (auto simp: g com split: prod.splits)
  qed
qed simp

text \<open>C18. The line editor of the console.  The ring of 128 bytes with its free-running indices is a list of bytes a reader may have
  and the line being typed: a character is added to the line, an erase character takes the last one away, a
  kill character all of them, and a newline, an end of file or a full buffer hand the line over; nothing is stored
  beyond the 128 bytes.  A read returns the next bytes up to a newline or an end of file, which stays for
  the next read unless it is alone, and never sees a character that can still be erased.\<close>

theorem console_line_editor:
  assumes "console_inv s" and "\<forall>c\<in>set cs. 0 \<le> c \<and> c < 256"
  shows "(case consoleintr cs s of (echo, wake, dump, t) \<Rightarrow>
      (committed t, editing t) = fold edit_char cs (committed s, editing s) \<and> console_inv t \<and> length (committed t) + length (editing t) \<le> 128) \<and>
    (case consoleread killed [] n s of (r, t) \<Rightarrow>
      read_line killed [] n (committed s) = (r, committed t) \<and> editing t = editing s \<and> console_inv t)"
proof -
  have "length (committed t) + length (editing t) \<le> 128" if "console_inv t" for t
    using length_abs(1)[OF that] that by (simp add: console_inv_def in_wf_def INPUT_BUF_def)
  then show ?thesis
    using consoleintr_abs[OF assms] consoleread_abs[OF assms(1), of killed "[]" n] by (auto simp: ed_abs_def split: prod.splits)
qed

definition sample_input :: input where
  "sample_input = \<lparr>ibuf = (\<lambda>_. 0), ir = 0xFFFFFFFF, iw = 0xFFFFFFFF, ie = 0xFFFFFFFF\<rparr>"

theorem console_line_editor_witness:
  "case consoleintr [97, 98, 8, 99, 13] sample_input of (echo, wake, dump, t) \<Rightarrow> committed t = [97, 99, 10] \<and> editing t = []"
proof -
  have "console_inv sample_input" "committed sample_input = []" "editing sample_input = []"
    by (simp_all add: sample_input_def console_inv_def in_wf_def n_committed_def editing_def committed_def in_items_def ring_items_def)
  then show ?thesis using console_line_editor[of sample_input "[97, 98, 8, 99, 13]"]
    by (auto simp: edit_char_def INPUT_BUF_def split: prod.splits)
qed

text \<open>C38. The cursor never leaves the screen.  From a position in the 24 rows every character leaves it there, whatever is printed, in any
  number: the panic in \<open>cgaputc\<close> is not reached, and no word of memory behind the screen is written.\<close>

theorem console_screen_bounds:
  assumes "on_screen s"
  shows "\<exists>out t. consolewrite bs (out0, s) = Ok (int (length bs), out, t) \<and> on_screen t \<and> (\<forall>i. 24 * 80 \<le> i \<longrightarrow> crt t i = crt s i)"
proof -
  have "\<exists>out t. rfold (\<lambda>b. consputc False (int (unat b))) bs (out0, s) = Ok (out, t) \<and> on_screen t \<and> (\<forall>i\<ge>1920. crt t i = crt s i)"
    using assms
  proof (induction bs arbitrary: out0 s)
    case (Cons b bs)
    obtain t where t: "cgaputc (int (unat b)) s = Ok t" "on_screen t" "\<forall>i\<ge>1920. crt t i = crt s i" using cgaputc_ok[OF Cons.prems] by blast
    then show ?case using Cons.IH[OF t(2), of "out0 @ uart_echo (int (unat b))"] by (auto simp: consputc_def)
  qed simp
  then show ?thesis by (auto simp: consolewrite_def)
qed

theorem console_screen_bounds_witness:
  "\<exists>out t. consolewrite [10] ([], \<lparr>crt = (\<lambda>_. 0), cursor = 1919\<rparr>) = Ok (1, out, t) \<and> on_screen t"
  using console_screen_bounds[of "\<lparr>crt = (\<lambda>_. 0), cursor = 1919\<rparr>" "[10]" "[]"] by (auto simp: on_screen_def)

end
