(* ===== verification/Kbd.thy ===== *)
theory Kbd
  imports Console
begin

text \<open>
  The keyboard (kbd.c, kbd.h): scan codes to characters with the state of the shift keys, and the characters on
  their way to the console.
\<close>

unbundle bit_operations_syntax

section \<open>Key maps\<close>

definition SHIFT :: nat where [consts_defs]: "SHIFT = 1"
definition CTL :: nat where [consts_defs]: "CTL = 2"
definition ALT :: nat where [consts_defs]: "ALT = 4"
definition CAPSLOCK :: nat where [consts_defs]: "CAPSLOCK = 8"
definition NUMLOCK :: nat where [consts_defs]: "NUMLOCK = 16"
definition SCROLLLOCK :: nat where [consts_defs]: "SCROLLLOCK = 32"
definition E0ESC :: nat where [consts_defs]: "E0ESC = 64"

definition KEY_HOME :: nat where [consts_defs]: "KEY_HOME = 0xe0"
definition KEY_END :: nat where [consts_defs]: "KEY_END = 0xe1"
definition KEY_UP :: nat where [consts_defs]: "KEY_UP = 0xe2"
definition KEY_DN :: nat where [consts_defs]: "KEY_DN = 0xe3"
definition KEY_LF :: nat where [consts_defs]: "KEY_LF = 0xe4"
definition KEY_RT :: nat where [consts_defs]: "KEY_RT = 0xe5"
definition KEY_PGUP :: nat where [consts_defs]: "KEY_PGUP = 0xe6"
definition KEY_PGDN :: nat where [consts_defs]: "KEY_PGDN = 0xe7"
definition KEY_INS :: nat where [consts_defs]: "KEY_INS = 0xe8"
definition KEY_DEL :: nat where [consts_defs]: "KEY_DEL = 0xe9"

text \<open>A table of 256 entries: the first ones in a row, some at their index, and 0 elsewhere.\<close>

definition table :: "nat list \<Rightarrow> (nat \<times> nat) list \<Rightarrow> nat \<Rightarrow> nat" where
  "table xs ys i = (case map_of ys i of Some v \<Rightarrow> v | None \<Rightarrow> if i < length xs then xs ! i else 0)"

definition shiftcode :: "nat \<Rightarrow> nat" where
  "shiftcode = table
    []
     [(0x1D, CTL), (0x2A, SHIFT), (0x36, SHIFT), (0x38, ALT), (0x9D, CTL), (0xB8, ALT)]"

definition togglecode :: "nat \<Rightarrow> nat" where
  "togglecode = table
    []
     [(0x3A, CAPSLOCK), (0x45, NUMLOCK), (0x46, SCROLLLOCK)]"

definition normalmap :: "nat \<Rightarrow> nat" where
  "normalmap = table
    [0, 27, 49, 50, 51, 52, 53, 54, 55, 56, 57, 48, 45, 61, 8, 9,
     113, 119, 101, 114, 116, 121, 117, 105, 111, 112, 91, 93, 10, 0, 97, 115,
     100, 102, 103, 104, 106, 107, 108, 59, 39, 96, 0, 92, 122, 120, 99, 118,
     98, 110, 109, 44, 46, 47, 0, 42, 0, 32, 0, 0, 0, 0, 0, 0,
     0, 0, 0, 0, 0, 0, 0, 55, 56, 57, 45, 52, 53, 54, 43, 49,
     50, 51, 48, 46, 0, 0, 0, 0]
     [(0x9C, 10), (0xB5, 47), (0xC8, KEY_UP), (0xD0, KEY_DN), (0xC9, KEY_PGUP), (0xD1, KEY_PGDN),
      (0xCB, KEY_LF), (0xCD, KEY_RT), (0x97, KEY_HOME), (0xCF, KEY_END), (0xD2, KEY_INS), (0xD3, KEY_DEL)]"

definition shiftmap :: "nat \<Rightarrow> nat" where
  "shiftmap = table
    [0, 27, 33, 64, 35, 36, 37, 94, 38, 42, 40, 41, 95, 43, 8, 9,
     81, 87, 69, 82, 84, 89, 85, 73, 79, 80, 123, 125, 10, 0, 65, 83,
     68, 70, 71, 72, 74, 75, 76, 58, 34, 126, 0, 124, 90, 88, 67, 86,
     66, 78, 77, 60, 62, 63, 0, 42, 0, 32, 0, 0, 0, 0, 0, 0,
     0, 0, 0, 0, 0, 0, 0, 55, 56, 57, 45, 52, 53, 54, 43, 49,
     50, 51, 48, 46, 0, 0, 0, 0]
     [(0x9C, 10), (0xB5, 47), (0xC8, KEY_UP), (0xD0, KEY_DN), (0xC9, KEY_PGUP), (0xD1, KEY_PGDN),
      (0xCB, KEY_LF), (0xCD, KEY_RT), (0x97, KEY_HOME), (0xCF, KEY_END), (0xD2, KEY_INS), (0xD3, KEY_DEL)]"

definition ctlmap :: "nat \<Rightarrow> nat" where
  "ctlmap = table
    [0, 0, 0, 0, 0, 0, 0, 0, 0, 0, 0, 0, 0, 0, 0, 0,
     17, 23, 5, 18, 20, 25, 21, 9, 15, 16, 0, 0, 13, 0, 1, 19,
     4, 6, 7, 8, 10, 11, 12, 0, 0, 0, 0, 28, 26, 24, 3, 22,
     2, 14, 13, 0, 0, 239, 0, 0]
     [(0x9C, 13), (0xB5, 239), (0xC8, KEY_UP), (0xD0, KEY_DN), (0xC9, KEY_PGUP), (0xD1, KEY_PGDN),
      (0xCB, KEY_LF), (0xCD, KEY_RT), (0x97, KEY_HOME), (0xCF, KEY_END), (0xD2, KEY_INS), (0xD3, KEY_DEL)]"

section \<open>Scan codes\<close>

text \<open>
  The bytes waiting in the controller; the status port has \<open>KBS_DIB\<close> set while there are any.  The character, or \<open>-1\<close>, the state
  of the shift keys, and the bytes left.
\<close>

definition charcode :: "nat \<Rightarrow> nat \<Rightarrow> nat" where
  "charcode k = [normalmap, shiftmap, ctlmap, ctlmap] ! k"

definition caps :: "nat \<Rightarrow> nat" where
  "caps c = (if 97 \<le> c \<and> c \<le> 122 then c - 32 else if 65 \<le> c \<and> c \<le> 90 then c + 32 else c)"

definition kbd_press :: "nat \<Rightarrow> nat \<Rightarrow> int \<times> nat" where
  "kbd_press shift data =
     (let shift = shift OR shiftcode data; shift = shift XOR togglecode data;
          c = charcode (shift AND (CTL OR SHIFT)) data
      in (int (if shift AND CAPSLOCK \<noteq> 0 then caps c else c), shift))"

definition clear :: "nat \<Rightarrow> nat \<Rightarrow> nat" where
  "clear bits shift = unat ((of_nat shift :: uint) AND NOT (of_nat bits))"

definition kbdgetc :: "nat \<Rightarrow> byte list \<Rightarrow> int \<times> nat \<times> byte list" where
  "kbdgetc shift inp =
     (case inp of
        [] \<Rightarrow> (-1, shift, [])
      | b # inp \<Rightarrow>
          let data = unat b in
          if data = 0xE0 then (0, shift OR E0ESC, inp)
          else if data AND 0x80 \<noteq> 0 then
            let data = (if shift AND E0ESC \<noteq> 0 then data else data AND 0x7F) in
            (0, clear (shiftcode data OR E0ESC) shift, inp)
          else
            let (data, shift) = (if shift AND E0ESC \<noteq> 0 then (data OR 0x80, clear E0ESC shift) else (data, shift));
                (c, shift) = kbd_press shift data
            in (c, shift, inp))"

text \<open>The characters \<open>consoleintr\<close> takes from \<open>kbdgetc\<close> until it returns \<open>-1\<close>.\<close>

fun kbd_chars :: "nat \<Rightarrow> byte list \<Rightarrow> int list \<times> nat" where
  "kbd_chars shift [] = ([], shift)"
| "kbd_chars shift (b # inp) =
     (let (c, shift, _) = kbdgetc shift (b # inp); (cs, shift) = kbd_chars shift inp in (c # cs, shift))"

definition kbdintr :: "nat \<Rightarrow> byte list \<Rightarrow> input \<Rightarrow> nat \<times> int list \<times> bool \<times> bool \<times> input" where
  "kbdintr shift inp s = (let (cs, shift) = kbd_chars shift inp in (shift, consoleintr cs s))"

section \<open>Ranges\<close>

lemma table_bound:
  assumes "\<forall>v\<in>set xs. v < n" and "\<forall>v\<in>snd ` set ys. v < n" and "0 < n"
  shows "table xs ys i < n"
  using assms by (fastforce simp: table_def split: option.split dest: map_of_SomeD)

lemma table_bounds: "shiftcode i < 128" "togglecode i < 128" "normalmap i < 256" "shiftmap i < 256" "ctlmap i < 256"
  unfolding shiftcode_def togglecode_def normalmap_def shiftmap_def ctlmap_def
  by (rule table_bound; simp add: consts_defs)+

lemma charcode_bound:
  assumes "k < 4"
  shows "charcode k i < 256"
proof -
  consider "k = 0" | "k = 1" | "k = 2" | "k = 3" using assms by linarith
  then show ?thesis by cases (simp_all add: charcode_def table_bounds)
qed

lemma lt_128: "x < 128 \<longleftrightarrow> take_bit 7 x = (x :: nat)"
  using take_bit_nat_eq_self_iff[of 7 x] by simp

lemma shift_bits: "x < 128 \<Longrightarrow> y < 128 \<Longrightarrow> x OR y < 128" "x < 128 \<Longrightarrow> y < 128 \<Longrightarrow> x XOR y < (128 :: nat)"
  by (simp_all add: lt_128)

lemma clear_bits: "x < 128 \<Longrightarrow> clear y x < 128"
proof -
  assume x: "x < 128"
  have "unat (of_nat x :: uint) = x" using x by (simp add: unsigned_of_nat take_bit_nat_eq_self)
  then have "clear y x = x AND unat (NOT (of_nat y) :: uint)" by (simp add: clear_def unsigned_and_eq)
  moreover have "x AND z = take_bit 7 (x AND z)" for z
    using x by (simp add: lt_128 take_bit_and) (metis and.assoc and.commute take_bit_eq_mask)
  ultimately show ?thesis by (metis lt_128)
qed

lemma press_type:
  assumes "shift < 128"
  shows "case kbd_press shift data of (c, shift') \<Rightarrow> 0 \<le> c \<and> c < 256 \<and> shift' < 128"
proof -
  let ?s = "(shift OR shiftcode data) XOR togglecode data"
  have s: "?s < 128" using assms shift_bits table_bounds by simp
  have "CTL OR SHIFT = mask 2" by (simp add: consts_defs mask_eq_exp_minus_1)
  then have "?s AND (CTL OR SHIFT) < 4" using take_bit_nat_less_exp[of 2 ?s] by (simp add: take_bit_eq_mask)
  then have "charcode (?s AND (CTL OR SHIFT)) data < 256" using charcode_bound by simp
  then show ?thesis using s by (auto simp: kbd_press_def caps_def Let_def)
qed

lemma kbdgetc_type:
  assumes "shift < 128"
  shows "case kbdgetc shift inp of (c, shift', inp') \<Rightarrow> (c = -1 \<longleftrightarrow> inp = []) \<and> -1 \<le> c \<and> c < 256 \<and> shift' < 128 \<and> inp' = tl inp"
proof (cases inp)
  case (Cons b bs)
  show ?thesis
    using press_type[OF assms, of "unat b"] press_type[OF clear_bits[OF assms, of E0ESC], of "unat b OR 0x80"] Cons assms clear_bits[OF assms] shift_bits
    by (auto simp: kbdgetc_def Let_def consts_defs split: prod.splits)
qed (use assms in \<open>simp add: kbdgetc_def\<close>)

lemma kbd_chars_type:
  "shift < 128 \<Longrightarrow> case kbd_chars shift inp of (cs, shift') \<Rightarrow> (\<forall>c\<in>set cs. 0 \<le> c \<and> c < 256) \<and> shift' < 128"
proof (induction inp arbitrary: shift)
  case (Cons b inp)
  obtain c sh i where g: "kbdgetc shift (b # inp) = (c, sh, i)" by (metis prod_cases3)
  then have "0 \<le> c" "c < 256" "sh < 128" using kbdgetc_type[OF Cons.prems, of "b # inp"] by auto
  then show ?case using Cons.IH[of sh] g by (auto split: prod.splits)
qed simp



end
