(* ===== verification/Mp.thy ===== *)
theory Mp
  imports Kalloc
begin

text \<open>
  The search for the tables of the multiprocessor specification (mp.c, mp.h).  Memory is a function from kernel addresses
  to bytes; the fields of the structures are read at their offsets.  Addresses are not reduced modulo the size of a word: arithmetic
  on a pointer that leaves it is undefined in C.
\<close>

section \<open>The tables\<close>

definition NCPU :: nat where [consts_defs]: "NCPU = 8"

text \<open>Sizes of \<open>struct mp\<close>, \<open>struct mpconf\<close>, \<open>struct mpproc\<close> and \<open>struct mpioapic\<close>.\<close>

definition MP_SIZE :: nat where "MP_SIZE = 16"
definition MPCONF_SIZE :: nat where "MPCONF_SIZE = 44"
definition MPPROC_SIZE :: nat where "MPPROC_SIZE = 20"
definition MPIOAPIC_SIZE :: nat where "MPIOAPIC_SIZE = 8"

definition MPPROC :: byte where "MPPROC = 0"
definition MPBUS :: byte where "MPBUS = 1"
definition MPIOAPIC :: byte where "MPIOAPIC = 2"
definition MPIOINTR :: byte where "MPIOINTR = 3"
definition MPLINTR :: byte where "MPLINTR = 4"

lemmas mp_defs = MP_SIZE_def MPCONF_SIZE_def MPPROC_SIZE_def MPIOAPIC_SIZE_def MPPROC_def MPBUS_def MPIOAPIC_def MPIOINTR_def MPLINTR_def

text \<open>The sum of the bytes, cut to a byte on return.\<close>

definition mp_sum :: "mem \<Rightarrow> nat \<Rightarrow> nat \<Rightarrow> byte" where
  "mp_sum m addr len = of_nat (fold (\<lambda>i a. a + unat (m (addr + i))) [0..<len] 0)"

text \<open>\<open>memcmp(p, s, 4) == 0\<close> for a string literal \<open>s\<close> of four bytes.\<close>

definition has_sig :: "mem \<Rightarrow> nat \<Rightarrow> byte list \<Rightarrow> bool" where
  "has_sig m p s \<longleftrightarrow> memcmp (\<lambda>i. m (p + i)) (\<lambda>i. s ! i) 4 = 0"

definition MP_SIG :: "byte list" where "MP_SIG = [95, 77, 80, 95]"
definition PCMP_SIG :: "byte list" where "PCMP_SIG = [80, 67, 77, 80]"

function mp_scan :: "mem \<Rightarrow> nat \<Rightarrow> nat \<Rightarrow> nat option" where
  "mp_scan m p e =
     (if p < e then if has_sig m p MP_SIG \<and> mp_sum m p MP_SIZE = 0 then Some p else mp_scan m (p + MP_SIZE) e
      else None)"
  by pat_completeness auto
termination by (relation "measure (\<lambda>(m, p, e). e - p)") (auto simp: MP_SIZE_def)

declare mp_scan.simps [simp del]

definition mpsearch1 :: "mem \<Rightarrow> nat \<Rightarrow> nat \<Rightarrow> nat option" where
  "mpsearch1 m a len = mp_scan m (P2V a) (P2V a + len)"

text \<open>\<open>p - 1024\<close> is computed on an unsigned word.\<close>

definition mpsearch :: "mem \<Rightarrow> nat option" where
  "mpsearch m =
     (let bda = P2V 0x400; p = get16 m (bda + 0x0E) * 16;
          mp = (if p \<noteq> 0 then mpsearch1 m p 1024
                else mpsearch1 m ((get16 m (bda + 0x13) * 1024 + (4294967296 - 1024)) mod 4294967296) 1024)
      in if mp \<noteq> None then mp else mpsearch1 m 0xF0000 0x10000)"

text \<open>The addresses of the floating pointer and of the configuration table.\<close>

definition mpconfig :: "mem \<Rightarrow> (nat \<times> nat) option" where
  "mpconfig m =
     (case mpsearch m of
        None \<Rightarrow> None
      | Some mp \<Rightarrow>
          let physaddr = get32 m (mp + 4); conf = P2V physaddr in
          if physaddr = 0 then None
          else if \<not> has_sig m conf PCMP_SIG then None
          else if m (conf + 6) \<noteq> 1 \<and> m (conf + 6) \<noteq> 4 then None
          else if mp_sum m conf (get16 m (conf + 4)) \<noteq> 0 then None
          else Some (mp, conf))"

text \<open>The processors found, the number of the I/O APIC and the address of the local APIC.\<close>

record mp_state =
  cpu_ids :: "byte list"
  ioapicid :: byte
  lapic :: nat

definition add_cpu :: "byte \<Rightarrow> mp_state \<Rightarrow> mp_state" where
  "add_cpu i s = (if length (cpu_ids s) < NCPU then s\<lparr>cpu_ids := cpu_ids s @ [i]\<rparr> else s)"

text \<open>The loop of \<open>mpinit\<close> over the entries from \<open>p\<close> to \<open>e\<close>; the \<open>break\<close> of its default case leaves the \<open>switch\<close> only.\<close>

partial_function (option) mp_loop :: "mem \<Rightarrow> nat \<Rightarrow> nat \<Rightarrow> bool \<Rightarrow> mp_state \<Rightarrow> (bool \<times> mp_state) option" where
  "mp_loop m p e ismp s =
     (if p < e then
        if m p = MPPROC then mp_loop m (p + MPPROC_SIZE) e ismp (add_cpu (m (p + 1)) s)
        else if m p = MPIOAPIC then mp_loop m (p + MPIOAPIC_SIZE) e ismp (s\<lparr>ioapicid := m (p + 1)\<rparr>)
        else if m p = MPBUS \<or> m p = MPIOINTR \<or> m p = MPLINTR then mp_loop m (p + 8) e ismp s
        else mp_loop m p e False s
      else Some (ismp, s))"

text \<open>Whether the IMCR has to be programmed, and what was found; \<open>None\<close> when it does not return.\<close>

definition mpinit :: "mem \<Rightarrow> mp_state \<Rightarrow> (bool \<times> mp_state) res option" where
  "mpinit m s =
     (case mpconfig m of
        None \<Rightarrow> Some (Panic ''Expect to run on an SMP'')
      | Some (mp, conf) \<Rightarrow>
          map_option (\<lambda>(ismp, s). if \<not> ismp then Panic (''Didn'' @ [CHR 0x27] @ ''t find a suitable machine'') else Ok (m (mp + 12) \<noteq> 0, s))
            (mp_loop m (conf + MPCONF_SIZE) (conf + get16 m (conf + 4)) True (s\<lparr>lapic := get32 m (conf + 36)\<rparr>)))"

section \<open>What the loop finds\<close>

datatype entry = PROC byte | IOAPIC byte | OTHER byte

fun entry_size :: "entry \<Rightarrow> nat" where
  "entry_size (PROC _) = MPPROC_SIZE"
| "entry_size (IOAPIC _) = MPIOAPIC_SIZE"
| "entry_size (OTHER _) = 8"

fun entry_at :: "mem \<Rightarrow> nat \<Rightarrow> entry \<Rightarrow> bool" where
  "entry_at m p (PROC i) \<longleftrightarrow> m p = MPPROC \<and> m (p + 1) = i"
| "entry_at m p (IOAPIC i) \<longleftrightarrow> m p = MPIOAPIC \<and> m (p + 1) = i"
| "entry_at m p (OTHER t) \<longleftrightarrow> m p = t \<and> t \<in> {MPBUS, MPIOINTR, MPLINTR}"

fun entries_at :: "mem \<Rightarrow> nat \<Rightarrow> entry list \<Rightarrow> bool" where
  "entries_at m p [] = True"
| "entries_at m p (x # xs) \<longleftrightarrow> entry_at m p x \<and> entries_at m (p + entry_size x) xs"

fun note_entry :: "entry \<Rightarrow> mp_state \<Rightarrow> mp_state" where
  "note_entry (PROC i) s = add_cpu i s"
| "note_entry (IOAPIC i) s = s\<lparr>ioapicid := i\<rparr>"
| "note_entry (OTHER _) s = s"

definition total :: "entry list \<Rightarrow> nat" where
  "total xs = sum_list (map entry_size xs)"

lemma total_simps [simp]: "total [] = 0" "total (x # xs) = entry_size x + total xs"
  by (simp_all add: total_def)

lemma loop_entries:
  assumes "entries_at m p xs" and "p + total xs \<le> e"
  shows "mp_loop m p e ismp s = mp_loop m (p + total xs) e ismp (fold note_entry xs s)"
  using assms
proof (induction xs arbitrary: p s)
  case (Cons x xs)
  have pos: "p < e" using Cons.prems(2) by (cases x) (auto simp: mp_defs)
  have "mp_loop m p e ismp s = mp_loop m (p + entry_size x) e ismp (note_entry x s)"
    using Cons.prems(1) pos by (subst mp_loop.simps) (cases x; auto simp: mp_defs)
  also have "\<dots> = mp_loop m (p + entry_size x + total xs) e ismp (fold note_entry xs (note_entry x s))"
    by (rule Cons.IH) (use Cons.prems in auto)
  finally show ?case by (simp add: add.assoc)
qed simp

definition known :: "byte \<Rightarrow> bool" where
  "known t \<longleftrightarrow> t \<in> {MPPROC, MPBUS, MPIOAPIC, MPIOINTR, MPLINTR}"

text \<open>A loop that comes to an entry of an unknown type never ends, so the flag that its default case clears is never seen cleared.\<close>

lemma loop_result:
  assumes "mp_loop m p e ismp s = Some r"
  shows "fst r = ismp \<and> (p < e \<longrightarrow> known (m p))"
proof (rule mp_loop.raw_induct[OF _ assms])
  fix loop :: "mem \<Rightarrow> nat \<Rightarrow> nat \<Rightarrow> bool \<Rightarrow> mp_state \<Rightarrow> (bool \<times> mp_state) option" and m p e ismp s r
  assume IH: "\<And>m p e ismp s r. loop m p e ismp s = Some r \<Longrightarrow> fst r = ismp \<and> (p < e \<longrightarrow> known (m p))"
    and r: "(if p < e then
        if m p = MPPROC then loop m (p + MPPROC_SIZE) e ismp (add_cpu (m (p + 1)) s)
        else if m p = MPIOAPIC then loop m (p + MPIOAPIC_SIZE) e ismp (s\<lparr>ioapicid := m (p + 1)\<rparr>)
        else if m p = MPBUS \<or> m p = MPIOINTR \<or> m p = MPLINTR then loop m (p + 8) e ismp s
        else loop m p e False s
      else Some (ismp, s)) = Some r"
  show "fst r = ismp \<and> (p < e \<longrightarrow> known (m p))"
  proof (cases "p < e \<and> \<not> known (m p)")
    case True
    then have "loop m p e False s = Some r" using r by (auto simp: known_def)
    from IH[OF this] show ?thesis using True by blast
  next
    case False
    then show ?thesis using r IH by (auto simp: known_def split: if_splits)
  qed
qed

lemma loop_stuck: "p < e \<Longrightarrow> \<not> known (m p) \<Longrightarrow> mp_loop m p e ismp s = None"
  using loop_result by (metis option.exhaust)

lemma loop_end: "mp_loop m e e ismp s = Some (ismp, s)"
  by (subst mp_loop.simps) simp

definition cpus_of :: "entry list \<Rightarrow> byte list" where
  "cpus_of xs = concat (map (\<lambda>x. case x of PROC i \<Rightarrow> [i] | _ \<Rightarrow> []) xs)"

definition ioapics_of :: "entry list \<Rightarrow> byte list" where
  "ioapics_of xs = concat (map (\<lambda>x. case x of IOAPIC i \<Rightarrow> [i] | _ \<Rightarrow> []) xs)"

lemma fold_cpus: "length (cpu_ids s) \<le> NCPU \<Longrightarrow> cpu_ids (fold note_entry xs s) = take NCPU (cpu_ids s @ cpus_of xs)"
proof (induction xs arbitrary: s)
  case (Cons x xs)
  show ?case
  proof (cases x)
    case (PROC i)
    show ?thesis
    proof (cases "length (cpu_ids s) < NCPU")
      case True
      then show ?thesis using Cons.IH[of "add_cpu i s"] by (simp add: PROC add_cpu_def cpus_of_def)
    next
      case False
      then show ?thesis using Cons by (simp add: PROC add_cpu_def cpus_of_def)
    qed
  qed (use Cons in \<open>simp_all add: cpus_of_def\<close>)
qed (simp add: cpus_of_def)

lemma fold_ioapic: "ioapicid (fold note_entry xs s) = (if ioapics_of xs = [] then ioapicid s else List.last (ioapics_of xs))"
proof (induction xs arbitrary: s)
  case (Cons x xs)
  then show ?case by (cases x) (simp_all add: ioapics_of_def add_cpu_def)
qed (simp add: ioapics_of_def)

lemma fold_lapic: "lapic (fold note_entry xs s) = lapic s"
proof (induction xs arbitrary: s)
  case (Cons x xs)
  then show ?case by (cases x) (simp_all add: add_cpu_def)
qed simp

definition unsuitable :: string where
  "unsuitable = ''Didn'' @ [CHR 0x27] @ ''t find a suitable machine''"

text \<open>C40. The processors the kernel starts with.  When the entries of the configuration table that passed the checks fill
  it, \<open>mpinit\<close> returns with the processors in the order of the table, at most \<open>NCPU\<close> of them, the last I/O APIC and the address of the
  local APIC.  When an entry of an unknown type follows them it does not return: its default case leaves the \<open>switch\<close> without
  moving on, and the message on an unsuitable machine behind the loop is never printed, for any memory.\<close>

theorem mpinit_exact:
  assumes "mpconfig m = Some (mp, conf)" and "entries_at m (conf + MPCONF_SIZE) xs" and "length (cpu_ids s) \<le> NCPU"
    and "e = conf + get16 m (conf + 4)" and "p = conf + MPCONF_SIZE + total xs"
  shows "(p = e \<longrightarrow> (\<exists>t. mpinit m s = Some (Ok (m (mp + 12) \<noteq> 0, t)) \<and> cpu_ids t = take NCPU (cpu_ids s @ cpus_of xs) \<and>
      lapic t = get32 m (conf + 36) \<and> ioapicid t = (if ioapics_of xs = [] then ioapicid s else List.last (ioapics_of xs)))) \<and>
    (p < e \<and> \<not> known (m p) \<longrightarrow> mpinit m s = None) \<and> mpinit m' s' \<noteq> Some (Panic unsuitable)"
proof -
  let ?s = "s\<lparr>lapic := get32 m (conf + 36)\<rparr>"
  have run: "mp_loop m (conf + MPCONF_SIZE) e True ?s = mp_loop m p e True (fold note_entry xs ?s)" if "p \<le> e"
    using loop_entries[OF assms(2), of e] that assms(5) by simp
  have ok: "\<exists>t. mpinit m s = Some (Ok (m (mp + 12) \<noteq> 0, t)) \<and> cpu_ids t = take NCPU (cpu_ids s @ cpus_of xs) \<and>
      lapic t = get32 m (conf + 36) \<and> ioapicid t = (if ioapics_of xs = [] then ioapicid s else List.last (ioapics_of xs))" if "p = e"
    using run that assms(3) by (simp add: mpinit_def assms(1) fold_cpus fold_ioapic fold_lapic loop_end flip: assms(4))
  have stuck: "mpinit m s = None" if "p < e" "\<not> known (m p)"
    using run that loop_stuck[of p e m] by (simp add: mpinit_def assms(1) flip: assms(4))
  have "mpinit m' s' \<noteq> Some (Panic unsuitable)"
    using loop_result by (fastforce simp: mpinit_def unsuitable_def split: option.splits prod.splits if_splits)
  with ok stuck show ?thesis by blast
qed

text \<open>A table with two processors and an I/O APIC, and the same table with an entry of type 9 behind them.\<close>

definition sample_table :: "byte \<Rightarrow> byte \<Rightarrow> byte list \<Rightarrow> byte list" where
  "sample_table len chk rest =
     [80, 67, 77, 80, len, 0, 4, chk] @ replicate 28 0 @ [0, 0, 0xE0, 0xFE, 0, 0, 0, 0] @
     (0 # 0 # replicate 18 0) @ (0 # 1 # replicate 18 0) @ (2 # 2 # replicate 6 0) @ rest"

definition sample_bios :: "byte list \<Rightarrow> mem" where
  "sample_bios tbl =
     (\<lambda>a. if a = 0x8000040F then 0x9F
          else if 0x8009F000 \<le> a \<and> a < 0x8009F010 then
            [95, 77, 80, 95, 0, 0xF1, 9, 0, 1, 4, 166, 0, 0, 0, 0, 0] ! (a - 0x8009F000)
          else if 0x8009F100 \<le> a \<and> a < 0x8009F100 + length tbl then tbl ! (a - 0x8009F100) else 0)"

lemma numeral_sum_upt: "fold (\<lambda>i a. a + f i) [0..<n] (0::nat) = sum_list (map f [0..<n])"
proof -
  have "fold (\<lambda>i a. a + f i) xs (c::nat) = c + sum_list (map f xs)" for xs c
    by (induction xs arbitrary: c) auto
  then show ?thesis by simp
qed

lemma sample_sum:
  "mp_sum (sample_bios tbl) 0x8009F100 (length tbl) = of_nat (sum_list (map unat tbl))"
proof -
  have "map (\<lambda>i. unat (sample_bios tbl (0x8009F100 + i))) [0..<length tbl] = map unat tbl"
    by (rule nth_equalityI) (auto simp: sample_bios_def)
  then show ?thesis by (simp add: mp_sum_def numeral_sum_upt)
qed

lemma sample_mp: "mp_sum (sample_bios tbl) 0x8009F000 16 = 0"
  by (simp add: mp_sum_def numeral_sum_upt upt_rec sample_bios_def)

lemma has_sig_iff: "has_sig m p [a, b, c, d] \<longleftrightarrow> m p = a \<and> m (p + 1) = b \<and> m (p + 2) = c \<and> m (p + 3) = d"
proof -
  have "memcmp s t 4 = 0 \<longleftrightarrow> s 0 = t 0 \<and> s 1 = t 1 \<and> s 2 = t 2 \<and> s 3 = t 3" for s t
    by (simp add: eval_nat_numeral adv_def)
  then show ?thesis by (simp add: has_sig_def)
qed

lemma sample_config:
  assumes "tbl = sample_table len chk rest" and "length tbl = unat len" and "of_nat (sum_list (map unat tbl)) = (0 :: byte)"
  shows "mpconfig (sample_bios tbl) = Some (0x8009F000, 0x8009F100)"
proof -
  have len: "92 \<le> length tbl" by (simp add: assms(1) sample_table_def)
  have b: "sample_bios tbl (0x8009F100 + i) = tbl ! i" if "i < 92" for i
    using that len by (simp add: sample_bios_def)
  have t: "tbl ! 0 = 80" "tbl ! 1 = 67" "tbl ! 2 = 77" "tbl ! 3 = 80" "tbl ! 4 = len" "tbl ! 5 = 0" "tbl ! 6 = 4"
    by (simp_all add: assms(1) sample_table_def)
  have head: "get16 (sample_bios tbl) 0x8009F104 = length tbl" "sample_bios tbl 0x8009F106 = 4" "has_sig (sample_bios tbl) 0x8009F100 PCMP_SIG"
    using b[of 0] b[of 1] b[of 2] b[of 3] b[of 4] b[of 5] b[of 6] by (simp_all add: get16_def assms(2) has_sig_iff PCMP_SIG_def t del: One_nat_def)
  have mp: "has_sig (sample_bios tbl) 0x8009F000 MP_SIG" "get32 (sample_bios tbl) 0x8009F004 = 0x9F100" "get16 (sample_bios tbl) 0x8000040E = 0x9F00"
    by (simp_all add: get16_def get32_def sample_bios_def has_sig_iff MP_SIG_def)
  have "mpsearch (sample_bios tbl) = Some 0x8009F000"
    using mp sample_mp[of tbl] by (simp add: mpsearch_def mpsearch1_def P2V_def KERNBASE_def mp_scan.simps MP_SIZE_def)
  then show ?thesis using head mp(2) sample_sum[of tbl] assms(3)
    by (simp add: mpconfig_def P2V_def KERNBASE_def)
qed

lemma sample_entries:
  assumes "tbl = sample_table len chk rest"
  shows "entries_at (sample_bios tbl) (0x8009F100 + MPCONF_SIZE) [PROC 0, PROC 1, IOAPIC 2]"
proof -
  have len: "92 \<le> length tbl" by (simp add: assms sample_table_def)
  have b: "sample_bios tbl (0x8009F100 + i) = tbl ! i" if "i < 92" for i
    using that len by (simp add: sample_bios_def)
  have t: "tbl ! 44 = 0" "tbl ! 45 = 0" "tbl ! 64 = 0" "tbl ! 65 = 1" "tbl ! 84 = 2" "tbl ! 85 = 2"
    by (simp_all add: assms sample_table_def nth_append)
  show ?thesis
    using b[of 44] b[of 45] b[of 64] b[of 65] b[of 84] b[of 85] by (simp add: mp_defs t)
qed

theorem mpinit_exact_witness:
  "(\<exists>t. mpinit (sample_bios (sample_table 92 141 [])) \<lparr>cpu_ids = [], ioapicid = 0, lapic = 0\<rparr> = Some (Ok (False, t)) \<and>
      cpu_ids t = [0, 1] \<and> ioapicid t = 2) \<and>
   mpinit (sample_bios (sample_table 100 124 [9, 0, 0, 0, 0, 0, 0, 0])) \<lparr>cpu_ids = [], ioapicid = 0, lapic = 0\<rparr> = None"
proof -
  let ?t = "sample_table 92 141 []" and ?u = "sample_table 100 124 [9, 0, 0, 0, 0, 0, 0, 0]" and ?s = "\<lparr>cpu_ids = [], ioapicid = 0, lapic = 0\<rparr> :: mp_state"
  have len: "length ?t = 92" "length ?u = 100" by (simp_all add: sample_table_def)
  have t: "mpconfig (sample_bios ?t) = Some (0x8009F000, 0x8009F100)" by (rule sample_config[OF refl]) (simp_all add: sample_table_def sum_list_replicate)
  have u: "mpconfig (sample_bios ?u) = Some (0x8009F000, 0x8009F100)" by (rule sample_config[OF refl]) (simp_all add: sample_table_def sum_list_replicate)
  have e: "get16 (sample_bios ?t) (0x8009F100 + 4) = 92" "get16 (sample_bios ?u) (0x8009F100 + 4) = 100"
    "sample_bios ?t (0x8009F000 + 12) = 0" "sample_bios ?u (0x8009F100 + 92) = 9"
    by (simp_all add: get16_def sample_bios_def len) (simp_all add: sample_table_def nth_append)
  have tot: "total [PROC 0, PROC 1, IOAPIC 2] = 48" by (simp add: mp_defs)
  show ?thesis
    using mpinit_exact[OF t sample_entries[OF refl] _ refl refl, of ?s] mpinit_exact[OF u sample_entries[OF refl] _ refl refl, of ?s]
    by (auto simp: e[simplified] tot MPCONF_SIZE_def cpus_of_def ioapics_of_def NCPU_def known_def mp_defs)
qed

end
