(* ===== verification/Umalloc.thy ===== *)
theory Umalloc
  imports Prelude
begin

text \<open>
  The memory allocator of user programs (umalloc.c).  The headers are kept field by field: \<open>hptr\<close> and \<open>hsize\<close> give the two words of the
  header at an address.  Pointers are addresses in bytes, sizes are in units of a header, and both are words of 32 bits.
\<close>

section \<open>The allocator\<close>

definition W32 :: nat where [simp]: "W32 = 4294967296"

definition HEADER :: nat where [simp]: "HEADER = 8"

text \<open>The break of the process, the address of the static header \<open>base\<close>, and the limit up to which the kernel has memory to give.\<close>

record umem =
  hptr :: "nat \<Rightarrow> nat"
  hsize :: "nat \<Rightarrow> nat"
  freep :: nat
  base :: nat
  brk :: nat
  lim :: nat

definition padd :: "nat \<Rightarrow> nat \<Rightarrow> nat" where
  "padd p n = (p + HEADER * n) mod W32"

text \<open>The system call on an \<open>int\<close> given as a word: it grows the process, leaves it alone, or
  shrinks it as \<open>growproc\<close> does with \<open>deallocuvm\<close>.\<close>

definition u_sbrk :: "nat \<Rightarrow> umem \<Rightarrow> nat \<times> umem" where
  "u_sbrk n s =
     (if n = 0 then (brk s, s)
      else if n < W32 div 2 then if brk s + n \<le> lim s then (brk s, s\<lparr>brk := brk s + n\<rparr>) else (W32 - 1, s)
      else let sz = min (brk s) ((brk s + n) mod W32) in if sz = 0 then (W32 - 1, s) else (brk s, s\<lparr>brk := sz\<rparr>))"

partial_function (option) free_loop :: "nat \<Rightarrow> nat \<Rightarrow> umem \<Rightarrow> nat option" where
  "free_loop bp p s =
     (if p < bp \<and> bp < hptr s p then Some p
      else if hptr s p \<le> p \<and> (p < bp \<or> bp < hptr s p) then Some p
      else free_loop bp (hptr s p) s)"

definition join_up :: "nat \<Rightarrow> nat \<Rightarrow> umem \<Rightarrow> umem" where
  "join_up bp p s =
     (if padd bp (hsize s bp) = hptr s p
      then s\<lparr>hsize := (hsize s)(bp := (hsize s bp + hsize s (hptr s p)) mod W32), hptr := (hptr s)(bp := hptr s (hptr s p))\<rparr>
      else s\<lparr>hptr := (hptr s)(bp := hptr s p)\<rparr>)"

definition join_down :: "nat \<Rightarrow> nat \<Rightarrow> umem \<Rightarrow> umem" where
  "join_down bp p s =
     (if padd p (hsize s p) = bp
      then s\<lparr>hsize := (hsize s)(p := (hsize s p + hsize s bp) mod W32), hptr := (hptr s)(p := hptr s bp)\<rparr>
      else s\<lparr>hptr := (hptr s)(p := bp)\<rparr>)"

definition u_free :: "nat \<Rightarrow> umem \<Rightarrow> umem option" where
  "u_free ap s =
     (let bp = (ap + (W32 - HEADER)) mod W32 in
      case free_loop bp (freep s) s of
        None \<Rightarrow> None
      | Some p \<Rightarrow> Some ((join_down bp p (join_up bp p s))\<lparr>freep := p\<rparr>))"

text \<open>The new \<open>freep\<close>, or 0.\<close>

definition morecore :: "nat \<Rightarrow> umem \<Rightarrow> (nat \<times> umem) option" where
  "morecore nu s =
     (let nu = (if nu < 4096 then 4096 else nu); (p, s) = u_sbrk ((nu * HEADER) mod W32) s in
      if p = W32 - 1 then Some (0, s)
      else case u_free (padd p 1) (s\<lparr>hsize := (hsize s)(p := nu)\<rparr>) of
             None \<Rightarrow> None
           | Some s \<Rightarrow> Some (freep s, s))"

text \<open>The cut of a block that is large enough.\<close>

definition carve :: "nat \<Rightarrow> nat \<Rightarrow> nat \<Rightarrow> umem \<Rightarrow> nat \<times> umem" where
  "carve nunits prevp p s =
     (let (p, s) = (if hsize s p = nunits then (p, s\<lparr>hptr := (hptr s)(prevp := hptr s p)\<rparr>)
                    else let n = hsize s p - nunits; q = padd p n in (q, s\<lparr>hsize := (hsize s)(p := n, q := nunits)\<rparr>))
      in (padd p 1, s\<lparr>freep := prevp\<rparr>))"

partial_function (option) malloc_loop :: "nat \<Rightarrow> nat \<Rightarrow> nat \<Rightarrow> umem \<Rightarrow> (nat \<times> umem) option" where
  "malloc_loop nunits prevp p s =
     (if nunits \<le> hsize s p then Some (carve nunits prevp p s)
      else if p = freep s then
        case morecore nunits s of
          None \<Rightarrow> None
        | Some (p, s) \<Rightarrow> if p = 0 then Some (0, s) else malloc_loop nunits p (hptr s p) s
      else malloc_loop nunits p (hptr s p) s)"

definition malloc :: "nat \<Rightarrow> umem \<Rightarrow> (nat \<times> umem) option" where
  "malloc nbytes s =
     (let nunits = ((nbytes + HEADER - 1) mod W32) div HEADER + 1;
          s = (if freep s = 0 then s\<lparr>hptr := (hptr s)(base s := base s), freep := base s, hsize := (hsize s)(base s := 0)\<rparr> else s)
      in malloc_loop nunits (freep s) (hptr s (freep s)) s)"

section \<open>Blocks that tile an interval\<close>

definition tiles :: "(nat \<Rightarrow> nat) \<Rightarrow> nat set \<Rightarrow> nat \<Rightarrow> nat \<Rightarrow> bool" where
  "tiles f S lo hi \<longleftrightarrow> (\<forall>z. lo \<le> z \<and> z < hi \<longleftrightarrow> (\<exists>x\<in>S. x \<le> z \<and> z < x + f x)) \<and>
     (\<forall>x\<in>S. 0 < f x) \<and> (\<forall>x\<in>S. \<forall>y\<in>S. x < y \<longrightarrow> x + f x \<le> y) \<and> lo \<le> hi"

lemma tiles_cong: "(\<And>x. x \<in> S \<Longrightarrow> f x = g x) \<Longrightarrow> tiles f S lo hi = tiles g S lo hi"
  unfolding tiles_def by (simp cong: bex_cong ball_cong)

lemma tiles_bounds:
  assumes "tiles f S lo hi" and "x \<in> S"
  shows "lo \<le> x \<and> x + f x \<le> hi \<and> 0 < f x"
proof -
  have f: "0 < f x" using assms by (simp add: tiles_def)
  have "lo \<le> z \<and> z < hi" if "x \<le> z" "z < x + f x" for z using assms that by (auto simp: tiles_def)
  from this[of x] this[of "x + f x - 1"] f show ?thesis by linarith
qed

lemma tiles_apart: "tiles f S lo hi \<Longrightarrow> x \<in> S \<Longrightarrow> y \<in> S \<Longrightarrow> x < y \<Longrightarrow> x + f x \<le> y"
  by (simp add: tiles_def)

lemma tiles_cover: "tiles f S lo hi \<Longrightarrow> lo \<le> z \<Longrightarrow> z < hi \<Longrightarrow> \<exists>x\<in>S. x \<le> z \<and> z < x + f x"
  unfolding tiles_def by blast

lemma tiles_empty: "tiles f {} lo lo"
  by (auto simp: tiles_def)

lemma tiles_grow:
  assumes t: "tiles f S lo hi" and n: "0 < n"
  shows "tiles (f(hi := n)) (insert hi S) lo (hi + n)"
proof -
  have new: "hi \<notin> S" using tiles_bounds[OF t] by fastforce
  have lo: "lo \<le> hi" using t by (simp add: tiles_def)
  have "lo \<le> z \<and> z < hi + n \<longleftrightarrow> (\<exists>x\<in>insert hi S. x \<le> z \<and> z < x + (f(hi := n)) x)" for z
  proof (cases "z < hi")
    case True
    then show ?thesis using t new by (auto simp: tiles_def)
  next
    case False
    have "\<not> z < x + f x" if "x \<in> S" for x using tiles_bounds[OF t that] False by simp
    then show ?thesis using False new lo by auto
  qed
  moreover have "x + (f(hi := n)) x \<le> y" if "x \<in> insert hi S" "y \<in> insert hi S" "x < y" for x y
    using that tiles_bounds[OF t] tiles_apart[OF t, of x y] new by fastforce
  moreover have "\<forall>x\<in>insert hi S. 0 < (f(hi := n)) x" using t n by (auto simp: tiles_def)
  ultimately show ?thesis using lo unfolding tiles_def by auto
qed

lemma tiles_merge:
  assumes t: "tiles f S lo hi" and ab: "a \<in> S" "b \<in> S" "a + f a = b"
  shows "tiles (f(a := f a + f b)) (S - {b}) lo hi"
proof -
  have pos: "0 < f a" "0 < f b" "a < b" using tiles_bounds[OF t] ab by force+
  have "(\<exists>x\<in>S. x \<le> z \<and> z < x + f x) \<longleftrightarrow> (\<exists>x\<in>S - {b}. x \<le> z \<and> z < x + (f(a := f a + f b)) x)" for z
  proof
    assume "\<exists>x\<in>S. x \<le> z \<and> z < x + f x"
    then obtain x where x: "x \<in> S" "x \<le> z" "z < x + f x" by blast
    show "\<exists>x\<in>S - {b}. x \<le> z \<and> z < x + (f(a := f a + f b)) x"
    proof (cases "x = b")
      case True
      then show ?thesis using x ab pos by (intro bexI[of _ a]) auto
    next
      case False
      then show ?thesis using x by (intro bexI[of _ x]) auto
    qed
  next
    assume "\<exists>x\<in>S - {b}. x \<le> z \<and> z < x + (f(a := f a + f b)) x"
    then obtain x where x: "x \<in> S" "x \<noteq> b" "x \<le> z" "z < x + (f(a := f a + f b)) x" by blast
    show "\<exists>x\<in>S. x \<le> z \<and> z < x + f x"
    proof (cases "x = a \<and> b \<le> z")
      case True
      then show ?thesis using x ab by (intro bexI[of _ b]) auto
    next
      case False
      then show ?thesis using x ab by (intro bexI[of _ x]) (auto split: if_splits)
    qed
  qed
  moreover have "x + (f(a := f a + f b)) x \<le> y" if "x \<in> S - {b}" "y \<in> S - {b}" "x < y" for x y
  proof (cases "x = a")
    case True
    then have "b < y" using that tiles_apart[OF t, of a y] ab by auto
    then show ?thesis using True that tiles_apart[OF t, of b y] ab by simp
  qed (use that tiles_apart[OF t, of x y] in simp)
  ultimately show ?thesis using t pos unfolding tiles_def by auto
qed

lemma tiles_split:
  assumes t: "tiles f S lo hi" and a: "a \<in> S" and n: "0 < n" "n < f a"
  shows "tiles (f(a := f a - n, a + f a - n := n)) (insert (a + f a - n) S) lo hi" and "a + f a - n \<notin> S"
proof -
  let ?c = "a + f a - n" and ?g = "f(a := f a - n, a + f a - n := n)"
  show new: "?c \<notin> S" using tiles_apart[OF t a, of ?c] n by linarith
  have "(\<exists>x\<in>S. x \<le> z \<and> z < x + f x) \<longleftrightarrow> (\<exists>x\<in>insert ?c S. x \<le> z \<and> z < x + ?g x)" for z
  proof
    assume "\<exists>x\<in>S. x \<le> z \<and> z < x + f x"
    then obtain x where x: "x \<in> S" "x \<le> z" "z < x + f x" by blast
    show "\<exists>x\<in>insert ?c S. x \<le> z \<and> z < x + ?g x"
    proof (cases "x = a \<and> ?c \<le> z")
      case True
      then show ?thesis using x n by (intro bexI[of _ ?c]) auto
    next
      case False
      then show ?thesis using x new n by (intro bexI[of _ x]) auto
    qed
  next
    assume "\<exists>x\<in>insert ?c S. x \<le> z \<and> z < x + ?g x"
    then obtain x where x: "x \<in> insert ?c S" "x \<le> z" "z < x + ?g x" by blast
    show "\<exists>x\<in>S. x \<le> z \<and> z < x + f x"
    proof (cases "x = ?c")
      case True
      then show ?thesis using x n a by (intro bexI[of _ a]) auto
    next
      case False
      then show ?thesis using x n by (intro bexI[of _ x]) (auto split: if_splits)
    qed
  qed
  moreover have "x + ?g x \<le> y" if "x \<in> insert ?c S" "y \<in> insert ?c S" "x < y" for x y
  proof -
    note xy = that
    consider "x = ?c" "y \<in> S" | "y = ?c" "x \<in> S" | "x \<in> S" "y \<in> S" using xy by auto
    then show ?thesis
    proof cases
      case 1
      then have "a < y" using xy n by simp
      then show ?thesis using 1 tiles_apart[OF t a, of y] n by simp
    next
      case 2
      then have "x \<le> a" using xy tiles_apart[OF t a, of x] n by (cases "a < x") auto
      then show ?thesis using 2 xy tiles_apart[OF t, of x a] a n new by (cases "x = a") auto
    next
      case 3
      then show ?thesis using xy tiles_apart[OF t, of x y] new n by auto
    qed
  qed
  ultimately show "tiles ?g (insert ?c S) lo hi" using t n unfolding tiles_def by auto
qed

section \<open>The ring of free blocks\<close>

primrec path :: "(nat \<Rightarrow> nat) \<Rightarrow> nat list \<Rightarrow> nat \<Rightarrow> bool" where
  "path h [] z = True"
| "path h (x # xs) z \<longleftrightarrow> h x = hd (xs @ [z]) \<and> path h xs z"

lemma path_append: "path h (xs @ ys) z \<longleftrightarrow> path h xs (hd (ys @ [z])) \<and> path h ys z"
proof (induction xs)
  case (Cons x xs)
  then show ?case by (cases xs) auto
qed simp

lemma path_upd [simp]: "a \<notin> set xs \<Longrightarrow> path (h(a := b)) xs z = path h xs z"
  by (induction xs) auto

lemma path_nth: "path h xs z \<Longrightarrow> i < length xs \<Longrightarrow> h (xs ! i) = (xs @ [z]) ! Suc i"
proof (induction xs arbitrary: i)
  case (Cons x xs)
  then show ?case by (cases i) (auto simp: hd_conv_nth nth_append)
qed simp

lemma path_cong: "(\<And>x. x \<in> set xs \<Longrightarrow> g x = h x) \<Longrightarrow> path g xs z = path h xs z"
  by (induction xs) auto

text \<open>The free blocks in the order of their addresses, the static header first, and the set of the headers in use.\<close>

definition heap :: "nat \<Rightarrow> umem \<Rightarrow> nat list \<Rightarrow> nat set \<Rightarrow> bool" where
  "heap lo s as L \<longleftrightarrow>
     as \<noteq> [] \<and> hd as = base s \<and> sorted_wrt (<) as \<and> path (hptr s) as (base s) \<and> freep s \<in> set as \<and> hsize s (base s) = 0 \<and>
     set as \<inter> L = {} \<and> tiles (\<lambda>a. HEADER * hsize s a) (set as - {base s} \<union> L) lo (brk s) \<and>
     0 < base s \<and> base s + HEADER \<le> lo \<and> brk s \<le> lim s \<and> lim s < W32 div 2"

lemma heap_block:
  assumes "heap lo s as L" and "a \<in> set as - {base s} \<union> L"
  shows "base s < a \<and> a + 8 * hsize s a \<le> brk s \<and> 0 < hsize s a \<and> brk s < 2147483648 \<and> lo \<le> a"
proof -
  have "tiles (\<lambda>a. HEADER * hsize s a) (set as - {base s} \<union> L) lo (brk s)" "base s + HEADER \<le> lo" "brk s < 2147483648"
    using assms(1) by (auto simp: heap_def)
  with tiles_bounds[OF this(1) assms(2)] show ?thesis by simp
qed

lemma heap_padd:
  assumes "heap lo s as L" and "a \<in> set as \<union> L"
  shows "padd a (hsize s a) = a + 8 * hsize s a" and "hsize s a < 268435456"
proof -
  have "a + 8 * hsize s a < 2147483648"
  proof (cases "a = base s")
    case True
    then show ?thesis using assms by (auto simp: heap_def tiles_def)
  qed (use heap_block[OF assms(1), of a] assms(2) in auto)
  then show "padd a (hsize s a) = a + 8 * hsize s a" "hsize s a < 268435456" by (simp_all add: padd_def)
qed

lemma heap_insert:
  assumes h: "heap lo s (ps @ p # qs) L" and bp: "bp \<in> L" "p < bp" "\<forall>q\<in>set qs. bp < q"
  shows "heap lo (s\<lparr>hptr := (hptr s)(bp := hptr s p, p := bp), freep := p\<rparr>) (ps @ p # bp # qs) (L - {bp})"
proof -
  have new: "bp \<notin> set (ps @ p # qs)" using h bp(1) by (auto simp: heap_def)
  have srt: "sorted_wrt (<) (ps @ p # qs)" using h by (simp add: heap_def)
  then have dist: "p \<notin> set ps" "p \<notin> set qs" by (auto simp: sorted_wrt_append)
  have "sorted_wrt (<) (ps @ p # bp # qs)" using srt bp by (fastforce simp: sorted_wrt_append)
  moreover have "path ((hptr s)(bp := hptr s p, p := bp)) (ps @ p # bp # qs) (base s)"
    using h new dist bp by (auto simp: heap_def path_append)
  moreover have "set (ps @ p # bp # qs) - {base s} \<union> (L - {bp}) = set (ps @ p # qs) - {base s} \<union> L"
    using bp heap_block[OF h, of bp] by auto
  moreover have "hd (ps @ p # bp # qs) = hd (ps @ p # qs)" by (cases ps) auto
  ultimately show ?thesis using h unfolding heap_def by auto
qed

lemma heap_merge:
  assumes h: "heap lo s (ps @ a # b # qs) L" and ab: "a + 8 * hsize s a = b" "freep s \<noteq> b"
  shows "heap lo (s\<lparr>hsize := (hsize s)(a := hsize s a + hsize s b), hptr := (hptr s)(a := hptr s b)\<rparr>) (ps @ a # qs) L"
proof -
  have srt: "sorted_wrt (<) (ps @ a # b # qs)" using h by (simp add: heap_def)
  then have dist: "a \<notin> set ps" "a \<notin> set qs" "b \<notin> set ps" "b \<notin> set qs" "a < b" by (auto simp: sorted_wrt_append)
  have a: "a \<noteq> base s" using ab(1) h dist(5) by (auto simp: heap_def)
  have b: "b \<noteq> base s"
    using h dist a by (cases ps) (auto simp: heap_def)
  have "tiles ((\<lambda>a. HEADER * hsize s a)(a := HEADER * hsize s a + HEADER * hsize s b))
      ((set (ps @ a # b # qs) - {base s} \<union> L) - {b}) lo (brk s)"
    by (rule tiles_merge) (use h a b ab in \<open>auto simp: heap_def\<close>)
  moreover have "(set (ps @ a # b # qs) - {base s} \<union> L) - {b} = set (ps @ a # qs) - {base s} \<union> L"
    using h dist by (auto simp: heap_def)
  ultimately have "tiles (\<lambda>x. HEADER * ((hsize s)(a := hsize s a + hsize s b)) x) (set (ps @ a # qs) - {base s} \<union> L) lo (brk s)"
    by (simp add: tiles_cong[of _ "(\<lambda>a. HEADER * hsize s a)(a := HEADER * hsize s a + HEADER * hsize s b)"] algebra_simps fun_upd_def if_distrib cong: if_cong)
  moreover have "path ((hptr s)(a := hptr s b)) (ps @ a # qs) (base s)"
    using h dist by (auto simp: heap_def path_append)
  moreover have "sorted_wrt (<) (ps @ a # qs)" using srt by (auto simp: sorted_wrt_append)
  moreover have "hd (ps @ a # qs) = hd (ps @ a # b # qs)" by (cases ps) auto
  ultimately show ?thesis using h a ab(2) unfolding heap_def by auto
qed

section \<open>\<open>free\<close>\<close>

lemma ring_split:
  assumes h: "heap lo s as L" and bp: "bp \<in> L"
  obtains ps p qs where "as = ps @ p # qs" "p < bp" "\<forall>q\<in>set qs. bp < q"
proof -
  let ?t = "takeWhile (\<lambda>a. a < bp) as" and ?d = "dropWhile (\<lambda>a. a < bp) as"
  have srt: "sorted_wrt (<) as" and as: "as \<noteq> []" "hd as < bp" "bp \<notin> set as"
    using h bp heap_block[OF h, of bp] by (auto simp: heap_def)
  have t: "?t \<noteq> []" using as by (cases as) auto
  then have "List.last ?t < bp" using set_takeWhileD[of "List.last ?t" "\<lambda>a. a < bp" as] last_in_set by blast
  moreover have "bp < q" if q: "q \<in> set ?d" for q
  proof -
    have d: "?d \<noteq> []" using q length_pos_if_in_set by fastforce
    have "\<not> hd ?d < bp" using hd_dropWhile[OF d] .
    moreover have "sorted_wrt (<) ?d" using srt by (metis sorted_wrt_append takeWhile_dropWhile_id)
    ultimately have "bp \<le> q" using q by (cases ?d) auto
    moreover have "q \<noteq> bp" using q as(3) set_dropWhileD[of q] by metis
    ultimately show ?thesis by simp
  qed
  moreover have "as = butlast ?t @ List.last ?t # ?d"
    using append_butlast_last_id[OF t] takeWhile_dropWhile_id[of "\<lambda>a. a < bp" as] by (metis append.assoc append_Cons append_Nil)
  ultimately show ?thesis using that by blast
qed

lemma ring_next:
  assumes "heap lo s as L" and "i < length as"
  shows "hptr s (as ! i) = as ! (Suc i mod length as)"
  using path_nth[of "hptr s" as "base s" i] assms
  by (cases "Suc i = length as") (auto simp: heap_def nth_append hd_conv_nth)

lemma free_stop:
  assumes h: "heap lo s (ps @ p # qs) L" and bp: "bp \<in> L" "p < bp" "\<forall>q\<in>set qs. bp < q"
  shows "free_loop bp p s = Some p"
proof (cases qs)
  case Nil
  have "hptr s p = base s" "base s \<le> p" using h Nil by (cases ps; force simp: heap_def path_append)+
  then show ?thesis using bp(2) by (subst free_loop.simps) simp
next
  case (Cons q qs')
  have "hptr s p = q" using h Cons by (simp add: heap_def path_append)
  then show ?thesis using bp Cons by (subst free_loop.simps) simp
qed

lemma free_go:
  assumes h: "heap lo s (ps @ p # qs) L" and bp: "bp \<in> L" "p < bp" "\<forall>q\<in>set qs. bp < q"
    and x: "x \<in> set (ps @ p # qs)" "x \<noteq> p"
  shows "free_loop bp x s = free_loop bp (hptr s x) s"
proof -
  have srt: "sorted_wrt (<) (ps @ p # qs)" and base: "base s < bp" using h heap_block[OF h, of bp] bp(1) by (auto simp: heap_def)
  consider us vs where "ps = us @ x # vs" | us vs where "qs = us @ x # vs" using x by (auto dest!: split_list)
  then show ?thesis
  proof cases
    case 1
    have "hptr s x = hd (vs @ p # qs @ [base s])" using h by (simp add: 1 heap_def path_append hd_append)
    then have "hptr s x \<in> set (vs @ [p])" by (cases vs) auto
    then have "x < hptr s x \<and> hptr s x \<le> p" using srt by (auto simp: 1 sorted_wrt_append)
    then show ?thesis using bp(2) by (subst free_loop.simps) simp
  next
    case 2
    have "hptr s x = hd (vs @ [base s])" using h by (simp add: 2 heap_def path_append)
    then have "hptr s x = base s \<or> x < hptr s x" using srt by (cases vs) (auto simp: 2 sorted_wrt_append)
    moreover have "bp < x" using bp(3) by (simp add: 2)
    ultimately show ?thesis using base by (subst free_loop.simps) auto
  qed
qed

lemma free_loop_finds:
  assumes h: "heap lo s as L" "as = ps @ p # qs" and bp: "bp \<in> L" "p < bp" "\<forall>q\<in>set qs. bp < q"
  shows "i < length as \<Longrightarrow> (i + d) mod length as = length ps \<Longrightarrow> free_loop bp (as ! i) s = Some p"
proof (induction d arbitrary: i)
  case 0
  then show ?case using free_stop[OF h(1)[unfolded h(2)] bp] h(2) by simp
next
  case (Suc d)
  show ?case
  proof (cases "as ! i = p")
    case True
    then show ?thesis using free_stop[OF h(1)[unfolded h(2)] bp] by simp
  next
    case False
    have "as ! i \<in> set (ps @ p # qs)" using Suc.prems(1) by (simp add: flip: h(2))
    then have "free_loop bp (as ! i) s = free_loop bp (as ! (Suc i mod length as)) s"
      using free_go[OF h(1)[unfolded h(2)] bp _ False] ring_next[OF h(1) Suc.prems(1)] by simp
    moreover have "(Suc i mod length as + d) mod length as = length ps" using Suc.prems(2) by (simp add: mod_simps)
    moreover have "Suc i mod length as < length as" using Suc.prems(1) by (intro mod_less_divisor) linarith
    ultimately show ?thesis using Suc.IH by simp
  qed
qed

lemma free_loop_ok:
  assumes h: "heap lo s (ps @ p # qs) L" and bp: "bp \<in> L" "p < bp" "\<forall>q\<in>set qs. bp < q"
  shows "free_loop bp (freep s) s = Some p"
proof -
  let ?as = "ps @ p # qs"
  obtain i where i: "i < length ?as" "?as ! i = freep s" using h unfolding heap_def in_set_conv_nth[of "freep s"] by blast
  have "i + (length ?as - i + length ps) = length ps + length ?as" using i(1) by linarith
  then have "(i + (length ?as - i + length ps)) mod length ?as = length ps" by (simp only: mod_add_self2) simp
  from free_loop_finds[OF h refl bp i(1) this] i(2) show ?thesis by simp
qed

text \<open>\<open>free\<close> returns, and moves its block from those in use to the free ones, joined with a neighbour on either side.\<close>

lemma u_free_ok:
  assumes h: "heap lo s as L" and bp: "bp \<in> L"
  shows "\<exists>t as'. u_free (bp + 8) s = Some t \<and> heap lo t as' (L - {bp}) \<and> brk t = brk s \<and> lim t = lim s \<and> base t = base s \<and>
    (\<forall>x\<in>L - {bp}. hsize t x = hsize s x) \<and> (\<exists>a\<in>set as'. hsize s bp \<le> hsize t a)"
proof -
  obtain ps p qs where as: "as = ps @ p # qs" and pq: "p < bp" "\<forall>q\<in>set qs. bp < q" by (rule ring_split[OF h bp])
  note h' = h[unfolded as]
  let ?s1 = "s\<lparr>hptr := (hptr s)(bp := hptr s p, p := bp), freep := p\<rparr>"
  have h1: "heap lo ?s1 (ps @ p # bp # qs) (L - {bp})" by (rule heap_insert[OF h' bp pq])
  have pL: "p \<notin> L" using h' by (auto simp: heap_def)
  let ?up = "bp + 8 * hsize s bp = hptr s p"
  define s2 where "s2 = (if ?up then ?s1\<lparr>hsize := (hsize s)(bp := hsize s bp + hsize s (hptr s p)), hptr := (hptr ?s1)(bp := hptr ?s1 (hptr s p))\<rparr> else ?s1)"
  have "\<exists>rs. heap lo s2 (ps @ p # bp # rs) (L - {bp}) \<and> (?up \<longrightarrow> hptr s p \<noteq> p \<and> hptr s p \<noteq> bp \<and> hptr s p \<in> set as)"
  proof (cases ?up)
    case True
    have "base s < bp" using heap_block[OF h, of bp] bp by simp
    then obtain q rs where q: "qs = q # rs" "hptr s p = q" using h' True by (cases qs) (auto simp: heap_def path_append)
    have qn: "q \<noteq> p" "q \<noteq> bp" using pq q by auto
    have "heap lo (?s1\<lparr>hsize := (hsize ?s1)(bp := hsize ?s1 bp + hsize ?s1 q), hptr := (hptr ?s1)(bp := hptr ?s1 q)\<rparr>) ((ps @ [p]) @ bp # rs) (L - {bp})"
      by (rule heap_merge) (use h1 q True qn in auto)
    then show ?thesis using True q qn by (auto simp: s2_def as)
  qed (use h1 in \<open>auto simp: s2_def\<close>)
  then obtain rs where h2: "heap lo s2 (ps @ p # bp # rs) (L - {bp})" and up: "?up \<Longrightarrow> hptr s p \<noteq> p \<and> hptr s p \<noteq> bp \<and> hptr s p \<in> set as" by blast
  have sz: "hsize s2 p = hsize s p" "hsize s bp \<le> hsize s2 bp" "\<forall>x\<in>L - {bp}. hsize s2 x = hsize s x" using pq by (auto simp: s2_def)
  define s3 where "s3 = (if p + 8 * hsize s p = bp then s2\<lparr>hsize := (hsize s2)(p := hsize s2 p + hsize s2 bp), hptr := (hptr s2)(p := hptr s2 bp)\<rparr> else s2)"
  have h3: "heap lo s3 (if p + 8 * hsize s p = bp then ps @ p # rs else ps @ p # bp # rs) (L - {bp})"
    using heap_merge[OF h2] h2 pq sz(1) by (auto simp: s3_def s2_def)
  have lt: "hsize s x < 268435456" if "x \<in> set as \<union> L" for x using heap_padd(2)[OF h that] .
  have pd: "padd p (hsize s p) = p + 8 * hsize s p" "padd bp (hsize s bp) = bp + 8 * hsize s bp"
    using heap_padd(1)[OF h] bp as by auto
  have m: "(hsize s bp + hsize s (hptr s p)) mod W32 = hsize s bp + hsize s (hptr s p)" if ?up
    using lt[of bp] lt[of "hptr s p"] bp up[OF that] by simp
  have j: "join_up bp p s = s2\<lparr>hptr := (hptr s2)(p := hptr s p), freep := freep s\<rparr>"
  proof (cases ?up)
    case True
    then show ?thesis using up m pd(2) pq by (auto simp: join_up_def s2_def fun_eq_iff)
  next
    case False
    then show ?thesis using pd(2) pq by (auto simp: join_up_def s2_def fun_eq_iff)
  qed
  have b2: "(hsize s p + hsize s2 bp) mod W32 = hsize s p + hsize s2 bp"
    using lt[of p] heap_padd(2)[OF h2, of bp] by (simp add: as)
  have fp: "freep s2 = p" "hptr s2 p = bp" using pq by (auto simp: s2_def)
  have "(join_down bp p (join_up bp p s))\<lparr>freep := p\<rparr> = s3"
    unfolding j using pq fp b2 sz(1) pd(1) by (auto simp: join_down_def s3_def fun_eq_iff)
  then have "u_free (bp + 8) s = Some s3"
    using heap_block[OF h, of bp] bp free_loop_ok[OF h' bp pq] by (simp add: u_free_def Let_def)
  moreover have "brk s3 = brk s \<and> lim s3 = lim s \<and> base s3 = base s" by (simp add: s3_def s2_def)
  moreover have "\<forall>x\<in>L - {bp}. hsize s3 x = hsize s x" using sz(3) pL by (auto simp: s3_def)
  moreover have "\<exists>a\<in>set (if p + 8 * hsize s p = bp then ps @ p # rs else ps @ p # bp # rs). hsize s bp \<le> hsize s3 a"
    using sz by (auto simp: s3_def)
  ultimately show ?thesis using h3 by blast
qed

section \<open>\<open>malloc\<close>\<close>

text \<open>More memory: the kernel refuses, or the new block becomes a free one.\<close>

lemma morecore_ok:
  assumes h: "heap lo s as L" and nu: "0 < nu" "nu < 268435456"
  shows "(morecore nu s = Some (0, s) \<and> lim s < brk s + 8 * max 4096 nu) \<or>
    (\<exists>t as'. morecore nu s = Some (freep t, t) \<and> freep t \<noteq> 0 \<and> heap lo t as' L \<and> brk t = brk s + 8 * max 4096 nu \<and> lim t = lim s \<and> base t = base s \<and>
      (\<forall>x\<in>L. hsize t x = hsize s x) \<and> (\<exists>a\<in>set as'. nu \<le> hsize t a))"
proof -
  define n where "n = (if nu < 4096 then 4096 else nu)"
  have n: "n = max 4096 nu" "0 < n" "nu \<le> n" "n < 268435456" "8 * n < 2147483648" using nu by (auto simp: n_def)
  have brk: "brk s \<le> lim s" "lim s < 2147483648" using h by (auto simp: heap_def)
  show ?thesis
  proof (cases "brk s + 8 * n \<le> lim s")
    case False
    then have "morecore nu s = Some (0, s)" using n by (simp add: morecore_def u_sbrk_def Let_def mult.commute flip: n_def)
    then show ?thesis using False n(1) by auto
  next
    case True
    let ?s = "s\<lparr>brk := brk s + 8 * n, hsize := (hsize s)(brk s := n)\<rparr>"
    have t: "tiles (\<lambda>a. HEADER * hsize s a) (set as - {base s} \<union> L) lo (brk s)" using h by (simp add: heap_def)
    have new: "brk s \<notin> set as - {base s} \<union> L"
    proof
      assume "brk s \<in> set as - {base s} \<union> L"
      from heap_block[OF h this] show False by auto
    qed
    have bs: "base s < brk s" using h t by (auto simp: heap_def tiles_def)
    have "tiles ((\<lambda>a. HEADER * hsize s a)(brk s := 8 * n)) (insert (brk s) (set as - {base s} \<union> L)) lo (brk s + 8 * n)"
      by (rule tiles_grow[OF t]) (use n in simp)
    then have "tiles (\<lambda>a. HEADER * ((hsize s)(brk s := n)) a) (set as - {base s} \<union> insert (brk s) L) lo (brk s + 8 * n)"
      by (simp add: fun_upd_def if_distrib cong: if_cong)
    then have "heap lo ?s as (insert (brk s) L)" using h True new bs by (auto simp: heap_def)
    from u_free_ok[OF this, of "brk s"] obtain t as' where u: "u_free (brk s + 8) ?s = Some t" "heap lo t as' (L - {brk s})"
      "brk t = brk s + 8 * n" "lim t = lim s" "base t = base s" "\<forall>x\<in>L - {brk s}. hsize t x = hsize s x" "\<exists>a\<in>set as'. n \<le> hsize t a"
      by auto
    have L: "L - {brk s} = L" using new by auto
    have "freep t \<in> set as'" "hd as' = base t" "0 < base t" using u(2) by (auto simp: heap_def)
    then have fp: "freep t \<noteq> 0" using heap_block[OF u(2), of "freep t"] by (cases "freep t = base t") auto
    have "morecore nu s = Some (freep t, t)" using n True brk u(1)
      by (simp add: morecore_def u_sbrk_def Let_def padd_def mult.commute flip: n_def)
    moreover have "\<exists>a\<in>set as'. nu \<le> hsize t a" using u(7) n(3) le_trans by blast
    ultimately show ?thesis using u(2-6) fp n(1) L by (intro disjI2 exI[of _ t] exI[of _ as']) simp
  qed
qed

text \<open>What \<open>malloc\<close> has done when it returns the payload of the block \<open>c\<close>.\<close>

definition got :: "nat \<Rightarrow> nat \<Rightarrow> nat set \<Rightarrow> umem \<Rightarrow> umem \<Rightarrow> nat \<Rightarrow> bool" where
  "got lo nu L s t c \<longleftrightarrow> c \<notin> L \<and> (\<exists>as. heap lo t as (insert c L)) \<and> hsize t c = nu \<and> (\<forall>x\<in>L. hsize t x = hsize s x) \<and>
     brk s \<le> brk t \<and> lim t = lim s \<and> base t = base s"

lemma carve_ok:
  assumes h: "heap lo s (ps @ a # b # qs) L" and nu: "0 < nu" "nu \<le> hsize s b"
  shows "\<exists>t c. carve nu a b s = (c + 8, t) \<and> got lo nu L s t c"
proof -
  have srt: "sorted_wrt (<) (ps @ a # b # qs)" using h by (simp add: heap_def)
  then have dist: "a \<notin> set ps" "a \<notin> set qs" "b \<notin> set ps" "b \<notin> set qs" "a < b" by (auto simp: sorted_wrt_append)
  have b: "b \<noteq> base s" using nu h by (auto simp: heap_def)
  have bb: "b + 8 * hsize s b \<le> brk s" "brk s < 2147483648" using heap_block[OF h, of b] b by auto
  have bL: "b \<notin> L" using h by (auto simp: heap_def)
  have t: "tiles (\<lambda>a. HEADER * hsize s a) (set (ps @ a # b # qs) - {base s} \<union> L) lo (brk s)" using h by (simp add: heap_def)
  show ?thesis
  proof (cases "hsize s b = nu")
    case True
    let ?t = "s\<lparr>hptr := (hptr s)(a := hptr s b), freep := a\<rparr>"
    have "set (ps @ a # qs) - {base s} \<union> insert b L = set (ps @ a # b # qs) - {base s} \<union> L" using b by auto
    moreover have "path ((hptr s)(a := hptr s b)) (ps @ a # qs) (base s)" using h dist by (auto simp: heap_def path_append)
    moreover have "sorted_wrt (<) (ps @ a # qs)" using srt by (auto simp: sorted_wrt_append)
    moreover have "hd (ps @ a # qs) = hd (ps @ a # b # qs)" by (cases ps) auto
    moreover have "set (ps @ a # qs) \<inter> insert b L = {}" using h dist by (auto simp: heap_def)
    ultimately have "heap lo ?t (ps @ a # qs) (insert b L)" using h unfolding heap_def by auto
    then have "got lo nu L s ?t b" using bL True by (auto simp: got_def)
    moreover have "carve nu a b s = (b + 8, ?t)" using True bb nu by (simp add: carve_def padd_def)
    ultimately show ?thesis by blast
  next
    case False
    define c where "c = b + (8 * hsize s b - 8 * nu)"
    have lt: "nu < hsize s b" using False nu by simp
    have c: "c = b + 8 * (hsize s b - nu)" "c = b + 8 * hsize s b - 8 * nu" "b < c" "c + 8 * nu \<le> brk s" using lt bb by (auto simp: c_def)
    let ?t = "s\<lparr>hsize := (hsize s)(b := hsize s b - nu, c := nu), freep := a\<rparr>"
    have "b \<in> set (ps @ a # b # qs) - {base s} \<union> L" using b by auto
    note sp = tiles_split[OF t this, of "8 * nu"]
    have new: "c \<notin> set (ps @ a # b # qs) - {base s} \<union> L" using sp(2) lt nu c(2) by simp
    have cb: "c \<noteq> base s" using heap_block[OF h, of b] b c(3) by auto
    have "tiles ((\<lambda>a. HEADER * hsize s a)(b := 8 * hsize s b - 8 * nu, c := 8 * nu)) (insert c (set (ps @ a # b # qs) - {base s} \<union> L)) lo (brk s)"
      using sp(1) lt nu c(2) by simp
    then have "tiles (\<lambda>x. HEADER * ((hsize s)(b := hsize s b - nu, c := nu)) x) (set (ps @ a # b # qs) - {base s} \<union> insert c L) lo (brk s)"
      by (subst tiles_cong[of _ _ "(\<lambda>a. HEADER * hsize s a)(b := 8 * hsize s b - 8 * nu, c := 8 * nu)"]) (auto simp: diff_mult_distrib2)
    then have "heap lo ?t (ps @ a # b # qs) (insert c L)" using h new cb b unfolding heap_def by auto
    then have "got lo nu L s ?t c" using new bL by (auto simp: got_def)
    moreover have "carve nu a b s = (c + 8, ?t)" using False bb c nu by (simp add: carve_def padd_def Let_def)
    ultimately show ?thesis by blast
  qed
qed

text \<open>One turn around the ring: a block that is large enough is found, or none is and the turn ends at \<open>freep\<close>.\<close>

lemma malloc_turn:
  assumes h: "heap lo s as L" and f: "f < length as" "as ! f = freep s" and nu: "0 < nu"
  shows "j < length as \<Longrightarrow> d < length as \<Longrightarrow> (Suc j + d) mod length as = f \<Longrightarrow>
    (\<exists>k. Suc k < length as \<and> nu \<le> hsize s (as ! Suc k) \<and> malloc_loop nu (as ! j) (as ! (Suc j mod length as)) s = Some (carve nu (as ! k) (as ! Suc k) s)) \<or>
    (malloc_loop nu (as ! j) (as ! (Suc j mod length as)) s =
       (case morecore nu s of None \<Rightarrow> None | Some (p, t) \<Rightarrow> if p = 0 then Some (0, t) else malloc_loop nu p (hptr t p) t) \<and>
     (\<forall>e\<le>d. hsize s (as ! ((Suc j + e) mod length as)) < nu))"
proof (induction d arbitrary: j)
  case 0
  then have i: "Suc j mod length as = f" by simp
  show ?case
  proof (cases "nu \<le> hsize s (as ! f)")
    case True
    have "f \<noteq> 0" using True h nu by (auto simp: heap_def hd_conv_nth)
    then have "f = Suc j" using i 0 by (metis Suc_lessI mod_less mod_self)
    then show ?thesis using True f i by (intro disjI1 exI[of _ j]) (simp, subst malloc_loop.simps, simp)
  next
    case False
    then show ?thesis using i f by (intro disjI2) (simp, subst malloc_loop.simps, simp)
  qed
next
  case (Suc d)
  define i where "i = Suc j mod length as"
  have i: "i < length as" using Suc.prems unfolding i_def by (intro mod_less_divisor) linarith
  have f': "(i + Suc d) mod length as = f" using Suc.prems(3) by (simp only: i_def mod_add_left_eq)
  have "i \<noteq> f"
  proof
    assume "i = f"
    then have "(i + Suc d) mod length as = i mod length as" using f' i by simp
    then have "length as dvd Suc d" by (metis add_diff_cancel_left' mod_eq_dvd_iff_nat le_add1)
    then show False using Suc.prems(2) by (auto dest: dvd_imp_le)
  qed
  then have nf: "as ! i \<noteq> freep s" using h f i by (auto simp: heap_def sorted_wrt_iff_nth_less dest!: neq_iff[THEN iffD1]) (metis less_irrefl)+
  show ?case
  proof (cases "nu \<le> hsize s (as ! i)")
    case True
    have "i \<noteq> 0" using True h nu by (auto simp: heap_def hd_conv_nth)
    then have "i = Suc j" using Suc.prems unfolding i_def by (metis Suc_lessI mod_less mod_self)
    then show ?thesis using True i unfolding i_def[symmetric] by (intro disjI1 exI[of _ j]) (simp, subst malloc_loop.simps, simp)
  next
    case False
    have go: "malloc_loop nu (as ! j) (as ! i) s = malloc_loop nu (as ! i) (as ! (Suc i mod length as)) s"
      using False nf ring_next[OF h i] by (subst malloc_loop.simps) simp
    have "(Suc i + d) mod length as = f" using f' by simp
    note ih = Suc.IH[OF i _ this]
    have more: "\<forall>e\<le>Suc d. hsize s (as ! ((Suc j + e) mod length as)) < nu" if all: "\<forall>e\<le>d. hsize s (as ! ((Suc i + e) mod length as)) < nu"
    proof (intro allI impI)
      fix e assume "e \<le> Suc d"
      then show "hsize s (as ! ((Suc j + e) mod length as)) < nu"
      proof (cases e)
        case 0
        then show ?thesis using False by (simp add: i_def)
      next
        case (Suc e')
        have "(Suc j + e) mod length as = (i + e) mod length as" by (simp only: i_def mod_add_left_eq)
        then have "(Suc j + e) mod length as = (Suc i + e') mod length as" by (simp add: Suc)
        then show ?thesis using all \<open>e \<le> Suc d\<close> Suc by simp
      qed
    qed
    show ?thesis using ih Suc.prems(2) more unfolding i_def[symmetric] go by auto
  qed
qed

lemma carve_nth:
  assumes "heap lo s as L" and "Suc k < length as" and "0 < nu" and "nu \<le> hsize s (as ! Suc k)"
  shows "\<exists>t c. carve nu (as ! k) (as ! Suc k) s = (c + 8, t) \<and> got lo nu L s t c"
proof -
  have "as = take k as @ as ! k # as ! Suc k # drop (Suc (Suc k)) as"
    using assms(2) by (metis Cons_nth_drop_Suc Suc_lessD append_take_drop_id)
  then show ?thesis using carve_ok[of lo s "take k as"] assms by metis
qed

lemma malloc_start:
  assumes h: "heap lo s as L" and nu: "0 < nu"
  shows "(\<exists>t c. malloc_loop nu (freep s) (hptr s (freep s)) s = Some (c + 8, t) \<and> got lo nu L s t c) \<or>
    (malloc_loop nu (freep s) (hptr s (freep s)) s =
       (case morecore nu s of None \<Rightarrow> None | Some (p, t) \<Rightarrow> if p = 0 then Some (0, t) else malloc_loop nu p (hptr t p) t) \<and>
     (\<forall>a\<in>set as. hsize s a < nu))"
proof -
  let ?n = "length as"
  obtain f where f: "f < ?n" "as ! f = freep s" using h unfolding heap_def in_set_conv_nth[of "freep s"] by blast
  have nx: "hptr s (freep s) = as ! (Suc f mod ?n)" using ring_next[OF h f(1)] f(2) by simp
  have "Suc f + (?n - 1) = f + ?n" using f(1) by simp
  then have "(Suc f + (?n - 1)) mod ?n = f" using f(1) by (simp only: mod_add_self2) simp
  note turn = malloc_turn[OF h f nu f(1) _ this]
  have all: "\<forall>a\<in>set as. hsize s a < nu" if e: "\<forall>e\<le>?n - 1. hsize s (as ! ((Suc f + e) mod ?n)) < nu"
  proof
    fix a assume "a \<in> set as"
    then obtain m where m: "m < ?n" "as ! m = a" by (auto simp: in_set_conv_nth)
    let ?e = "(m + (?n - Suc f)) mod ?n"
    have "(Suc f + ?e) mod ?n = (Suc f + (m + (?n - Suc f))) mod ?n" by (simp only: mod_add_right_eq)
    also have "Suc f + (m + (?n - Suc f)) = m + ?n" using f(1) by simp
    finally have "(Suc f + ?e) mod ?n = m" using m(1) by simp
    moreover have "?e < ?n" using f(1) by (intro mod_less_divisor) linarith
    then have "?e \<le> ?n - 1" by linarith
    ultimately show "hsize s a < nu" using e m(2) by metis
  qed
  have "?n - 1 < ?n" using f(1) by simp
  from turn[OF this] show ?thesis
  proof (elim disjE exE conjE)
    fix k assume k: "Suc k < ?n" "nu \<le> hsize s (as ! Suc k)"
      and r: "malloc_loop nu (as ! f) (as ! (Suc f mod ?n)) s = Some (carve nu (as ! k) (as ! Suc k) s)"
    obtain t c where "carve nu (as ! k) (as ! Suc k) s = (c + 8, t)" "got lo nu L s t c" using carve_nth[OF h k(1) nu k(2)] by blast
    then show ?thesis using r unfolding nx f(2) by auto
  next
    assume "\<forall>e\<le>?n - 1. hsize s (as ! ((Suc f + e) mod ?n)) < nu"
    then have "\<forall>a\<in>set as. hsize s a < nu" by (rule all)
    moreover assume "malloc_loop nu (as ! f) (as ! (Suc f mod ?n)) s =
       (case morecore nu s of None \<Rightarrow> None | Some (p, t) \<Rightarrow> if p = 0 then Some (0, t) else malloc_loop nu p (hptr t p) t)"
    ultimately show ?thesis unfolding nx f(2) by blast
  qed
qed

text \<open>\<open>malloc\<close> always returns: a block, or 0 when the kernel has not got the memory.\<close>

lemma malloc_loop_ok:
  assumes h: "heap lo s as L" and nu: "0 < nu" "nu < 268435456"
  shows "(malloc_loop nu (freep s) (hptr s (freep s)) s = Some (0, s) \<and> lim s < brk s + 8 * max 4096 nu) \<or>
    (\<exists>t c. malloc_loop nu (freep s) (hptr s (freep s)) s = Some (c + 8, t) \<and> got lo nu L s t c)"
proof (cases "\<exists>t c. malloc_loop nu (freep s) (hptr s (freep s)) s = Some (c + 8, t) \<and> got lo nu L s t c")
  case False
  then have r: "malloc_loop nu (freep s) (hptr s (freep s)) s =
       (case morecore nu s of None \<Rightarrow> None | Some (p, t) \<Rightarrow> if p = 0 then Some (0, t) else malloc_loop nu p (hptr t p) t)"
    using malloc_start[OF h nu(1)] by blast
  from morecore_ok[OF h nu] show ?thesis
  proof (elim disjE exE conjE)
    assume "morecore nu s = Some (0, s)" "lim s < brk s + 8 * max 4096 nu"
    then show ?thesis using r by simp
  next
    fix t as'
    assume m: "morecore nu s = Some (freep t, t)" "freep t \<noteq> 0" "heap lo t as' L" "brk t = brk s + 8 * max 4096 nu" "lim t = lim s" "base t = base s"
      and L: "\<forall>x\<in>L. hsize t x = hsize s x" and fit: "\<exists>a\<in>set as'. nu \<le> hsize t a"
    have "\<not> (\<forall>a\<in>set as'. hsize t a < nu)" using fit by (meson not_less)
    then obtain u c where u: "malloc_loop nu (freep t) (hptr t (freep t)) t = Some (c + 8, u)" "got lo nu L t u c"
      using malloc_start[OF m(3) nu(1)] by blast
    then have "got lo nu L s u c" using L m(4-6) by (auto simp: got_def)
    then show ?thesis using r m(1,2) u(1) by auto
  qed
qed simp

section \<open>Programs that use the allocator\<close>

definition fresh :: "nat \<Rightarrow> umem \<Rightarrow> bool" where
  "fresh lo s \<longleftrightarrow> freep s = 0 \<and> brk s = lo \<and> 0 < base s \<and> base s + HEADER \<le> lo \<and> lo \<le> lim s \<and> lim s < W32 div 2"

definition heap_ok :: "nat \<Rightarrow> umem \<Rightarrow> nat set \<Rightarrow> bool" where
  "heap_ok lo s L \<longleftrightarrow> fresh lo s \<and> L = {} \<or> (\<exists>as. heap lo s as L)"

definition units :: "nat \<Rightarrow> nat" where
  "units nbytes = (nbytes + 7) div 8 + 1"

lemma malloc_ok:
  assumes h: "heap_ok lo s L" and n: "nbytes < 2147483632"
  shows "\<exists>s'. (malloc nbytes s = Some (0, s') \<and> lim s < brk s + 8 * max 4096 (units nbytes) \<and> heap_ok lo s' L \<and> lim s' = lim s \<and> base s' = base s \<and> (\<forall>x\<in>L. hsize s' x = hsize s x)) \<or>
    (\<exists>c. malloc nbytes s = Some (c + 8, s') \<and> got lo (units nbytes) L s s' c)"
proof -
  define s0 where "s0 = (if freep s = 0 then s\<lparr>hptr := (hptr s)(base s := base s), freep := base s, hsize := (hsize s)(base s := 0)\<rparr> else s)"
  have m: "malloc nbytes s = malloc_loop (units nbytes) (freep s0) (hptr s0 (freep s0)) s0"
    using n by (simp add: malloc_def units_def s0_def Let_def add.commute)
  have nu: "0 < units nbytes" "units nbytes < 268435456" using n by (auto simp: units_def)
  have same: "brk s0 = brk s" "lim s0 = lim s" "base s0 = base s" by (auto simp: s0_def)
  obtain as where h0: "heap lo s0 as L" and sz: "\<forall>x\<in>L. hsize s0 x = hsize s x"
  proof (cases "fresh lo s \<and> L = {}")
    case True
    then have "heap lo s0 [base s] L" using tiles_empty[of _ lo] by (auto simp: fresh_def heap_def s0_def)
    then show ?thesis using that True by blast
  next
    case False
    then obtain as where as: "heap lo s as L" using h by (auto simp: heap_ok_def)
    then have "freep s \<noteq> 0" using heap_block[OF as, of "freep s"] by (cases "freep s = base s") (auto simp: heap_def)
    then show ?thesis using that as by (simp add: s0_def)
  qed
  from malloc_loop_ok[OF h0 nu] show ?thesis
  proof (elim disjE exE conjE)
    assume "malloc_loop (units nbytes) (freep s0) (hptr s0 (freep s0)) s0 = Some (0, s0)" "lim s0 < brk s0 + 8 * max 4096 (units nbytes)"
    then show ?thesis using m same h0 sz by (intro exI[of _ s0] disjI1) (auto simp: heap_ok_def)
  next
    fix t c assume "malloc_loop (units nbytes) (freep s0) (hptr s0 (freep s0)) s0 = Some (c + 8, t)" "got lo (units nbytes) L s0 t c"
    then show ?thesis using m same sz by (auto simp: got_def)
  qed
qed

text \<open>
  The runs of a program that frees only what it was given, once, asks for less than two gigabytes at a time, leaves
  the break to the allocator and writes only into its blocks.  \<open>L\<close> is the set of the headers of the blocks it holds.
\<close>

inductive uses :: "nat \<Rightarrow> umem \<Rightarrow> nat set \<Rightarrow> bool" for lo where
  use_start: "fresh lo s \<Longrightarrow> uses lo s {}"
| use_malloc: "uses lo s L \<Longrightarrow> nbytes < 2147483632 \<Longrightarrow> malloc nbytes s = Some (c + 8, t) \<Longrightarrow> uses lo t (insert c L)"
| use_refused: "uses lo s L \<Longrightarrow> nbytes < 2147483632 \<Longrightarrow> malloc nbytes s = Some (0, t) \<Longrightarrow> uses lo t L"
| use_free: "uses lo s L \<Longrightarrow> c \<in> L \<Longrightarrow> u_free (c + 8) s = Some t \<Longrightarrow> uses lo t (L - {c})"
| use_write: "uses lo s L \<Longrightarrow>
    (\<And>x. (\<And>c. c \<in> L \<Longrightarrow> \<not> (c + 8 \<le> x \<and> x < c + 8 * hsize s c)) \<Longrightarrow> h x = hptr s x \<and> g x = hsize s x) \<Longrightarrow>
    uses lo (s\<lparr>hptr := h, hsize := g\<rparr>) L"

lemma heap_write:
  assumes a: "heap lo s as L"
    and w: "\<And>x. (\<And>c. c \<in> L \<Longrightarrow> \<not> (c + 8 \<le> x \<and> x < c + 8 * hsize s c)) \<Longrightarrow> h x = hptr s x \<and> g x = hsize s x"
  shows "heap lo (s\<lparr>hptr := h, hsize := g\<rparr>) as L"
proof -
  let ?S = "set as - {base s} \<union> L"
  have t: "tiles (\<lambda>a. HEADER * hsize s a) ?S lo (brk s)" and hd: "base s \<in> set as" using a by (auto simp: heap_def dest: hd_in_set)
  have hdr: "h x = hptr s x \<and> g x = hsize s x" if x: "x \<in> set as \<union> L" for x
  proof (rule w)
    fix c assume c: "c \<in> L"
    show "\<not> (c + 8 \<le> x \<and> x < c + 8 * hsize s c)"
    proof (cases "x = base s")
      case True
      then show ?thesis using heap_block[OF a, of c] c by simp
    next
      case False
      then have "x \<in> ?S" using x by blast
      then show ?thesis using tiles_apart[OF t, of c x] c by force
    qed
  qed
  have "tiles (\<lambda>a. HEADER * g a) ?S lo (brk s) = tiles (\<lambda>a. HEADER * hsize s a) ?S lo (brk s)"
    by (rule tiles_cong) (use hdr in auto)
  moreover have "path h as (base s) = path (hptr s) as (base s)" by (rule path_cong) (use hdr in auto)
  ultimately show ?thesis using a hdr hd unfolding heap_def by auto
qed

lemma uses_heap: "uses lo s L \<Longrightarrow> heap_ok lo s L"
proof (induction rule: uses.induct)
  case (use_start s)
  then show ?case by (simp add: heap_ok_def)
next
  case (use_malloc s L nbytes c t)
  then show ?case using malloc_ok[of lo s L nbytes] by (auto simp: got_def heap_ok_def)
next
  case (use_refused s L nbytes t)
  then show ?case using malloc_ok[of lo s L nbytes] by auto
next
  case (use_free s L c t)
  then obtain as where "heap lo s as L" by (auto simp: heap_ok_def)
  from u_free_ok[OF this use_free.hyps(2)] show ?case using use_free.hyps(3) by (auto simp: heap_ok_def)
next
  case (use_write s L h g)
  then show ?case using heap_write[of lo s _ L h g] by (auto simp: heap_ok_def fresh_def)
qed

text \<open>C7. The allocator is safe and total.  On every run of a program that keeps to the rules, the blocks it holds lie in the
  memory of the process and do not overlap, and with the free blocks they tile the heap, so that nothing is lost;
  \<open>free\<close> of any of them returns and leaves the others as they are; and \<open>malloc\<close> returns, with room for the bytes asked for outside of every
  block held and their headers, or with 0 if the memory it asks the kernel for is not there.\<close>

theorem allocator_safe:
  assumes "uses lo s L" and "nbytes < 2147483632"
  shows "heap_ok lo s L \<and>
    (\<forall>c\<in>L. lo \<le> c \<and> c + 8 * hsize s c \<le> brk s \<and> (\<forall>d\<in>L. c < d \<longrightarrow> c + 8 * hsize s c \<le> d)) \<and>
    (\<forall>c\<in>L. \<exists>t. u_free (c + 8) s = Some t \<and> (\<forall>d\<in>L - {c}. hsize t d = hsize s d)) \<and>
    (\<exists>ap t. malloc nbytes s = Some (ap, t) \<and> (\<forall>c\<in>L. hsize t c = hsize s c) \<and>
      (if ap = 0 then lim s < brk s + 8 * max 4096 (units nbytes)
       else lo + 8 \<le> ap \<and> ap + nbytes \<le> brk t \<and> (\<forall>c\<in>L. ap + nbytes \<le> c \<or> c + 8 * hsize s c \<le> ap - 8)))"
proof -
  note ok = uses_heap[OF assms(1)]
  have held: "\<exists>as. heap lo s as L" if "c \<in> L" for c using ok that by (auto simp: heap_ok_def)
  have 1: "\<forall>c\<in>L. lo \<le> c \<and> c + 8 * hsize s c \<le> brk s \<and> (\<forall>d\<in>L. c < d \<longrightarrow> c + 8 * hsize s c \<le> d)"
  proof
    fix c assume c: "c \<in> L"
    then obtain as where as: "heap lo s as L" using held by blast
    then have "tiles (\<lambda>a. HEADER * hsize s a) (set as - {base s} \<union> L) lo (brk s)" by (simp add: heap_def)
    then show "lo \<le> c \<and> c + 8 * hsize s c \<le> brk s \<and> (\<forall>d\<in>L. c < d \<longrightarrow> c + 8 * hsize s c \<le> d)"
      using heap_block[OF as, of c] c tiles_apart[of _ _ lo "brk s" c] by fastforce
  qed
  have 2: "\<forall>c\<in>L. \<exists>t. u_free (c + 8) s = Some t \<and> (\<forall>d\<in>L - {c}. hsize t d = hsize s d)"
    using held u_free_ok by blast
  have 3: "lo + 8 \<le> c + 8 \<and> c + 8 + nbytes \<le> brk t \<and> (\<forall>d\<in>L. c + 8 + nbytes \<le> d \<or> d + 8 * hsize s d \<le> c)"
    if g: "got lo (units nbytes) L s t c" for t c
  proof -
    obtain as where as: "heap lo t as (insert c L)" using g by (auto simp: got_def)
    then have t: "tiles (\<lambda>a. HEADER * hsize t a) (set as - {base t} \<union> insert c L) lo (brk t)" by (simp add: heap_def)
    have room: "8 + nbytes \<le> 8 * hsize t c" using g by (simp add: got_def units_def)
    have "c + 8 + nbytes \<le> d \<or> d + 8 * hsize s d \<le> c" if d: "d \<in> L" for d
      using tiles_apart[OF t, of c d] tiles_apart[OF t, of d c] d g room by (cases c d rule: linorder_cases) (auto simp: got_def)
    then show ?thesis using heap_block[OF as, of c] room by simp
  qed
  from malloc_ok[OF ok assms(2)] have "\<exists>ap t. malloc nbytes s = Some (ap, t) \<and> (\<forall>c\<in>L. hsize t c = hsize s c) \<and>
      (if ap = 0 then lim s < brk s + 8 * max 4096 (units nbytes)
       else lo + 8 \<le> ap \<and> ap + nbytes \<le> brk t \<and> (\<forall>c\<in>L. ap + nbytes \<le> c \<or> c + 8 * hsize s c \<le> ap - 8))"
  proof (elim exE disjE conjE)
    fix t c assume m: "malloc nbytes s = Some (c + 8, t)" and g: "got lo (units nbytes) L s t c"
    show ?thesis by (intro exI[of _ "c + 8"] exI[of _ t]) (use m 3[OF g] g in \<open>simp add: got_def\<close>)
  qed auto
  with ok 1 2 show ?thesis by blast
qed

definition sample_process :: umem where
  "sample_process = \<lparr>hptr = (\<lambda>_. 0), hsize = (\<lambda>_. 0), freep = 0, base = 4096, brk = 8192, lim = 65536\<rparr>"

theorem allocator_safe_witness:
  "\<exists>ap t. malloc 100 sample_process = Some (ap, t) \<and> 8200 \<le> ap \<and> ap + 100 \<le> brk t"
proof -
  have "uses 8192 sample_process {}" by (rule use_start) (simp add: fresh_def sample_process_def)
  from allocator_safe[OF this, of 100] show ?thesis
    by (auto simp: sample_process_def units_def split: if_splits)
qed

text \<open>The size is computed on an unsigned word: the largest request is taken for one of no bytes.\<close>

lemma malloc_size_wraps: "malloc 4294967295 s = malloc 0 s"
  by (simp add: malloc_def)

end
