(* ===== verification/Ide.thy ===== *)
theory Ide
  imports Layout
begin

text \<open>
  The driver of the IDE disks (ide.c): the queue of requests, the registers it writes to start one, and its
  interrupt handler.  The controller is a parameter: what its status port reads, and what a command does to the disks.
\<close>

unbundle bit_operations_syntax

section \<open>The driver\<close>

definition SECTOR_SIZE :: nat where [consts_defs]: "SECTOR_SIZE = 512"
definition IDE_BSY :: byte where "IDE_BSY = 0x80"
definition IDE_DRDY :: byte where "IDE_DRDY = 0x40"
definition IDE_DF :: byte where "IDE_DF = 0x20"
definition IDE_ERR :: byte where "IDE_ERR = 0x01"
definition IDE_CMD_READ :: byte where "IDE_CMD_READ = 0x20"
definition IDE_CMD_WRITE :: byte where "IDE_CMD_WRITE = 0x30"
definition IDE_CMD_RDMUL :: byte where "IDE_CMD_RDMUL = 0xc4"
definition IDE_CMD_WRMUL :: byte where "IDE_CMD_WRMUL = 0xc5"

text \<open>
  The status bytes read while the driver waits, the block a read command delivers and the effect of a write command, as functions
  of the registers of the controller and of the disks, which map a drive and a sector to its contents.
\<close>

record controller =
  status :: "byte list"
  ctl_read :: "(nat \<Rightarrow> byte) \<Rightarrow> (nat \<Rightarrow> nat \<Rightarrow> block) \<Rightarrow> block"
  ctl_write :: "(nat \<Rightarrow> byte) \<Rightarrow> block \<Rightarrow> (nat \<Rightarrow> nat \<Rightarrow> block) \<Rightarrow> (nat \<Rightarrow> nat \<Rightarrow> block)"

text \<open>
  The state: the buffers, the list threaded through their \<open>qnext\<close>, the registers and the block last written to the controller, the
  disks, and the process that calls.
\<close>

record ide_state =
  ibufs :: "nat \<Rightarrow> buf"
  idequeue :: "nat list"
  havedisk1 :: bool
  ports :: "nat \<Rightarrow> byte"
  sent :: block
  disks :: "nat \<Rightarrow> nat \<Rightarrow> block"
  ipid :: int

text \<open>The result of \<open>idewait\<close>, or nothing while the disk is not ready.\<close>

fun idewait :: "bool \<Rightarrow> byte list \<Rightarrow> int option" where
  "idewait checkerr [] = None"
| "idewait checkerr (r # rs) =
     (if r AND (IDE_BSY OR IDE_DRDY) \<noteq> IDE_DRDY then idewait checkerr rs
      else if checkerr \<and> r AND (IDE_DF OR IDE_ERR) \<noteq> 0 then Some (-1)
      else Some 0)"

definition ideinit :: "byte list \<Rightarrow> ide_state \<Rightarrow> ide_state" where
  "ideinit present s =
     s\<lparr>havedisk1 := havedisk1 s \<or> list_ex (\<lambda>r. r \<noteq> 0) (take 1000 present),
       ports := (ports s)(0x1f6 := 0xe0)\<rparr>"

definition idestart :: "controller \<Rightarrow> nat \<Rightarrow> ide_state \<Rightarrow> ide_state res" where
  "idestart ctl i s =
     (let b = ibufs s i;
          sector_per_block = BSIZE div SECTOR_SIZE;
          sector = b_blockno b * sector_per_block;
          read_cmd = (if sector_per_block = 1 then IDE_CMD_READ else IDE_CMD_RDMUL);
          write_cmd = (if sector_per_block = 1 then IDE_CMD_WRITE else IDE_CMD_WRMUL)
      in if FSSIZE \<le> b_blockno b then Panic ''incorrect blockno''
         else if 7 < sector_per_block then Panic ''idestart''
         else if idewait False (status ctl) = None then Asleep ''idewait''
         else
           let s = s\<lparr>ports := (ports s)
                      (0x3f6 := 0,
                       0x1f2 := of_nat sector_per_block,
                       0x1f3 := of_nat sector,
                       0x1f4 := of_nat (sector div 256),
                       0x1f5 := of_nat (sector div 65536),
                       0x1f6 := 0xe0 OR push_bit 4 (of_nat (b_dev b) AND 1) OR (of_nat (sector div 16777216) AND 0x0f))\<rparr>
           in if b_dirty b then Ok (s\<lparr>ports := (ports s)(0x1f7 := write_cmd), sent := b_data b\<rparr>)
              else Ok (s\<lparr>ports := (ports s)(0x1f7 := read_cmd)\<rparr>))"

definition ideintr :: "controller \<Rightarrow> ide_state \<Rightarrow> ide_state res" where
  "ideintr ctl s =
     (case idequeue s of
        [] \<Rightarrow> Ok s
      | i # q \<Rightarrow>
          let b = ibufs s i; s = s\<lparr>idequeue := q\<rparr> in
          if \<not> b_dirty b \<and> idewait True (status ctl) = None then Asleep ''idewait''
          else
            let b = (if \<not> b_dirty b \<and> idewait True (status ctl) = Some 0 then b\<lparr>b_data := ctl_read ctl (ports s) (disks s)\<rparr> else b);
                s = s\<lparr>ibufs := (ibufs s)(i := b\<lparr>b_valid := True, b_dirty := False\<rparr>)\<rparr>
            in (case q of [] \<Rightarrow> Ok s | j # _ \<Rightarrow> idestart ctl j s))"

text \<open>\<open>iderw\<close> up to its loop, and the condition on which the loop ends.\<close>

definition ide_rw :: "controller \<Rightarrow> nat \<Rightarrow> ide_state \<Rightarrow> ide_state res" where
  "ide_rw ctl i s =
     (let b = ibufs s i in
      if \<not> holdingsleep (ipid s) (b_lock b) then Panic ''iderw: buf not locked''
      else if b_valid b \<and> \<not> b_dirty b then Panic ''iderw: nothing to do''
      else if b_dev b \<noteq> 0 \<and> \<not> havedisk1 s then Panic ''iderw: ide disk 1 not present''
      else
        let s = s\<lparr>idequeue := idequeue s @ [i]\<rparr>
        in if hd (idequeue s) = i then idestart ctl i s else Ok s)"

definition ide_done :: "nat \<Rightarrow> ide_state \<Rightarrow> bool" where
  "ide_done i s \<longleftrightarrow> b_valid (ibufs s i) \<and> \<not> b_dirty (ibufs s i)"

section \<open>The controller\<close>

text \<open>Its documented behaviour: the drive and the sector that the registers select, one sector per command.\<close>

definition ata_drive :: "(nat \<Rightarrow> byte) \<Rightarrow> nat" where
  "ata_drive r = (if bit (r 0x1f6) 4 then 1 else 0)"

definition ata_sector :: "(nat \<Rightarrow> byte) \<Rightarrow> nat" where
  "ata_sector r = unat (r 0x1f3) + 256 * unat (r 0x1f4) + 65536 * unat (r 0x1f5) + 16777216 * unat (r 0x1f6 AND 0x0f)"

definition ata :: "controller \<Rightarrow> bool" where
  "ata ctl \<longleftrightarrow> idewait True (status ctl) = Some 0 \<and>
     (\<forall>r d. r 0x1f2 = 1 \<longrightarrow> r 0x1f7 = IDE_CMD_READ \<longrightarrow> ctl_read ctl r d = d (ata_drive r) (ata_sector r)) \<and>
     (\<forall>r x d. r 0x1f2 = 1 \<longrightarrow> r 0x1f7 = IDE_CMD_WRITE \<longrightarrow>
        ctl_write ctl r x d = d(ata_drive r := (d (ata_drive r))(ata_sector r := x)))"

text \<open>The end of a command: a block that was sent is on the disk, and the controller interrupts.\<close>

definition complete :: "controller \<Rightarrow> ide_state \<Rightarrow> ide_state" where
  "complete ctl s = (if ports s 0x1f7 = IDE_CMD_WRITE then s\<lparr>disks := ctl_write ctl (ports s) (sent s) (disks s)\<rparr> else s)"

definition interrupt :: "controller \<Rightarrow> ide_state \<Rightarrow> ide_state res" where
  "interrupt ctl s = ideintr ctl (complete ctl s)"

section \<open>The driver as the synchronous disk\<close>

text \<open>The registers hold the request for the buffer.\<close>

definition selects :: "ide_state \<Rightarrow> nat \<Rightarrow> bool" where
  "selects s i \<longleftrightarrow> (let b = ibufs s i; r = ports s in
     r 0x1f2 = 1 \<and> ata_drive r = b_dev b \<and> ata_sector r = b_blockno b \<and>
     (if b_dirty b then r 0x1f7 = IDE_CMD_WRITE \<and> sent s = b_data b else r 0x1f7 = IDE_CMD_READ))"

text \<open>A queued buffer waits for something, and its request is one the driver accepts.\<close>

definition request_ok :: "ide_state \<Rightarrow> nat \<Rightarrow> bool" where
  "request_ok s i \<longleftrightarrow> (let b = ibufs s i in
     sl_locked (b_lock b) \<and> \<not> (b_valid b \<and> \<not> b_dirty b) \<and> b_dev b = 1 \<and> b_blockno b < FSSIZE)"

definition ide_inv :: "ide_state \<Rightarrow> bool" where
  "ide_inv s \<longleftrightarrow> distinct (idequeue s) \<and> list_all (request_ok s) (idequeue s) \<and>
     (case idequeue s of [] \<Rightarrow> True | i # _ \<Rightarrow> selects s i)"

text \<open>The disk of the file system that the driver stands for, seen by the process that holds a buffer.\<close>

definition as_bio :: "int \<Rightarrow> ide_state \<Rightarrow> bio_state" where
  "as_bio pid s = \<lparr>bufs = ibufs s, lru = [], disk = disks s 1, disksize = FSSIZE, wlog = [], curpid = pid\<rparr>"

lemma bsize_sector [simp]: "BSIZE div SECTOR_SIZE = 1"
  by (simp add: BSIZE_def SECTOR_SIZE_def)

lemma idewait_ready: "idewait True st = Some 0 \<Longrightarrow> idewait False st = Some 0"
  by (induction st) (auto split: if_splits)

lemma start_ok:
  assumes "ata ctl" and "request_ok s i"
  shows "\<exists>t. idestart ctl i s = Ok t \<and> selects t i \<and> ibufs t = ibufs s \<and> idequeue t = idequeue s \<and> disks t = disks s \<and>
    havedisk1 t = havedisk1 s \<and> ipid t = ipid s"
proof -
  have n: "b_blockno (ibufs s i) < 1000" "b_dev (ibufs s i) = 1" using assms(2) by (auto simp: request_ok_def FSSIZE_def Let_def)
  have w: "idewait False (status ctl) = Some 0" using assms(1) by (auto simp: ata_def intro: idewait_ready)
  have "unat (of_nat (b_blockno (ibufs s i)) :: byte) + 256 * unat (of_nat (b_blockno (ibufs s i) div 256) :: byte) = b_blockno (ibufs s i)"
    using n by (simp add: unat_of_nat mod_less)
  then show ?thesis using n w
    by (auto simp: idestart_def Let_def FSSIZE_def selects_def ata_drive_def ata_sector_def)
qed

lemma request_cong: "ibufs t i = ibufs s i \<Longrightarrow> request_ok t i = request_ok s i"
  by (simp add: request_ok_def)

text \<open>A request joins the queue; nothing else changes but the registers, and those only if it is the first.\<close>

lemma ide_rw_ok:
  assumes "ata ctl" and inv: "ide_inv s" and i: "i \<notin> set (idequeue s)" "request_ok s i" and "holdingsleep (ipid s) (b_lock (ibufs s i))" "havedisk1 s"
  shows "\<exists>t. ide_rw ctl i s = Ok t \<and> ide_inv t \<and> idequeue t = idequeue s @ [i] \<and> ibufs t = ibufs s \<and> disks t = disks s"
proof (cases "idequeue s")
  case Nil
  let ?s = "s\<lparr>idequeue := [i]\<rparr>"
  have "request_ok ?s i" using i(2) by (simp add: request_ok_def)
  from start_ok[OF assms(1) this] obtain t where t: "idestart ctl i ?s = Ok t" "selects t i" "ibufs t = ibufs s" "idequeue t = [i]" "disks t = disks s"
    by auto
  have "request_ok t i" using i(2) t(3) by (simp add: request_ok_def)
  then have "ide_inv t" using t by (simp add: ide_inv_def)
  then show ?thesis using t Nil assms(5,6) i(2) by (auto simp: ide_rw_def Let_def request_ok_def)
next
  case (Cons j q)
  let ?s = "s\<lparr>idequeue := idequeue s @ [i]\<rparr>"
  have "request_ok ?s k = request_ok s k" for k by (simp add: request_ok_def)
  then have "ide_inv ?s" using inv i Cons by (auto simp: ide_inv_def selects_def Let_def list_all_iff)
  then show ?thesis using Cons assms(5,6) i by (auto simp: ide_rw_def Let_def request_ok_def)
qed

text \<open>An interrupt serves the first request, with the effect of the synchronous \<open>iderw\<close>, and starts the next.\<close>

definition serve :: "nat \<Rightarrow> bio_state \<Rightarrow> bio_state res" where
  "serve i u = iderw i (u\<lparr>curpid := sl_pid (b_lock (bufs u i))\<rparr>)"

definition stands_for :: "ide_state \<Rightarrow> bio_state \<Rightarrow> bool" where
  "stands_for s u \<longleftrightarrow> bufs u = ibufs s \<and> disk u = disks s 1 \<and> disksize u = FSSIZE"

lemma interrupt_ok:
  assumes a: "ata ctl" and inv: "ide_inv s" and q: "idequeue s = i # q" and u: "stands_for s u"
  shows "\<exists>t v. interrupt ctl s = Ok t \<and> serve i u = Ok v \<and> stands_for t v \<and> idequeue t = q \<and> ide_inv t \<and> ide_done i t \<and>
    (\<forall>k. k \<noteq> i \<longrightarrow> ibufs t k = ibufs s k)"
proof -
  let ?b = "ibufs s i"
  have r: "request_ok s i" "selects s i" "i \<notin> set q" "distinct q" "list_all (request_ok s) q" using inv q by (auto simp: ide_inv_def)
  define b where "b = (if b_dirty ?b then ?b else ?b\<lparr>b_data := disks s 1 (b_blockno ?b)\<rparr>)\<lparr>b_valid := True, b_dirty := False\<rparr>"
  define d where "d = (if b_dirty ?b then (disks s)(1 := (disks s 1)(b_blockno ?b := b_data ?b)) else disks s)"
  define s1 where "s1 = s\<lparr>disks := d, idequeue := q, ibufs := (ibufs s)(i := b)\<rparr>"
  have wait: "idewait True (status ctl) = Some 0" using a by (simp add: ata_def)
  have ne: "IDE_CMD_READ \<noteq> IDE_CMD_WRITE" by (simp add: IDE_CMD_READ_def IDE_CMD_WRITE_def)
  have c: "interrupt ctl s = (case q of [] \<Rightarrow> Ok s1 | j # _ \<Rightarrow> idestart ctl j s1)"
    using a r(1,2) q wait ne
    by (auto simp: interrupt_def complete_def ideintr_def ata_def selects_def request_ok_def Let_def s1_def b_def d_def split: list.splits)
  have v: "\<exists>v. serve i u = Ok v \<and> bufs v = (ibufs s)(i := b) \<and> disk v = d 1 \<and> disksize v = FSSIZE"
    using u r(1) by (auto simp: serve_def iderw_def stands_for_def request_ok_def holdingsleep_def Let_def b_def d_def)
  have ok: "list_all (request_ok s1) q" using r(3,5) by (auto simp: list_all_iff s1_def request_ok_def)
  have dn: "b_valid b \<and> \<not> b_dirty b" by (simp add: b_def)
  show ?thesis
  proof (cases q)
    case Nil
    then have "interrupt ctl s = Ok s1" "ide_inv s1" using c by (auto simp: ide_inv_def s1_def)
    then show ?thesis using v dn Nil by (auto simp: stands_for_def s1_def ide_done_def)
  next
    case (Cons j q')
    then have "request_ok s1 j" using ok by simp
    from start_ok[OF a this] obtain t where t: "idestart ctl j s1 = Ok t" "selects t j" "ibufs t = ibufs s1" "idequeue t = idequeue s1" "disks t = disks s1"
      by blast
    have "list_all (request_ok t) q" using ok t(3) by (simp add: list_all_iff request_cong[of t _ s1])
    then have "ide_inv t" using t Cons r(4) by (auto simp: ide_inv_def s1_def)
    then show ?thesis using v dn Cons c t by (auto simp: stands_for_def s1_def ide_done_def)
  qed
qed

primrec interrupts :: "controller \<Rightarrow> nat \<Rightarrow> ide_state \<Rightarrow> ide_state res" where
  "interrupts ctl 0 s = Ok s"
| "interrupts ctl (Suc n) s = rbind (interrupt ctl s) (interrupts ctl n)"

lemma interrupts_ok:
  assumes "ata ctl"
  shows "ide_inv s \<Longrightarrow> n \<le> length (idequeue s) \<Longrightarrow> stands_for s u \<Longrightarrow>
    \<exists>t v. interrupts ctl n s = Ok t \<and> rfold serve (take n (idequeue s)) u = Ok v \<and> stands_for t v \<and> idequeue t = drop n (idequeue s) \<and>
      ide_inv t \<and> list_all (\<lambda>i. ide_done i t) (take n (idequeue s)) \<and> (\<forall>k. k \<notin> set (take n (idequeue s)) \<longrightarrow> ibufs t k = ibufs s k)"
proof (induction n arbitrary: s u)
  case (Suc n)
  then obtain i q where q: "idequeue s = i # q" by (cases "idequeue s") auto
  obtain t v where t: "interrupt ctl s = Ok t" "serve i u = Ok v" "stands_for t v" "idequeue t = q" "ide_inv t" "ide_done i t"
    and k: "\<forall>k. k \<noteq> i \<longrightarrow> ibufs t k = ibufs s k"
    using interrupt_ok[OF assms Suc.prems(1) q Suc.prems(3)] by blast
  have "n \<le> length (idequeue t)" using Suc.prems(2) q t(4) by simp
  from Suc.IH[OF t(5) this t(3)] obtain t' v' where t': "interrupts ctl n t = Ok t'" "rfold serve (take n q) v = Ok v'" "stands_for t' v'"
    "idequeue t' = drop n q" "ide_inv t'" "list_all (\<lambda>i. ide_done i t') (take n q)" and k': "\<forall>k. k \<notin> set (take n q) \<longrightarrow> ibufs t' k = ibufs t k"
    unfolding t(4) by blast
  have "i \<notin> set (take n q)" using Suc.prems(1) q by (auto simp: ide_inv_def dest: in_set_takeD)
  then have "ide_done i t'" using t(6) k' by (simp add: ide_done_def)
  then show ?case using t t' k k' q by auto
qed auto

text \<open>C11. The driver of the IDE disks implements the synchronous disk that the buffer cache is proved over.  With a controller that behaves as
  documented and reports no error, a request joins the end of the queue without an effect on the buffers and the disks; and after any number of interrupts,
  up to the length of the queue, the requests at its front have been served, in their order, with the buffers and the
  disk that the synchronous \<open>iderw\<close> leaves, their waits are over, and the others still wait.\<close>

theorem ide_refines_memdisk:
  assumes "ata ctl" and "ide_inv s" and "n \<le> length (idequeue s)" and "stands_for s u"
  shows "(\<exists>t v. interrupts ctl n s = Ok t \<and> rfold serve (take n (idequeue s)) u = Ok v \<and> stands_for t v \<and>
      idequeue t = drop n (idequeue s) \<and> ide_inv t \<and> list_all (\<lambda>i. ide_done i t) (take n (idequeue s)) \<and> list_all (\<lambda>i. \<not> ide_done i t) (idequeue t)) \<and>
    (i \<notin> set (idequeue s) \<and> request_ok s i \<and> holdingsleep (ipid s) (b_lock (ibufs s i)) \<and> havedisk1 s \<longrightarrow>
      (\<exists>t. ide_rw ctl i s = Ok t \<and> ide_inv t \<and> idequeue t = idequeue s @ [i] \<and> stands_for t u))"
proof -
  have "list_all (\<lambda>i. \<not> ide_done i t) (idequeue t)" if "ide_inv t" for t
    using that by (auto simp: ide_inv_def list_all_iff request_ok_def ide_done_def Let_def)
  then show ?thesis
    using interrupts_ok[OF assms] ide_rw_ok[OF assms(1,2), of i] assms(4) unfolding stands_for_def by metis
qed

definition sample_controller :: controller where
  "sample_controller =
     \<lparr>status = [0x80, 0x40], ctl_read = (\<lambda>r d. d (ata_drive r) (ata_sector r)),
      ctl_write = (\<lambda>r x d. d(ata_drive r := (d (ata_drive r))(ata_sector r := x)))\<rparr>"

definition sample_disk :: ide_state where
  "sample_disk =
     \<lparr>ibufs = (\<lambda>i. zero_buf\<lparr>b_dev := 1, b_blockno := 700 + i, b_dirty := (i = 0), b_lock := \<lparr>sl_locked = True, sl_pid = int i\<rparr>\<rparr>),
      idequeue = [0, 5], havedisk1 = True,
      ports = (\<lambda>_. 0)(0x1f2 := 1, 0x1f3 := 188, 0x1f4 := 2, 0x1f6 := 0xf0, 0x1f7 := 0x30), sent = zero_block, disks = (\<lambda>_ _ _. 7), ipid = 3\<rparr>"

theorem ide_refines_memdisk_witness:
  "\<exists>t. interrupts sample_controller 2 sample_disk = Ok t \<and> idequeue t = [] \<and> ide_done 0 t \<and> ide_done 5 t"
proof -
  have "ata sample_controller" by (simp add: ata_def sample_controller_def IDE_BSY_def IDE_DRDY_def IDE_DF_def IDE_ERR_def)
  moreover have "ide_inv sample_disk"
    by (simp add: ide_inv_def sample_disk_def request_ok_def selects_def zero_buf_def FSSIZE_def ata_drive_def ata_sector_def IDE_CMD_WRITE_def bit_simps)
  moreover have "stands_for sample_disk (as_bio 0 sample_disk)" by (simp add: stands_for_def as_bio_def)
  ultimately show ?thesis
    using ide_refines_memdisk[of sample_controller sample_disk 2 "as_bio 0 sample_disk" 0] by (auto simp: sample_disk_def)
qed

text \<open>A controller that reports an error on a read: the buffer is marked as valid with the data it had.\<close>

lemma read_error_ignored:
  assumes "idequeue s = [i]" and "\<not> b_dirty (ibufs s i)" and "idewait True (status ctl) = Some (-1)"
  shows "\<exists>t. ideintr ctl s = Ok t \<and> ide_done i t \<and> b_data (ibufs t i) = b_data (ibufs s i)"
  using assms by (simp add: ideintr_def Let_def ide_done_def)

end
