(* ===== verification/Mkfs.thy ===== *)
theory Mkfs
  imports Fs_Props
begin

text \<open>
  The program that makes the file system image (mkfs.c).  The image is a function from block numbers to blocks, with the number of
  blocks the file has; a failed call of the host (a read behind its end) and a failed \<open>assert\<close> end the program.
  The files named on the command line are given with their contents; \<open>xshort\<close> and \<open>xint\<close> are the byte order of \<open>put16\<close> and \<open>put32\<close>.
\<close>

section \<open>The program\<close>

definition NINODES :: nat where [consts_defs]: "NINODES = 200"

definition nbitmap :: nat where "nbitmap = FSSIZE div (BSIZE * 8) + 1"
definition ninodeblocks :: nat where "ninodeblocks = NINODES div IPB + 1"
definition nlog :: nat where "nlog = nat LOGSIZE"
definition nmeta :: nat where "nmeta = 2 + nlog + ninodeblocks + nbitmap"

definition mk_sb :: superblock where
  "mk_sb = \<lparr>sb_size = FSSIZE, sb_nblocks = FSSIZE - nmeta, sb_ninodes = NINODES, sb_nlog = nlog, sb_logstart = 2,
     sb_inodestart = 2 + nlog, sb_bmapstart = 2 + nlog + ninodeblocks\<rparr>"

record mk_state =
  img :: "nat \<Rightarrow> block"
  nsect :: nat
  freeinode :: nat
  freeblock :: nat

definition wsect :: "nat \<Rightarrow> block \<Rightarrow> mk_state \<Rightarrow> mk_state" where
  "wsect sec buf s = s\<lparr>img := (img s)(sec := buf), nsect := max (nsect s) (sec + 1)\<rparr>"

definition rsect :: "nat \<Rightarrow> mk_state \<Rightarrow> block res" where
  "rsect sec s = (if sec < nsect s then Ok (img s sec) else Panic ''read'')"

definition winode :: "nat \<Rightarrow> inode \<Rightarrow> mk_state \<Rightarrow> mk_state res" where
  "winode inum ip s =
     (let bn = IBLOCK inum mk_sb in
      rbind (rsect bn s) (\<lambda>buf. Ok (wsect bn (store_dinode ip (dinode_off inum) buf) s)))"

definition rinode :: "nat \<Rightarrow> mk_state \<Rightarrow> inode res" where
  "rinode inum s =
     rbind (rsect (IBLOCK inum mk_sb) s) (\<lambda>buf. Ok (load_dinode buf (dinode_off inum) zero_inode))"

definition mk_ialloc :: "short \<Rightarrow> mk_state \<Rightarrow> (nat \<times> mk_state) res" where
  "mk_ialloc type s =
     (let inum = freeinode s; s = s\<lparr>freeinode := inum + 1\<rparr> in
      rbind (winode inum (zero_inode\<lparr>i_type := type, i_nlink := 1, i_size := 0\<rparr>) s) (\<lambda>s. Ok (inum, s)))"

definition mk_balloc :: "nat \<Rightarrow> mk_state \<Rightarrow> mk_state res" where
  "mk_balloc used' s =
     (if \<not> used' < BSIZE * 8 then Panic ''used < BSIZE*8''
      else Ok (wsect (sb_bmapstart mk_sb) (foldl (\<lambda>buf i. bset i buf) zero_block [0..<used']) s))"

text \<open>The block of the file at index \<open>fbn\<close>, allocated if it is not there.\<close>

definition mk_bmap :: "nat \<Rightarrow> inode \<Rightarrow> mk_state \<Rightarrow> (nat \<times> inode \<times> mk_state) res" where
  "mk_bmap fbn din s =
     (let slot = (if fbn < NDIRECT then fbn else NDIRECT);
          (din, s) = (if i_addrs din slot = 0
                      then (din\<lparr>i_addrs := (i_addrs din)(slot := freeblock s)\<rparr>, s\<lparr>freeblock := freeblock s + 1\<rparr>)
                      else (din, s))
      in if fbn < NDIRECT then Ok (i_addrs din fbn, din, s)
         else
           rbind (rsect (i_addrs din NDIRECT) s) (\<lambda>indirect.
           let k = fbn - NDIRECT in
           if get32 indirect (4 * k) = 0 then
             let indirect = put32 (4 * k) (freeblock s) indirect;
                 s = wsect (i_addrs din NDIRECT) indirect (s\<lparr>freeblock := freeblock s + 1\<rparr>)
             in Ok (get32 indirect (4 * k), din, s)
           else Ok (get32 indirect (4 * k), din, s)))"

function iappend_loop :: "inode \<Rightarrow> nat \<Rightarrow> byte list \<Rightarrow> mk_state \<Rightarrow> (inode \<times> nat \<times> mk_state) res" where
  "iappend_loop din off p s =
     (if p = [] then Ok (din, off, s)
      else
        let fbn = off div BSIZE in
        if \<not> fbn < MAXFILE then Panic ''fbn < MAXFILE''
        else
          rbind (mk_bmap fbn din s) (\<lambda>(x, din, s).
          let n1 = min (length p) ((fbn + 1) * BSIZE - off) in
          rbind (rsect x s) (\<lambda>buf.
          iappend_loop din (off + n1) (drop n1 p) (wsect x (put_bytes (off - fbn * BSIZE) (take n1 p) buf) s))))"
  by pat_completeness auto
termination
proof (relation "measure (\<lambda>(din, off, p, s). length p)")
  have "off < (off div BSIZE + 1) * BSIZE" for off by (simp add: BSIZE_def)
  then have "0 < (off div BSIZE + 1) * BSIZE - off" for off by simp
  then show "((din', off + n, drop n p, s'), din, off, p, s) \<in> measure (\<lambda>(din, off, p, s). length p)"
    if "p \<noteq> []" "fbn = off div BSIZE" "n = min (length p) ((fbn + 1) * BSIZE - off)" for p fbn n off din' s' din s
    using that by (simp add: diff_less)
qed auto

declare iappend_loop.simps [simp del]

definition iappend :: "nat \<Rightarrow> byte list \<Rightarrow> mk_state \<Rightarrow> mk_state res" where
  "iappend inum p s =
     rbind (rinode inum s) (\<lambda>din.
     rbind (iappend_loop din (i_size din) p s) (\<lambda>(din, off, s).
     winode inum (din\<lparr>i_size := off\<rparr>) s))"

text \<open>The pieces in which a file is read, \<open>sizeof(buf)\<close> bytes each.\<close>

function pieces :: "byte list \<Rightarrow> byte list list" where
  "pieces bs = (if bs = [] then [] else take BSIZE bs # pieces (drop BSIZE bs))"
  by pat_completeness auto
termination by (relation "measure length") (auto simp: BSIZE_def)

declare pieces.simps [simp del]

definition strip :: "byte list \<Rightarrow> byte list" where
  "strip name = (if name \<noteq> [] \<and> hd name = 95 then tl name else name)"

definition add_file :: "nat \<Rightarrow> byte list \<times> byte list \<Rightarrow> mk_state \<Rightarrow> mk_state res" where
  "add_file rootino = (\<lambda>(name, bytes) s.
     if 47 \<in> set name then Panic ''index(argv[i], /) == 0''
     else
       rbind (mk_ialloc T_FILE s) (\<lambda>(inum, s).
       rbind (iappend rootino (mk_dirent inum (strip name)) s) (\<lambda>s.
       rfold (iappend inum) (pieces bytes) s)))"

definition fix_size :: "nat \<Rightarrow> mk_state \<Rightarrow> mk_state res" where
  "fix_size rootino s =
     rbind (rinode rootino s) (\<lambda>din.
     winode rootino (din\<lparr>i_size := (i_size din div BSIZE + 1) * BSIZE\<rparr>) s)"

definition mkfs :: "(byte list \<times> byte list) list \<Rightarrow> mk_state res" where
  "mkfs files =
     (let s = \<lparr>img = (\<lambda>_. zero_block), nsect = 0, freeinode = 1, freeblock = nmeta\<rparr>;
          s = foldl (\<lambda>s i. wsect i zero_block s) s [0..<FSSIZE];
          s = wsect 1 (enc_superblock mk_sb zero_block) s
      in rbind (mk_ialloc T_DIR s) (\<lambda>(rootino, s).
         if rootino \<noteq> ROOTINO then Panic ''rootino == ROOTINO''
         else
           rbind (iappend rootino (mk_dirent rootino [46]) s) (\<lambda>s.
           rbind (iappend rootino (mk_dirent rootino [46, 46]) s) (\<lambda>s.
           rbind (rfold (add_file rootino) files s) (\<lambda>s.
           rbind (fix_size rootino s) (\<lambda>s.
           mk_balloc (freeblock s) s))))))"

lemma mk_sb_eq: "mk_sb = mkfs_sb" "nmeta = 59"
  by (simp_all add: mk_sb_def mkfs_sb_def nmeta_def nlog_def ninodeblocks_def nbitmap_def consts_defs)

section \<open>The blocks of all inodes\<close>

text \<open>The block an inode has for index \<open>k\<close>, and its indirect block for \<open>k = MAXFILE\<close>.\<close>

definition blk :: "(nat \<Rightarrow> block) \<Rightarrow> inode \<Rightarrow> nat \<Rightarrow> nat" where
  "blk V n k = (if k < MAXFILE then iaddr V n k else i_addrs n NDIRECT)"

text \<open>
  Over the blocks \<open>V\<close> the inodes \<open>N\<close> have the contents \<open>F\<close>.  Inode \<open>i\<close> has its first \<open>C i\<close> blocks and, if \<open>D i\<close>, an indirect block; the bytes
  behind the contents are zero; no block is used twice; and the blocks from \<open>fb\<close> on are fresh.
\<close>

definition core :: "(nat \<Rightarrow> block) \<Rightarrow> (nat \<Rightarrow> inode) \<Rightarrow> nat \<Rightarrow> (nat \<Rightarrow> byte list) \<Rightarrow> (nat \<Rightarrow> nat) \<Rightarrow> (nat \<Rightarrow> bool) \<Rightarrow> bool" where
  "core V N fb F C D \<longleftrightarrow>
     (\<forall>i bn. bn < MAXFILE \<longrightarrow> (iaddr V (N i) bn \<noteq> 0 \<longleftrightarrow> bn < C i)) \<and>
     (\<forall>i. i_addrs (N i) NDIRECT \<noteq> 0 \<longleftrightarrow> D i) \<and>
     (\<forall>i. C i \<le> MAXFILE \<and> length (F i) \<le> C i * BSIZE) \<and>
     (\<forall>i p. p < C i * BSIZE \<longrightarrow> fbyte V (N i) p = (if p < length (F i) then F i ! p else 0)) \<and>
     (\<forall>i k. k \<le> MAXFILE \<longrightarrow> blk V (N i) k \<noteq> 0 \<longrightarrow> nmeta \<le> blk V (N i) k \<and> blk V (N i) k < fb) \<and>
     (\<forall>i j k l. k \<le> MAXFILE \<longrightarrow> l \<le> MAXFILE \<longrightarrow> blk V (N i) k = blk V (N j) l \<longrightarrow> blk V (N i) k \<noteq> 0 \<longrightarrow> i = j \<and> k = l) \<and>
     (\<forall>b\<ge>fb. V b = zero_block)"

lemma coreD:
  assumes "core V N fb F C D"
  shows "bn < MAXFILE \<Longrightarrow> iaddr V (N i) bn \<noteq> 0 \<longleftrightarrow> bn < C i"
    and "i_addrs (N i) NDIRECT \<noteq> 0 \<longleftrightarrow> D i"
    and "C i \<le> MAXFILE" and "length (F i) \<le> C i * BSIZE"
    and "p < C i * BSIZE \<Longrightarrow> fbyte V (N i) p = (if p < length (F i) then F i ! p else 0)"
    and "k \<le> MAXFILE \<Longrightarrow> blk V (N i) k \<noteq> 0 \<Longrightarrow> nmeta \<le> blk V (N i) k \<and> blk V (N i) k < fb"
    and "k \<le> MAXFILE \<Longrightarrow> l \<le> MAXFILE \<Longrightarrow> blk V (N i) k = blk V (N j) l \<Longrightarrow> blk V (N i) k \<noteq> 0 \<Longrightarrow> i = j \<and> k = l"
    and "fb \<le> b \<Longrightarrow> V b = zero_block"
proof -
  note a = assms[unfolded core_def] and c1 = conjunct1 and c2 = conjunct2
  show "bn < MAXFILE \<Longrightarrow> iaddr V (N i) bn \<noteq> 0 \<longleftrightarrow> bn < C i" using a[THEN c1] by blast
  show "i_addrs (N i) NDIRECT \<noteq> 0 \<longleftrightarrow> D i" using a[THEN c2, THEN c1] by blast
  show "C i \<le> MAXFILE" "length (F i) \<le> C i * BSIZE" using a[THEN c2, THEN c2, THEN c1] by blast+
  show "p < C i * BSIZE \<Longrightarrow> fbyte V (N i) p = (if p < length (F i) then F i ! p else 0)"
    using a[THEN c2, THEN c2, THEN c2, THEN c1] by blast
  show "k \<le> MAXFILE \<Longrightarrow> blk V (N i) k \<noteq> 0 \<Longrightarrow> nmeta \<le> blk V (N i) k \<and> blk V (N i) k < fb"
    using a[THEN c2, THEN c2, THEN c2, THEN c2, THEN c1] by blast
  show "k \<le> MAXFILE \<Longrightarrow> l \<le> MAXFILE \<Longrightarrow> blk V (N i) k = blk V (N j) l \<Longrightarrow> blk V (N i) k \<noteq> 0 \<Longrightarrow> i = j \<and> k = l"
    using a[THEN c2, THEN c2, THEN c2, THEN c2, THEN c2, THEN c1] by blast
  show "fb \<le> b \<Longrightarrow> V b = zero_block"
    using a[THEN c2, THEN c2, THEN c2, THEN c2, THEN c2, THEN c2] by blast
qed

lemma NDIRECT_lt: "NDIRECT < MAXFILE"
  by (simp add: MAXFILE_def NINDIRECT_def BSIZE_def)

lemma nmeta_pos: "0 < nmeta"
  by (simp add: mk_sb_eq)

text \<open>A change of one block that is no indirect block leaves every block map alone.\<close>

lemma iaddr_upd_other:
  assumes "i_addrs n NDIRECT \<noteq> x"
  shows "iaddr (V(x := d)) n bn = iaddr V n bn"
  using assms by (simp add: iaddr_def)

lemma fbyte_div: "fbyte V n p = (if iaddr V n (p div BSIZE) = 0 then 0 else V (iaddr V n (p div BSIZE)) (p mod BSIZE))"
  by (simp add: fbyte_def Let_def)

lemma mult_BSIZE_div: "p < c * BSIZE \<longleftrightarrow> p div BSIZE < c"
  by (simp add: BSIZE_def div_less_iff_less_mult)

text \<open>Bytes stored behind the contents, within the block they end in.\<close>

lemma core_write:
  assumes c: "core V N fb F C D" and x: "x = iaddr V (N i) (length (F i) div BSIZE)" and bs: "length (F i) div BSIZE < C i"
    "length (F i) mod BSIZE + length bs \<le> BSIZE"
  shows "core (V(x := put_bytes (length (F i) mod BSIZE) bs (V x))) N fb (F(i := F i @ bs)) C D" (is "core ?V N fb ?F C D")
proof -
  let ?off = "length (F i)" let ?fbn = "?off div BSIZE"
  have edge: "?off + length bs \<le> (?fbn + 1) * BSIZE" using bs(2) div_mult_mod_eq[of ?off BSIZE] by (simp only: distrib_right)
  have fbn: "?fbn < MAXFILE" using bs(1) coreD(3)[OF c, of i] by simp
  have x0: "x \<noteq> 0" using coreD(1)[OF c fbn, of i] bs(1) x by simp
  have bx: "blk V (N i) ?fbn = x" using fbn x by (simp add: blk_def)
  have ind: "i_addrs (N j) NDIRECT \<noteq> x" for j
  proof
    assume "i_addrs (N j) NDIRECT = x"
    then have "blk V (N j) MAXFILE = blk V (N i) ?fbn" by (simp add: blk_def bx[unfolded blk_def] fbn x)
    then show False using coreD(7)[OF c, of MAXFILE ?fbn j i] fbn bx x0 by simp
  qed
  have ia: "iaddr ?V (N j) bn = iaddr V (N j) bn" for j bn using iaddr_upd_other[OF ind] .
  have bl: "blk ?V (N j) k = blk V (N j) k" for j k by (simp add: blk_def ia)
  have xb: "x < fb" using coreD(6)[OF c, of ?fbn i] fbn bx x0 by simp
  have fb: "fbyte ?V (N j) p = (if p < length (?F j) then ?F j ! p else 0)" if p: "p < C j * BSIZE" for j p
  proof -
    let ?bn = "p div BSIZE"
    have bn: "?bn < C j" "?bn < MAXFILE" using p coreD(3)[OF c, of j] by (auto simp: mult_BSIZE_div)
    have nz: "iaddr V (N j) ?bn \<noteq> 0" using coreD(1)[OF c bn(2)] bn(1) by simp
    have old: "V (iaddr V (N j) ?bn) (p mod BSIZE) = (if p < length (F j) then F j ! p else 0)"
      using coreD(5)[OF c p] nz by (simp add: fbyte_div)
    show ?thesis
    proof (cases "j = i \<and> ?bn = ?fbn")
      case True
      have "p = ?fbn * BSIZE + p mod BSIZE" "?off = ?fbn * BSIZE + ?off mod BSIZE" using True by (metis div_mult_mod_eq)+
      then have q: "?off mod BSIZE \<le> p mod BSIZE \<longleftrightarrow> ?off \<le> p" "p mod BSIZE < ?off mod BSIZE + length bs \<longleftrightarrow> p < ?off + length bs"
        "p mod BSIZE - ?off mod BSIZE = p - ?off" by linarith+
      have "iaddr ?V (N j) ?bn = x" using True x unfolding ia by simp
      then have "fbyte ?V (N j) p = (if ?off \<le> p \<and> p < ?off + length bs then bs ! (p - ?off) else V x (p mod BSIZE))"
        using x0 by (simp add: fbyte_div put_bytes_at q)
      then show ?thesis using old True x by (auto simp: nth_append)
    next
      case False
      have "iaddr V (N j) ?bn \<noteq> x"
        using coreD(7)[OF c, of ?bn ?fbn j i] bn(2) fbn bx nz False by (auto simp: blk_def)
      moreover have "(if p < length (F j) then F j ! p else 0) = (if p < length (?F j) then ?F j ! p else 0)"
      proof (cases "j = i")
        case True
        have "\<not> (?off \<le> p \<and> p < ?off + length bs)"
        proof
          assume p': "?off \<le> p \<and> p < ?off + length bs"
          have "?bn < ?fbn + 1" using p' edge by (simp flip: mult_BSIZE_div)
          moreover have "?fbn \<le> ?bn" using p' by (simp add: div_le_mono)
          ultimately show False using False True by simp
        qed
        then show ?thesis using True by (auto simp: nth_append)
      qed simp
      ultimately show ?thesis using old nz by (simp add: fbyte_div ia)
    qed
  qed
  have len: "length (?F j) \<le> C j * BSIZE" for j
  proof (cases "j = i")
    case True
    have "(?fbn + 1) * BSIZE \<le> C i * BSIZE" using bs(1) by (intro mult_le_mono1) simp
    with edge have "?off + length bs \<le> C i * BSIZE" by (rule le_trans)
    then show ?thesis using True by simp
  qed (use coreD(4)[OF c] in simp)
  have "?V b = zero_block" if "fb \<le> b" for b using coreD(8)[OF c that] xb that by simp
  then show ?thesis
    unfolding core_def ia bl using coreD(1-3,6,7)[OF c] fb len by blast
qed

text \<open>A fresh block as block \<open>k0\<close> of inode \<open>i\<close>.\<close>

lemma core_new_block:
  assumes c: "core V N fb F C D" and fb: "nmeta \<le> fb"
    and b: "\<And>j k. k \<le> MAXFILE \<Longrightarrow> blk V' (N' j) k = (if j = i \<and> k = k0 then fb else blk V (N j) k)"
    and k0: "k0 = MAXFILE \<and> \<not> D i \<or> k0 < MAXFILE \<and> k0 = C i"
    and same: "\<And>j bn. bn < MAXFILE \<Longrightarrow> iaddr V (N j) bn \<noteq> 0 \<Longrightarrow> V' (iaddr V (N j) bn) = V (iaddr V (N j) bn)" "\<And>b. fb \<le> b \<Longrightarrow> V' b = V b"
  shows "core V' N' (fb + 1) F (if k0 < MAXFILE then C(i := C i + 1) else C) (if k0 < MAXFILE then D else D(i := True))" (is "core V' N' _ F ?C ?D")
proof -
  have fb0: "0 < fb" using fb nmeta_pos by linarith
  have ia: "iaddr V' (N' j) bn = (if j = i \<and> bn = k0 then fb else iaddr V (N j) bn)" if "bn < MAXFILE" for j bn
    using b[of bn j] that by (simp add: blk_def)
  have ind: "i_addrs (N' j) NDIRECT = (if j = i \<and> k0 = MAXFILE then fb else i_addrs (N j) NDIRECT)" for j
    using b[of MAXFILE j] by (auto simp: blk_def)
  have lt: "blk V (N j) k \<noteq> fb" if "k \<le> MAXFILE" for j k using coreD(6)[OF c that, of j] fb0 by force
  have old: "blk V (N i) k0 = 0" using k0 coreD(1)[OF c, of k0 i] coreD(2)[OF c, of i] by (auto simp: blk_def)
  have 1: "iaddr V' (N' j) bn \<noteq> 0 \<longleftrightarrow> bn < ?C j" if "bn < MAXFILE" for j bn
    using ia[OF that] coreD(1)[OF c that, of j] k0 that fb0 by auto
  have 2: "i_addrs (N' j) NDIRECT \<noteq> 0 \<longleftrightarrow> ?D j" for j using ind coreD(2)[OF c, of j] fb0 k0 by auto
  have 3: "?C j \<le> MAXFILE \<and> length (F j) \<le> ?C j * BSIZE" for j using coreD(3,4)[OF c, of j] k0 by (auto intro: le_trans)
  have 4: "fbyte V' (N' j) p = (if p < length (F j) then F j ! p else 0)" if p: "p < ?C j * BSIZE" for j p
  proof -
    have bn: "p div BSIZE < ?C j" "p div BSIZE < MAXFILE" using p 3[of j] by (auto simp: mult_BSIZE_div)
    show ?thesis
    proof (cases "j = i \<and> p div BSIZE = k0")
      case True
      then have "C i * BSIZE \<le> p" using k0 bn(2) by (metis div_times_less_eq_dividend less_irrefl)
      then have "\<not> p < length (F j)" using True coreD(4)[OF c, of i] by simp
      then show ?thesis using True ia[OF bn(2), of j] same(2)[of fb] coreD(8)[OF c, of fb] by (simp add: fbyte_div zero_block_def)
    next
      case False
      have "p div BSIZE < C j" using False bn k0 by (auto split: if_splits)
      then have p': "p < C j * BSIZE" by (simp add: mult_BSIZE_div)
      have e: "iaddr V' (N' j) (p div BSIZE) = iaddr V (N j) (p div BSIZE)" using ia[OF bn(2), of j] False by (simp only: if_False)
      have "fbyte V' (N' j) p = fbyte V (N j) p" unfolding fbyte_div e using same(1)[OF bn(2), of j] by simp
      then show ?thesis using coreD(5)[OF c p'] by simp
    qed
  qed
  have 5: "nmeta \<le> blk V' (N' j) k \<and> blk V' (N' j) k < fb + 1" if "k \<le> MAXFILE" "blk V' (N' j) k \<noteq> 0" for j k
    using b[OF that(1), of j] that coreD(6)[OF c that(1), of j] fb by (auto split: if_splits)
  have 6: "j = j' \<and> k = k'" if k: "k \<le> MAXFILE" "k' \<le> MAXFILE" and eq: "blk V' (N' j) k = blk V' (N' j') k'" "blk V' (N' j) k \<noteq> 0" for j j' k k'
    using b[OF k(1), of j] b[OF k(2), of j'] eq lt[OF k(1)] lt[OF k(2)] coreD(7)[OF c k, of j j'] by (auto split: if_splits)
  have 7: "V' x = zero_block" if "fb + 1 \<le> x" for x using same(2)[of x] coreD(8)[OF c, of x] that by simp
  show ?thesis unfolding core_def using 1 2 3 4 5 6 7 by blast
qed

lemma core_alloc_direct:
  assumes c: "core V N fb F C D" and fb: "nmeta \<le> fb" and k: "C i < NDIRECT"
  shows "core V (N(i := (N i)\<lparr>i_addrs := (i_addrs (N i))(C i := fb)\<rparr>)) (fb + 1) F (C(i := C i + 1)) D"
proof -
  have m: "C i < MAXFILE" using k NDIRECT_lt by simp
  have "blk V ((N(i := (N i)\<lparr>i_addrs := (i_addrs (N i))(C i := fb)\<rparr>)) j) k' = (if j = i \<and> k' = C i then fb else blk V (N j) k')" for j k'
    using k m by (auto simp: blk_def iaddr_def)
  from core_new_block[OF c fb this] m show ?thesis by (simp add: fun_upd_def)
qed

lemma core_alloc_ind:
  assumes c: "core V N fb F C D" and fb: "nmeta \<le> fb" and k: "\<not> D i" "C i \<le> NDIRECT"
  shows "core V (N(i := (N i)\<lparr>i_addrs := (i_addrs (N i))(NDIRECT := fb)\<rparr>)) (fb + 1) F C (D(i := True))"
proof -
  have z: "V fb = zero_block" using coreD(8)[OF c] by simp
  have "i_addrs (N i) NDIRECT = 0" using coreD(2)[OF c, of i] k by simp
  then have "blk V ((N(i := (N i)\<lparr>i_addrs := (i_addrs (N i))(NDIRECT := fb)\<rparr>)) j) k' = (if j = i \<and> k' = MAXFILE then fb else blk V (N j) k')"
    if "k' \<le> MAXFILE" for j k'
    using that z NDIRECT_lt by (auto simp: blk_def iaddr_def)
  from core_new_block[OF c fb this] k show ?thesis by (simp add: fun_upd_def)
qed

lemma core_alloc_entry:
  assumes c: "core V N fb F C D" and fb: "nmeta \<le> fb" "fb < 4294967296" and k: "D i" "NDIRECT \<le> C i" "C i < MAXFILE"
    and ia: "ia = i_addrs (N i) NDIRECT"
  shows "core (V(ia := put32 (4 * (C i - NDIRECT)) fb (V ia))) N (fb + 1) F (C(i := C i + 1)) D" (is "core ?V N _ F _ D")
proof -
  have ia0: "ia \<noteq> 0" using coreD(2)[OF c, of i] k ia by simp
  have bi: "blk V (N i) MAXFILE = ia" by (simp add: blk_def ia)
  have lt: "ia < fb" using coreD(6)[OF c, of MAXFILE i] bi ia0 by simp
  have other: "blk V (N j) k' \<noteq> ia" if "k' \<le> MAXFILE" "j \<noteq> i \<or> k' \<noteq> MAXFILE" for j k'
    using coreD(7)[OF c _ that(1), of MAXFILE i j] bi ia0 that(2) by auto
  have idx: "get32 (put32 (4 * (C i - NDIRECT)) fb (V ia)) (4 * (k' - NDIRECT)) = (if k' = C i then fb else get32 (V ia) (4 * (k' - NDIRECT)))"
    if "NDIRECT \<le> k'" for k'
    using fb(2) k(2) that by (cases "k' = C i") (auto intro!: get32_put32_other)
  have b: "blk ?V (N j) k' = (if j = i \<and> k' = C i then fb else blk V (N j) k')" if "k' \<le> MAXFILE" for j k'
  proof (cases "j = i")
    case True
    then show ?thesis using k ia ia0 idx fb(2) by (auto simp: blk_def iaddr_def)
  next
    case False
    then have "i_addrs (N j) NDIRECT \<noteq> ia" using other[of MAXFILE j] by (simp add: blk_def)
    then show ?thesis using False by (simp add: blk_def iaddr_upd_other)
  qed
  have "?V (iaddr V (N j) bn) = V (iaddr V (N j) bn)" if "bn < MAXFILE" for j bn using other[of bn j] that by (simp add: blk_def)
  from core_new_block[OF c fb(1) b] this k lt show ?thesis by simp
qed

section \<open>Appending to a file\<close>

text \<open>The data blocks of a file of \<open>n\<close> bytes, and all its blocks.\<close>

definition nb :: "nat \<Rightarrow> nat" where
  "nb n = (n + BSIZE - 1) div BSIZE"

definition nblk :: "nat \<Rightarrow> nat" where
  "nblk n = nb n + (if NDIRECT < nb n then 1 else 0)"

abbreviation tight :: "(nat \<Rightarrow> block) \<Rightarrow> (nat \<Rightarrow> inode) \<Rightarrow> nat \<Rightarrow> (nat \<Rightarrow> byte list) \<Rightarrow> bool" where
  "tight V N fb F \<equiv> core V N fb F (\<lambda>i. nb (length (F i))) (\<lambda>i. NDIRECT < nb (length (F i)))"

lemma nb_le: "nb n \<le> k \<longleftrightarrow> n \<le> k * BSIZE"
proof -
  have "nb n < k + 1 \<longleftrightarrow> n + BSIZE - 1 < (k + 1) * BSIZE" unfolding nb_def by (rule div_less_iff_less_mult) (simp add: BSIZE_def)
  then show ?thesis by (auto simp: BSIZE_def)
qed

lemma nb_gt: "k < nb n \<longleftrightarrow> k * BSIZE < n"
  using nb_le[of n k] by linarith

lemma nb_add:
  assumes "0 < m" and "off mod BSIZE + m \<le> BSIZE"
  shows "nb (off + m) = off div BSIZE + 1"
proof (rule antisym)
  show "nb (off + m) \<le> off div BSIZE + 1"
    unfolding nb_le using assms(2) div_mult_mod_eq[of off BSIZE] by (simp only: distrib_right)
  have "off div BSIZE < nb (off + m)" unfolding nb_gt using assms(1) div_mult_mod_eq[of off BSIZE] by linarith
  then show "off div BSIZE + 1 \<le> nb (off + m)" by simp
qed

lemma nb_cases: "nb off = off div BSIZE \<or> nb off = off div BSIZE + 1"
proof -
  have "off div BSIZE \<le> nb off" unfolding nb_def by (rule div_le_mono) (simp add: BSIZE_def)
  moreover have "nb off \<le> off div BSIZE + 1" unfolding nb_le by (simp add: BSIZE_def)
  ultimately show ?thesis by linarith
qed

text \<open>The block for the next bytes.\<close>

lemma mk_bmap_ok:
  assumes c: "tight (img s) N (freeblock s) F" and fb: "nmeta \<le> freeblock s" and ns: "nsect s = FSSIZE"
    and fbn: "fbn = length (F i) div BSIZE" "fbn < MAXFILE"
    and room: "freeblock s + (fbn + 1 + (if NDIRECT \<le> fbn then 1 else 0)) \<le> FSSIZE + nblk (length (F i))"
  shows "\<exists>x din t. mk_bmap fbn (N i) s = Ok (x, din, t) \<and> x = iaddr (img t) din fbn \<and> nsect t = FSSIZE \<and> freeinode t = freeinode s \<and>
    core (img t) (N(i := din)) (freeblock t) F ((\<lambda>i. nb (length (F i)))(i := fbn + 1)) ((\<lambda>i. NDIRECT < nb (length (F i)))(i := NDIRECT \<le> fbn)) \<and>
    freeblock t + nblk (length (F i)) = freeblock s + (fbn + 1 + (if NDIRECT \<le> fbn then 1 else 0)) \<and>
    (\<forall>b<nmeta. img t b = img s b) \<and> din = (N i)\<lparr>i_addrs := i_addrs din\<rparr>"
proof -
  let ?C = "\<lambda>i. nb (length (F i))" and ?D = "\<lambda>i. NDIRECT < nb (length (F i))" and ?fb = "freeblock s" and ?V = "img s"
  consider (old) "?C i = fbn + 1" | (new) "?C i = fbn" using nb_cases[of "length (F i)"] fbn by auto
  then show ?thesis
  proof cases
    case old
    have x: "iaddr ?V (N i) fbn \<noteq> 0" using coreD(1)[OF c fbn(2), of i] old by simp
    have C: "?C(i := fbn + 1) = ?C" "?D(i := NDIRECT \<le> fbn) = ?D" using old by (auto simp: fun_eq_iff less_Suc_eq_le)
    have d: "i_addrs (N i) NDIRECT \<noteq> 0 \<longleftrightarrow> NDIRECT \<le> fbn" using coreD(2)[OF c, of i] old by (simp add: less_Suc_eq_le)
    have lt: "i_addrs (N i) NDIRECT < FSSIZE" if "NDIRECT \<le> fbn"
      using coreD(6)[OF c, of MAXFILE i] d that room old by (simp add: blk_def nblk_def less_Suc_eq_le)
    have "mk_bmap fbn (N i) s = Ok (iaddr ?V (N i) fbn, N i, s)"
    proof (cases "fbn < NDIRECT")
      case True
      then show ?thesis using x by (simp add: mk_bmap_def iaddr_def)
    next
      case False
      then have "i_addrs (N i) NDIRECT \<noteq> 0" "i_addrs (N i) NDIRECT < nsect s" using d lt ns by auto
      moreover from this have "get32 (?V (i_addrs (N i) NDIRECT)) (4 * (fbn - NDIRECT)) \<noteq> 0" using x False by (simp add: iaddr_def)
      ultimately show ?thesis using False by (simp add: mk_bmap_def iaddr_def rsect_def)
    qed
    then show ?thesis using c ns old C
      by (intro exI[of _ "iaddr ?V (N i) fbn"] exI[of _ "N i"] exI[of _ s]) (simp add: nblk_def less_Suc_eq_le)
  next
    case new
    have lt: "?fb < 1000" using room new by (auto simp: nblk_def FSSIZE_def split: if_splits)
    have x0: "iaddr ?V (N i) fbn = 0" using coreD(1)[OF c fbn(2), of i] new by simp
    have d: "i_addrs (N i) NDIRECT \<noteq> 0 \<longleftrightarrow> NDIRECT < fbn" using coreD(2)[OF c, of i] new by simp
    consider (dir) "fbn < NDIRECT" | (first) "fbn = NDIRECT" | (more) "NDIRECT < fbn" by linarith
    then show ?thesis
    proof cases
      case dir
      let ?din = "(N i)\<lparr>i_addrs := (i_addrs (N i))(fbn := ?fb)\<rparr>"
      have "mk_bmap fbn (N i) s = Ok (?fb, ?din, s\<lparr>freeblock := ?fb + 1\<rparr>)"
        using dir x0 by (auto simp: mk_bmap_def iaddr_def Let_def)
      moreover have "core ?V (N(i := ?din)) (?fb + 1) F (?C(i := fbn + 1)) ?D"
        using core_alloc_direct[OF c fb, of i] dir new by simp
      moreover have "?D(i := NDIRECT \<le> fbn) = ?D" using new dir by (auto simp: fun_eq_iff)
      moreover have "?fb = iaddr ?V ?din fbn" using dir by (simp add: iaddr_def)
      ultimately show ?thesis using ns new dir
        by (intro exI[of _ ?fb] exI[of _ ?din] exI[of _ "s\<lparr>freeblock := ?fb + 1\<rparr>"]) (simp add: nblk_def)
    next
      case first
      let ?din = "(N i)\<lparr>i_addrs := (i_addrs (N i))(NDIRECT := ?fb)\<rparr>"
      let ?t = "wsect ?fb (put32 0 (?fb + 1) zero_block) (s\<lparr>freeblock := ?fb + 1 + 1\<rparr>)"
      have z: "?V ?fb = zero_block" using coreD(8)[OF c] by simp
      have r: "?fb + 2 \<le> FSSIZE" using room first new by (simp add: nblk_def)
      have "mk_bmap fbn (N i) s = Ok (?fb + 1, ?din, ?t)"
        using first d z r ns lt by (auto simp: mk_bmap_def rsect_def Let_def)
      moreover have "core (?V(?fb := put32 (4 * (?C i - NDIRECT)) (?fb + 1) (?V ?fb))) (N(i := ?din)) (?fb + 1 + 1) F (?C(i := ?C i + 1)) (?D(i := True))"
        by (rule core_alloc_entry[OF core_alloc_ind[OF c fb]]) (use first new fb lt NDIRECT_lt in auto)
      then have "core (img ?t) (N(i := ?din)) (freeblock ?t) F (?C(i := fbn + 1)) (?D(i := NDIRECT \<le> fbn))"
        using first new z by (simp add: wsect_def)
      moreover have "?fb + 1 = iaddr (img ?t) ?din fbn" using first fb nmeta_pos lt by (auto simp: iaddr_def wsect_def)
      ultimately show ?thesis using ns new first r fb
        by (intro exI[of _ "?fb + 1"] exI[of _ ?din] exI[of _ ?t]) (simp add: nblk_def wsect_def)
    next
      case more
      let ?ia = "i_addrs (N i) NDIRECT" and ?k = "fbn - NDIRECT"
      let ?t = "wsect ?ia (put32 (4 * ?k) ?fb (?V ?ia)) (s\<lparr>freeblock := ?fb + 1\<rparr>)"
      have ia: "?ia \<noteq> 0" "nmeta \<le> ?ia" "?ia < ?fb" using d more coreD(6)[OF c, of MAXFILE i] by (auto simp: blk_def)
      have "get32 (?V ?ia) (4 * ?k) = 0" using x0 more ia(1) by (simp add: iaddr_def)
      then have "mk_bmap fbn (N i) s = Ok (?fb, N i, ?t)"
        using more ia lt ns by (auto simp: mk_bmap_def rsect_def Let_def FSSIZE_def)
      moreover have "core (?V(?ia := put32 (4 * (?C i - NDIRECT)) ?fb (?V ?ia))) N (?fb + 1) F (?C(i := ?C i + 1)) ?D"
        by (rule core_alloc_entry[OF c]) (use more new fb lt fbn in auto)
      then have "core (img ?t) (N(i := N i)) (freeblock ?t) F (?C(i := fbn + 1)) (?D(i := NDIRECT \<le> fbn))"
        using more new by (simp add: wsect_def fun_upd_idem)
      moreover have "?fb = iaddr (img ?t) (N i) fbn" using more lt ia(1) by (simp add: iaddr_def wsect_def)
      ultimately show ?thesis using ns new more ia lt
        by (intro exI[of _ ?fb] exI[of _ "N i"] exI[of _ ?t]) (simp add: nblk_def wsect_def FSSIZE_def)
    qed
  qed
qed

lemma nblk_0 [simp]: "nblk 0 = 0"
  by (simp add: nblk_def nb_def BSIZE_def)

lemma nblk_mono: "m \<le> n \<Longrightarrow> nblk m \<le> nblk n"
proof -
  assume "m \<le> n"
  then have "nb m \<le> nb n" unfolding nb_def by (intro div_le_mono) simp
  then show ?thesis by (auto simp: nblk_def)
qed

text \<open>One turn of the loop.\<close>

lemma append_chunk:
  assumes c: "tight (img s) N (freeblock s) F" and fb: "nmeta \<le> freeblock s" and ns: "nsect s = FSSIZE"
    and fbn: "fbn = length (F i) div BSIZE" "fbn < MAXFILE" and bs: "0 < length bs" "length (F i) mod BSIZE + length bs \<le> BSIZE"
    and room: "freeblock s + nblk (length (F i) + length bs) \<le> FSSIZE + nblk (length (F i))"
  shows "\<exists>x din t. mk_bmap fbn (N i) s = Ok (x, din, t) \<and> nmeta \<le> x \<and> x < FSSIZE \<and> nsect t = FSSIZE \<and> freeinode t = freeinode s \<and>
    tight ((img t)(x := put_bytes (length (F i) mod BSIZE) bs (img t x))) (N(i := din)) (freeblock t) (F(i := F i @ bs)) \<and>
    freeblock t + nblk (length (F i)) = freeblock s + nblk (length (F i) + length bs) \<and>
    (\<forall>b<nmeta. img t b = img s b) \<and> din = (N i)\<lparr>i_addrs := i_addrs din\<rparr>"
proof -
  let ?C = "(\<lambda>i. nb (length (F i)))(i := fbn + 1)" and ?D = "(\<lambda>i. NDIRECT < nb (length (F i)))(i := NDIRECT \<le> fbn)" and ?F = "F(i := F i @ bs)"
  have nb: "nb (length (F i) + length bs) = fbn + 1" using nb_add[OF bs] fbn(1) by simp
  then have nblk: "nblk (length (F i) + length bs) = fbn + 1 + (if NDIRECT \<le> fbn then 1 else 0)" by (simp add: nblk_def less_Suc_eq_le)
  obtain x din t where t: "mk_bmap fbn (N i) s = Ok (x, din, t)" "x = iaddr (img t) din fbn" "nsect t = FSSIZE" "freeinode t = freeinode s"
    "core (img t) (N(i := din)) (freeblock t) F ?C ?D" "freeblock t + nblk (length (F i)) = freeblock s + nblk (length (F i) + length bs)"
    "\<forall>b<nmeta. img t b = img s b" "din = (N i)\<lparr>i_addrs := i_addrs din\<rparr>"
    using mk_bmap_ok[OF c fb ns fbn room[unfolded nblk]] unfolding nblk by blast
  have x: "nmeta \<le> x \<and> x < freeblock t"
    using coreD(6)[OF t(5), of fbn i] coreD(1)[OF t(5) fbn(2), of i] t(2) fbn(2) by (simp add: blk_def)
  have "core ((img t)(x := put_bytes (length (F i) mod BSIZE) bs (img t x))) (N(i := din)) (freeblock t) ?F ?C ?D"
    by (rule core_write[OF t(5)]) (use t(2) fbn bs in auto)
  moreover have "?C = (\<lambda>j. nb (length (?F j)))" "?D = (\<lambda>j. NDIRECT < nb (length (?F j)))" using nb by (auto simp: fun_eq_iff less_Suc_eq_le)
  ultimately have "tight ((img t)(x := put_bytes (length (F i) mod BSIZE) bs (img t x))) (N(i := din)) (freeblock t) ?F" by simp
  moreover have "x < FSSIZE" using x t(6) room by linarith
  ultimately show ?thesis using t x by blast
qed

lemma addrs_trans:
  assumes "n = m\<lparr>i_addrs := x\<rparr>" and "m = l\<lparr>i_addrs := y\<rparr>"
  shows "n = l\<lparr>i_addrs := i_addrs n\<rparr>"
  using assms by simp

lemma addrs_same: "n = m\<lparr>i_addrs := x\<rparr> \<Longrightarrow> i_type n = i_type m \<and> i_nlink n = i_nlink m"
  by simp

lemma iappend_loop_Nil [simp]: "iappend_loop din off [] s = Ok (din, off, s)"
  by (subst iappend_loop.simps) simp

lemma iappend_loop_ok:
  assumes "tight (img s) N (freeblock s) F" and "nmeta \<le> freeblock s" and "nsect s = FSSIZE"
    and "din = N i" and "off = length (F i)" and "off + length p \<le> MAXFILE * BSIZE"
    and "freeblock s + nblk (off + length p) \<le> FSSIZE + nblk off"
  shows "\<exists>din' t. iappend_loop din off p s = Ok (din', off + length p, t) \<and> tight (img t) (N(i := din')) (freeblock t) (F(i := F i @ p)) \<and>
    nsect t = FSSIZE \<and> freeinode t = freeinode s \<and> nmeta \<le> freeblock t \<and> freeblock t + nblk off = freeblock s + nblk (off + length p) \<and>
    (\<forall>b<nmeta. img t b = img s b) \<and> din' = din\<lparr>i_addrs := i_addrs din'\<rparr>"
  using assms
proof (induction "length p" arbitrary: din off p s N F rule: less_induct)
  case less
  show ?case
  proof (cases "p = []")
    case True
    then show ?thesis using less.prems
      by (intro exI[of _ din] exI[of _ s]) (simp add: fun_upd_idem)
  next
    case False
    define fbn where "fbn = off div BSIZE"
    define n where "n = min (length p) ((fbn + 1) * BSIZE - off)"
    have e: "fbn * BSIZE + off mod BSIZE = off" "off mod BSIZE < BSIZE" "(fbn + 1) * BSIZE = fbn * BSIZE + BSIZE"
      unfolding fbn_def by (simp_all add: BSIZE_def)
    then have off: "off - fbn * BSIZE = off mod BSIZE" "off < (fbn + 1) * BSIZE" "(fbn + 1) * BSIZE - off = BSIZE - off mod BSIZE"
      by linarith+
    have n: "0 < n" "n \<le> length p" "off mod BSIZE + n \<le> BSIZE" using off False by (auto simp: n_def BSIZE_def)
    have fm: "fbn < MAXFILE" using less.prems(6) False unfolding fbn_def by (simp add: BSIZE_def div_less_iff_less_mult) (cases p; simp)
    have room: "freeblock s + nblk (length (F i) + length (take n p)) \<le> FSSIZE + nblk (length (F i))"
      using less.prems(5,7) nblk_mono[of "off + n" "off + length p"] n by simp
    obtain x din1 t where t: "mk_bmap fbn (N i) s = Ok (x, din1, t)" "nmeta \<le> x" "x < FSSIZE" "nsect t = FSSIZE" "freeinode t = freeinode s"
      "tight ((img t)(x := put_bytes (off mod BSIZE) (take n p) (img t x))) (N(i := din1)) (freeblock t) (F(i := F i @ take n p))"
      "freeblock t + nblk off = freeblock s + nblk (off + n)" "\<forall>b<nmeta. img t b = img s b" "din1 = (N i)\<lparr>i_addrs := i_addrs din1\<rparr>"
      using append_chunk[OF less.prems(1-3) _ fm _ _ room] less.prems(5) n fbn_def by auto
    let ?s = "wsect x (put_bytes (off - fbn * BSIZE) (take n p) (img t x)) t"
    have step: "iappend_loop din off p s = iappend_loop din1 (off + n) (drop n p) ?s"
      using False fm t(1,3,4) less.prems(4) by (subst iappend_loop.simps) (simp add: rsect_def Let_def n_def flip: fbn_def)
    have s: "img ?s = (img t)(x := put_bytes (off mod BSIZE) (take n p) (img t x))" "freeblock ?s = freeblock t" "nsect ?s = FSSIZE" "freeinode ?s = freeinode s"
      using t(3-5) off(1) by (auto simp: wsect_def)
    have "\<exists>din' t'. iappend_loop din1 (off + n) (drop n p) ?s = Ok (din', off + n + length (drop n p), t') \<and>
      tight (img t') ((N(i := din1))(i := din')) (freeblock t') ((F(i := F i @ take n p))(i := (F(i := F i @ take n p)) i @ drop n p)) \<and>
      nsect t' = FSSIZE \<and> freeinode t' = freeinode ?s \<and> nmeta \<le> freeblock t' \<and> freeblock t' + nblk (off + n) = freeblock ?s + nblk (off + n + length (drop n p)) \<and>
      (\<forall>b<nmeta. img t' b = img ?s b) \<and> din' = din1\<lparr>i_addrs := i_addrs din'\<rparr>"
    proof (rule less.hyps)
      show "length (drop n p) < length p" using n by simp
      show "tight (img ?s) (N(i := din1)) (freeblock ?s) (F(i := F i @ take n p))" using t(6) by (simp only: s)
      show "nmeta \<le> freeblock ?s" using t(7) less.prems(2) nblk_mono[of off "off + n"] unfolding s(2) by linarith
      show "freeblock ?s + nblk (off + n + length (drop n p)) \<le> FSSIZE + nblk (off + n)" using t(7) less.prems(7) n unfolding s(2) by simp
    qed (use less.prems(5,6) n s in auto)
    then obtain din' t' where r: "iappend_loop din1 (off + n) (drop n p) ?s = Ok (din', off + length p, t')"
      "tight (img t') (N(i := din')) (freeblock t') (F(i := F i @ p))" "nsect t' = FSSIZE" "freeinode t' = freeinode s" "nmeta \<le> freeblock t'"
      "freeblock t' + nblk (off + n) = freeblock t + nblk (off + length p)" "\<forall>b<nmeta. img t' b = img ?s b" "din' = din1\<lparr>i_addrs := i_addrs din'\<rparr>"
      using n(2) s by auto
    have "\<forall>b<nmeta. img t' b = img s b" using r(7) t(2,8) s(1) by auto
    moreover have "din' = din\<lparr>i_addrs := i_addrs din'\<rparr>" using addrs_trans[OF r(8) t(9)] less.prems(4) by simp
    moreover have "freeblock t' + nblk off = freeblock s + nblk (off + length p)" using r(6) t(7) by linarith
    ultimately show ?thesis using r step by auto
  qed
qed

section \<open>The image as a whole\<close>

text \<open>The block map sees the addresses of an inode and the blocks behind the metadata only.\<close>

lemma core_cong:
  assumes c: "core V N fb F C D" and V: "\<And>b. nmeta \<le> b \<Longrightarrow> V' b = V b" and N: "\<And>i k. k \<le> NDIRECT \<Longrightarrow> i_addrs (N' i) k = i_addrs (N i) k"
    and fb: "nmeta \<le> fb"
  shows "core V' N' fb F C D"
proof -
  have ind: "i_addrs (N' i) NDIRECT = i_addrs (N i) NDIRECT" for i using N by simp
  have "nmeta \<le> i_addrs (N i) NDIRECT" if "i_addrs (N i) NDIRECT \<noteq> 0" for i using coreD(6)[OF c, of MAXFILE i] that by (simp add: blk_def)
  then have ia: "iaddr V' (N' i) bn = iaddr V (N i) bn" for i bn using N V by (simp add: iaddr_def)
  have bl: "blk V' (N' i) k = blk V (N i) k" for i k by (simp add: blk_def ia ind)
  have "fbyte V' (N' i) p = fbyte V (N i) p" if p: "p < C i * BSIZE" for i p
  proof -
    have bn: "p div BSIZE < C i" "p div BSIZE < MAXFILE" using p coreD(3)[OF c, of i] by (auto simp: mult_BSIZE_div)
    then have "nmeta \<le> iaddr V (N i) (p div BSIZE)"
      using coreD(6)[OF c, of "p div BSIZE" i] coreD(1)[OF c bn(2), of i] by (simp add: blk_def)
    then show ?thesis by (simp add: fbyte_div ia V)
  qed
  then have "fbyte V' (N' i) p = (if p < length (F i) then F i ! p else 0)" if "p < C i * BSIZE" for i p using coreD(5)[OF c that] that by simp
  moreover have "V' b = zero_block" if "fb \<le> b" for b using coreD(8)[OF c that] V fb that by simp
  ultimately show ?thesis unfolding core_def ia bl ind using coreD(1-4,6,7)[OF c] by blast
qed

definition nodes :: "mk_state \<Rightarrow> nat \<Rightarrow> inode" where
  "nodes s i = (if i < NINODES then ondisk mk_sb (img s) i zero_inode else zero_inode)"

text \<open>The areas in front of the data blocks, but for the inodes.\<close>

definition meta_ok :: "(nat \<Rightarrow> block) \<Rightarrow> bool" where
  "meta_ok V \<longleftrightarrow> V 1 = enc_superblock mk_sb zero_block \<and> (\<forall>b. b = 0 \<or> 2 \<le> b \<and> b < 32 \<or> b = 58 \<longrightarrow> V b = zero_block)"

text \<open>The image holds the files \<open>F\<close> of the types \<open>T\<close>.\<close>

definition mk_inv :: "mk_state \<Rightarrow> (nat \<Rightarrow> short) \<Rightarrow> (nat \<Rightarrow> byte list) \<Rightarrow> bool" where
  "mk_inv s T F \<longleftrightarrow> tight (img s) (nodes s) (freeblock s) F \<and> nmeta \<le> freeblock s \<and> nsect s = FSSIZE \<and> meta_ok (img s) \<and>
     (\<forall>i<NINODES. i_size (nodes s i) = length (F i) \<and> i_type (nodes s i) = T i \<and> i_nlink (nodes s i) = (if T i = 0 then 0 else 1)) \<and>
     (\<forall>i. freeinode s \<le> i \<longrightarrow> F i = [] \<and> T i = 0) \<and> freeblock s = nmeta + (\<Sum>i<NINODES. nblk (length (F i)))"

lemma iblock_range: "i < NINODES \<Longrightarrow> 32 \<le> IBLOCK i mk_sb \<and> IBLOCK i mk_sb < 58"
  by (auto simp: IBLOCK_def mk_sb_eq mkfs_sb_def consts_defs)

text \<open>An inode is written.\<close>

lemma winode_ok:
  assumes i: "i < NINODES" and ns: "nsect s = FSSIZE" and wf: "din_wf n"
  shows "\<exists>t. winode i n s = Ok t \<and> din_eq (nodes t i) n \<and> (\<forall>j. j \<noteq> i \<longrightarrow> nodes t j = nodes s j) \<and>
    nsect t = FSSIZE \<and> freeinode t = freeinode s \<and> freeblock t = freeblock s \<and> (\<forall>b. b < 32 \<or> 58 \<le> b \<longrightarrow> img t b = img s b)"
proof -
  let ?t = "wsect (IBLOCK i mk_sb) (store_dinode n (dinode_off i) (img s (IBLOCK i mk_sb))) s"
  note r = iblock_range[OF i]
  have "winode i n s = Ok ?t" using r ns by (simp add: winode_def rsect_def FSSIZE_def Let_def)
  moreover have "din_eq (nodes ?t i) n" "\<And>j. j \<noteq> i \<Longrightarrow> nodes ?t j = nodes s j"
    using ondisk_update[OF wf, where V' = "img ?t" and V = "img s" and i = i and sp = mk_sb and m = zero_inode] i by (auto simp: nodes_def wsect_def)
  moreover have "nsect ?t = FSSIZE" using r ns by (simp add: wsect_def FSSIZE_def)
  ultimately show ?thesis using r by (intro exI[of _ ?t]) (auto simp: wsect_def)
qed

lemma rinode_ok: "i < NINODES \<Longrightarrow> nsect s = FSSIZE \<Longrightarrow> rinode i s = Ok (nodes s i)"
  using iblock_range[of i] by (simp add: rinode_def rsect_def nodes_def ondisk_def FSSIZE_def)

lemma sum_upd: "finite A \<Longrightarrow> j \<in> A \<Longrightarrow> (\<Sum>i\<in>A. (f(j := x)) i) + f j = (\<Sum>i\<in>A. f i) + (x :: nat)"
  by (simp add: sum.remove[of A j])

lemma nodes_cong: "(\<And>b. 32 \<le> b \<Longrightarrow> b < 58 \<Longrightarrow> img t b = img s b) \<Longrightarrow> nodes t = nodes s"
  by (rule ext) (use iblock_range in \<open>simp add: nodes_def ondisk_def\<close>)

lemma meta_cong: "meta_ok V \<Longrightarrow> (\<And>b. b < 32 \<or> b = 58 \<Longrightarrow> V' b = V b) \<Longrightarrow> meta_ok V'"
  by (auto simp: meta_ok_def)

lemma tight_din_wf:
  assumes c: "core V N fb F C D" and "fb \<le> FSSIZE" and "i_size (N i) \<le> MAXFILE * BSIZE"
  shows "din_wf (N i)"
proof -
  have "i_addrs (N i) k < 4294967296" if k: "k \<le> NDIRECT" for k
  proof -
    have "blk V (N i) (if k = NDIRECT then MAXFILE else k) = i_addrs (N i) k" using k NDIRECT_lt by (auto simp: blk_def iaddr_def)
    moreover have "(if k = NDIRECT then MAXFILE else k) \<le> MAXFILE" using k NDIRECT_lt by auto
    ultimately have "i_addrs (N i) k \<noteq> 0 \<longrightarrow> i_addrs (N i) k < fb" using coreD(6)[OF c] by metis
    then show ?thesis using assms(2) by (auto simp: FSSIZE_def)
  qed
  then show ?thesis using assms(3) by (auto simp: din_wf_def MAXFILE_def NDIRECT_def NINDIRECT_def BSIZE_def)
qed

text \<open>\<open>iappend\<close> appends, and does nothing to the other files.\<close>

lemma iappend_ok:
  assumes inv: "mk_inv s T F" and i: "i < NINODES" "T i \<noteq> 0" and len: "length (F i) + length p \<le> MAXFILE * BSIZE"
    and room: "freeblock s + nblk (length (F i) + length p) \<le> FSSIZE + nblk (length (F i))"
  shows "\<exists>t. iappend i p s = Ok t \<and> mk_inv t T (F(i := F i @ p)) \<and> freeinode t = freeinode s \<and>
    freeblock t + nblk (length (F i)) = freeblock s + nblk (length (F i) + length p)"
proof -
  let ?F = "F(i := F i @ p)"
  note I = inv[unfolded mk_inv_def]
  have h: "tight (img s) (nodes s) (freeblock s) F" "nmeta \<le> freeblock s" "nsect s = FSSIZE" "meta_ok (img s)"
    and f: "\<And>j. j < NINODES \<Longrightarrow> i_size (nodes s j) = length (F j) \<and> i_type (nodes s j) = T j \<and> i_nlink (nodes s j) = (if T j = 0 then 0 else 1)"
    and z: "\<And>j. freeinode s \<le> j \<Longrightarrow> F j = [] \<and> T j = 0" and fb: "freeblock s = nmeta + (\<Sum>i<NINODES. nblk (length (F i)))"
    using I by blast+
  obtain din t where t: "iappend_loop (nodes s i) (length (F i)) p s = Ok (din, length (F i) + length p, t)"
    "tight (img t) ((nodes s)(i := din)) (freeblock t) ?F" "nsect t = FSSIZE" "freeinode t = freeinode s" "nmeta \<le> freeblock t"
    "freeblock t + nblk (length (F i)) = freeblock s + nblk (length (F i) + length p)" "\<forall>b<nmeta. img t b = img s b"
    "din = (nodes s i)\<lparr>i_addrs := i_addrs din\<rparr>"
    using iappend_loop_ok[OF h(1-3) refl refl len room] by blast
  have nt: "nodes t = nodes s" by (rule nodes_cong) (use t(7) mk_sb_eq in auto)
  let ?din = "din\<lparr>i_size := length (F i) + length p\<rparr>"
  have c': "tight (img t) ((nodes s)(i := ?din)) (freeblock t) ?F" by (rule core_cong[OF t(2)]) (use t(5) in auto)
  have "din_wf ?din" using tight_din_wf[OF c', of i] len t(6) room by simp
  from winode_ok[OF i(1) t(3) this] obtain u where u: "winode i ?din t = Ok u" "din_eq (nodes u i) ?din" "\<forall>j. j \<noteq> i \<longrightarrow> nodes u j = nodes s j"
    "nsect u = FSSIZE" "freeinode u = freeinode s" "freeblock u = freeblock t" "\<forall>b. b < 32 \<or> 58 \<le> b \<longrightarrow> img u b = img t b"
    unfolding nt t(4) by blast
  have "tight (img u) (nodes u) (freeblock t) ?F"
    by (rule core_cong[OF c']) (use u t(5) mk_sb_eq in \<open>auto simp: din_eq_def\<close>)
  moreover have "meta_ok (img u)" by (rule meta_cong[OF h(4)]) (use u(7) t(7) mk_sb_eq in auto)
  moreover have "i_type din = T i" "i_nlink din = 1" using addrs_same[OF t(8)] f[OF i(1)] i(2) by simp_all
  then have "\<forall>j<NINODES. i_size (nodes u j) = length (?F j) \<and> i_type (nodes u j) = T j \<and> i_nlink (nodes u j) = (if T j = 0 then 0 else 1)"
    using u(2,3) f i(2) by (auto simp: din_eq_def)
  moreover have "freeblock t = nmeta + (\<Sum>j<NINODES. nblk (length (?F j)))"
  proof -
    let ?f = "\<lambda>j. nblk (length (F j))" and ?n = "nblk (length (F i) + length p)"
    have "(\<Sum>j<NINODES. nblk (length (?F j))) = (\<Sum>j<NINODES. (?f(i := ?n)) j)" by (rule sum.cong) auto
    moreover have "i \<in> {..<NINODES}" using i(1) by simp
    ultimately show ?thesis using sum_upd[OF finite_lessThan, of i NINODES ?f ?n] fb t(6) by linarith
  qed
  moreover have "\<forall>j. freeinode s \<le> j \<longrightarrow> ?F j = [] \<and> T j = 0" using z i(2) by auto
  ultimately have "mk_inv u T ?F" using u t(5) by (simp add: mk_inv_def)
  moreover have "iappend i p s = Ok u" using rinode_ok[OF i(1) h(3)] f[OF i(1)] t(1) u(1) by (simp add: iappend_def)
  ultimately show ?thesis using u(5,6) t(6) by auto
qed

lemma iappends_ok:
  "mk_inv s T F \<Longrightarrow> i < NINODES \<Longrightarrow> T i \<noteq> 0 \<Longrightarrow> length (F i) + length (concat ps) \<le> MAXFILE * BSIZE \<Longrightarrow>
    freeblock s + nblk (length (F i) + length (concat ps)) \<le> FSSIZE + nblk (length (F i)) \<Longrightarrow>
    \<exists>t. rfold (iappend i) ps s = Ok t \<and> mk_inv t T (F(i := F i @ concat ps)) \<and> freeinode t = freeinode s \<and>
      freeblock t + nblk (length (F i)) = freeblock s + nblk (length (F i) + length (concat ps))"
proof (induction ps arbitrary: s F)
  case Nil
  then show ?case by (simp add: fun_upd_idem)
next
  case (Cons p ps)
  have "nblk (length (F i) + length p) \<le> nblk (length (F i) + length (concat (p # ps)))" by (rule nblk_mono) simp
  then obtain t where t: "iappend i p s = Ok t" "mk_inv t T (F(i := F i @ p))" "freeinode t = freeinode s"
    "freeblock t + nblk (length (F i)) = freeblock s + nblk (length (F i) + length p)"
    using iappend_ok[OF Cons.prems(1-3), of p] Cons.prems(4,5) by auto
  have l: "length ((F(i := F i @ p)) i) = length (F i) + length p"
    "(F(i := F i @ p))(i := (F(i := F i @ p)) i @ concat ps) = F(i := F i @ concat (p # ps))"
    "length (F i) + length p + length (concat ps) = length (F i) + length (concat (p # ps))" by simp_all
  have "freeblock t + nblk (length (F i) + length (concat (p # ps))) \<le> FSSIZE + nblk (length (F i) + length p)"
    using t(4) Cons.prems(5) by linarith
  note ih = Cons.IH[OF t(2) Cons.prems(2,3), unfolded l, OF Cons.prems(4) this]
  then obtain u where u: "rfold (iappend i) ps t = Ok u" "mk_inv u T (F(i := F i @ concat (p # ps)))" "freeinode u = freeinode t"
    "freeblock u + nblk (length (F i) + length p) = freeblock t + nblk (length (F i) + length (concat (p # ps)))"
    by blast
  have "freeblock u + nblk (length (F i)) = freeblock s + nblk (length (F i) + length (concat (p # ps)))" using u(4) t(4) by linarith
  then show ?case using t(1,3) u(1-3) by (intro exI[of _ u]) (simp add: fun_upd_def)
qed

lemma concat_pieces: "concat (pieces bs) = bs"
  by (induction bs rule: pieces.induct) (subst pieces.simps, auto)

lemma mk_ialloc_ok:
  assumes inv: "mk_inv s T F" and k: "freeinode s = k" "k < NINODES" and ty: "ty \<noteq> 0"
  shows "\<exists>t. mk_ialloc ty s = Ok (k, t) \<and> mk_inv t (T(k := ty)) F \<and> freeinode t = k + 1 \<and> freeblock t = freeblock s"
proof -
  note I = inv[unfolded mk_inv_def]
  let ?n = "zero_inode\<lparr>i_type := ty, i_nlink := 1, i_size := 0\<rparr>"
  have h: "tight (img s) (nodes s) (freeblock s) F" "nmeta \<le> freeblock s" "nsect s = FSSIZE" "meta_ok (img s)" using I by blast+
  have Fk: "F k = []" using I k(1) by blast
  have "din_wf ?n" by (simp add: din_wf_def zero_inode_def)
  from winode_ok[OF k(2) _ this, of "s\<lparr>freeinode := k + 1\<rparr>"] h(3)
  obtain t where t: "winode k ?n (s\<lparr>freeinode := k + 1\<rparr>) = Ok t" "din_eq (nodes t k) ?n" "\<forall>j. j \<noteq> k \<longrightarrow> nodes t j = nodes s j" "nsect t = FSSIZE"
    "freeinode t = k + 1" "freeblock t = freeblock s" "\<forall>b. b < 32 \<or> 58 \<le> b \<longrightarrow> img t b = img s b"
    by (auto simp: nodes_def)
  have a0: "i_addrs (nodes s k) j = 0" if "j \<le> NDIRECT" for j
    using coreD(1)[OF h(1), of j k] coreD(2)[OF h(1), of k] that NDIRECT_lt Fk by (cases "j = NDIRECT") (auto simp: iaddr_def nb_def BSIZE_def)
  have "tight (img t) (nodes t) (freeblock s) F"
  proof (rule core_cong[OF h(1)])
    show "i_addrs (nodes t i) j = i_addrs (nodes s i) j" if "j \<le> NDIRECT" for i j
      using t(2,3) a0[OF that] that by (cases "i = k") (auto simp: din_eq_def zero_inode_def)
  qed (use t(7) h(2) mk_sb_eq in auto)
  moreover have "meta_ok (img t)" by (rule meta_cong[OF h(4)]) (use t(7) in auto)
  moreover have "\<forall>i<NINODES. i_size (nodes t i) = length (F i) \<and> i_type (nodes t i) = (T(k := ty)) i \<and> i_nlink (nodes t i) = (if (T(k := ty)) i = 0 then 0 else 1)"
    using I t(2,3) Fk ty by (auto simp: din_eq_def)
  ultimately have "mk_inv t (T(k := ty)) F" using I t(4-6) k(1) by (simp add: mk_inv_def)
  then show ?thesis using t k(1) by (auto simp: mk_ialloc_def Let_def)
qed

text \<open>The files that the arguments from inode \<open>k\<close> on leave, with the root directory, and their types.\<close>

primrec files_of :: "nat \<Rightarrow> (byte list \<times> byte list) list \<Rightarrow> (nat \<Rightarrow> byte list) \<Rightarrow> (nat \<Rightarrow> byte list)" where
  "files_of k [] F = F"
| "files_of k (f # fs) F = files_of (k + 1) fs (F(1 := F 1 @ mk_dirent k (strip (fst f)), k := snd f))"

primrec types_of :: "nat \<Rightarrow> (byte list \<times> byte list) list \<Rightarrow> (nat \<Rightarrow> short) \<Rightarrow> (nat \<Rightarrow> short)" where
  "types_of k [] T = T"
| "types_of k (f # fs) T = types_of (k + 1) fs (T(k := T_FILE))"

lemma length_mk_dirent: "length (mk_dirent k name) = 16"
  by (simp add: mk_dirent_def DIRSIZ_def)

lemma add_file_ok:
  assumes inv: "mk_inv s T F" and k: "freeinode s = k" "1 < k" "k < NINODES" and T: "T 1 \<noteq> 0"
    and f: "47 \<notin> set (fst f)" "length (snd f) \<le> MAXFILE * BSIZE" "length (F 1) + 16 \<le> MAXFILE * BSIZE"
    and room: "freeblock s + nblk (length (F 1) + 16) + nblk (length (snd f)) \<le> FSSIZE + nblk (length (F 1))"
  shows "\<exists>t. add_file 1 f s = Ok t \<and> mk_inv t (T(k := T_FILE)) (F(1 := F 1 @ mk_dirent k (strip (fst f)), k := snd f)) \<and> freeinode t = k + 1 \<and>
    freeblock t + nblk (length (F 1)) = freeblock s + nblk (length (F 1) + 16) + nblk (length (snd f))"
proof -
  obtain name bytes where nb: "f = (name, bytes)" by (cases f)
  let ?T = "T(k := T_FILE)" and ?F = "F(1 := F 1 @ mk_dirent k (strip name))"
  have ty: "T_FILE \<noteq> 0" by (simp add: T_FILE_def)
  obtain s1 where s1: "mk_ialloc T_FILE s = Ok (k, s1)" "mk_inv s1 ?T F" "freeinode s1 = k + 1" "freeblock s1 = freeblock s"
    using mk_ialloc_ok[OF inv k(1,3) ty] by blast
  have "F k = []" using inv k(1) by (simp add: mk_inv_def)
  then have Fk: "?F k = []" using k(2) by simp
  have n1: "1 < NINODES" "?T 1 \<noteq> 0" using T k by (auto simp: NINODES_def)
  obtain s2 where s2: "iappend 1 (mk_dirent k (strip name)) s1 = Ok s2" "mk_inv s2 ?T ?F" "freeinode s2 = k + 1"
    "freeblock s2 + nblk (length (F 1)) = freeblock s + nblk (length (F 1) + 16)"
    using iappend_ok[OF s1(2) n1, of "mk_dirent k (strip name)"] f(3) room s1(3,4) by (auto simp: length_mk_dirent simp del: fun_upd_apply One_nat_def)
  have "?T k \<noteq> 0" using ty by simp
  from iappends_ok[OF s2(2) k(3) this, of "pieces bytes"] f(2) room s2(3,4)
  obtain s3 where s3: "rfold (iappend k) (pieces bytes) s2 = Ok s3" "mk_inv s3 ?T (?F(k := bytes))" "freeinode s3 = k + 1"
    "freeblock s3 = freeblock s2 + nblk (length bytes)"
    unfolding concat_pieces Fk by (auto simp: nb simp del: fun_upd_apply)
  then show ?thesis using s1(1) s2(1,4) f(1) by (intro exI[of _ s3]) (simp add: add_file_def nb fun_upd_def)
qed

lemma add_files_ok:
  "mk_inv s T F \<Longrightarrow> freeinode s = k \<Longrightarrow> 1 < k \<Longrightarrow> k + length fs \<le> NINODES \<Longrightarrow> T 1 \<noteq> 0 \<Longrightarrow>
    list_all (\<lambda>f. 47 \<notin> set (fst f) \<and> length (snd f) \<le> MAXFILE * BSIZE) fs \<Longrightarrow> length (F 1) + 16 * length fs \<le> MAXFILE * BSIZE \<Longrightarrow>
    freeblock s + nblk (length (F 1) + 16 * length fs) + (\<Sum>f\<leftarrow>fs. nblk (length (snd f))) \<le> FSSIZE + nblk (length (F 1)) \<Longrightarrow>
    \<exists>t. rfold (add_file 1) fs s = Ok t \<and> mk_inv t (types_of k fs T) (files_of k fs F) \<and> freeinode t = k + length fs \<and>
      freeblock t + nblk (length (F 1)) = freeblock s + nblk (length (F 1) + 16 * length fs) + (\<Sum>f\<leftarrow>fs. nblk (length (snd f)))"
proof (induction fs arbitrary: s T F k)
  case (Cons f fs)
  let ?T = "T(k := T_FILE)" and ?F = "F(1 := F 1 @ mk_dirent k (strip (fst f)), k := snd f)"
  have m: "nblk (length (F 1) + 16) \<le> nblk (length (F 1) + 16 * length (f # fs))" by (rule nblk_mono) simp
  obtain t where t: "add_file 1 f s = Ok t" "mk_inv t ?T ?F" "freeinode t = k + 1"
    "freeblock t + nblk (length (F 1)) = freeblock s + nblk (length (F 1) + 16) + nblk (length (snd f))"
    using add_file_ok[OF Cons.prems(1-3) _ Cons.prems(5), of f] Cons.prems(4,6-8) m by auto
  have F1: "length (?F 1) = length (F 1) + 16" "?T 1 \<noteq> 0" using Cons.prems(3,5) by (auto simp: length_mk_dirent)
  have e: "length (F 1) + 16 + 16 * length fs = length (F 1) + 16 * length (f # fs)" by simp
  have "\<exists>u. rfold (add_file 1) fs t = Ok u \<and> mk_inv u (types_of (k + 1) fs ?T) (files_of (k + 1) fs ?F) \<and> freeinode u = k + 1 + length fs \<and>
      freeblock u + nblk (length (?F 1)) = freeblock t + nblk (length (?F 1) + 16 * length fs) + (\<Sum>f\<leftarrow>fs. nblk (length (snd f)))"
  proof (rule Cons.IH[OF t(2,3)])
    show "freeblock t + nblk (length (?F 1) + 16 * length fs) + (\<Sum>f\<leftarrow>fs. nblk (length (snd f))) \<le> FSSIZE + nblk (length (?F 1))"
      unfolding F1 e using Cons.prems(8) t(4) by simp
    show "length (?F 1) + 16 * length fs \<le> MAXFILE * BSIZE" unfolding F1 e by (rule Cons.prems(7))
  qed (use Cons.prems F1 in auto)
  then obtain u where u: "rfold (add_file 1) fs t = Ok u" "mk_inv u (types_of (k + 1) fs ?T) (files_of (k + 1) fs ?F)" "freeinode u = k + 1 + length fs"
    "freeblock u + nblk (length (F 1) + 16) = freeblock t + nblk (length (F 1) + 16 * length (f # fs)) + (\<Sum>f\<leftarrow>fs. nblk (length (snd f)))"
    unfolding F1 e by blast
  have "freeblock u + nblk (length (F 1)) = freeblock s + nblk (length (F 1) + 16 * length (f # fs)) + (\<Sum>f\<leftarrow>f # fs. nblk (length (snd f)))"
    using u(4) t(4) by simp
  then show ?case using t(1) u(1-3) by (intro exI[of _ u]) simp
qed simp

lemma files_of_before: "1 < k \<Longrightarrow> j < k \<Longrightarrow> j \<noteq> 1 \<Longrightarrow> files_of k fs F j = F j"
  by (induction fs arbitrary: k F) auto

lemma files_of_nth: "1 < k \<Longrightarrow> n < length fs \<Longrightarrow> files_of k fs F (k + n) = snd (fs ! n)"
proof (induction fs arbitrary: k F n)
  case (Cons f fs)
  then show ?case
  proof (cases n)
    case 0
    then show ?thesis using Cons.prems files_of_before[of "k + 1" k fs] by simp
  next
    case (Suc m)
    then show ?thesis using Cons.IH[of "k + 1" m] Cons.prems by simp
  qed
qed simp

definition entries :: "nat \<Rightarrow> (byte list \<times> byte list) list \<Rightarrow> byte list" where
  "entries k fs = concat (map (\<lambda>n. mk_dirent (k + n) (strip (fst (fs ! n)))) [0..<length fs])"

lemma entries_Cons: "entries k (f # fs) = mk_dirent k (strip (fst f)) @ entries (k + 1) fs"
  unfolding entries_def length_Cons upt_conv_Cons[OF zero_less_Suc] by (simp add: map_Suc_upt[symmetric] comp_def del: upt_Suc)

lemma files_of_root: "1 < k \<Longrightarrow> files_of k fs F 1 = F 1 @ entries k fs"
proof (induction fs arbitrary: k F)
  case Nil
  then show ?case by (simp add: entries_def)
next
  case (Cons f fs)
  then show ?case by (simp add: entries_Cons del: One_nat_def)
qed

lemma length_entries: "length (entries k fs) = 16 * length fs"
proof (induction fs arbitrary: k)
  case Nil
  then show ?case by (simp add: entries_def)
next
  case (Cons f fs)
  then show ?case by (simp add: entries_Cons length_mk_dirent)
qed

lemma types_of_eq: "types_of k fs T j = (if k \<le> j \<and> j < k + length fs then T_FILE else T j)"
  by (induction fs arbitrary: k T) auto

lemma wipe: "foldl (\<lambda>s i. wsect i zero_block s) s [0..<n] =
    s\<lparr>img := (\<lambda>b. if b < n then zero_block else img s b), nsect := max (nsect s) n\<rparr>"
  by (induction n) (auto simp: wsect_def fun_eq_iff)

text \<open>The empty image.\<close>

definition mk_empty :: mk_state where
  "mk_empty = \<lparr>img = (\<lambda>_. zero_block)(1 := enc_superblock mk_sb zero_block), nsect = FSSIZE, freeinode = 1, freeblock = nmeta\<rparr>"

lemma mk_empty_inv: "mk_inv mk_empty (\<lambda>_. 0) (\<lambda>_. [])"
proof -
  have n: "nodes mk_empty i = zero_inode" for i
  proof (cases "i < NINODES")
    case True
    then have "IBLOCK i mk_sb \<noteq> 1" using iblock_range[OF True] by simp
    then show ?thesis by (simp add: nodes_def ondisk_def mk_empty_def load_dinode_def get_short_def zero_inode_def fun_eq_iff)
  qed (simp add: nodes_def)
  have "iaddr V zero_inode bn = 0" for V bn by (simp add: iaddr_def zero_inode_def)
  then have "tight (img mk_empty) (nodes mk_empty) nmeta (\<lambda>_. [])"
    unfolding core_def n by (auto simp: nb_def BSIZE_def blk_def zero_inode_def mk_empty_def mk_sb_eq(2))
  then show ?thesis by (simp add: mk_inv_def n) (simp add: mk_empty_def meta_ok_def zero_inode_def mk_sb_eq(2))
qed

lemma mkfs_start:
  "mkfs files = rbind (mk_ialloc T_DIR mk_empty) (\<lambda>(rootino, s).
     if rootino \<noteq> ROOTINO then Panic ''rootino == ROOTINO''
     else
       rbind (iappend rootino (mk_dirent rootino [46]) s) (\<lambda>s.
       rbind (iappend rootino (mk_dirent rootino [46, 46]) s) (\<lambda>s.
       rbind (rfold (add_file rootino) files s) (\<lambda>s.
       rbind (fix_size rootino s) (\<lambda>s.
       mk_balloc (freeblock s) s)))))"
proof -
  have "wsect 1 (enc_superblock mk_sb zero_block)
      (foldl (\<lambda>s i. wsect i zero_block s) \<lparr>img = (\<lambda>_. zero_block), nsect = 0, freeinode = 1, freeblock = nmeta\<rparr> [0..<FSSIZE]) = mk_empty"
    unfolding wipe by (simp add: wsect_def mk_empty_def FSSIZE_def fun_eq_iff)
  then show ?thesis by (simp only: mkfs_def Let_def)
qed

text \<open>The tree before the size of the root directory is rounded up.\<close>

definition root_dir :: "(byte list \<times> byte list) list \<Rightarrow> byte list" where
  "root_dir files = mk_dirent 1 [46] @ mk_dirent 1 [46, 46] @ entries 2 files"

lemma mkfs_tree:
  assumes f: "list_all (\<lambda>f. 47 \<notin> set (fst f) \<and> length (snd f) \<le> MAXFILE * BSIZE) files" and n: "length files + 2 \<le> NINODES"
    and room: "nmeta + nblk (16 * (length files + 2)) + (\<Sum>f\<leftarrow>files. nblk (length (snd f))) \<le> FSSIZE"
  shows "\<exists>s F. mkfs files = rbind (fix_size 1 s) (\<lambda>s. mk_balloc (freeblock s) s) \<and> mk_inv s (types_of 2 files ((\<lambda>_. 0)(1 := T_DIR))) F \<and>
    F 1 = root_dir files \<and> (\<forall>k<length files. F (k + 2) = snd (files ! k)) \<and> freeblock s \<le> FSSIZE"
proof -
  let ?T = "(\<lambda>_. 0)(1 :: nat := T_DIR)" and ?d1 = "mk_dirent 1 [46]" and ?d2 = "mk_dirent 1 [46, 46]"
  let ?F = "(\<lambda>_. [])(1 :: nat := ?d1 @ ?d2)"
  have ty: "T_DIR \<noteq> 0" by (simp add: T_DIR_def)
  have big: "nblk 16 = 1" "nblk 32 = 1" "16 * (length files + 2) \<le> MAXFILE * BSIZE" "1 < NINODES" "59 + 1 \<le> FSSIZE"
    using n by (auto simp: nblk_def nb_def consts_defs)
  obtain s1 where s1: "mk_ialloc T_DIR mk_empty = Ok (1, s1)" "mk_inv s1 ?T (\<lambda>_. [])" "freeinode s1 = 2" "freeblock s1 = nmeta"
    using mk_ialloc_ok[OF mk_empty_inv _ big(4) ty] by (auto simp: mk_empty_def numeral_2_eq_2)
  have T1: "?T 1 \<noteq> 0" using ty by simp
  obtain s2 where s2: "iappend 1 ?d1 s1 = Ok s2" "mk_inv s2 ?T ((\<lambda>_. [])(1 := ?d1))" "freeinode s2 = 2" "freeblock s2 = nmeta + 1"
    using iappend_ok[OF s1(2) big(4) T1, of ?d1] s1(3,4) big by (auto simp: length_mk_dirent mk_sb_eq simp del: fun_upd_apply One_nat_def)
  have upd: "((\<lambda>_. [])(1 := ?d1))(1 := ((\<lambda>_. [])(1 := ?d1)) 1 @ ?d2) = ?F" and l1: "length (((\<lambda>_. [])(1 :: nat := ?d1)) 1) = 16"
    by (simp_all add: length_mk_dirent)
  obtain s3 where s3: "iappend 1 ?d2 s2 = Ok s3" "mk_inv s3 ?T ?F" "freeinode s3 = 2" "freeblock s3 = nmeta + 1"
    using iappend_ok[OF s2(2) big(4) T1, of ?d2, unfolded upd l1] s2(3,4) big by (auto simp: length_mk_dirent mk_sb_eq simp del: fun_upd_apply One_nat_def)
  have l: "length (?F 1) = 32" by (simp add: length_mk_dirent)
  have e: "32 + 16 * length files = 16 * (length files + 2)" by simp
  have "\<exists>t. rfold (add_file 1) files s3 = Ok t \<and> mk_inv t (types_of 2 files ?T) (files_of 2 files ?F) \<and> freeinode t = 2 + length files \<and>
      freeblock t + nblk (length (?F 1)) = freeblock s3 + nblk (length (?F 1) + 16 * length files) + (\<Sum>f\<leftarrow>files. nblk (length (snd f)))"
  proof (rule add_files_ok[where s = s3 and T = ?T and F = ?F and k = 2 and fs = files])
    show "length (?F 1) + 16 * length files \<le> MAXFILE * BSIZE" unfolding l e by (rule big(3))
    show "freeblock s3 + nblk (length (?F 1) + 16 * length files) + (\<Sum>f\<leftarrow>files. nblk (length (snd f))) \<le> FSSIZE + nblk (length (?F 1))"
      unfolding l e s3(4) big(2) using room by linarith
  qed (use s3 T1 f n in auto)
  then obtain t where t: "rfold (add_file 1) files s3 = Ok t" "mk_inv t (types_of 2 files ?T) (files_of 2 files ?F)"
    "freeblock t + 1 = nmeta + 1 + nblk (16 * (length files + 2)) + (\<Sum>f\<leftarrow>files. nblk (length (snd f)))"
    unfolding l e big(2) s3(4) by blast
  have "mkfs files = rbind (fix_size 1 t) (\<lambda>s. mk_balloc (freeblock s) s)"
    unfolding mkfs_start using s1(1) s2(1) s3(1) t(1) by (simp add: ROOTINO_def)
  moreover have "files_of 2 files ?F 1 = root_dir files" using files_of_root[of 2 files ?F] by (simp add: root_dir_def)
  moreover have "\<forall>k<length files. files_of 2 files ?F (k + 2) = snd (files ! k)" using files_of_nth[of 2 _ files ?F] by (simp add: add.commute)
  ultimately show ?thesis using t(2,3) room by (intro exI[of _ t] exI[of _ "files_of 2 files ?F"]) simp
qed

text \<open>The last two steps leave the files alone.\<close>

lemma mkfs_finish:
  assumes inv: "mk_inv s T F" and n: "length (F 1) < 4096" and fb: "freeblock s \<le> FSSIZE"
  shows "\<exists>t. rbind (fix_size 1 s) (\<lambda>s. mk_balloc (freeblock s) s) = Ok t \<and> tight (img t) (nodes t) (freeblock s) F \<and> freeblock t = freeblock s \<and>
    (\<forall>j. j \<noteq> 1 \<longrightarrow> nodes t j = nodes s j) \<and> i_type (nodes t 1) = T 1 \<and> i_size (nodes t 1) = (length (F 1) div BSIZE + 1) * BSIZE \<and>
    img t 1 = enc_superblock mk_sb zero_block \<and> img t 2 = zero_block \<and> img t 58 = foldl (\<lambda>d i. bset i d) zero_block [0..<freeblock s]"
proof -
  note I = inv[unfolded mk_inv_def]
  have h: "tight (img s) (nodes s) (freeblock s) F" "nmeta \<le> freeblock s" "nsect s = FSSIZE" "meta_ok (img s)" using I by blast+
  have i1: "1 < NINODES" by (simp add: NINODES_def)
  have f: "i_size (nodes s 1) = length (F 1)" "i_type (nodes s 1) = T 1" using I i1 by blast+
  let ?n = "(nodes s 1)\<lparr>i_size := (length (F 1) div BSIZE + 1) * BSIZE\<rparr>"
  have "length (F 1) div BSIZE \<le> 8" using n by (simp add: BSIZE_def)
  then have sz: "(length (F 1) div BSIZE + 1) * BSIZE \<le> MAXFILE * BSIZE" by (simp add: consts_defs)
  have "tight (img s) ((nodes s)(1 := ?n)) (freeblock s) F" by (rule core_cong[OF h(1)]) (use h(2) in auto)
  from tight_din_wf[OF this fb, of 1] sz have "din_wf ?n" by simp
  from winode_ok[OF i1 h(3) this] obtain t where t: "winode 1 ?n s = Ok t" "din_eq (nodes t 1) ?n" "\<forall>j. j \<noteq> 1 \<longrightarrow> nodes t j = nodes s j"
    "nsect t = FSSIZE" "freeinode t = freeinode s" "freeblock t = freeblock s" "\<forall>b. b < 32 \<or> 58 \<le> b \<longrightarrow> img t b = img s b" by blast
  define u where "u = wsect 58 (foldl (\<lambda>d i. bset i d) zero_block [0..<freeblock s]) t"
  have nu: "nodes u = nodes t" by (rule nodes_cong) (simp add: u_def wsect_def)
  have "i_addrs (nodes t i) k = i_addrs (nodes s i) k" if "k \<le> NDIRECT" for i k
    using t(2,3) that by (cases "i = 1") (auto simp: din_eq_def)
  then have "tight (img u) (nodes u) (freeblock s) F"
    unfolding nu by (intro core_cong[OF h(1)]) (use t(7) h(2) mk_sb_eq in \<open>auto simp: u_def wsect_def\<close>)
  moreover have fx: "fix_size 1 s = Ok t" using rinode_ok[OF i1 h(3)] t(1) f by (simp add: fix_size_def)
  moreover have "rbind (fix_size 1 s) (\<lambda>s. mk_balloc (freeblock s) s) = Ok u" unfolding fx rbind.simps using fb t(6) by (simp add: u_def mk_balloc_def mk_sb_eq mkfs_sb_def FSSIZE_def BSIZE_def)
  moreover have "i_type (nodes u 1) = T 1" "i_size (nodes u 1) = (length (F 1) div BSIZE + 1) * BSIZE" using t(2) f(2) unfolding nu by (simp_all add: din_eq_def)
  moreover have "img u 1 = enc_superblock mk_sb zero_block" "img u 2 = zero_block" using h(4) t(7) by (simp_all add: meta_ok_def u_def wsect_def)
  moreover have "freeblock u = freeblock s" "img u 58 = foldl (\<lambda>d i. bset i d) zero_block [0..<freeblock s]" using t(6) by (simp_all add: u_def wsect_def)
  moreover have "\<forall>j. j \<noteq> 1 \<longrightarrow> nodes u j = nodes s j" using t(3) unfolding nu .
  ultimately show ?thesis by blast
qed

text \<open>The blocks of the inodes in the terms of the kernel.\<close>

lemma core_ino_wf:
  assumes c: "core V N fb F C D" and u: "\<And>b. b < FSSIZE \<Longrightarrow> used mkfs_sb V b \<longleftrightarrow> b < fb" and fb: "fb \<le> FSSIZE"
  shows "ino_wf mkfs_sb V (N i)" and "i \<noteq> j \<Longrightarrow> iblocks V (N i) \<inter> iblocks V (N j) = {}"
proof -
  have d: "datastart mkfs_sb = nmeta" "sb_size mkfs_sb = FSSIZE" by (simp_all add: datastart_def mkfs_sb_def mk_sb_eq consts_defs)
  have blk: "b \<in> iblocks V (N i) \<longleftrightarrow> b \<noteq> 0 \<and> (\<exists>k\<le>MAXFILE. b = blk V (N i) k)" for b i
    unfolding iblocks_def blk_def by (auto simp: image_iff le_less)
  show "iblocks V (N i) \<inter> iblocks V (N j) = {}" if "i \<noteq> j"
  proof -
    have False if b: "b \<in> iblocks V (N i)" "b \<in> iblocks V (N j)" for b
    proof -
      obtain k l where "k \<le> MAXFILE" "l \<le> MAXFILE" "b = blk V (N i) k" "b = blk V (N j) l" "b \<noteq> 0" using b unfolding blk by blast
      then show False using coreD(7)[OF c, of k l i j] \<open>i \<noteq> j\<close> by simp
    qed
    then show ?thesis by blast
  qed
  have "data_blk mkfs_sb V b" if b: "b \<in> iblocks V (N i)" for b
  proof -
    obtain k where k: "k \<le> MAXFILE" "b = blk V (N i) k" "b \<noteq> 0" using b unfolding blk by blast
    then have "nmeta \<le> b" "b < fb" using coreD(6)[OF c k(1), of i] by simp_all
    then show ?thesis using u[of b] fb by (simp add: data_blk_def d)
  qed
  moreover have "iaddr V (N i) bn \<noteq> i_addrs (N i) NDIRECT" if "bn < MAXFILE" "iaddr V (N i) bn \<noteq> 0" for bn
    using coreD(7)[OF c, of bn MAXFILE i i] that by (auto simp: blk_def)
  moreover have "bn = bm" if "bn < MAXFILE" "bm < MAXFILE" "iaddr V (N i) bn = iaddr V (N i) bm" "iaddr V (N i) bn \<noteq> 0" for bn bm
    using coreD(7)[OF c, of bn bm i i] that by (auto simp: blk_def)
  ultimately show "ino_wf mkfs_sb V (N i)" unfolding ino_wf_def by blast
qed

lemma core_bytes:
  assumes c: "core V N fb F C D"
  shows "map (fbyte V (N i)) [0..<length (F i)] = F i"
    and "length (F i) \<le> p \<Longrightarrow> p < MAXFILE * BSIZE \<Longrightarrow> fbyte V (N i) p = 0"
proof -
  show "map (fbyte V (N i)) [0..<length (F i)] = F i"
    by (rule nth_equalityI) (use coreD(4)[OF c, of i] coreD(5)[OF c, where i = i] in auto)
  assume p: "length (F i) \<le> p" "p < MAXFILE * BSIZE"
  show "fbyte V (N i) p = 0"
  proof (cases "p < C i * BSIZE")
    case True
    then show ?thesis using coreD(5)[OF c True] p by simp
  next
    case False
    then have "iaddr V (N i) (p div BSIZE) = 0" using coreD(1)[OF c, of "p div BSIZE" i] p(2) by (simp add: mult_BSIZE_div)
    then show ?thesis by (simp add: fbyte_div)
  qed
qed

lemma bitmap_used: "V 58 = foldl (\<lambda>d i. bset i d) zero_block [0..<n] \<Longrightarrow> b < FSSIZE \<Longrightarrow> used mkfs_sb V b \<longleftrightarrow> b < n"
  by (simp add: used_def BBLOCK_def mkfs_sb_def consts_defs btst_foldl) (simp add: btst_def zero_block_def)

text \<open>C8. The image is a file system, with the files.  For files that fit, \<open>mkfs\<close> ends without a failed check, and on the image the superblock and the layout are what the kernel assumes,
  exactly the blocks below \<open>freeblock\<close> are marked in use and the log is empty; every inode is well formed and no two share a block;
  each file is there with its contents; and the root directory holds its two links to itself and the names of the files, in their order and without a leading
  underscore, followed by free entries only.\<close>

theorem mkfs_correct:
  assumes "list_all (\<lambda>f. 47 \<notin> set (fst f) \<and> length (snd f) \<le> MAXFILE * BSIZE) files" and "length files + 2 \<le> NINODES"
    and "nmeta + nblk (16 * (length files + 2)) + (\<Sum>f\<leftarrow>files. nblk (length (snd f))) \<le> FSSIZE"
  shows "\<exists>s V ino. mkfs files = Ok s \<and> V = img s \<and> ino = (\<lambda>i. ondisk mkfs_sb V i zero_inode) \<and>
    lay mkfs_sb \<and> meta_used mkfs_sb V \<and> (\<forall>b<FSSIZE. used mkfs_sb V b \<longleftrightarrow> b < freeblock s) \<and> V (sb_logstart mkfs_sb) = zero_block \<and>
    (\<forall>i<NINODES. ino_wf mkfs_sb V (ino i) \<and> (\<forall>j<NINODES. i \<noteq> j \<longrightarrow> iblocks V (ino i) \<inter> iblocks V (ino j) = {})) \<and>
    (\<forall>k<length files. i_type (ino (k + 2)) = T_FILE \<and> i_nlink (ino (k + 2)) = 1 \<and>
      map (fbyte V (ino (k + 2))) [0..<i_size (ino (k + 2))] = snd (files ! k)) \<and>
    i_type (ino ROOTINO) = T_DIR \<and>
    (\<exists>n. map (fbyte V (ino ROOTINO)) [0..<i_size (ino ROOTINO)] = root_dir files @ replicate n 0)"
proof -
  let ?T = "types_of 2 files ((\<lambda>_. 0)(1 := T_DIR))"
  obtain s F where s: "mkfs files = rbind (fix_size 1 s) (\<lambda>s. mk_balloc (freeblock s) s)" "mk_inv s ?T F" "F 1 = root_dir files"
    "\<forall>k<length files. F (k + 2) = snd (files ! k)" "freeblock s \<le> FSSIZE" using mkfs_tree[OF assms] by blast
  have len: "length (F 1) = 16 * (length files + 2)" unfolding s(3) by (simp add: root_dir_def length_mk_dirent length_entries)
  then have "length (F 1) < 4096" using assms(2) by (simp add: NINODES_def)
  from mkfs_finish[OF s(2) this s(5)] s(1) obtain t where t: "mkfs files = Ok t" "tight (img t) (nodes t) (freeblock s) F" "freeblock t = freeblock s"
    "\<forall>j. j \<noteq> 1 \<longrightarrow> nodes t j = nodes s j" "i_type (nodes t 1) = ?T 1" "i_size (nodes t 1) = (length (F 1) div BSIZE + 1) * BSIZE"
    "img t 1 = enc_superblock mk_sb zero_block" "img t 2 = zero_block" "img t 58 = foldl (\<lambda>d i. bset i d) zero_block [0..<freeblock s]"
    by auto
  let ?V = "img t" and ?ino = "\<lambda>i. ondisk mkfs_sb (img t) i zero_inode"
  have ino: "?ino i = nodes t i" if "i < NINODES" for i using that by (simp add: nodes_def mk_sb_eq)
  have used: "used mkfs_sb ?V b \<longleftrightarrow> b < freeblock t" if "b < FSSIZE" for b using bitmap_used[of ?V, OF _ that] t(3,9) by simp
  have d: "datastart mkfs_sb = 59" by (simp add: datastart_def mkfs_sb_def consts_defs)
  have nm: "nmeta \<le> freeblock t" using s(2) t(3) by (simp add: mk_inv_def)
  have lay: "lay mkfs_sb" unfolding lay_def d by (simp add: mkfs_sb_def consts_defs)
  have "dec_superblock (?V 1) = mkfs_sb" using mkfs_disk_sb t(7) by (simp add: mk_sb_eq mkfs_disk_def)
  moreover have "used mkfs_sb ?V b" if "b < 59" for b using used[of b] nm that by (simp add: mk_sb_eq FSSIZE_def)
  ultimately have meta: "meta_used mkfs_sb ?V" unfolding meta_used_def d by blast
  note wf = core_ino_wf[OF t(2)[folded t(3)] used]
  have fb: "freeblock t \<le> FSSIZE" using s(5) t(3) by simp
  have each: "i_type (?ino (k + 2)) = T_FILE \<and> i_nlink (?ino (k + 2)) = 1 \<and> map (fbyte ?V (?ino (k + 2))) [0..<i_size (?ino (k + 2))] = snd (files ! k)"
    if k: "k < length files" for k
  proof -
    have kn: "k + 2 < NINODES" using k assms(2) by simp
    have "nodes t (k + 2) = nodes s (k + 2)" using t(4) by simp
    moreover have "?T (k + 2) = T_FILE" "T_FILE \<noteq> 0" using k by (simp_all add: types_of_eq T_FILE_def)
    ultimately have "i_size (nodes t (k + 2)) = length (F (k + 2))" "i_type (nodes t (k + 2)) = T_FILE" "i_nlink (nodes t (k + 2)) = 1"
      using s(2) kn by (auto simp: mk_inv_def)
    then show ?thesis using core_bytes(1)[OF t(2), of "k + 2"] s(4) k ino[OF kn] by simp
  qed
  have r: "?ino ROOTINO = nodes t 1" using ino[of 1] by (simp add: ROOTINO_def NINODES_def)
  let ?sz = "(length (F 1) div BSIZE + 1) * BSIZE"
  have sz: "length (F 1) \<le> ?sz" "?sz \<le> MAXFILE * BSIZE" using len assms(2) by (simp_all add: consts_defs)
  have "map (fbyte ?V (nodes t 1)) [0..<?sz] = F 1 @ replicate (?sz - length (F 1)) 0"
  proof -
    have "map (fbyte ?V (nodes t 1)) [length (F 1)..<?sz] = map (\<lambda>_. 0) [length (F 1)..<?sz]"
      by (rule map_cong) (use core_bytes(2)[OF t(2), where i = 1] sz(2) in auto)
    then show ?thesis
      using core_bytes(1)[OF t(2), of 1] upt_add_eq_append[of 0 "length (F 1)" "?sz - length (F 1)"] sz(1) by (simp add: map_replicate_const)
  qed
  then have root: "\<exists>n. map (fbyte ?V (?ino ROOTINO)) [0..<i_size (?ino ROOTINO)] = root_dir files @ replicate n 0"
    unfolding r t(6) s(3)[symmetric] by blast
  have "i_type (?ino ROOTINO) = T_DIR" unfolding r t(5) by (simp add: types_of_eq)
  then show ?thesis
    using t(1,8) lay meta used wf fb ino each root by (intro exI[of _ t] exI[of _ ?V] exI[of _ ?ino]) (simp add: mkfs_sb_def)
qed

theorem mkfs_correct_witness:
  "\<exists>s n. mkfs [([95, 97], [104, 105])] = Ok s \<and>
    map (fbyte (img s) (ondisk mkfs_sb (img s) 2 zero_inode)) [0..<i_size (ondisk mkfs_sb (img s) 2 zero_inode)] = [104, 105] \<and>
    map (fbyte (img s) (ondisk mkfs_sb (img s) ROOTINO zero_inode)) [0..<i_size (ondisk mkfs_sb (img s) ROOTINO zero_inode)] =
      mk_dirent 1 [46] @ mk_dirent 1 [46, 46] @ mk_dirent 2 [97] @ replicate n 0"
proof -
  have "length [([95, 97], [104, 105])] + 2 \<le> NINODES" by (simp add: NINODES_def)
  moreover have "nmeta + nblk (16 * (length [([95 :: byte, 97], [104 :: byte, 105])] + 2)) + (\<Sum>f\<leftarrow>[([95 :: byte, 97], [104 :: byte, 105])]. nblk (length (snd f))) \<le> FSSIZE"
    by (simp add: mk_sb_eq nblk_def nb_def consts_defs)
  moreover have "list_all (\<lambda>f. 47 \<notin> set (fst f) \<and> length (snd f) \<le> MAXFILE * BSIZE) [([95 :: byte, 97], [104 :: byte, 105])]"
    by (simp add: consts_defs)
  ultimately show ?thesis
    using mkfs_correct[of "[([95, 97], [104, 105])]"] by (auto simp: root_dir_def entries_def strip_def numeral_2_eq_2)
qed

text \<open>When the entries fill their last block the size of the root directory is rounded up by a whole block that is not there.\<close>

lemma mkfs_root_hole:
  assumes "list_all (\<lambda>f. 47 \<notin> set (fst f) \<and> length (snd f) \<le> MAXFILE * BSIZE) files" and "length files + 2 \<le> NINODES"
    and "nmeta + nblk (16 * (length files + 2)) + (\<Sum>f\<leftarrow>files. nblk (length (snd f))) \<le> FSSIZE" and "(length files + 2) mod 32 = 0"
  shows "\<exists>s ino. mkfs files = Ok s \<and> ino = ondisk mkfs_sb (img s) ROOTINO zero_inode \<and> iaddr (img s) ino (i_size ino div BSIZE - 1) = 0"
proof -
  obtain s F where s: "mkfs files = rbind (fix_size 1 s) (\<lambda>s. mk_balloc (freeblock s) s)" "mk_inv s (types_of 2 files ((\<lambda>_. 0)(1 := T_DIR))) F"
    "F 1 = root_dir files" "freeblock s \<le> FSSIZE" using mkfs_tree[OF assms(1-3)] by blast
  have len: "length (F 1) = 16 * (length files + 2)" unfolding s(3) by (simp add: root_dir_def length_mk_dirent length_entries)
  then have "length (F 1) < 4096" using assms(2) by (simp add: NINODES_def)
  from mkfs_finish[OF s(2) this s(4)] s(1) obtain t where t: "mkfs files = Ok t" "tight (img t) (nodes t) (freeblock s) F"
    "i_size (nodes t 1) = (length (F 1) div BSIZE + 1) * BSIZE" by auto
  obtain m where m: "length files + 2 = 32 * m" using assms(4) by (auto simp: mod_eq_0_iff_dvd)
  then have "length (F 1) = m * BSIZE" using len by (simp add: BSIZE_def)
  then have nb: "nb (length (F 1)) \<le> m" "length (F 1) div BSIZE = m" unfolding nb_le by (simp_all add: BSIZE_def)
  have "m < MAXFILE" using m assms(2) by (simp add: consts_defs)
  from coreD(1)[OF t(2) this, of 1] nb(1) have "iaddr (img t) (nodes t 1) m = 0" by simp
  moreover have "i_size (nodes t 1) div BSIZE - 1 = m" unfolding t(3) nb(2) by (simp add: BSIZE_def)
  moreover have "nodes t 1 = ondisk mkfs_sb (img t) ROOTINO zero_inode" by (simp add: nodes_def NINODES_def ROOTINO_def mk_sb_eq)
  ultimately show ?thesis using t(1) by metis
qed

end
