(* ===== verification/Spec2Isabelle.thy ===== *)
theory Spec2Isabelle
  imports Fs_Props Pipe Vm_Props Spinlock File_Refs Grep Shell_Run Printf Kbd Mp Umalloc Ide Mkfs
begin

text \<open>
  A verification of xv6, the teaching operating system for x86 (release 11, in C): its kernel, the program that makes its file
  system, its shell and some of the programs that run on it.

  \<^bold>\<open>The system.\<close>  The kernel is layered.  At the bottom are spin locks (spinlock.c), the allocator of physical pages (kalloc.c) and page
  tables (vm.c).  The disk driver (ide.c, or memide.c for a disk in memory) is below the buffer cache (bio.c), which is below the log (log.c), which
  makes groups of block writes atomic for the file system (fs.c).  Processes (proc.c), open files (file.c), pipes (pipe.c) and the console (console.c, kbd.c) meet in the
  system calls (syscall.c, sysproc.c, sysfile.c, exec.c), which traps (trap.c) dispatch.  User programs (sh.c, grep.c and their library in ulib.c, printf.c,
  umalloc.c) run on these calls, on an image that mkfs.c has made.

  \<^bold>\<open>How the code is modelled.\<close>  A struct is a record, an enum or a union with a tag is a datatype, and every C function is one definition of the same name
  (a prefix or a suffix where the name is taken), with a helper for a loop or for a step that is used in a proof; a loop is a structural recursion
  or a \<open>function\<close> with a measure.  A routine that can stop the machine, go to sleep or go wrong has an outcome of the type \<open>res\<close> of \<open>Prelude\<close>:
  \<open>Ok\<close>, \<open>Panic\<close> with the message of the source, \<open>Asleep\<close> or \<open>Fault\<close> (undefined behaviour, as the use of a null pointer).  State is passed explicitly; the records of the
  layers extend each other (\<open>bio_state\<close>, \<open>log_state\<close>, \<open>fs_state\<close>; \<open>kmem_state\<close>, \<open>vm_state\<close>) and meet in the record \<open>kernel\<close>.  A pointer into a table of the kernel is
  an index, a pointer into memory an address; a list threaded through structs is the list of its elements, except in \<open>Kalloc\<close> and in \<open>Umalloc\<close>, where the list lies in the
  memory it manages and the links are kept.  Unsigned arithmetic wraps: counters are words of 32 bits, and on numbers the reduction is written out.

  \<^bold>\<open>The theories.\<close>

  \<^item> \<open>Prelude\<close>: outcomes, words, bytes of a block (\<open>get32\<close>, \<open>put32\<close>).  \<open>CString\<close>: string.c, the string functions of ulib.c.  \<open>Fifo\<close>: the contract of a bounded queue, a
    locale that the ring of a pipe (\<open>pq\<close>) and the ring of the console (\<open>cq\<close>) interpret.
  \<^item> \<open>Bio\<close>: sleeplock.c, memide.c, bio.c.  \<open>Ide\<close>: ide.c, as a refinement of the synchronous disk of \<open>Bio\<close>.  \<open>Layout\<close>: fs.h, param.h.  \<open>Log\<close>: log.c; \<open>Crash\<close>,
    \<open>Log_Atomic\<close>: a crash after any disk write, any number of times, and the recovery.  \<open>Txn\<close>: what a transaction guarantees to the layers above.
  \<^item> \<open>Fs_Alloc\<close>, \<open>Fs_Inode\<close>, \<open>Fs_Data\<close>, \<open>Fs_Dir\<close>: fs.c from the bitmap to path names; \<open>Fs_Icache\<close>, \<open>Fs_Map\<close>: the inode cache and the block map; \<open>Fs_Props\<close>: files as arrays of bytes and
    directories as lists of entries.  \<open>Mkfs\<close>: mkfs.c, and that its image satisfies what the properties of the file system assume.
  \<^item> \<open>Kalloc\<close>: kalloc.c, with the locale \<open>page_source\<close> that \<open>kp\<close> interprets on its pool of pages; \<open>Vm\<close>, \<open>Vm_Props\<close>: vm.c and the address spaces it maintains.  \<open>Spinlock\<close>: spinlock.c on several processors, as steps
    that interleave.  \<open>Mp\<close>: mp.c.
  \<^item> \<open>Pipe\<close>: pipe.c.  \<open>Kernel\<close>, \<open>File\<close>, \<open>Proc\<close>, \<open>Syscall\<close>, \<open>Sysfile\<close>, \<open>Exec\<close>, \<open>Trap\<close>: the global state, file.c, proc.c, syscall.c with sysproc.c, sysfile.c, exec.c, trap.c.  \<open>Proc_Props\<close>, \<open>Proc_Live\<close>: the process
    table as a state machine.  \<open>Kernel_Props\<close>: system calls and traps.  \<open>File_Refs\<close>: the reference counts of open files over every system call.
  \<^item> \<open>Console\<close>, \<open>Kbd\<close>: console.c, kbd.c.  \<open>Printf\<close>: printf.c and \<open>cprintf\<close>.  \<open>Shell\<close>, \<open>Shell_Props\<close>, \<open>Shell_Print\<close>, \<open>Shell_Run\<close>: sh.c.  \<open>Grep\<close>: grep.c.  \<open>Umalloc\<close>: umalloc.c.

  \<^bold>\<open>What is shown.\<close>

  \<^item> Storage: a commit is atomic under crashes at any write and during recovery; files behave as arrays of bytes and no operation on one touches the blocks of another; blocks
    and inodes are allocated and freed exactly; directory entries are found again; the interrupt-driven disk driver has the effect of the synchronous disk; the image of \<open>mkfs\<close>
    is a well-formed file system with the files it was given.
  \<^item> Memory: pages are handed out once; growing a process maps fresh zeroed pages and nothing else; copying to user memory respects the page tables; \<open>malloc\<close> and
    \<open>free\<close> always return and keep blocks apart.
  \<^item> Concurrency: mutual exclusion and the exactness of the checks of spin locks; the invariant of the process table on every run, no lost wakeup between
    \<open>exit\<close> and \<open>wait\<close>, the fairness of one turn of the scheduler; a pipe delivers a prefix of what was written and its ends do not wait for each other.
  \<^item> System calls: arguments are checked before they are used; \<open>exec\<close> replaces an address space as a whole or not at all; a killed process does not return to user space;
    the count of every open file is the number of its descriptors.
  \<^item> Input, output and programs: the line editor of the console, the bounds of the screen, the keyboard; decimal output; the parser of the shell is total and inverts printing, and its programs get
    the descriptors that the command means; \<open>grep\<close> prints the lines in the language of its pattern; \<open>mpinit\<close> finds the processors of a table.

  \<^bold>\<open>Bounds.\<close>  The parser of the shell recurses with a depth as fuel; \<open>parsecmd\<close> starts it with four times the length of the line and four more, which is shown to be
  enough on every line, since each round of the four functions consumes a character.  Loops that may run forever in C, as the walk over the entries in \<open>mpinit\<close>, over the ring of free blocks in \<open>free\<close> and \<open>malloc\<close>,
  or over a string without an end, are partial functions with the value \<open>None\<close> for a run without an end; the properties say when they return.

  \<^bold>\<open>Not modelled.\<close>  The boot loader, the entry code and the context switch (bootasm.S, bootmain.c, entry.S, entryother.S, swtch.S, trapasm.S, initcode.S, usys.S) are assembly or jump into it; \<open>swtch\<close> is an
  argument of the scheduler.  main.c calls the initialisation functions in order.  lapic.c, ioapic.c, picirq.c and uart.c write device registers.  Of the modelled files, these functions are left out:
  \<open>seginit\<close> (vm.c), \<open>tvinit\<close> and \<open>idtinit\<close> (trap.c), which load tables of the processor; \<open>procdump\<close>, \<open>pinit\<close> and \<open>myproc\<close> (proc.c); \<open>panic\<close> and \<open>consoleinit\<close> (console.c); \<open>stat\<close> (ulib.c); \<open>getcmd\<close>, \<open>fork1\<close>,
  \<open>panic\<close> and the opening of the console in \<open>main\<close> (sh.c); \<open>main\<close> of grep.c.  The remaining user programs pass their arguments to a system call; usertests.c, forktest.c and stressfs.c are tests.  Between two releases of its
  lock a routine of the kernel runs without interference, except in \<open>Spinlock\<close>, where the locks themselves are at stake.
\<close>

end
